(* ===== verification/Prelude.thy ===== *)
theory Prelude
  imports Main "HOL-Library.AList" "HOL-Library.Multiset" "HOL-Library.List_Lexorder"
    "HOL-Library.Char_ord"
begin

text \<open>
  What every component of the development shares: the result type of operations that may
  raise, Python's string operations (\<open>split\<close>, \<open>join\<close>, \<open>rsplit\<close>, decimal rendering and
  parsing), dictionaries as association lists, and the list and multiset lemmas the component
  proofs use. Strings are compared by their character codes (\<open>HOL-Library.List_Lexorder\<close> over
  \<open>HOL-Library.Char_ord\<close>), as Python compares them.
\<close>

named_theorems split_simps
named_theorems custody_simps

section \<open>Results\<close>

text \<open>
  The kernel errors the code tells apart: \<open>ENOENT\<close> is \<open>FileNotFoundError\<close>, \<open>ENOTDIR\<close> is
  \<open>NotADirectoryError\<close>, every other \<open>OSError\<close> is \<open>EIO\<close>.
\<close>

datatype errno = ENOENT | ENOTDIR | EIO

datatype error =
    PoolContractError
  | OSError errno
  | ValueError
  | KeyError
  | TypeError
  | OverflowError
  | IndexError
  | GangContractError
  | AmbiguousClaimHolder
  | Insufficient

type_synonym 'a result = "error + 'a"

definition vanished :: "errno \<Rightarrow> bool" where
  "vanished e \<longleftrightarrow> e = ENOENT \<or> e = ENOTDIR"

section \<open>Python strings\<close>

text \<open>\<open>s.split(c)\<close> for a one-character separator.\<close>

fun split_on :: "char \<Rightarrow> string \<Rightarrow> string list" where
  "split_on c [] = [[]]"
| "split_on c (x # xs) =
     (if x = c then [] # split_on c xs
      else (case split_on c xs of [] \<Rightarrow> [[x]] | w # ws \<Rightarrow> (x # w) # ws))"

text \<open>\<open>c.join(ws)\<close>.\<close>

fun join :: "char \<Rightarrow> string list \<Rightarrow> string" where
  "join c [] = []"
| "join c [w] = w"
| "join c (w # ws) = w @ c # join c ws"

text \<open>\<open>s.rsplit(c, 1)[0]\<close>: what precedes the last separator, the whole string without one.\<close>

definition rsplit_head :: "char \<Rightarrow> string \<Rightarrow> string" where
  "rsplit_head c s =
     (if c \<in> set s then rev (tl (dropWhile (\<lambda>x. x \<noteq> c) (rev s))) else s)"

text \<open>\<open>s.split(c)[-1]\<close>: what follows the last separator.\<close>

definition split_last :: "char \<Rightarrow> string \<Rightarrow> string" where
  "split_last c s = rev (takeWhile (\<lambda>x. x \<noteq> c) (rev s))"

fun startswith :: "string \<Rightarrow> string \<Rightarrow> bool" where
  "startswith s [] = True"
| "startswith [] (p # ps) = False"
| "startswith (x # s) (p # ps) = (x = p \<and> startswith s ps)"

lemma split_on_nonempty [simp]: "split_on c s \<noteq> []"
  by (induction s) (auto split: list.splits)

lemma split_on_plain [split_simps]: "c \<notin> set w \<Longrightarrow> split_on c w = [w]"
  by (induction w) auto

lemma split_on_append [split_simps]:
  "c \<notin> set w \<Longrightarrow> split_on c (w @ c # s) = w # split_on c s"
  by (induction w) auto

lemma join_split_on [simp]: "join c (split_on c s) = s"
proof (induction s)
  case Nil
  then show ?case by simp
next
  case (Cons x xs)
  show ?case
  proof (cases "split_on c xs")
    case Nil
    then show ?thesis by simp
  next
    case (Cons w ws)
    with Cons.IH show ?thesis by (cases ws) auto
  qed
qed

lemma join_Cons: "ws \<noteq> [] \<Longrightarrow> join c (w # ws) = w @ c # join c ws"
  by (cases ws) auto

lemma split_on_join:
  "ws \<noteq> [] \<Longrightarrow> \<forall>w \<in> set ws. c \<notin> set w \<Longrightarrow> split_on c (join c ws) = ws"
proof (induction ws)
  case Nil
  then show ?case by simp
next
  case (Cons w ws)
  then show ?case
    by (cases "ws = []") (auto simp: join_Cons split_simps)
qed

lemma join_append:
  "as \<noteq> [] \<Longrightarrow> bs \<noteq> [] \<Longrightarrow> join c (as @ bs) = join c as @ c # join c bs"
proof (induction as)
  case Nil
  then show ?case by simp
next
  case (Cons a as)
  then show ?case
    by (cases "as = []") (auto simp: join_Cons)
qed

lemma split_on_join_mid:
  assumes "c \<notin> set a"
  shows "split_on c (a @ c # s) = a # split_on c s"
  using assms by (rule split_on_append)

lemma split_on_two: "split_on c (s @ c # t) = split_on c s @ split_on c t"
proof (induction s)
  case Nil
  then show ?case by simp
next
  case (Cons x s)
  then show ?case by (auto split: list.splits)
qed

lemma split_on_segment: "w \<in> set (split_on c s) \<Longrightarrow> c \<notin> set w"
proof (induction s arbitrary: w)
  case Nil
  then show ?case by simp
next
  case (Cons x s)
  show ?case
  proof (cases "split_on c s")
    case Nil
    then show ?thesis by simp
  next
    case (Cons v vs)
    with Cons.IH Cons.prems show ?thesis by (auto split: if_splits)
  qed
qed

lemma dropWhile_neq_append: "c \<notin> set b \<Longrightarrow> dropWhile (\<lambda>x. x \<noteq> c) (b @ c # a) = c # a"
  by (induction b) auto

lemma takeWhile_neq_append: "c \<notin> set b \<Longrightarrow> takeWhile (\<lambda>x. x \<noteq> c) (b @ c # a) = b"
  by (induction b) auto

lemma rsplit_head_append [simp]: "c \<notin> set b \<Longrightarrow> rsplit_head c (a @ c # b) = a"
  by (simp add: rsplit_head_def dropWhile_neq_append)

lemma split_last_append [simp]: "c \<notin> set b \<Longrightarrow> split_last c (a @ c # b) = b"
  by (simp add: split_last_def takeWhile_neq_append)

lemma startswith_append [simp]: "startswith (p @ s) p"
  by (induction p) auto

lemma startswith_iff: "startswith s p \<longleftrightarrow> (\<exists>t. s = p @ t)"
  by (induction s p rule: startswith.induct) auto

section \<open>Decimal numbers\<close>

definition digit :: "nat \<Rightarrow> char" where
  "digit d = ''0123456789'' ! d"

definition digit_val :: "char \<Rightarrow> nat option" where
  "digit_val c = map_of (zip ''0123456789'' [0, 1, 2, 3, 4, 5, 6, 7, 8, 9]) c"

fun show_nat :: "nat \<Rightarrow> string" where
  "show_nat n = (if n < 10 then [digit n] else show_nat (n div 10) @ [digit (n mod 10)])"

declare show_nat.simps [simp del]

text \<open>\<open>f"{n:04d}"\<close>.\<close>

definition pad4 :: "nat \<Rightarrow> string" where
  "pad4 n = replicate (4 - length (show_nat n)) (CHR ''0'') @ show_nat n"

fun read_digits :: "nat \<Rightarrow> string \<Rightarrow> nat option" where
  "read_digits a [] = Some a"
| "read_digits a (c # cs) =
     (case digit_val c of None \<Rightarrow> None | Some d \<Rightarrow> read_digits (10 * a + d) cs)"

text \<open>
  \<open>int(s)\<close> on an unsigned decimal; \<open>None\<close> is \<open>ValueError\<close>. The spellings Python also takes
  (a sign, surrounding blanks, underscores) do not occur in the names the code prints and
  count as unreadable here.
\<close>

definition py_nat :: "string \<Rightarrow> nat option" where
  "py_nat s = (if s = [] then None else read_digits 0 s)"

lemma less_10_cases:
  "(d::nat) < 10 \<Longrightarrow> d = 0 \<or> d = 1 \<or> d = 2 \<or> d = 3 \<or> d = 4 \<or> d = 5 \<or> d = 6 \<or> d = 7 \<or> d = 8 \<or> d = 9"
  by arith

lemma digit_val_digit [simp]: "d < 10 \<Longrightarrow> digit_val (digit d) = Some d"
  by (drule less_10_cases, elim disjE) (simp_all add: digit_def digit_val_def)

lemma digit_val_bound: "digit_val c = Some d \<Longrightarrow> d < 10"
  by (auto simp: digit_val_def split: if_splits)

lemma digit_val_char: "digit_val c = Some d \<Longrightarrow> c \<in> set ''0123456789''"
  by (auto simp: digit_val_def split: if_splits)

lemma digit_in: "d < 10 \<Longrightarrow> digit d \<in> set ''0123456789''"
  by (drule less_10_cases, elim disjE) (simp_all add: digit_def)

lemma read_digits_append:
  "read_digits a (s @ t) = Option.bind (read_digits a s) (\<lambda>b. read_digits b t)"
  by (induction s arbitrary: a) (auto split: option.splits)

lemma read_digits_zeros [simp]: "read_digits 0 (replicate k (CHR ''0'') @ s) = read_digits 0 s"
  by (induction k) (auto simp: digit_val_def)

lemma read_show_nat [simp]: "read_digits 0 (show_nat n) = Some n"
proof (induction n rule: show_nat.induct)
  case (1 n)
  show ?case
  proof (cases "n < 10")
    case True
    then show ?thesis by (simp add: show_nat.simps [of n])
  next
    case False
    with "1.IH" have "read_digits 0 (show_nat (n div 10)) = Some (n div 10)" by simp
    with False show ?thesis
      by (simp add: show_nat.simps [of n] read_digits_append)
  qed
qed

lemma show_nat_nonempty [simp]: "show_nat n \<noteq> []"
  by (subst show_nat.simps) simp

lemma show_nat_digits: "set (show_nat n) \<subseteq> set ''0123456789''"
proof (induction n rule: show_nat.induct)
  case (1 n)
  then show ?case
    by (subst show_nat.simps) (use digit_in [of n] digit_in [of "n mod 10"] in auto)
qed

lemma pad4_nonempty [simp]: "pad4 n \<noteq> []"
  by (simp add: pad4_def)

lemma pad4_digits: "set (pad4 n) \<subseteq> set ''0123456789''"
  using show_nat_digits [of n] by (auto simp: pad4_def)

lemma py_nat_show_nat [simp]: "py_nat (show_nat n) = Some n"
  by (simp add: py_nat_def)

lemma py_nat_pad4 [simp]: "py_nat (pad4 n) = Some n"
  by (simp add: py_nat_def pad4_def)

lemma pad4_inj: "pad4 m = pad4 n \<Longrightarrow> m = n"
  by (metis option.inject py_nat_pad4)

section \<open>Dictionaries\<close>

text \<open>A Python dictionary is an association list with distinct keys, in insertion order.\<close>

type_synonym ('k, 'v) dict = "('k \<times> 'v) list"

definition dict_get :: "('k, 'v) dict \<Rightarrow> 'k \<Rightarrow> 'v \<Rightarrow> 'v" where
  "dict_get d k v = (case map_of d k of None \<Rightarrow> v | Some w \<Rightarrow> w)"

text \<open>\<open>sorted(d.items())\<close>: by key, since the keys are distinct.\<close>

definition sorted_items :: "('k::linorder, 'v) dict \<Rightarrow> ('k, 'v) dict" where
  "sorted_items d = sort_key fst d"

lemma set_sorted_items [simp]: "set (sorted_items d) = set d"
  by (simp add: sorted_items_def)

lemma mset_sorted_items [simp]: "mset (sorted_items d) = mset d"
  by (simp add: sorted_items_def)

lemma sorted_items_keys [simp]:
  "distinct (map fst (sorted_items d)) = distinct (map fst d)"
proof -
  have "mset (map fst (sorted_items d)) = mset (map fst d)"
    by (simp add: sorted_items_def)
  then show ?thesis by (rule mset_eq_imp_distinct_iff)
qed

lemma map_of_sorted_items [simp]:
  assumes "distinct (map fst d)"
  shows "map_of (sorted_items d) = map_of d"
  using assms by (intro map_of_inject_set [THEN iffD2]) simp_all

section \<open>Lists and multisets\<close>

lemma mset_remove1_add:
  "x \<in> set xs \<Longrightarrow> add_mset x (mset (remove1 x xs)) = mset xs"
  by simp

lemma length_filter_le_length: "length (filter P xs) \<le> length xs"
  by (rule length_filter_le)

lemma distinct_subset_card:
  "distinct xs \<Longrightarrow> set xs \<subseteq> S \<Longrightarrow> finite S \<Longrightarrow> length xs \<le> card S"
  by (metis card_mono distinct_card)

lemma size_filter_mset_mset: "size (filter_mset P (mset xs)) = length (filter P xs)"
  by (simp flip: mset_filter)

lemma list_all2_in_right: "list_all2 P xs ys \<Longrightarrow> y \<in> set ys \<Longrightarrow> \<exists>x \<in> set xs. P x y"
  by (induction rule: list_all2_induct) auto

lemma list_all2_in_left: "list_all2 P xs ys \<Longrightarrow> x \<in> set xs \<Longrightarrow> \<exists>y \<in> set ys. P x y"
  by (induction rule: list_all2_induct) auto

end
