(* ===== verification/Token_Names.thy ===== *)
theory Token_Names
  imports Prelude
begin

text \<open>
  The names the resource ledger files things under (\<open>src/src/prismabuild/pool.py\<close> and
  \<open>holder_census.py\<close>): a capacity token is \<open><kind>-<index:04d>\<close>, a claimant's private
  acquisition is \<open>claiming.<usec>.<holder>.<host>.<pid>.<nonce>\<close>. The definitions are the
  code's own readers of those names; the lemmas say that they read back what is printed.
\<close>

type_synonym name = string

section \<open>Tokens\<close>

text \<open>\<open>f"{kind}-{index:04d}"\<close>, the name \<open>ensure_capacity\<close> mints.\<close>

definition token_name :: "string \<Rightarrow> nat \<Rightarrow> name" where
  "token_name kind index = kind @ CHR ''-'' # pad4 index"

text \<open>\<open>path.name.rsplit("-", 1)[0]\<close>, the kind every counting reader files a token under.\<close>

definition kind_of :: "name \<Rightarrow> string" where
  "kind_of n = rsplit_head (CHR ''-'') n"

text \<open>
  The pattern \<open>f"{kind}-*"\<close> the taking side matches tokens by, for kinds without glob
  metacharacters (every kind the code declares).
\<close>

definition matches_kind :: "string \<Rightarrow> name \<Rightarrow> bool" where
  "matches_kind kind n = startswith n (kind @ ''-'')"

text \<open>The pattern \<open>"*-*"\<close>: any name with a dash.\<close>

definition is_token :: "name \<Rightarrow> bool" where
  "is_token n \<longleftrightarrow> CHR ''-'' \<in> set n"

text \<open>\<open>int(token.name.split("-")[-1])\<close>, the ordinal of a CPU token.\<close>

definition ordinal_of :: "name \<Rightarrow> nat option" where
  "ordinal_of n = py_nat (split_last (CHR ''-'') n)"

lemma pad4_no_dash [simp]: "CHR ''-'' \<notin> set (pad4 i)"
  by (rule notI, drule subsetD [OF pad4_digits], simp)

lemma kind_of_token_name [simp]: "kind_of (token_name k i) = k"
  by (simp add: kind_of_def token_name_def)

lemma is_token_token_name [simp]: "is_token (token_name k i)"
  by (simp add: is_token_def token_name_def)

lemma ordinal_of_token_name [simp]: "ordinal_of (token_name k i) = Some i"
  by (simp add: ordinal_of_def token_name_def)

lemma matches_kind_token_name [simp]: "matches_kind k (token_name k i)"
  by (simp add: matches_kind_def token_name_def startswith_iff)

lemma token_name_inject [simp]: "token_name k i = token_name k' i' \<longleftrightarrow> k = k' \<and> i = i'"
  by (metis kind_of_token_name option.inject ordinal_of_token_name)

text \<open>
  The two spellings of "is of this kind" agree as soon as no declared kind extends another
  by a dash; for kinds without dashes they always do.
\<close>

lemma matches_kind_iff:
  assumes "CHR ''-'' \<notin> set (kind_of n)" and "CHR ''-'' \<notin> set k"
  shows "matches_kind k n \<longleftrightarrow> is_token n \<and> kind_of n = k"
proof
  assume "matches_kind k n"
  then obtain t where n: "n = k @ CHR ''-'' # t"
    by (auto simp: matches_kind_def startswith_iff)
  have "CHR ''-'' \<notin> set t"
  proof
    assume "CHR ''-'' \<in> set t"
    then obtain a b where t: "t = a @ CHR ''-'' # b" and b: "CHR ''-'' \<notin> set b"
      using split_list_last by fast
    have "n = (k @ CHR ''-'' # a) @ CHR ''-'' # b"
      by (simp add: n t)
    with b have "kind_of n = k @ CHR ''-'' # a"
      by (metis kind_of_def rsplit_head_append)
    with assms(1) show False by simp
  qed
  with n show "is_token n \<and> kind_of n = k"
    by (simp add: is_token_def kind_of_def)
next
  assume "is_token n \<and> kind_of n = k"
  then obtain a b where n: "n = a @ CHR ''-'' # b" and b: "CHR ''-'' \<notin> set b" and k: "kind_of n = k"
    using split_list_last unfolding is_token_def by fast
  from n b k have "a = k" by (simp add: kind_of_def)
  with n show "matches_kind k n"
    by (simp add: matches_kind_def startswith_iff)
qed

lemma matches_kind_token_name_iff:
  assumes "CHR ''-'' \<notin> set k" and "CHR ''-'' \<notin> set k'"
  shows "matches_kind k (token_name k' i) \<longleftrightarrow> k' = k"
  using matches_kind_iff [of "token_name k' i" k] assms by simp

section \<open>Private acquisitions\<close>

definition acquiring_prefix :: string where
  "acquiring_prefix = ''claiming.''"

definition is_private_holder :: "name \<Rightarrow> bool" where
  "is_private_holder n = startswith n acquiring_prefix"

definition ram_host_memory_prefix :: string where
  "ram_host_memory_prefix = ''ram-host:''"

datatype holder_kind = Other_Holder | Private_Holder | Host_Memory_Mirror

definition holder_identity :: "name \<Rightarrow> holder_kind" where
  "holder_identity n =
     (if startswith n ram_host_memory_prefix then Host_Memory_Mirror
      else if is_private_holder n then Private_Holder
      else Other_Holder)"

text \<open>
  The handle \<open>_begin_acquire_locked\<close> names its private directory by. The microsecond clock,
  the host name, the process id and the eight hexadecimal digits are what the interpreter and
  the box supply.
\<close>

record claimant =
  cl_usec :: nat
  cl_host :: string
  cl_pid :: nat
  cl_nonce :: string

definition acquisition_handle :: "claimant \<Rightarrow> name \<Rightarrow> name" where
  "acquisition_handle c key =
     acquiring_prefix @ show_nat (cl_usec c) @ ''.'' @ key @ ''.'' @ cl_host c @ ''.''
       @ show_nat (cl_pid c) @ ''.'' @ cl_nonce c"

definition is_hex_digit :: "char \<Rightarrow> bool" where
  "is_hex_digit c \<longleftrightarrow> c \<in> set ''0123456789abcdef''"

definition is_dec_digit :: "char \<Rightarrow> bool" where
  "is_dec_digit c \<longleftrightarrow> c \<in> set ''0123456789''"

text \<open>\<open>_acquisition_handle_of\<close>: the exact parse, with a host that may contain dots.\<close>

definition acquisition_handle_of :: "name \<Rightarrow> name \<Rightarrow> (nat \<times> string \<times> nat) option" where
  "acquisition_handle_of n holder =
     (let parts = split_on (CHR ''.'') n; len = length parts in
      if len < 6 \<or> \<not> is_private_holder n \<or> parts ! 2 \<noteq> holder then None
      else
        let usec = parts ! 1; pid = parts ! (len - 2); nonce = parts ! (len - 1) in
        if usec = [] \<or> \<not> list_all is_dec_digit usec \<or> pid = [] \<or> \<not> list_all is_dec_digit pid
           \<or> length nonce \<noteq> 8 \<or> \<not> list_all is_hex_digit nonce then None
        else
          let host = join (CHR ''.'') (take (len - 5) (drop 3 parts)) in
          if host = [] then None
          else case (py_nat usec, py_nat pid) of
                 (Some u, Some p) \<Rightarrow> Some (u, host, p) | _ \<Rightarrow> None)"

text \<open>\<open>_acquisition_claimant\<close>: fields 3 and 4, exact only for a host without dots.\<close>

definition acquisition_claimant :: "name \<Rightarrow> (string \<times> nat) option" where
  "acquisition_claimant n =
     (let parts = split_on (CHR ''.'') n in
      if length parts < 6 then None
      else case py_nat (parts ! 4) of None \<Rightarrow> None | Some p \<Rightarrow> Some (parts ! 3, p))"

text \<open>
  \<open>_acquisition_clock\<close>, in microseconds: the stamp of the name, or the directory's
  modification time where the name carries none this reader understands (\<open>None\<close> when the
  directory has gone).
\<close>

definition acquisition_clock :: "(name \<Rightarrow> int option) \<Rightarrow> name \<Rightarrow> int option" where
  "acquisition_clock mtime n =
     (let parts = split_on (CHR ''.'') n in
      if 3 \<le> length parts then
        (case py_nat (parts ! 1) of Some u \<Rightarrow> Some (int u) | None \<Rightarrow> mtime n)
      else mtime n)"

definition claimant_ok :: "claimant \<Rightarrow> bool" where
  "claimant_ok c \<longleftrightarrow>
     cl_host c \<noteq> [] \<and> length (cl_nonce c) = 8 \<and> list_all is_hex_digit (cl_nonce c)"

lemma show_nat_no_dot [simp]: "CHR ''.'' \<notin> set (show_nat n)"
  by (rule notI, drule subsetD [OF show_nat_digits], simp)

lemma show_nat_dec [simp]: "list_all is_dec_digit (show_nat n)"
  unfolding list_all_iff is_dec_digit_def by (rule ballI) (rule subsetD [OF show_nat_digits])

lemma hex_no_dot:
  assumes "list_all is_hex_digit s"
  shows "CHR ''.'' \<notin> set s"
proof
  assume "CHR ''.'' \<in> set s"
  with assms have "is_hex_digit (CHR ''.'')" by (simp add: list_all_iff)
  then show False by (simp add: is_hex_digit_def)
qed

lemma private_acquisition_handle [simp]: "is_private_holder (acquisition_handle c key)"
  by (simp add: is_private_holder_def acquisition_handle_def)

lemma split_acquisition_handle:
  assumes "CHR ''.'' \<notin> set key" and "claimant_ok c"
  shows "split_on (CHR ''.'') (acquisition_handle c key) =
    [''claiming'', show_nat (cl_usec c), key] @ split_on (CHR ''.'') (cl_host c)
      @ [show_nat (cl_pid c), cl_nonce c]"
proof -
  have nonce: "CHR ''.'' \<notin> set (cl_nonce c)"
    using assms(2) by (simp add: claimant_ok_def hex_no_dot)
  have tail: "split_on (CHR ''.'') (show_nat (cl_pid c) @ CHR ''.'' # cl_nonce c)
      = [show_nat (cl_pid c), cl_nonce c]"
    using nonce by (simp add: split_simps)
  have host: "split_on (CHR ''.'') (cl_host c @ CHR ''.'' # show_nat (cl_pid c) @ CHR ''.'' # cl_nonce c)
      = split_on (CHR ''.'') (cl_host c) @ [show_nat (cl_pid c), cl_nonce c]"
    by (subst split_on_two) (simp only: tail)
  have key: "split_on (CHR ''.'') (key @ CHR ''.'' # s) = key # split_on (CHR ''.'') s" for s
    using assms(1) by (rule split_on_append)
  have usec: "split_on (CHR ''.'') (show_nat (cl_usec c) @ CHR ''.'' # s)
      = show_nat (cl_usec c) # split_on (CHR ''.'') s" for s
    by (rule split_on_append) simp
  have "acquisition_handle c key = ''claiming'' @ CHR ''.'' # show_nat (cl_usec c) @ CHR ''.''
      # key @ CHR ''.'' # cl_host c @ CHR ''.'' # show_nat (cl_pid c) @ CHR ''.'' # cl_nonce c"
    by (simp add: acquisition_handle_def acquiring_prefix_def)
  moreover have "split_on (CHR ''.'') (''claiming'' @ CHR ''.'' # s)
      = ''claiming'' # split_on (CHR ''.'') s" for s
    by (rule split_on_append) simp
  ultimately show ?thesis
    by (simp only: usec key host append.simps)
qed

text \<open>
  the exact parse of a private acquisition's name reads back what the claimant printed,
  for every holder without dots and for every host name, dotted or not.
\<close>

theorem acquisition_handle_roundtrip:
  assumes "CHR ''.'' \<notin> set key" and "claimant_ok c"
  shows "acquisition_handle_of (acquisition_handle c key) key
    = Some (cl_usec c, cl_host c, cl_pid c)"
proof -
  let ?hs = "split_on (CHR ''.'') (cl_host c)"
  have split: "split_on (CHR ''.'') (acquisition_handle c key) =
    ''claiming'' # show_nat (cl_usec c) # key # ?hs @ [show_nat (cl_pid c), cl_nonce c]"
    using split_acquisition_handle [OF assms] by simp
  have len: "length ?hs \<ge> 1"
    by (cases ?hs) auto
  have pid: "(?hs @ [show_nat (cl_pid c), cl_nonce c]) ! length ?hs = show_nat (cl_pid c)"
    by (simp add: nth_append)
  have nonce: "(?hs @ [show_nat (cl_pid c), cl_nonce c]) ! Suc (length ?hs) = cl_nonce c"
    by (simp add: nth_append)
  have "length (show_nat (cl_usec c)) \<noteq> 0"
    by simp
  with assms(2) len show ?thesis
    by (simp add: acquisition_handle_of_def split Let_def claimant_ok_def pid nonce)
qed

theorem acquisition_handle_roundtrip_witness:
  "acquisition_handle_of
     (acquisition_handle \<lparr>cl_usec = 17, cl_host = ''a.b'', cl_pid = 42, cl_nonce = ''0123abcd''\<rparr> ''k'') ''k''
   = Some (17, ''a.b'', 42)"
  using acquisition_handle_roundtrip
    [of "''k''" "\<lparr>cl_usec = 17, cl_host = ''a.b'', cl_pid = 42, cl_nonce = ''0123abcd''\<rparr>"]
  by (simp add: claimant_ok_def is_hex_digit_def)

end
