(* ===== verification/Ledger_State.thy ===== *)
theory Ledger_State
  imports Token_Names
begin

text \<open>
  The state of one \<open>ResourceLedger\<close> (\<open>pool.py\<close>): the directories \<open>free/\<close>, \<open>held/<holder>/\<close>,
  \<open>minted/\<close> and \<open>minted/dead/\<close>, as lists of file names whose order means nothing (every scan
  of the code sorts). A directory tree can hold one token name in several places; that it does
  not is the custody invariant, and it is proved of every mutator.

  Every mutator runs under the ledger's mutation exclusion (\<open>_guarded_mutation\<close>), so an
  operation is one step on this state. What the file system may do to it is a parameter: an
  \<open>io\<close> value says which rename, unlink, directory removal, read, create or write fails, and the
  theorems hold for all of them.
\<close>

section \<open>Directories and holders\<close>

datatype dir = Free_Dir | Held_Dir name | Dead_Dir

record allocation =
  al_preferred :: "nat list"
  al_fallback :: "nat list"

text \<open>A producer's export allowance: the slots, the CPU count or CPUs, and the memory.\<close>

record allowance =
  aw_slots :: int
  aw_cpus :: "nat list"
  aw_mem_gb :: int

text \<open>The fields of \<open>.adaptive.json\<close> that ledger operations write and read.\<close>

record cpu_meta =
  cm_allocation :: allocation
  cm_borrowed_cpu :: int
  cm_allowance :: "allowance option"

text \<open>\<open>.gpu.json\<close>.\<close>

record gpu_meta =
  gm_borrowed_gpu :: int

text \<open>One directory under \<open>held/\<close>: its token files and its two metadata files.\<close>

record holder =
  tokens :: "name list"
  cpu_md :: "cpu_meta option"
  gpu_md :: "gpu_meta option"

definition empty_holder :: holder where
  "empty_holder = \<lparr>tokens = [], cpu_md = None, gpu_md = None\<rparr>"

record shortage =
  sh_resource :: string
  sh_requested :: int
  sh_available :: int

text \<open>The report of a census that could not read every holder, as the ledger files it.\<close>

record census_report =
  cr_unreadable :: "name list"
  cr_asked :: "string list"
  cr_retired :: "(string, nat) dict"
  cr_cycles :: nat
  cr_first :: int
  cr_last :: int

record ledger =
  strict :: bool
  free :: "name list"
  held :: "(name, holder) dict"
  minted :: "name list"
  dead :: "name list"
  last_shortage :: "shortage option"
  census_file :: "census_report option"

text \<open>A ledger nothing has been minted in.\<close>

definition fresh_ledger :: "bool \<Rightarrow> ledger" where
  "fresh_ledger s =
     \<lparr>strict = s, free = [], held = [], minted = [], dead = [], last_shortage = None,
      census_file = None\<rparr>"

datatype meta_file = Cpu_Meta | Gpu_Meta

text \<open>
  What the file system answers during one call. An entry that is gone is simply not in the
  state, so the errors of the scans are the others: \<open>holder_err\<close> the type of a holder,
  \<open>listing_err\<close> its listing, \<open>probe_err\<close> the \<open>stat\<close> of one token in it, \<open>free_err\<close>,
  \<open>held_err\<close> and \<open>markers_err\<close> the listing of \<open>free/\<close>, \<open>held/\<close> and \<open>minted/\<close>,
  \<open>dead_err\<close> the creation of \<open>minted/dead/\<close>.
\<close>

record io =
  rename_err :: "dir \<Rightarrow> dir \<Rightarrow> name \<Rightarrow> errno option"
  unlink_err :: "dir \<Rightarrow> name \<Rightarrow> bool"
  metadata_unlink_err :: "name \<Rightarrow> meta_file \<Rightarrow> bool"
  rmdir_err :: "name \<Rightarrow> bool"
  holder_err :: "name \<Rightarrow> bool"
  listing_err :: "name \<Rightarrow> bool"
  probe_err :: "name \<Rightarrow> name \<Rightarrow> bool"
  free_err :: bool
  held_err :: bool
  markers_err :: bool
  dead_err :: bool
  mark_err :: "name \<Rightarrow> bool"
  unmark_err :: "name \<Rightarrow> bool"
  create_err :: "name \<Rightarrow> bool"
  write_err :: "name \<Rightarrow> bool"

definition no_fault :: io where
  "no_fault =
     \<lparr>rename_err = (\<lambda>_ _ _. None), unlink_err = (\<lambda>_ _. False),
      metadata_unlink_err = (\<lambda>_ _. False), rmdir_err = (\<lambda>_. False), holder_err = (\<lambda>_. False),
      listing_err = (\<lambda>_. False), probe_err = (\<lambda>_ _. False), free_err = False,
      held_err = False, markers_err = False, dead_err = False, mark_err = (\<lambda>_. False),
      unmark_err = (\<lambda>_. False), create_err = (\<lambda>_. False), write_err = (\<lambda>_. False)\<rparr>"

definition holder_of :: "name \<Rightarrow> ledger \<Rightarrow> holder option" where
  "holder_of k l = map_of (held l) k"

definition held_by :: "name \<Rightarrow> ledger \<Rightarrow> name list" where
  "held_by k l = (case holder_of k l of None \<Rightarrow> [] | Some h \<Rightarrow> tokens h)"

fun dir_names :: "ledger \<Rightarrow> dir \<Rightarrow> name list" where
  "dir_names l Free_Dir = free l"
| "dir_names l (Held_Dir k) = held_by k l"
| "dir_names l Dead_Dir = dead l"

fun dir_exists :: "ledger \<Rightarrow> dir \<Rightarrow> bool" where
  "dir_exists l (Held_Dir k) = (holder_of k l \<noteq> None)"
| "dir_exists l _ = True"

definition set_holder :: "name \<Rightarrow> holder \<Rightarrow> ledger \<Rightarrow> ledger" where
  "set_holder k h l = l\<lparr>held := AList.update k h (held l)\<rparr>"

text \<open>\<open>destination.mkdir(parents=True, exist_ok=True)\<close>.\<close>

definition mkdir_holder :: "name \<Rightarrow> ledger \<Rightarrow> ledger" where
  "mkdir_holder k l = (if holder_of k l = None then set_holder k empty_holder l else l)"

definition holder_empty :: "holder \<Rightarrow> bool" where
  "holder_empty h \<longleftrightarrow> tokens h = [] \<and> cpu_md h = None \<and> gpu_md h = None"

text \<open>\<open>holder.rmdir()\<close> with its \<open>OSError\<close> suppressed: it removes an empty directory only.\<close>

definition rmdir_holder :: "io \<Rightarrow> name \<Rightarrow> ledger \<Rightarrow> ledger" where
  "rmdir_holder io k l =
     (case holder_of k l of
        Some h \<Rightarrow>
          if holder_empty h \<and> \<not> rmdir_err io k then l\<lparr>held := AList.delete k (held l)\<rparr> else l
      | None \<Rightarrow> l)"

section \<open>Renaming one token\<close>

fun take_out :: "dir \<Rightarrow> name \<Rightarrow> ledger \<Rightarrow> ledger" where
  "take_out Free_Dir n l = l\<lparr>free := remove1 n (free l)\<rparr>"
| "take_out Dead_Dir n l = l\<lparr>dead := remove1 n (dead l)\<rparr>"
| "take_out (Held_Dir k) n l =
     (case holder_of k l of None \<Rightarrow> l
      | Some h \<Rightarrow> set_holder k (h\<lparr>tokens := remove1 n (tokens h)\<rparr>) l)"

text \<open>A rename onto an existing name replaces the file there.\<close>

fun put_in :: "dir \<Rightarrow> name \<Rightarrow> ledger \<Rightarrow> ledger" where
  "put_in Free_Dir n l = l\<lparr>free := List.insert n (free l)\<rparr>"
| "put_in Dead_Dir n l = l\<lparr>dead := List.insert n (dead l)\<rparr>"
| "put_in (Held_Dir k) n l =
     (case holder_of k l of None \<Rightarrow> l
      | Some h \<Rightarrow> set_holder k (h\<lparr>tokens := List.insert n (tokens h)\<rparr>) l)"

definition rename_token :: "dir \<Rightarrow> dir \<Rightarrow> name \<Rightarrow> ledger \<Rightarrow> ledger" where
  "rename_token s d n l = put_in d n (take_out s n l)"

text \<open>
  The loop every moving operation runs over a sorted listing: stop once \<open>lim\<close> renames have
  succeeded, leave a name that already stands at its landing where the operation asks for that
  (\<open>keep_landing\<close>), go on past a rename that fails. The result names the tokens moved, in
  order, and says whether some rename failed.
\<close>

fun move_tokens ::
  "io \<Rightarrow> bool \<Rightarrow> dir \<Rightarrow> dir \<Rightarrow> nat \<Rightarrow> name list \<Rightarrow> ledger \<Rightarrow> ledger \<times> name list \<times> bool" where
  "move_tokens io keep_landing s d lim [] l = (l, [], False)"
| "move_tokens io keep_landing s d lim (n # ns) l =
     (if lim = 0 then (l, [], False)
      else if keep_landing \<and> n \<in> set (dir_names l d) then move_tokens io keep_landing s d lim ns l
      else case rename_err io s d n of
        Some e \<Rightarrow>
          (case move_tokens io keep_landing s d lim ns l of (l', ms, _) \<Rightarrow> (l', ms, True))
      | None \<Rightarrow>
          (case move_tokens io keep_landing s d (lim - 1) ns (rename_token s d n l) of
             (l', ms, b) \<Rightarrow> (l', n # ms, b)))"

section \<open>Custody\<close>

definition held_names :: "ledger \<Rightarrow> name list" where
  "held_names l = concat (map (tokens \<circ> snd) (held l))"

text \<open>Tokens that stand for capacity: free or held, not destroyed.\<close>

definition live_tokens :: "ledger \<Rightarrow> name multiset" where
  "live_tokens l = mset (free l) + mset (held_names l)"

text \<open>
  The custody invariant: no live token name is in two places, and holder names are distinct.
\<close>

definition custody :: "ledger \<Rightarrow> bool" where
  "custody l \<longleftrightarrow> (\<forall>n. count (live_tokens l) n \<le> 1) \<and> distinct (map fst (held l))"

text \<open>
  The accounting invariant: every token, destroyed ones included, has its mint marker, and a
  destroyed name is not live.
\<close>

definition accounted :: "ledger \<Rightarrow> bool" where
  "accounted l \<longleftrightarrow>
     custody l \<and> distinct (minted l) \<and> distinct (dead l)
     \<and> set_mset (live_tokens l) \<subseteq> set (minted l) \<and> set (dead l) \<subseteq> set (minted l)
     \<and> set_mset (live_tokens l) \<inter> set (dead l) = {}"

lemma custody_iff_distinct:
  "custody l \<longleftrightarrow> distinct (free l @ held_names l) \<and> distinct (map fst (held l))"
proof -
  have "(\<forall>n. count (mset xs) n \<le> 1) \<longleftrightarrow> distinct xs" for xs :: "name list"
    by (auto simp: distinct_count_atmost_1 le_Suc_eq count_mset_0_iff)
  from this [of "free l @ held_names l"] show ?thesis
    by (simp add: custody_def live_tokens_def)
qed

subsection \<open>Association-list facts\<close>

lemma update_names_mset:
  "mset (concat (map (tokens \<circ> snd) (AList.update k h xs)))
     + mset (case map_of xs k of None \<Rightarrow> [] | Some h' \<Rightarrow> tokens h')
   = mset (concat (map (tokens \<circ> snd) xs)) + mset (tokens h)"
  by (induction xs) (auto simp: union_ac)

lemma delete_names_mset:
  "distinct (map fst xs) \<Longrightarrow>
   mset (concat (map (tokens \<circ> snd) (AList.delete k xs)))
     + mset (case map_of xs k of None \<Rightarrow> [] | Some h' \<Rightarrow> tokens h')
   = mset (concat (map (tokens \<circ> snd) xs))"
proof (induction xs)
  case Nil
  then show ?case by simp
next
  case (Cons x xs)
  obtain k' h' where x: "x = (k', h')" by (cases x)
  show ?case
  proof (cases "k' = k")
    case True
    with Cons.prems x have "k \<notin> fst ` set xs" by auto
    then have "AList.delete k xs = xs" by simp
    then show ?thesis using x True by simp
  next
    case False
    with Cons x show ?thesis by (simp add: union_ac)
  qed
qed

lemma holder_of_set_holder [simp]:
  "holder_of k (set_holder k' h l) = (if k = k' then Some h else holder_of k l)"
  by (simp add: holder_of_def set_holder_def update_conv)

lemma holder_of_other_fields [simp]:
  "holder_of k (l\<lparr>free := f\<rparr>) = holder_of k l"
  "holder_of k (l\<lparr>dead := f\<rparr>) = holder_of k l"
  "holder_of k (l\<lparr>minted := f\<rparr>) = holder_of k l"
  "holder_of k (l\<lparr>last_shortage := s\<rparr>) = holder_of k l"
  by (simp_all add: holder_of_def)

lemma held_by_other_fields [simp]:
  "held_by k (l\<lparr>free := f\<rparr>) = held_by k l"
  "held_by k (l\<lparr>dead := f\<rparr>) = held_by k l"
  "held_by k (l\<lparr>minted := f\<rparr>) = held_by k l"
  "held_by k (l\<lparr>last_shortage := s\<rparr>) = held_by k l"
  by (simp_all add: held_by_def)

lemma held_names_other_fields [simp]:
  "held_names (l\<lparr>free := f\<rparr>) = held_names l"
  "held_names (l\<lparr>dead := f\<rparr>) = held_names l"
  "held_names (l\<lparr>minted := f\<rparr>) = held_names l"
  "held_names (l\<lparr>last_shortage := s\<rparr>) = held_names l"
  by (simp_all add: held_names_def)

lemma live_tokens_other_fields [simp]:
  "live_tokens (l\<lparr>dead := f\<rparr>) = live_tokens l"
  "live_tokens (l\<lparr>minted := f\<rparr>) = live_tokens l"
  "live_tokens (l\<lparr>last_shortage := s\<rparr>) = live_tokens l"
  by (simp_all add: live_tokens_def)

lemma held_by_set_holder:
  "held_by k (set_holder k' h l) = (if k = k' then tokens h else held_by k l)"
  by (simp add: held_by_def)

lemma set_holder_fields [simp]:
  "free (set_holder k h l) = free l"
  "dead (set_holder k h l) = dead l"
  "minted (set_holder k h l) = minted l"
  "strict (set_holder k h l) = strict l"
  "last_shortage (set_holder k h l) = last_shortage l"
  by (simp_all add: set_holder_def)

lemma keys_set_holder:
  "distinct (map fst (held l)) \<Longrightarrow> distinct (map fst (held (set_holder k h l)))"
  by (simp add: set_holder_def distinct_update)

lemma held_names_set_holder:
  "mset (held_names (set_holder k h l)) + mset (held_by k l) = mset (held_names l) + mset (tokens h)"
  using update_names_mset [of k h "held l"]
  by (simp add: held_names_def set_holder_def held_by_def holder_of_def)

lemma held_by_subset: "mset (held_by k l) \<subseteq># mset (held_names l)"
proof -
  have "mset (case map_of xs k of None \<Rightarrow> [] | Some h \<Rightarrow> tokens h)
      \<subseteq># mset (concat (map (tokens \<circ> snd) xs))" for xs :: "(name, holder) dict"
    by (induction xs) (auto simp: subset_mset.add_increasing split: option.splits)
  then show ?thesis by (simp add: held_by_def holder_of_def held_names_def)
qed

lemma held_byD: "n \<in> set (held_by k l) \<Longrightarrow> \<exists>h. holder_of k l = Some h \<and> n \<in> set (tokens h)"
  by (cases "holder_of k l") (auto simp: held_by_def)

lemma set_held_names:
  "distinct (map fst (held l)) \<Longrightarrow> n \<in> set (held_names l) \<longleftrightarrow> (\<exists>k. n \<in> set (held_by k l))"
proof
  assume dk: "distinct (map fst (held l))" and "n \<in> set (held_names l)"
  then obtain k h where "(k, h) \<in> set (held l)" and n: "n \<in> set (tokens h)"
    by (auto simp: held_names_def)
  with dk have "holder_of k l = Some h" by (simp add: holder_of_def)
  with n have "n \<in> set (held_by k l)" by (simp add: held_by_def)
  then show "\<exists>k. n \<in> set (held_by k l)" ..
next
  assume "\<exists>k. n \<in> set (held_by k l)"
  then show "n \<in> set (held_names l)"
    using held_by_subset by (metis mset_subset_eqD set_mset_mset)
qed

lemma mkdir_holder_simps [simp]:
  "free (mkdir_holder k l) = free l"
  "dead (mkdir_holder k l) = dead l"
  "minted (mkdir_holder k l) = minted l"
  "strict (mkdir_holder k l) = strict l"
  "last_shortage (mkdir_holder k l) = last_shortage l"
  "held_by k' (mkdir_holder k l) = held_by k' l"
  "dir_exists (mkdir_holder k l) (Held_Dir k)"
  by (auto simp: mkdir_holder_def held_by_def empty_holder_def)

lemma holder_of_mkdir [simp]:
  "holder_of k (mkdir_holder k' l) =
     (if k = k' \<and> holder_of k l = None then Some empty_holder else holder_of k l)"
  by (auto simp: mkdir_holder_def)

lemma held_names_mkdir [simp]: "mset (held_names (mkdir_holder k l)) = mset (held_names l)"
proof (cases "holder_of k l")
  case None
  then show ?thesis
    using held_names_set_holder [of k empty_holder l]
    by (simp add: mkdir_holder_def held_by_def empty_holder_def)
next
  case (Some h)
  then show ?thesis by (simp add: mkdir_holder_def)
qed

lemma rmdir_holder_fields [simp]:
  "free (rmdir_holder io k l) = free l"
  "dead (rmdir_holder io k l) = dead l"
  "minted (rmdir_holder io k l) = minted l"
  "strict (rmdir_holder io k l) = strict l"
  "last_shortage (rmdir_holder io k l) = last_shortage l"
  by (auto simp: rmdir_holder_def split: option.splits)

lemma held_by_rmdir [simp]: "held_by k' (rmdir_holder io k l) = held_by k' l"
  by (auto simp: rmdir_holder_def held_by_def holder_of_def holder_empty_def delete_conv
      split: option.splits)

lemma held_names_rmdir:
  "distinct (map fst (held l)) \<Longrightarrow>
   mset (held_names (rmdir_holder io k l)) = mset (held_names l)"
  using delete_names_mset [of "held l" k]
  by (cases "map_of (held l) k")
    (auto simp del: map_of_eq_Some_iff
      simp: rmdir_holder_def held_names_def holder_of_def holder_empty_def)

lemma keys_rmdir: "distinct (map fst (held l)) \<Longrightarrow> distinct (map fst (held (rmdir_holder io k l)))"
  by (auto simp: rmdir_holder_def distinct_delete split: option.splits)

lemma keys_mkdir: "distinct (map fst (held l)) \<Longrightarrow> distinct (map fst (held (mkdir_holder k l)))"
  by (simp add: mkdir_holder_def keys_set_holder)

subsection \<open>Renaming one token\<close>

lemma dir_names_take_out:
  "dir_names (take_out s n l) e = (if e = s then remove1 n (dir_names l s) else dir_names l e)"
  by (cases s; cases e) (auto simp: held_by_def split: option.splits)

lemma dir_exists_take_out [simp]: "dir_exists (take_out s n l) d = dir_exists l d"
  by (cases s; cases d) (auto split: option.splits)

lemma dir_names_put_in:
  "dir_exists l d \<Longrightarrow>
   dir_names (put_in d n l) e = (if e = d then List.insert n (dir_names l d) else dir_names l e)"
  by (cases d; cases e) (auto simp: held_by_def split: option.splits)

lemma dir_exists_put_in [simp]: "dir_exists (put_in d n l) e = dir_exists l e"
  by (cases d; cases e) (auto split: option.splits)

lemma update_existing_keys: "map_of xs k = Some v \<Longrightarrow> map fst (AList.update k w xs) = map fst xs"
  by (auto simp: update_keys dest: map_of_SomeD intro: rev_image_eqI)

lemma take_out_fields [simp]:
  "minted (take_out s n l) = minted l"
  "strict (take_out s n l) = strict l"
  "last_shortage (take_out s n l) = last_shortage l"
  "map fst (held (take_out s n l)) = map fst (held l)"
  by (cases s; auto simp: holder_of_def set_holder_def update_existing_keys split: option.splits)+

lemma put_in_fields [simp]:
  "minted (put_in d n l) = minted l"
  "strict (put_in d n l) = strict l"
  "last_shortage (put_in d n l) = last_shortage l"
  "map fst (held (put_in d n l)) = map fst (held l)"
  by (cases d; auto simp: holder_of_def set_holder_def update_existing_keys split: option.splits)+

lemma live_take_out:
  assumes "n \<in> set (dir_names l s)" and "s \<noteq> Dead_Dir"
  shows "add_mset n (live_tokens (take_out s n l)) = live_tokens l"
proof (cases s)
  case Free_Dir
  with assms show ?thesis by (simp add: live_tokens_def held_names_def)
next
  case Dead_Dir
  with assms show ?thesis by simp
next
  case (Held_Dir k)
  with assms obtain h where h: "holder_of k l = Some h" and n: "n \<in> set (tokens h)"
    by (auto dest!: held_byD)
  let ?l = "set_holder k (h\<lparr>tokens := remove1 n (tokens h)\<rparr>) l"
  have "mset (held_names ?l) + mset (tokens h) = mset (held_names l) + (mset (tokens h) - {#n#})"
    using held_names_set_holder [of k "h\<lparr>tokens := remove1 n (tokens h)\<rparr>" l] h
    by (simp add: held_by_def)
  then have "add_mset n (mset (held_names ?l)) + mset (tokens h)
      = mset (held_names l) + add_mset n (mset (tokens h) - {#n#})"
    by simp
  also have "add_mset n (mset (tokens h) - {#n#}) = mset (tokens h)"
    using n by simp
  finally have "add_mset n (mset (held_names ?l)) = mset (held_names l)"
    by simp
  with h Held_Dir show ?thesis by (simp add: live_tokens_def)
qed

lemma live_put_in:
  assumes "n \<notin> set (dir_names l d)" and "dir_exists l d" and "d \<noteq> Dead_Dir"
  shows "live_tokens (put_in d n l) = add_mset n (live_tokens l)"
proof (cases d)
  case Free_Dir
  with assms show ?thesis by (simp add: live_tokens_def held_names_def List.insert_def)
next
  case Dead_Dir
  with assms show ?thesis by simp
next
  case (Held_Dir k)
  with assms obtain h where h: "holder_of k l = Some h" and n: "n \<notin> set (tokens h)"
    by (auto simp: held_by_def)
  then show ?thesis
    using held_names_set_holder [of k "h\<lparr>tokens := List.insert n (tokens h)\<rparr>" l] Held_Dir
    by (simp add: live_tokens_def held_by_def List.insert_def)
qed

lemma live_put_dead [simp]: "live_tokens (put_in Dead_Dir n l) = live_tokens l"
  by (simp add: live_tokens_def held_names_def)

lemma dir_names_live: "n \<in> set (dir_names l d) \<Longrightarrow> d \<noteq> Dead_Dir \<Longrightarrow> n \<in># live_tokens l"
proof (cases d)
  case (Held_Dir k)
  assume "n \<in> set (dir_names l d)"
  with Held_Dir have "n \<in># mset (held_by k l)" by simp
  with held_by_subset have "n \<in># mset (held_names l)" by (rule mset_subset_eqD)
  then show ?thesis by (simp add: live_tokens_def)
qed (simp_all add: live_tokens_def)

lemma custody_gone:
  assumes "custody l" and "n \<in> set (dir_names l s)" and "s \<noteq> Dead_Dir"
  shows "n \<notin># live_tokens (take_out s n l)"
proof -
  have "count (add_mset n (live_tokens (take_out s n l))) n \<le> 1"
    using assms live_take_out [OF assms(2,3)] by (simp add: custody_def)
  then show ?thesis by (simp add: not_in_iff)
qed

lemma live_rename:
  assumes "custody l" and "n \<in> set (dir_names l s)" and "s \<noteq> Dead_Dir"
    and "dir_exists l d" and "d \<noteq> Dead_Dir"
  shows "live_tokens (rename_token s d n l) = live_tokens l"
proof -
  have "n \<notin> set (dir_names (take_out s n l) d)"
    using custody_gone [OF assms(1-3)] assms(5) dir_names_live by blast
  then show ?thesis
    using assms live_take_out [OF assms(2,3)]
    by (simp add: rename_token_def live_put_in)
qed

lemma custody_rename:
  assumes "custody l" and "n \<in> set (dir_names l s)" and "s \<noteq> Dead_Dir"
    and "dir_exists l d" and "d \<noteq> Dead_Dir"
  shows "custody (rename_token s d n l)"
  using assms live_rename [OF assms] by (simp add: custody_def rename_token_def)

lemma rename_fields [simp]:
  "minted (rename_token s d n l) = minted l"
  "strict (rename_token s d n l) = strict l"
  "last_shortage (rename_token s d n l) = last_shortage l"
  "map fst (held (rename_token s d n l)) = map fst (held l)"
  "dir_exists (rename_token s d n l) e = dir_exists l e"
  by (simp_all add: rename_token_def)

lemma dir_names_rename:
  "dir_exists l d \<Longrightarrow> s \<noteq> d \<Longrightarrow>
   dir_names (rename_token s d n l) e =
     (if e = d then List.insert n (dir_names l d)
      else if e = s then remove1 n (dir_names l s) else dir_names l e)"
  by (simp add: rename_token_def dir_names_put_in dir_names_take_out)

definition same_metadata :: "ledger \<Rightarrow> ledger \<Rightarrow> bool" where
  "same_metadata l l' \<longleftrightarrow>
     (\<forall>k. map_option cpu_md (holder_of k l') = map_option cpu_md (holder_of k l)
        \<and> map_option gpu_md (holder_of k l') = map_option gpu_md (holder_of k l))"

lemma same_metadata_refl [simp]: "same_metadata l l"
  by (simp add: same_metadata_def)

lemma same_metadata_trans: "same_metadata l l' \<Longrightarrow> same_metadata l' l'' \<Longrightarrow> same_metadata l l''"
  by (simp add: same_metadata_def)

lemma same_metadata_take_out: "same_metadata l (take_out s n l)"
  by (cases s) (auto simp: same_metadata_def split: option.splits)

lemma same_metadata_put_in: "same_metadata l (put_in d n l)"
  by (cases d) (auto simp: same_metadata_def split: option.splits)

lemma same_metadata_rename: "same_metadata l (rename_token s d n l)"
  unfolding rename_token_def
  by (rule same_metadata_trans [OF same_metadata_take_out same_metadata_put_in])

lemma move_tokens_frame:
  "move_tokens io kl s d lim ns l = (l', ms, b) \<Longrightarrow>
   minted l' = minted l \<and> strict l' = strict l \<and> last_shortage l' = last_shortage l
   \<and> map fst (held l') = map fst (held l) \<and> (\<forall>e. dir_exists l' e = dir_exists l e)
   \<and> same_metadata l l' \<and> set ms \<subseteq> set ns \<and> length ms \<le> lim"
proof (induction ns arbitrary: l lim l' ms b)
  case Nil
  then show ?case by simp
next
  case (Cons n ns)
  show ?case
  proof (cases "lim = 0 \<or> (kl \<and> n \<in> set (dir_names l d))")
    case True
    with Cons show ?thesis by (fastforce split: if_splits)
  next
    case run: False
    show ?thesis
    proof (cases "rename_err io s d n")
      case None
      with run Cons.prems obtain ms' where
        *: "move_tokens io kl s d (lim - 1) ns (rename_token s d n l) = (l', ms', b)" "ms = n # ms'"
        by (auto split: prod.splits)
      from Cons.IH [OF *(1)] run *(2) show ?thesis
        by (auto intro: same_metadata_trans [OF same_metadata_rename])
    next
      case (Some e)
      with run Cons.prems obtain b' where "move_tokens io kl s d lim ns l = (l', ms, b')"
        by (auto split: prod.splits)
      from Cons.IH [OF this] show ?thesis by auto
    qed
  qed
qed

lemma move_tokens_custody:
  "move_tokens io kl s d lim ns l = (l', ms, b) \<Longrightarrow> custody l \<Longrightarrow>
   set ns \<subseteq> set (dir_names l s) \<Longrightarrow> distinct ns \<Longrightarrow> dir_exists l d \<Longrightarrow>
   s \<noteq> d \<Longrightarrow> s \<noteq> Dead_Dir \<Longrightarrow> d \<noteq> Dead_Dir \<Longrightarrow>
   custody l' \<and> live_tokens l' = live_tokens l \<and> distinct ms
   \<and> mset (dir_names l' s) + mset ms = mset (dir_names l s)
   \<and> mset (dir_names l' d) = mset (dir_names l d) + mset ms
   \<and> (\<forall>e. e \<noteq> s \<longrightarrow> e \<noteq> d \<longrightarrow> dir_names l' e = dir_names l e)"
proof (induction ns arbitrary: l lim l' ms b)
  case Nil
  then show ?case by simp
next
  case (Cons n ns)
  show ?case
  proof (cases "lim = 0 \<or> (kl \<and> n \<in> set (dir_names l d))")
    case True
    show ?thesis
    proof (cases "lim = 0")
      case True
      with Cons.prems show ?thesis by simp
    next
      case False
      with True Cons.prems(1) have "move_tokens io kl s d lim ns l = (l', ms, b)" by simp
      with Cons.IH Cons.prems show ?thesis by simp
    qed
  next
    case run: False
    show ?thesis
    proof (cases "rename_err io s d n")
      case (Some e)
      with run Cons.prems(1) obtain b' where "move_tokens io kl s d lim ns l = (l', ms, b')"
        by (auto split: prod.splits)
      with Cons.IH Cons.prems show ?thesis by simp
    next
      case None
      let ?r = "rename_token s d n l"
      from None run Cons.prems(1) obtain ms' where
        *: "move_tokens io kl s d (lim - 1) ns ?r = (l', ms', b)" "ms = n # ms'"
        by (auto split: prod.splits)
      have n: "n \<in> set (dir_names l s)" using Cons.prems by simp
      have nd: "n \<notin> set (dir_names l d)"
        using custody_gone [OF Cons.prems(2) n] Cons.prems
          dir_names_live [of n "take_out s n l" d] by (auto simp: dir_names_take_out)
      have s': "mset (dir_names ?r s) = mset (dir_names l s) - {#n#}"
        and d': "mset (dir_names ?r d) = add_mset n (mset (dir_names l d))"
        using Cons.prems nd by (simp_all add: dir_names_rename List.insert_def)
      have sub: "set ns \<subseteq> set (dir_names ?r s)"
        using Cons.prems by (auto simp: dir_names_rename intro: in_set_remove1 [THEN iffD2])
      have "custody l' \<and> live_tokens l' = live_tokens ?r \<and> distinct ms'
        \<and> mset (dir_names l' s) + mset ms' = mset (dir_names ?r s)
        \<and> mset (dir_names l' d) = mset (dir_names ?r d) + mset ms'
        \<and> (\<forall>e. e \<noteq> s \<longrightarrow> e \<noteq> d \<longrightarrow> dir_names l' e = dir_names ?r e)"
        using Cons.prems n sub by (intro Cons.IH [OF *(1)]) (auto intro: custody_rename)
      moreover have "n \<notin> set ms'"
        using move_tokens_frame [OF *(1)] Cons.prems(4) by auto
      ultimately show ?thesis
        using *(2) s' d' n Cons.prems live_rename [OF Cons.prems(2) n Cons.prems(7,5,8)]
        by (auto simp: dir_names_rename)
    qed
  qed
qed

end
