(* ===== verification/Ledger_Moves.thy ===== *)
theory Ledger_Moves
  imports Ledger_State
begin

text \<open>
  The operations of \<open>ResourceLedger\<close> that only move tokens: \<open>release\<close> and its capped and
  selective siblings, \<open>abandon_acquire\<close>, \<open>commit_acquire\<close> and the three transfers. The locale
  \<open>conserving\<close> is what they all promise, and \<open>held_only\<close> what the transfers promise beyond it:
  no token is free at any moment of the move.
\<close>

section \<open>Metadata files\<close>

definition cpu_metadata_name :: name where
  "cpu_metadata_name = ''.adaptive.json''"

definition gpu_metadata_name :: name where
  "gpu_metadata_name = ''.gpu.json''"

text \<open>\<open>marker.unlink(missing_ok=True)\<close> for both metadata files, \<open>.adaptive.json\<close> first.\<close>

definition unlink_metadata :: "io \<Rightarrow> name \<Rightarrow> ledger \<Rightarrow> unit result \<times> ledger" where
  "unlink_metadata io k l =
     (case holder_of k l of
        None \<Rightarrow> (Inr (), l)
      | Some h \<Rightarrow>
          if cpu_md h \<noteq> None \<and> metadata_unlink_err io k Cpu_Meta then (Inl (OSError EIO), l)
          else
            let l1 = set_holder k (h\<lparr>cpu_md := None\<rparr>) l in
            if gpu_md h \<noteq> None \<and> metadata_unlink_err io k Gpu_Meta then (Inl (OSError EIO), l1)
            else (Inr (), set_holder k (h\<lparr>cpu_md := None, gpu_md := None\<rparr>) l1))"

text \<open>One metadata file travelling from holder \<open>a\<close> to holder \<open>b\<close>, unless one stands there.\<close>

definition move_cpu_metadata :: "io \<Rightarrow> name \<Rightarrow> name \<Rightarrow> ledger \<Rightarrow> ledger \<times> int" where
  "move_cpu_metadata io a b l =
     (case (holder_of a l, holder_of b l) of
        (Some ha, Some hb) \<Rightarrow>
          (case (cpu_md ha, cpu_md hb) of
             (Some m, None) \<Rightarrow>
               if rename_err io (Held_Dir a) (Held_Dir b) cpu_metadata_name = None
               then (set_holder a (ha\<lparr>cpu_md := None\<rparr>) (set_holder b (hb\<lparr>cpu_md := Some m\<rparr>) l),
                     cm_borrowed_cpu m)
               else (l, 0)
           | _ \<Rightarrow> (l, 0))
      | _ \<Rightarrow> (l, 0))"

definition move_gpu_metadata :: "io \<Rightarrow> name \<Rightarrow> name \<Rightarrow> ledger \<Rightarrow> ledger \<times> int" where
  "move_gpu_metadata io a b l =
     (case (holder_of a l, holder_of b l) of
        (Some ha, Some hb) \<Rightarrow>
          (case (gpu_md ha, gpu_md hb) of
             (Some m, None) \<Rightarrow>
               if rename_err io (Held_Dir a) (Held_Dir b) gpu_metadata_name = None
               then (set_holder a (ha\<lparr>gpu_md := None\<rparr>) (set_holder b (hb\<lparr>gpu_md := Some m\<rparr>) l),
                     gm_borrowed_gpu m)
               else (l, 0)
           | _ \<Rightarrow> (l, 0))
      | _ \<Rightarrow> (l, 0))"

section \<open>Operations\<close>

text \<open>
  \<open>_empty_into_free\<close>: the tokens first; the metadata goes only when every token has left,
  and a metadata file that cannot be removed raises after the capacity has returned.
\<close>

definition empty_into_free :: "io \<Rightarrow> name \<Rightarrow> ledger \<Rightarrow> nat result \<times> ledger" where
  "empty_into_free io k l =
     (case holder_of k l of
        None \<Rightarrow> (Inr 0, l)
      | Some h \<Rightarrow>
          case move_tokens io False (Held_Dir k) Free_Dir (length (tokens h)) (sort (tokens h)) l of
            (l', ms, incomplete) \<Rightarrow>
              if incomplete then (Inr (length ms), l')
              else (case unlink_metadata io k l' of
                      (Inl e, l'') \<Rightarrow> (Inl e, l'')
                    | (Inr _, l'') \<Rightarrow> (Inr (length ms), rmdir_holder io k l'')))"

definition release :: "io \<Rightarrow> name \<Rightarrow> ledger \<Rightarrow> nat result \<times> ledger" where
  "release io key l = empty_into_free io key l"

definition abandon_acquire :: "io \<Rightarrow> name \<Rightarrow> ledger \<Rightarrow> nat result \<times> ledger" where
  "abandon_acquire io handle l = empty_into_free io handle l"

text \<open>\<open>_drop_empty_holder\<close>.\<close>

definition drop_empty_holder :: "io \<Rightarrow> name \<Rightarrow> ledger \<Rightarrow> ledger" where
  "drop_empty_holder io k l =
     (if held_by k l \<noteq> [] then l
      else case unlink_metadata io k l of
             (Inl _, l') \<Rightarrow> l'
           | (Inr _, l') \<Rightarrow> rmdir_holder io k l')"

fun release_count_loop ::
  "io \<Rightarrow> name \<Rightarrow> (string, int) dict \<Rightarrow> ledger \<Rightarrow> ledger \<times> (string, nat) dict" where
  "release_count_loop io k [] l = (l, [])"
| "release_count_loop io k ((kind, want) # rest) l =
     (if want \<le> 0 then release_count_loop io k rest l
      else case move_tokens io False (Held_Dir k) Free_Dir (nat want)
                  (sort (filter (matches_kind kind) (held_by k l))) l of
             (l', ms, _) \<Rightarrow>
               (case release_count_loop io k rest l' of
                  (l'', d) \<Rightarrow> (l'', if ms = [] then d else (kind, length ms) # d)))"

definition release_count ::
  "io \<Rightarrow> name \<Rightarrow> (string, int) dict \<Rightarrow> ledger \<Rightarrow> ledger \<times> (string, nat) dict" where
  "release_count io key counts l =
     (if holder_of key l = None then (l, [])
      else case release_count_loop io key (sorted_items counts) l of
             (l', released) \<Rightarrow> (drop_empty_holder io key l', released))"

definition release_kinds :: "io \<Rightarrow> name \<Rightarrow> string list \<Rightarrow> ledger \<Rightarrow> ledger \<times> nat" where
  "release_kinds io key kinds l =
     (if holder_of key l = None then (l, 0)
      else
        let ts = sort (filter (\<lambda>n. kind_of n \<in> set kinds) (held_by key l)) in
        case move_tokens io False (Held_Dir key) Free_Dir (length ts) ts l of
          (l', ms, _) \<Rightarrow> (l', length ms))"

definition release_except :: "io \<Rightarrow> name \<Rightarrow> name list \<Rightarrow> ledger \<Rightarrow> ledger \<times> nat" where
  "release_except io key keep l =
     (if holder_of key l = None then (l, 0)
      else
        let ts = sort (filter (\<lambda>n. n \<notin> set keep) (held_by key l)) in
        case move_tokens io False (Held_Dir key) Free_Dir (length ts) ts l of
          (l', ms, _) \<Rightarrow> (l', length ms))"

text \<open>
  \<open>commit_acquire\<close>: every file of the private directory under the action's own, a name that
  already stands there left where it is, the count of what moved (a borrowed CPU or GPU counts
  through the metadata that records it).
\<close>

definition commit_acquire ::
  "io \<Rightarrow> name \<Rightarrow> name \<Rightarrow> ledger \<Rightarrow> ledger \<times> int \<times> name list" where
  "commit_acquire io key handle l =
     (case holder_of handle l of
        None \<Rightarrow> (l, 0, [])
      | Some h \<Rightarrow>
          let l1 = mkdir_holder key l in
          case move_cpu_metadata io handle key l1 of
            (l2, c) \<Rightarrow>
              (case move_gpu_metadata io handle key l2 of
                 (l3, g) \<Rightarrow>
                   (case move_tokens io True (Held_Dir handle) (Held_Dir key)
                           (length (tokens h)) (sort (tokens h)) l3 of
                      (l4, ms, _) \<Rightarrow>
                        (rmdir_holder io handle l4, c + g + int (length ms), ms))))"

definition transfer :: "io \<Rightarrow> name \<Rightarrow> name \<Rightarrow> ledger \<Rightarrow> nat result \<times> ledger" where
  "transfer io a b l =
     (if a = [] \<or> b = [] \<or> a = b then (Inr 0, l)
      else if is_private_holder a \<or> is_private_holder b then (Inl PoolContractError, l)
      else case holder_of a l of
             None \<Rightarrow> (Inr 0, l)
           | Some h \<Rightarrow>
               let l1 = mkdir_holder b l;
                   l2 = fst (move_cpu_metadata io a b l1);
                   l3 = fst (move_gpu_metadata io a b l2) in
               case move_tokens io True (Held_Dir a) (Held_Dir b)
                      (length (tokens h)) (sort (tokens h)) l3 of
                 (l4, ms, _) \<Rightarrow> (Inr (length ms), rmdir_holder io a l4))"

definition transfer_count :: "io \<Rightarrow> name \<Rightarrow> name \<Rightarrow> int \<Rightarrow> ledger \<Rightarrow> nat result \<times> ledger" where
  "transfer_count io a b want l =
     (if a = [] \<or> b = [] \<or> a = b then (Inr 0, l)
      else if is_private_holder a \<or> is_private_holder b then (Inl PoolContractError, l)
      else if want \<le> 0 then (Inr 0, l)
      else case holder_of a l of
             None \<Rightarrow> (Inr 0, l)
           | Some h \<Rightarrow>
               case move_tokens io True (Held_Dir a) (Held_Dir b) (nat want) (sort (tokens h))
                      (mkdir_holder b l) of
                 (l', ms, _) \<Rightarrow> (Inr (length ms), rmdir_holder io a l'))"

definition transferable_name :: "name \<Rightarrow> bool" where
  "transferable_name n \<longleftrightarrow>
     n \<noteq> [] \<and> CHR ''/'' \<notin> set n \<and> n \<noteq> cpu_metadata_name \<and> n \<noteq> gpu_metadata_name
     \<and> CHR ''-'' \<in> set n"

text \<open>
  The loop of \<open>transfer_tokens\<close>: a name at both ends is a collision and counts nothing, at the
  destination only it counts as already moved, at the source only it is renamed, nowhere it
  counts nothing.
\<close>

fun transfer_tokens_loop ::
  "io \<Rightarrow> name \<Rightarrow> name \<Rightarrow> name list \<Rightarrow> ledger \<Rightarrow> ledger \<times> nat \<times> name list" where
  "transfer_tokens_loop io a b [] l = (l, 0, [])"
| "transfer_tokens_loop io a b (n # ns) l =
     (if n \<in> set (held_by b l) then
        (case transfer_tokens_loop io a b ns l of
           (l', c, ms) \<Rightarrow> (l', if n \<in> set (held_by a l) then c else Suc c, ms))
      else if n \<notin> set (held_by a l) then transfer_tokens_loop io a b ns l
      else case rename_err io (Held_Dir a) (Held_Dir b) n of
             Some e \<Rightarrow> transfer_tokens_loop io a b ns l
           | None \<Rightarrow>
               (case transfer_tokens_loop io a b ns
                       (rename_token (Held_Dir a) (Held_Dir b) n l) of
                  (l', c, ms) \<Rightarrow> (l', Suc c, n # ms)))"

definition transfer_tokens ::
  "io \<Rightarrow> name \<Rightarrow> name \<Rightarrow> name list \<Rightarrow> ledger \<Rightarrow> (nat \<times> name list) result \<times> ledger" where
  "transfer_tokens io a b names l =
     (if a = [] \<or> b = [] \<or> a = b then (Inl PoolContractError, l)
      else if is_private_holder a \<or> is_private_holder b then (Inl PoolContractError, l)
      else if names = [] \<or> \<not> distinct names then (Inl PoolContractError, l)
      else if \<not> list_all transferable_name names then (Inl PoolContractError, l)
      else case transfer_tokens_loop io a b names (mkdir_holder b l) of
             (l', c, ms) \<Rightarrow> (Inr (c, ms), rmdir_holder io a l'))"

section \<open>Steps that move no token\<close>

definition same_tokens :: "ledger \<Rightarrow> ledger \<Rightarrow> bool" where
  "same_tokens l l' \<longleftrightarrow>
     free l' = free l \<and> dead l' = dead l \<and> minted l' = minted l \<and> strict l' = strict l
     \<and> (\<forall>k. held_by k l' = held_by k l) \<and> mset (held_names l') = mset (held_names l)
     \<and> (distinct (map fst (held l)) \<longrightarrow> distinct (map fst (held l')))"

lemma same_tokens_refl [simp]: "same_tokens l l"
  by (simp add: same_tokens_def)

lemma same_tokens_trans [trans]: "same_tokens l l' \<Longrightarrow> same_tokens l' l'' \<Longrightarrow> same_tokens l l''"
  by (simp add: same_tokens_def)

lemma same_tokens_custody: "same_tokens l l' \<Longrightarrow> custody l \<Longrightarrow> custody l'"
  by (simp add: same_tokens_def custody_def live_tokens_def)

lemma same_tokens_live: "same_tokens l l' \<Longrightarrow> live_tokens l' = live_tokens l"
  by (simp add: same_tokens_def live_tokens_def)

lemma same_tokens_set_holder:
  "held_by k l = tokens h \<Longrightarrow> same_tokens l (set_holder k h l)"
  using held_names_set_holder [of k h l]
  by (auto simp: same_tokens_def held_by_set_holder keys_set_holder)

lemma same_tokens_mkdir: "same_tokens l (mkdir_holder k l)"
  by (simp add: same_tokens_def keys_mkdir)

lemma same_tokens_rmdir: "custody l \<Longrightarrow> same_tokens l (rmdir_holder io k l)"
  by (simp add: same_tokens_def custody_def held_names_rmdir keys_rmdir)

lemma same_tokens_unlink_metadata: "same_tokens l (snd (unlink_metadata io k l))"
proof (cases "holder_of k l")
  case None
  then show ?thesis by (simp add: unlink_metadata_def)
next
  case (Some h)
  let ?l1 = "set_holder k (h\<lparr>cpu_md := None\<rparr>) l"
  have 1: "same_tokens l ?l1"
    by (rule same_tokens_set_holder) (simp add: held_by_def Some)
  have 2: "same_tokens ?l1 (set_holder k (h\<lparr>cpu_md := None, gpu_md := None\<rparr>) ?l1)"
    by (rule same_tokens_set_holder) (simp add: held_by_def)
  show ?thesis
    using 1 same_tokens_trans [OF 1 2] Some by (simp add: unlink_metadata_def Let_def)
qed

lemma same_tokens_cpu_metadata: "same_tokens l (fst (move_cpu_metadata io a b l))"
proof (cases "fst (move_cpu_metadata io a b l) = l")
  case True
  then show ?thesis by simp
next
  case False
  then obtain ha hb m where h: "holder_of a l = Some ha" "holder_of b l = Some hb"
    "cpu_md ha = Some m" "cpu_md hb = None" and
    eq: "fst (move_cpu_metadata io a b l) =
      set_holder a (ha\<lparr>cpu_md := None\<rparr>) (set_holder b (hb\<lparr>cpu_md := Some m\<rparr>) l)"
    by (auto simp: move_cpu_metadata_def split: option.splits if_splits)
  have "same_tokens l (set_holder b (hb\<lparr>cpu_md := Some m\<rparr>) l)"
    by (rule same_tokens_set_holder) (simp add: held_by_def h)
  also have "same_tokens (set_holder b (hb\<lparr>cpu_md := Some m\<rparr>) l)
      (set_holder a (ha\<lparr>cpu_md := None\<rparr>) (set_holder b (hb\<lparr>cpu_md := Some m\<rparr>) l))"
    using h by (intro same_tokens_set_holder) (auto simp: held_by_def)
  finally show ?thesis by (simp add: eq)
qed

lemma same_tokens_gpu_metadata: "same_tokens l (fst (move_gpu_metadata io a b l))"
proof (cases "fst (move_gpu_metadata io a b l) = l")
  case True
  then show ?thesis by simp
next
  case False
  then obtain ha hb m where h: "holder_of a l = Some ha" "holder_of b l = Some hb"
    "gpu_md ha = Some m" "gpu_md hb = None" and
    eq: "fst (move_gpu_metadata io a b l) =
      set_holder a (ha\<lparr>gpu_md := None\<rparr>) (set_holder b (hb\<lparr>gpu_md := Some m\<rparr>) l)"
    by (auto simp: move_gpu_metadata_def split: option.splits if_splits)
  have "same_tokens l (set_holder b (hb\<lparr>gpu_md := Some m\<rparr>) l)"
    by (rule same_tokens_set_holder) (simp add: held_by_def h)
  also have "same_tokens (set_holder b (hb\<lparr>gpu_md := Some m\<rparr>) l)
      (set_holder a (ha\<lparr>gpu_md := None\<rparr>) (set_holder b (hb\<lparr>gpu_md := Some m\<rparr>) l))"
    using h by (intro same_tokens_set_holder) (auto simp: held_by_def)
  finally show ?thesis by (simp add: eq)
qed

lemma dir_exists_metadata [simp]:
  "dir_exists (fst (move_cpu_metadata io a b l)) d = dir_exists l d"
  "dir_exists (fst (move_gpu_metadata io a b l)) d = dir_exists l d"
  by (cases d; auto simp: move_cpu_metadata_def move_gpu_metadata_def split: option.splits if_splits)+

section \<open>What a moving operation promises\<close>

text \<open>
  The effect of a move on custody, as a relation between the state before and after: live
  tokens, markers and destroyed names are as they were.
\<close>

definition conserves :: "ledger \<Rightarrow> ledger \<Rightarrow> bool" where
  "conserves l l' \<longleftrightarrow>
     custody l' \<and> live_tokens l' = live_tokens l \<and> minted l' = minted l \<and> dead l' = dead l"

lemma conserves_refl: "custody l \<Longrightarrow> conserves l l"
  by (simp add: conserves_def)

lemma conserves_trans [trans]: "conserves l l' \<Longrightarrow> conserves l' l'' \<Longrightarrow> conserves l l''"
  by (simp add: conserves_def)

lemma conserves_same_tokens: "custody l \<Longrightarrow> same_tokens l l' \<Longrightarrow> conserves l l'"
  by (auto simp: conserves_def same_tokens_live same_tokens_def intro: same_tokens_custody)

lemma conserves_custody: "conserves l l' \<Longrightarrow> custody l'"
  by (simp add: conserves_def)

lemma custody_distinct_dir:
  assumes "custody l" and "d \<noteq> Dead_Dir"
  shows "distinct (dir_names l d)"
proof -
  have "mset (dir_names l d) \<subseteq># live_tokens l"
    using assms(2) held_by_subset
    by (cases d) (auto simp: live_tokens_def subset_mset.add_increasing)
  with assms(1) have "\<forall>n. count (mset (dir_names l d)) n \<le> 1"
    unfolding custody_def by (meson le_trans mset_subset_eq_count)
  then show ?thesis by (simp add: distinct_count_atmost_1 le_Suc_eq count_mset_0_iff)
qed

lemma move_tokens_conserves:
  assumes "move_tokens io kl s d lim ns l = (l', ms, b)" and "custody l"
    and "set ns \<subseteq> set (dir_names l s)" and "distinct ns" and "dir_exists l d"
    and "s \<noteq> d" and "s \<noteq> Dead_Dir" and "d \<noteq> Dead_Dir"
  shows "conserves l l'"
  using move_tokens_custody [OF assms] move_tokens_frame [OF assms(1)] assms(7,8)
  by (auto simp: conserves_def dest: spec [of _ Dead_Dir])

locale conserving =
  fixes run_op :: "'a \<Rightarrow> ledger \<Rightarrow> ledger"
  assumes conserves_op: "custody l \<Longrightarrow> conserves l (run_op a l)"
begin

lemma custody_run: "custody l \<Longrightarrow> custody (run_op a l)"
  using conserves_op conserves_custody by blast

lemma conserves_fold: "custody l \<Longrightarrow> conserves l (fold run_op as l)"
proof (induction as arbitrary: l)
  case Nil
  then show ?case by (simp add: conserves_refl)
next
  case (Cons a as)
  then show ?case
    using conserves_op conserves_trans custody_run by (metis fold_simps(2))
qed

lemma accounted_run: "accounted l \<Longrightarrow> accounted (run_op a l)"
  using conserves_op [of l a] by (auto simp: accounted_def conserves_def)

end

locale held_only = conserving +
  assumes free_op: "custody l \<Longrightarrow> free (run_op a l) = free l"
begin

lemma held_run: "custody l \<Longrightarrow> mset (held_names (run_op a l)) = mset (held_names l)"
  using conserves_op [of l a] free_op [of l a] by (simp add: conserves_def live_tokens_def)

end

section \<open>Returning tokens\<close>

text \<open>
  \<open>returns k l l'\<close>: tokens went from holder \<open>k\<close> to \<open>free/\<close> and nowhere else; no other holder
  lost or gained one.
\<close>

definition returns :: "name \<Rightarrow> ledger \<Rightarrow> ledger \<Rightarrow> bool" where
  "returns k l l' \<longleftrightarrow>
     conserves l l' \<and> (\<forall>k'. k' \<noteq> k \<longrightarrow> held_by k' l' = held_by k' l)
     \<and> mset (held_by k l') \<subseteq># mset (held_by k l)
     \<and> mset (free l') + mset (held_by k l') = mset (free l) + mset (held_by k l)"

lemma returns_refl: "custody l \<Longrightarrow> returns k l l"
  by (simp add: returns_def conserves_refl)

lemma returns_same_tokens: "custody l \<Longrightarrow> same_tokens l l' \<Longrightarrow> returns k l l'"
  by (simp add: returns_def conserves_same_tokens) (simp add: same_tokens_def)

lemma returns_trans [trans]: "returns k l l' \<Longrightarrow> returns k l' l'' \<Longrightarrow> returns k l l''"
  by (auto simp: returns_def intro: conserves_trans subset_mset.order_trans)

lemma returns_custody: "returns k l l' \<Longrightarrow> custody l'"
  by (simp add: returns_def conserves_def)

lemma move_to_free_returns:
  assumes "move_tokens io kl (Held_Dir k) Free_Dir lim ns l = (l', ms, b)" and "custody l"
    and "set ns \<subseteq> set (held_by k l)" and "distinct ns"
  shows "returns k l l'"
proof -
  have "conserves l l'"
    using assms by (intro move_tokens_conserves [OF assms(1)]) simp_all
  moreover have *: "mset (dir_names l' (Held_Dir k)) + mset ms = mset (dir_names l (Held_Dir k))"
    "mset (dir_names l' Free_Dir) = mset (dir_names l Free_Dir) + mset ms"
    "\<forall>e. e \<noteq> Held_Dir k \<longrightarrow> e \<noteq> Free_Dir \<longrightarrow> dir_names l' e = dir_names l e"
    using move_tokens_custody [OF assms(1,2)] assms(3,4) by simp_all
  moreover have "held_by k' l' = held_by k' l" if "k' \<noteq> k" for k'
    using *(3) that by (metis dir.distinct(1) dir.inject dir_names.simps(2))
  moreover have "mset (held_by k l') \<subseteq># mset (held_by k l)"
    using *(1) by (metis dir_names.simps(2) mset_subset_eq_add_left)
  ultimately show ?thesis
    by (simp add: returns_def union_ac)
qed

lemma empty_into_free_returns:
  assumes "custody l"
  shows "returns k l (snd (empty_into_free io k l))"
proof (cases "holder_of k l")
  case None
  with assms show ?thesis by (simp add: empty_into_free_def returns_refl)
next
  case (Some h)
  obtain l' ms b where mv: "move_tokens io False (Held_Dir k) Free_Dir (length (tokens h))
      (sort (tokens h)) l = (l', ms, b)"
    by (cases "move_tokens io False (Held_Dir k) Free_Dir (length (tokens h)) (sort (tokens h)) l")
  have "distinct (held_by k l)"
    using custody_distinct_dir [OF assms, of "Held_Dir k"] by simp
  then have r: "returns k l l'"
    using assms Some by (intro move_to_free_returns [OF mv]) (simp_all add: held_by_def)
  have u: "returns k l' (snd (unlink_metadata io k l'))"
    using r returns_custody same_tokens_unlink_metadata by (blast intro: returns_same_tokens)
  have d: "returns k (snd (unlink_metadata io k l'))
      (rmdir_holder io k (snd (unlink_metadata io k l')))"
    using u returns_custody by (blast intro: returns_same_tokens same_tokens_rmdir)
  show ?thesis
    using Some mv r returns_trans [OF r u] returns_trans [OF returns_trans [OF r u] d]
    by (auto simp: empty_into_free_def split: prod.splits sum.splits)
qed

lemma drop_empty_holder_same:
  assumes "custody l"
  shows "same_tokens l (drop_empty_holder io k l)"
proof -
  let ?u = "snd (unlink_metadata io k l)"
  have u: "same_tokens l ?u" by (rule same_tokens_unlink_metadata)
  with assms have "same_tokens ?u (rmdir_holder io k ?u)"
    by (intro same_tokens_rmdir) (rule same_tokens_custody)
  with u show ?thesis
    by (auto simp: drop_empty_holder_def intro: same_tokens_trans split: prod.splits sum.splits)
qed

lemma release_count_loop_returns:
  "custody l \<Longrightarrow> returns k l (fst (release_count_loop io k cs l))"
proof (induction cs arbitrary: l)
  case Nil
  then show ?case by (simp add: returns_refl)
next
  case (Cons c cs)
  obtain kind want where c: "c = (kind, want)" by (cases c)
  show ?case
  proof (cases "want \<le> 0")
    case True
    with Cons c show ?thesis by simp
  next
    case False
    let ?ts = "sort (filter (matches_kind kind) (held_by k l))"
    obtain l' ms b where mv: "move_tokens io False (Held_Dir k) Free_Dir (nat want) ?ts l = (l', ms, b)"
      by (cases "move_tokens io False (Held_Dir k) Free_Dir (nat want) ?ts l")
    have "distinct (held_by k l)"
      using custody_distinct_dir [OF Cons.prems, of "Held_Dir k"] by simp
    then have r: "returns k l l'"
      using Cons.prems by (intro move_to_free_returns [OF mv]) auto
    have "returns k l' (fst (release_count_loop io k cs l'))"
      using r returns_custody by (intro Cons.IH)
    with r False c mv show ?thesis
      by (auto intro: returns_trans split: prod.splits)
  qed
qed

lemma release_count_returns:
  assumes "custody l"
  shows "returns k l (fst (release_count io k cs l))"
proof -
  let ?l = "fst (release_count_loop io k (sorted_items cs) l)"
  have r: "returns k l ?l" using assms by (rule release_count_loop_returns)
  then have "returns k ?l (drop_empty_holder io k ?l)"
    by (metis drop_empty_holder_same returns_custody returns_same_tokens)
  with r assms show ?thesis
    by (auto simp: release_count_def returns_refl intro: returns_trans split: prod.splits)
qed

lemma release_filtered_returns:
  assumes "custody l"
  shows "returns k l (fst (move_tokens io False (Held_Dir k) Free_Dir lim
    (sort (filter P (held_by k l))) l))"
proof -
  obtain l' ms b where mv: "move_tokens io False (Held_Dir k) Free_Dir lim
      (sort (filter P (held_by k l))) l = (l', ms, b)"
    by (cases "move_tokens io False (Held_Dir k) Free_Dir lim (sort (filter P (held_by k l))) l")
  have "distinct (held_by k l)"
    using custody_distinct_dir [OF assms, of "Held_Dir k"] by simp
  then have "returns k l l'"
    using assms by (intro move_to_free_returns [OF mv]) auto
  with mv show ?thesis by simp
qed

lemma release_kinds_returns: "custody l \<Longrightarrow> returns k l (fst (release_kinds io k kinds l))"
  using release_filtered_returns [of l k io _ "\<lambda>n. kind_of n \<in> set kinds"]
  by (auto simp: release_kinds_def Let_def returns_refl split: prod.splits) (metis fst_conv)

lemma release_except_returns: "custody l \<Longrightarrow> returns k l (fst (release_except io k keep l))"
  using release_filtered_returns [of l k io _ "\<lambda>n. n \<notin> set keep"]
  by (auto simp: release_except_def Let_def returns_refl split: prod.splits) (metis fst_conv)

lemmas returning =
  empty_into_free_returns release_count_returns release_kinds_returns release_except_returns

interpretation rel: conserving "\<lambda>(io, k) l. snd (release io k l)"
  by unfold_locales (use empty_into_free_returns in \<open>auto simp: release_def returns_def\<close>)

interpretation aba: conserving "\<lambda>(io, k) l. snd (abandon_acquire io k l)"
  by unfold_locales (use empty_into_free_returns in \<open>auto simp: abandon_acquire_def returns_def\<close>)

interpretation relc: conserving "\<lambda>(io, k, cs) l. fst (release_count io k cs l)"
  by unfold_locales (use release_count_returns in \<open>auto simp: returns_def\<close>)

interpretation relk: conserving "\<lambda>(io, k, ks) l. fst (release_kinds io k ks l)"
  by unfold_locales (use release_kinds_returns in \<open>auto simp: returns_def\<close>)

interpretation relx: conserving "\<lambda>(io, k, ks) l. fst (release_except io k ks l)"
  by unfold_locales (use release_except_returns in \<open>auto simp: returns_def\<close>)

section \<open>Moving tokens between holders\<close>

definition shifts :: "ledger \<Rightarrow> ledger \<Rightarrow> bool" where
  "shifts l l' \<longleftrightarrow> conserves l l' \<and> free l' = free l"

lemma shifts_refl: "custody l \<Longrightarrow> shifts l l"
  by (simp add: shifts_def conserves_refl)

lemma shifts_trans [trans]: "shifts l l' \<Longrightarrow> shifts l' l'' \<Longrightarrow> shifts l l''"
  by (auto simp: shifts_def intro: conserves_trans)

lemma shifts_same_tokens: "custody l \<Longrightarrow> same_tokens l l' \<Longrightarrow> shifts l l'"
  by (simp add: shifts_def conserves_same_tokens) (simp add: same_tokens_def)

lemma shifts_custody: "shifts l l' \<Longrightarrow> custody l'"
  by (simp add: shifts_def conserves_def)

lemma move_tokens_self:
  "set ns \<subseteq> set (dir_names l s) \<Longrightarrow> move_tokens io True s s lim ns l = (l, [], False)"
  by (induction ns) auto

lemma move_between_shifts:
  assumes "move_tokens io True (Held_Dir a) (Held_Dir b) lim ns l = (l', ms, bad)" and "custody l"
    and "set ns \<subseteq> set (held_by a l)" and "distinct ns" and "dir_exists l (Held_Dir b)"
  shows "shifts l l'"
proof (cases "a = b")
  case True
  with assms show ?thesis by (simp add: move_tokens_self shifts_refl)
next
  case False
  with assms have "conserves l l'"
    by (intro move_tokens_conserves [OF assms(1)]) simp_all
  moreover have "dir_names l' Free_Dir = dir_names l Free_Dir"
    using move_tokens_custody [OF assms(1,2)] assms(3-5) False
    by (simp del: dir_names.simps add: dir_names.simps(2))
  ultimately show ?thesis by (simp add: shifts_def)
qed

text \<open>The whole move of a reservation: directory, metadata, tokens, source directory.\<close>

lemma move_reservation_shifts:
  assumes "custody l" and "holder_of a l = Some h"
    and "l1 = mkdir_holder b l" and "l2 = fst (move_cpu_metadata io a b l1)"
    and "l3 = fst (move_gpu_metadata io a b l2)"
    and "move_tokens io True (Held_Dir a) (Held_Dir b) lim (sort (tokens h)) l3 = (l4, ms, bad)"
  shows "shifts l (rmdir_holder io a l4)"
proof -
  have "same_tokens l l1" by (simp add: assms(3) same_tokens_mkdir)
  also have "same_tokens l1 l2" by (simp add: assms(4) same_tokens_cpu_metadata)
  also have "same_tokens l2 l3" by (simp add: assms(5) same_tokens_gpu_metadata)
  finally have st: "same_tokens l l3" .
  then have c3: "custody l3" using assms(1) by (rule same_tokens_custody)
  have ts: "held_by a l3 = tokens h"
    using st assms(2) by (simp add: same_tokens_def held_by_def)
  have "distinct (tokens h)"
    using custody_distinct_dir [OF c3, of "Held_Dir a"] ts by simp
  moreover have "dir_exists l3 (Held_Dir b)"
    by (simp only: assms(3-5) dir_exists_metadata mkdir_holder_simps)
  ultimately have "shifts l3 l4"
    using c3 ts by (intro move_between_shifts [OF assms(6)]) simp_all
  then have "shifts l l4"
    using shifts_same_tokens [OF assms(1) st] by (blast intro: shifts_trans)
  then show ?thesis
    by (meson same_tokens_rmdir shifts_custody shifts_same_tokens shifts_trans)
qed

lemma commit_acquire_shifts:
  assumes "custody l"
  shows "shifts l (fst (commit_acquire io key handle l))"
proof (cases "holder_of handle l")
  case None
  with assms show ?thesis by (simp add: commit_acquire_def shifts_refl)
next
  case (Some h)
  obtain l2 c where 2: "move_cpu_metadata io handle key (mkdir_holder key l) = (l2, c)"
    by (cases "move_cpu_metadata io handle key (mkdir_holder key l)")
  obtain l3 g where 3: "move_gpu_metadata io handle key l2 = (l3, g)"
    by (cases "move_gpu_metadata io handle key l2")
  obtain l4 ms bad where 4: "move_tokens io True (Held_Dir handle) (Held_Dir key)
      (length (tokens h)) (sort (tokens h)) l3 = (l4, ms, bad)"
    by (cases "move_tokens io True (Held_Dir handle) (Held_Dir key)
      (length (tokens h)) (sort (tokens h)) l3")
  have "shifts l (rmdir_holder io handle l4)"
    by (rule move_reservation_shifts [OF assms Some refl refl _ 4]) (simp add: 2 3)
  with Some 2 3 4 show ?thesis by (simp add: commit_acquire_def Let_def)
qed

lemma transfer_shifts:
  assumes "custody l"
  shows "shifts l (snd (transfer io a b l))"
proof (cases "holder_of a l")
  case None
  with assms show ?thesis by (simp add: transfer_def shifts_refl)
next
  case (Some h)
  let ?l3 = "fst (move_gpu_metadata io a b (fst (move_cpu_metadata io a b (mkdir_holder b l))))"
  obtain l4 ms bad where 4: "move_tokens io True (Held_Dir a) (Held_Dir b)
      (length (tokens h)) (sort (tokens h)) ?l3 = (l4, ms, bad)"
    by (cases "move_tokens io True (Held_Dir a) (Held_Dir b) (length (tokens h)) (sort (tokens h)) ?l3")
  have "shifts l (rmdir_holder io a l4)"
    by (rule move_reservation_shifts [OF assms Some refl refl refl 4])
  with Some 4 assms show ?thesis by (simp add: transfer_def Let_def shifts_refl)
qed

lemma transfer_count_shifts:
  assumes "custody l"
  shows "shifts l (snd (transfer_count io a b want l))"
proof (cases "holder_of a l")
  case None
  with assms show ?thesis by (simp add: transfer_count_def shifts_refl)
next
  case (Some h)
  let ?m = "mkdir_holder b l"
  obtain l4 ms bad where 4: "move_tokens io True (Held_Dir a) (Held_Dir b) (nat want)
      (sort (tokens h)) ?m = (l4, ms, bad)"
    by (cases "move_tokens io True (Held_Dir a) (Held_Dir b) (nat want) (sort (tokens h)) ?m")
  have m: "shifts l ?m" using assms same_tokens_mkdir by (rule shifts_same_tokens)
  have ts: "held_by a ?m = tokens h" using Some by (simp only: mkdir_holder_simps) (simp add: held_by_def)
  have "distinct (held_by a ?m)"
    using custody_distinct_dir [OF shifts_custody [OF m], of "Held_Dir a"] by simp
  then have "shifts ?m l4"
    using shifts_custody [OF m] ts by (intro move_between_shifts [OF 4]) simp_all
  with m have "shifts l (rmdir_holder io a l4)"
    by (meson same_tokens_rmdir shifts_custody shifts_same_tokens shifts_trans)
  with Some 4 assms show ?thesis by (simp add: transfer_count_def shifts_refl)
qed

lemma rename_shifts:
  assumes "custody l" and "n \<in> set (held_by a l)" and "dir_exists l (Held_Dir b)" and "a \<noteq> b"
  shows "shifts l (rename_token (Held_Dir a) (Held_Dir b) n l)"
proof -
  let ?r = "rename_token (Held_Dir a) (Held_Dir b) n l"
  have "dir_names ?r Free_Dir = dir_names l Free_Dir" "dir_names ?r Dead_Dir = dir_names l Dead_Dir"
    using assms(3,4) by (simp_all add: dir_names_rename del: dir_names.simps)
  then show ?thesis
    using assms live_rename [of l n "Held_Dir a" "Held_Dir b"]
      custody_rename [of l n "Held_Dir a" "Held_Dir b"]
    by (simp add: shifts_def conserves_def)
qed

lemma transfer_tokens_loop_shifts:
  "custody l \<Longrightarrow> dir_exists l (Held_Dir b) \<Longrightarrow> a \<noteq> b \<Longrightarrow>
   shifts l (fst (transfer_tokens_loop io a b ns l))"
proof (induction ns arbitrary: l)
  case Nil
  then show ?case by (simp add: shifts_refl)
next
  case (Cons n ns)
  have keep: "shifts l (fst (transfer_tokens_loop io a b ns l))"
    using Cons by blast
  show ?case
  proof (cases "n \<notin> set (held_by b l) \<and> n \<in> set (held_by a l)
      \<and> rename_err io (Held_Dir a) (Held_Dir b) n = None")
    case True
    let ?r = "rename_token (Held_Dir a) (Held_Dir b) n l"
    have r: "shifts l ?r" using True Cons.prems by (blast intro: rename_shifts)
    have "shifts ?r (fst (transfer_tokens_loop io a b ns ?r))"
      using Cons.prems r by (intro Cons.IH) (auto dest: shifts_custody simp del: dir_exists.simps)
    with r True show ?thesis by (auto intro: shifts_trans split: prod.splits)
  next
    case False
    with keep show ?thesis by (auto split: prod.splits option.splits)
  qed
qed

lemma transfer_tokens_shifts:
  assumes "custody l"
  shows "shifts l (snd (transfer_tokens io a b ns l))"
proof (cases "a = b")
  case True
  with assms show ?thesis by (simp add: transfer_tokens_def shifts_refl)
next
  case False
  let ?m = "mkdir_holder b l"
  let ?t = "fst (transfer_tokens_loop io a b ns ?m)"
  have m: "shifts l ?m" using assms same_tokens_mkdir by (rule shifts_same_tokens)
  with False have "shifts ?m ?t"
    by (intro transfer_tokens_loop_shifts) (auto dest: shifts_custody simp del: dir_exists.simps)
  with m have "shifts l (rmdir_holder io a ?t)"
    by (meson same_tokens_rmdir shifts_custody shifts_same_tokens shifts_trans)
  with assms show ?thesis
    by (auto simp: transfer_tokens_def shifts_refl split: prod.splits)
qed

lemmas shifting =
  commit_acquire_shifts transfer_shifts transfer_count_shifts transfer_tokens_shifts

interpretation com: held_only "\<lambda>(io, k, h) l. fst (commit_acquire io k h l)"
  by unfold_locales (use commit_acquire_shifts in \<open>auto simp: shifts_def\<close>)

interpretation tra: held_only "\<lambda>(io, a, b) l. snd (transfer io a b l)"
  by unfold_locales (use transfer_shifts in \<open>auto simp: shifts_def\<close>)

interpretation trc: held_only "\<lambda>(io, a, b, c) l. snd (transfer_count io a b c l)"
  by unfold_locales (use transfer_count_shifts in \<open>auto simp: shifts_def\<close>)

interpretation trt: held_only "\<lambda>(io, a, b, ns) l. snd (transfer_tokens io a b ns l)"
  by unfold_locales (use transfer_tokens_shifts in \<open>auto simp: shifts_def\<close>)

end
