(* ===== verification/Ledger_Acquire.thy ===== *)
theory Ledger_Acquire
  imports Ledger_Moves
begin

text \<open>
  Admission: taking a whole demand out of \<open>free/\<close> into a directory only the claimant owns
  (\<open>begin_acquire\<close>), the CPU seating it records there, and what recovers a claimant that died
  before its commit (\<open>sweep_stale_acquisitions\<close>). The floor gate of \<open>filesystem_floor.py\<close> and
  the state of the mutation lock enter as the answers they give.
\<close>

section \<open>CPU tokens and CPUs\<close>

text \<open>The topology: the CPUs of the preferred tier and of the fallback tier, in order.\<close>

type_synonym tiers = allocation

definition tier_cpus :: "tiers \<Rightarrow> nat list" where
  "tier_cpus t = al_preferred t @ al_fallback t"

text \<open>
  \<open>configure_cpu_tiers\<close>, on what \<open>cpu-map.json\<close> holds and on the number of CPU tokens held: the
  answer, and what the file holds afterwards.
\<close>

definition configure_cpu_tiers ::
  "tiers \<Rightarrow> bool \<Rightarrow> nat \<Rightarrow> tiers option \<Rightarrow> tiers option result \<times> tiers option" where
  "configure_cpu_tiers t initialize held_cpu existing =
     (if tier_cpus t = [] \<or> \<not> distinct (tier_cpus t) then (Inl PoolContractError, existing)
      else case existing of
        None \<Rightarrow>
          if \<not> initialize then (Inr None, None)
          else if held_cpu \<noteq> 0 then (Inl PoolContractError, None)
          else (Inr (Some t), Some t)
      | Some m \<Rightarrow>
          if m \<noteq> t then (Inl PoolContractError, Some m) else (Inr (Some t), Some m))"

text \<open>\<open>cpu_ids\<close>: the suffix of a token is an ordinal into \<open>preferred + fallback\<close>.\<close>

fun cpu_ids :: "nat list \<Rightarrow> name list \<Rightarrow> nat list result" where
  "cpu_ids ordered [] = Inr []"
| "cpu_ids ordered (n # ns) =
     (case ordinal_of n of
        None \<Rightarrow> Inl ValueError
      | Some i \<Rightarrow>
          if length ordered \<le> i then Inl PoolContractError
          else (case cpu_ids ordered ns of Inl e \<Rightarrow> Inl e | Inr cs \<Rightarrow> Inr (ordered ! i # cs)))"

definition cpu_kind :: string where
  "cpu_kind = ''cpu''"

definition gpu_kind :: string where
  "gpu_kind = ''gpu''"

definition free_cpu_tokens :: "tiers option \<Rightarrow> nat list option \<Rightarrow> ledger \<Rightarrow> name list result" where
  "free_cpu_tokens t eligible l =
     (let ts = sort (filter (matches_kind cpu_kind) (free l)) in
      case eligible of
        None \<Rightarrow> Inr ts
      | Some allowed \<Rightarrow>
          (case t of
             None \<Rightarrow> Inl PoolContractError
           | Some t' \<Rightarrow>
               (case cpu_ids (tier_cpus t') ts of
                  Inl e \<Rightarrow> Inl e
                | Inr cpus \<Rightarrow> Inr (map fst (filter (\<lambda>p. snd p \<in> set allowed) (zip ts cpus))))))"

definition free_cpu_allocation ::
  "nat \<Rightarrow> tiers \<Rightarrow> nat list option \<Rightarrow> ledger \<Rightarrow> nat list option result" where
  "free_cpu_allocation need t eligible l =
     (case free_cpu_tokens (Some t) eligible l of
        Inl PoolContractError \<Rightarrow> Inr None
      | Inl e \<Rightarrow> Inl e
      | Inr ts \<Rightarrow>
          if length (take need ts) = need then
            (case cpu_ids (tier_cpus t) (take need ts) of
               Inl PoolContractError \<Rightarrow> Inr None
             | Inl e \<Rightarrow> Inl e
             | Inr cs \<Rightarrow> Inr (Some cs))
          else Inr None)"

section \<open>CPU seating\<close>

record allowance_request =
  aq_cpu :: int
  aq_slots :: int
  aq_mem_gb :: int

text \<open>
  The fields of an adaptive CPU decision the acquisition reads. \<open>ad_funded\<close> is the CPUs of a
  producer's allowance, for a dependent that runs on it.
\<close>

record adaptive =
  ad_preferred_borrow :: int
  ad_eligible_cpus :: "nat list option"
  ad_borrowing :: bool
  ad_borrowable_cpus :: "nat list"
  ad_funded :: "nat list option"
  ad_allowance :: "allowance_request option"

text \<open>
  The two borrowing loops over \<open>borrowable_cpus\<close>, one per tier: borrow a CPU of the tier that
  is not assigned yet, stop at the wanted number.
\<close>

fun borrow_loop :: "nat list \<Rightarrow> int \<Rightarrow> nat list \<Rightarrow> nat list \<Rightarrow> nat list" where
  "borrow_loop tier want assigned [] = assigned"
| "borrow_loop tier want assigned (c # cs) =
     (if c \<notin> set tier then borrow_loop tier want assigned cs
      else if want \<le> int (length assigned) then assigned
      else if c \<in> set assigned then borrow_loop tier want assigned cs
      else borrow_loop tier want (assigned @ [c]) cs)"

definition assign_cpus :: "tiers \<Rightarrow> adaptive \<Rightarrow> int \<Rightarrow> nat list \<Rightarrow> nat list result" where
  "assign_cpus t ad want own =
     (let a0 = filter (\<lambda>c. c \<in> set own) (tier_cpus t) in
      case ad_funded ad of
        Some cpus \<Rightarrow>
          let a1 = remdups (a0 @ cpus) in
          if int (length a1) \<noteq> want + int (length cpus) then Inl Insufficient else Inr a1
      | None \<Rightarrow>
          let a1 = borrow_loop (al_preferred t) want a0 (ad_borrowable_cpus ad);
              a2 = borrow_loop (al_fallback t) want a1 (ad_borrowable_cpus ad) in
          if int (length a2) \<noteq> want then Inl Insufficient else Inr a2)"

text \<open>
  The metadata \<open>.adaptive.json\<close> of one acquisition: the allocation in tier order, the number of
  borrowed CPUs, and the CPUs an export allowance keeps out of the producer's own affinity (the
  last it holds tokens for, fallback first).
\<close>

definition seat_cpus :: "tiers \<Rightarrow> adaptive \<Rightarrow> int \<Rightarrow> name list \<Rightarrow> cpu_meta result" where
  "seat_cpus t ad want cpu_tokens =
     (case cpu_ids (tier_cpus t) cpu_tokens of
        Inl e \<Rightarrow> Inl e
      | Inr own \<Rightarrow>
          (case assign_cpus t ad want own of
             Inl e \<Rightarrow> Inl e
           | Inr assigned \<Rightarrow>
               let pref = filter (\<lambda>c. c \<in> set assigned) (al_preferred t);
                   fall = filter (\<lambda>c. c \<in> set assigned) (al_fallback t);
                   borrowed = (if ad_funded ad \<noteq> None then 0
                               else max 0 (int (length assigned) - int (length cpu_tokens))) in
               (case ad_allowance ad of
                  None \<Rightarrow>
                    Inr \<lparr>cm_allocation = \<lparr>al_preferred = pref, al_fallback = fall\<rparr>,
                         cm_borrowed_cpu = borrowed, cm_allowance = None\<rparr>
                | Some aw \<Rightarrow>
                    let ordered = filter (\<lambda>c. c \<in> set own) (pref @ fall) in
                    if aq_cpu aw \<le> 0 \<or> int (length ordered) \<le> aq_cpu aw then Inl Insufficient
                    else
                      let kept = drop (length ordered - nat (aq_cpu aw)) ordered in
                      Inr \<lparr>cm_allocation =
                             \<lparr>al_preferred = filter (\<lambda>c. c \<notin> set kept) pref,
                              al_fallback = filter (\<lambda>c. c \<notin> set kept) fall\<rparr>,
                           cm_borrowed_cpu = borrowed,
                           cm_allowance =
                             Some \<lparr>aw_slots = aq_slots aw, aw_cpus = sort kept,
                                   aw_mem_gb = aq_mem_gb aw\<rparr>\<rparr>)))"

section \<open>Taking a demand\<close>

text \<open>
  The inner loop: rename free tokens into the private directory until \<open>need\<close> are taken; a token
  that has gone is skipped, any other failure ends the attempt.
\<close>

fun take_tokens ::
  "io \<Rightarrow> name \<Rightarrow> int \<Rightarrow> name list \<Rightarrow> ledger \<Rightarrow> error option \<times> ledger \<times> int" where
  "take_tokens io h need [] l = (None, l, 0)"
| "take_tokens io h need (n # ns) l =
     (if need \<le> 0 then (None, l, 0)
      else case rename_err io Free_Dir (Held_Dir h) n of
        Some e \<Rightarrow>
          if vanished e then take_tokens io h need ns l else (Some (OSError e), l, 0)
      | None \<Rightarrow>
          (case take_tokens io h (need - 1) ns (rename_token Free_Dir (Held_Dir h) n l) of
             (e, l', c) \<Rightarrow> (e, l', c + 1)))"

definition short_allowed :: "adaptive option \<Rightarrow> bool \<Rightarrow> string \<Rightarrow> bool" where
  "short_allowed ad probe kind \<longleftrightarrow>
     (kind = cpu_kind \<and> (case ad of None \<Rightarrow> False | Some a \<Rightarrow> ad_borrowing a)) \<or> (kind = gpu_kind \<and> probe)"

definition physical_need :: "adaptive option \<Rightarrow> string \<Rightarrow> int \<Rightarrow> int" where
  "physical_need ad kind need =
     (case ad of Some a \<Rightarrow> if kind = cpu_kind then need - ad_preferred_borrow a else need
      | None \<Rightarrow> need)"

fun take_kinds ::
  "io \<Rightarrow> name \<Rightarrow> adaptive option \<Rightarrow> tiers option \<Rightarrow> bool \<Rightarrow> (string, int) dict \<Rightarrow> ledger
     \<Rightarrow> error option \<times> ledger" where
  "take_kinds io h ad t probe [] l = (None, l)"
| "take_kinds io h ad t probe ((kind, need0) # rest) l =
     (let need = physical_need ad kind need0 in
      case (if kind = cpu_kind
            then free_cpu_tokens t (case ad of None \<Rightarrow> None | Some a \<Rightarrow> ad_eligible_cpus a) l
            else Inr (sort (filter (matches_kind kind) (free l)))) of
        Inl e \<Rightarrow> (Some e, l)
      | Inr ts \<Rightarrow>
          (case take_tokens io h need ts l of
             (Some e, l', _) \<Rightarrow> (Some e, l')
           | (None, l', taken) \<Rightarrow>
               if taken < need \<and> \<not> short_allowed ad probe kind then
                 (Some Insufficient,
                  l'\<lparr>last_shortage :=
                       Some \<lparr>sh_resource = kind, sh_requested = need, sh_available = taken\<rparr>\<rparr>)
               else take_kinds io h ad t probe rest l'))"

text \<open>The GPU metadata: how many wanted devices the holder has no token for.\<close>

definition write_gpu_metadata ::
  "io \<Rightarrow> name \<Rightarrow> bool \<Rightarrow> int \<Rightarrow> ledger \<Rightarrow> error option \<times> ledger" where
  "write_gpu_metadata io h adaptive_gpu want l =
     (if \<not> adaptive_gpu then (None, l)
      else if write_err io gpu_metadata_name then (Some (OSError EIO), l)
      else case holder_of h l of
        None \<Rightarrow> (None, l)
      | Some hh \<Rightarrow>
          (None, set_holder h
             (hh\<lparr>gpu_md := Some \<lparr>gm_borrowed_gpu =
                max 0 (want - int (length (filter (matches_kind gpu_kind) (tokens hh))))\<rparr>\<rparr>) l))"

definition write_cpu_metadata ::
  "io \<Rightarrow> name \<Rightarrow> adaptive option \<Rightarrow> tiers option \<Rightarrow> int \<Rightarrow> ledger \<Rightarrow> error option \<times> ledger" where
  "write_cpu_metadata io h ad t want l =
     (case (ad, t) of
        (Some a, Some t') \<Rightarrow>
          (case seat_cpus t' a want (sort (filter (matches_kind cpu_kind) (held_by h l))) of
             Inl e \<Rightarrow> (Some e, l)
           | Inr m \<Rightarrow>
               if write_err io cpu_metadata_name then (Some (OSError EIO), l)
               else (case holder_of h l of
                       None \<Rightarrow> (None, l)
                     | Some hh \<Rightarrow> (None, set_holder h (hh\<lparr>cpu_md := Some m\<rparr>) l)))
      | _ \<Rightarrow> (None, l))"

text \<open>
  Every ending that is not success empties the private directory back into \<open>free/\<close>; only the
  shortage the code authors itself is an answer, every other exception goes on.
\<close>

definition roll_back :: "io \<Rightarrow> name \<Rightarrow> error \<Rightarrow> ledger \<Rightarrow> name option result \<times> ledger" where
  "roll_back io h e l =
     (case empty_into_free io h l of
        (Inl e', l') \<Rightarrow> (Inl e', l')
      | (Inr _, l') \<Rightarrow> (if e = Insufficient then Inr None else Inl e, l'))"

definition wanted_of :: "(string, int) dict \<Rightarrow> (string, int) dict" where
  "wanted_of demand = filter (\<lambda>p. 0 < snd p) demand"

definition begin_acquire_locked ::
  "io \<Rightarrow> claimant \<Rightarrow> name \<Rightarrow> (string, int) dict \<Rightarrow> adaptive option \<Rightarrow> tiers option
     \<Rightarrow> bool option \<Rightarrow> ledger \<Rightarrow> name option result \<times> ledger" where
  "begin_acquire_locked io c key demand ad t adaptive_gpu l =
     (let l0 = l\<lparr>last_shortage := None\<rparr>;
          wanted = wanted_of demand;
          h = acquisition_handle c key;
          funded = (case ad of None \<Rightarrow> None | Some a \<Rightarrow> ad_funded a) in
      if wanted = [] \<and> funded = None then (Inr (Some h), l0)
      else case take_kinds io h ad t (adaptive_gpu = Some True) (sorted_items wanted)
                  (mkdir_holder h l0) of
        (Some e, l1) \<Rightarrow> roll_back io h e l1
      | (None, l1) \<Rightarrow>
          (case write_gpu_metadata io h (adaptive_gpu \<noteq> None) (dict_get wanted gpu_kind 0) l1 of
             (Some e, l2) \<Rightarrow> roll_back io h e l2
           | (None, l2) \<Rightarrow>
               (case write_cpu_metadata io h ad t (dict_get wanted cpu_kind 0) l2 of
                  (Some e, l3) \<Rightarrow> roll_back io h e l3
                | (None, l3) \<Rightarrow> (Inr (Some h), l3))))"

text \<open>What the used-filesystem floor answers (\<open>filesystem_floor.ledger_gate\<close>).\<close>

datatype floor_gate =
    Gate_None
  | Gate_Unreadable (gate_enforced: bool)
  | Gate_Refused shortage
  | Gate_Allowed

definition refuse :: "shortage \<Rightarrow> ledger \<Rightarrow> name option result \<times> ledger" where
  "refuse s l = (Inr None, l\<lparr>last_shortage := Some s\<rparr>)"

definition lock_busy :: shortage where
  "lock_busy = \<lparr>sh_resource = ''ledger_lock'', sh_requested = 0, sh_available = 0\<rparr>"

definition floor_unreadable :: shortage where
  "floor_unreadable = \<lparr>sh_resource = ''filesystem_floor'', sh_requested = 0, sh_available = 0\<rparr>"

definition begin_acquire ::
  "floor_gate \<Rightarrow> bool \<Rightarrow> io \<Rightarrow> claimant \<Rightarrow> name \<Rightarrow> (string, int) dict \<Rightarrow> adaptive option
     \<Rightarrow> tiers option \<Rightarrow> bool option \<Rightarrow> ledger \<Rightarrow> name option result \<times> ledger" where
  "begin_acquire gate acquired io c key demand ad t adaptive_gpu l =
     (case gate of
        Gate_Unreadable True \<Rightarrow> refuse floor_unreadable l
      | Gate_Refused s \<Rightarrow> if acquired then refuse s l else refuse lock_busy l
      | _ \<Rightarrow>
          if acquired then begin_acquire_locked io c key demand ad t adaptive_gpu l
          else refuse lock_busy l)"

text \<open>\<open>acquire\<close>: begin and commit under one retained exclusion.\<close>

definition acquire ::
  "floor_gate \<Rightarrow> bool \<Rightarrow> io \<Rightarrow> claimant \<Rightarrow> name \<Rightarrow> (string, int) dict \<Rightarrow> ledger
     \<Rightarrow> bool result \<times> ledger" where
  "acquire gate acquired io c key demand l =
     (if \<not> acquired then (Inr False, l)
      else case begin_acquire gate True io c key demand None None None l of
        (Inl e, l1) \<Rightarrow> (Inl e, l1)
      | (Inr None, l1) \<Rightarrow> (Inr False, l1)
      | (Inr (Some h), l1) \<Rightarrow>
          (case commit_acquire io key h l1 of
             (l2, moved, _) \<Rightarrow>
               if moved < sum_list (map snd (wanted_of demand)) then
                 (case abandon_acquire io h l2 of
                    (Inl e, l3) \<Rightarrow> (Inl e, l3)
                  | (Inr _, l3) \<Rightarrow>
                      (case release io key l3 of
                         (Inl e, l4) \<Rightarrow> (Inl e, l4)
                       | (Inr _, l4) \<Rightarrow> (Inr False, l4)))
               else (Inr True, l2)))"

section \<open>Recovering dead claimants\<close>

text \<open>
  \<open>sweep_stale_acquisitions\<close>, times in microseconds: a private directory is emptied once it is
  older than the grace, or than a heartbeat when its claimant was on this host and is gone.
\<close>

definition heartbeat_us :: int where
  "heartbeat_us = 30 * 1000000"

definition stale_bound :: "int \<Rightarrow> string \<Rightarrow> (nat \<Rightarrow> bool) \<Rightarrow> name \<Rightarrow> int" where
  "stale_bound grace local alive n =
     (case acquisition_claimant n of
        Some (host, pid) \<Rightarrow> if host = local \<and> \<not> alive pid then min grace heartbeat_us else grace
      | None \<Rightarrow> grace)"

definition stale_acquisition ::
  "int \<Rightarrow> int \<Rightarrow> string \<Rightarrow> (nat \<Rightarrow> bool) \<Rightarrow> (name \<Rightarrow> int option) \<Rightarrow> name \<Rightarrow> bool" where
  "stale_acquisition now grace local alive mtime n \<longleftrightarrow>
     is_private_holder n
     \<and> (case acquisition_clock mtime n of
          None \<Rightarrow> False
        | Some started \<Rightarrow> stale_bound grace local alive n < now - started)"

fun sweep_loop ::
  "io \<Rightarrow> (name \<Rightarrow> bool) \<Rightarrow> name list \<Rightarrow> ledger \<Rightarrow> name list result \<times> ledger" where
  "sweep_loop io stale [] l = (Inr [], l)"
| "sweep_loop io stale (n # ns) l =
     (if \<not> stale n then sweep_loop io stale ns l
      else case empty_into_free io n l of
        (Inl e, l') \<Rightarrow> (Inl e, l')
      | (Inr _, l') \<Rightarrow>
          (case sweep_loop io stale ns l' of
             (Inl e, l'') \<Rightarrow> (Inl e, l'')
           | (Inr swept, l'') \<Rightarrow> (Inr (n # swept), l'')))"

definition sweep_stale_acquisitions ::
  "io \<Rightarrow> int \<Rightarrow> int \<Rightarrow> string \<Rightarrow> (nat \<Rightarrow> bool) \<Rightarrow> (name \<Rightarrow> int option) \<Rightarrow> ledger
     \<Rightarrow> name list result \<times> ledger" where
  "sweep_stale_acquisitions io now grace local alive mtime l =
     sweep_loop io (stale_acquisition now grace local alive mtime) (sort (map fst (held l))) l"

section \<open>What taking does to custody\<close>

definition takes :: "name \<Rightarrow> name list \<Rightarrow> ledger \<Rightarrow> ledger \<Rightarrow> bool" where
  "takes h ms l l' \<longleftrightarrow>
     conserves l l' \<and> dir_exists l' (Held_Dir h) \<and> (\<forall>k. k \<noteq> h \<longrightarrow> held_by k l' = held_by k l)
     \<and> mset (held_by h l') = mset (held_by h l) + mset ms
     \<and> mset (free l') + mset ms = mset (free l)"

lemma takes_refl: "custody l \<Longrightarrow> dir_exists l (Held_Dir h) \<Longrightarrow> takes h [] l l"
  by (simp add: takes_def conserves_refl)

lemma takes_trans:
  "takes h ms l l' \<Longrightarrow> takes h ms' l' l'' \<Longrightarrow> takes h (ms @ ms') l l''"
  by (auto simp: takes_def union_ac intro: conserves_trans)

lemma takes_custody: "takes h ms l l' \<Longrightarrow> custody l'"
  by (simp add: takes_def conserves_def)

lemma takes_exists: "takes h ms l l' \<Longrightarrow> dir_exists l' (Held_Dir h)"
  by (simp add: takes_def)

lemma rename_takes:
  assumes "custody l" and "dir_exists l (Held_Dir h)" and "n \<in> set (free l)"
  shows "takes h [n] l (rename_token Free_Dir (Held_Dir h) n l)"
proof -
  let ?r = "rename_token Free_Dir (Held_Dir h) n l"
  have gone: "n \<notin> set (held_by h l)"
    using custody_gone [OF assms(1), of n Free_Dir] dir_names_live [of n "take_out Free_Dir n l" "Held_Dir h"]
      assms(3) by auto
  have names: "dir_names ?r e =
      (if e = Held_Dir h then List.insert n (dir_names l (Held_Dir h))
       else if e = Free_Dir then remove1 n (dir_names l Free_Dir) else dir_names l e)" for e
    using assms(2) by (rule dir_names_rename) simp
  have "held_by k ?r = held_by k l" if "k \<noteq> h" for k
    using names [of "Held_Dir k"] that by simp
  moreover have "mset (held_by h ?r) = add_mset n (mset (held_by h l))"
    using names [of "Held_Dir h"] gone by (simp add: List.insert_def)
  moreover have "mset (free ?r) = mset (free l) - {#n#}"
    using names [of Free_Dir] by simp
  moreover have "dead ?r = dead l"
    using names [of Dead_Dir] by simp
  moreover have "dir_exists ?r (Held_Dir h)"
    using assms(2) by (simp only: rename_fields)
  ultimately show ?thesis
    using assms live_rename [of l n Free_Dir "Held_Dir h"] custody_rename [of l n Free_Dir "Held_Dir h"]
    by (simp add: takes_def conserves_def del: dir_exists.simps)
qed

lemma take_tokens_takes:
  "take_tokens io h need ns l = (e, l', c) \<Longrightarrow> custody l \<Longrightarrow> dir_exists l (Held_Dir h) \<Longrightarrow>
   set ns \<subseteq> set (free l) \<Longrightarrow> distinct ns \<Longrightarrow>
   \<exists>ms. set ms \<subseteq> set ns \<and> c = int (length ms) \<and> c \<le> max 0 need \<and> takes h ms l l'"
proof (induction ns arbitrary: need l e l' c)
  case Nil
  then show ?case by (auto intro!: exI [of _ "[]"] takes_refl)
next
  case (Cons n ns)
  show ?case
  proof (cases "need \<le> 0")
    case True
    with Cons.prems show ?thesis by (auto intro!: exI [of _ "[]"] takes_refl)
  next
    case pos: False
    show ?thesis
    proof (cases "rename_err io Free_Dir (Held_Dir h) n")
      case None
      let ?r = "rename_token Free_Dir (Held_Dir h) n l"
      have r: "takes h [n] l ?r" using Cons.prems by (intro rename_takes) simp_all
      from None pos Cons.prems(1) obtain c' where
        *: "take_tokens io h (need - 1) ns ?r = (e, l', c')" "c = c' + 1"
        by (auto split: prod.splits)
      have "set ns \<subseteq> set (free ?r)"
      proof
        fix m assume "m \<in> set ns"
        with Cons.prems have "m \<noteq> n" "m \<in> set (free l)" by auto
        moreover have "set_mset (mset (free ?r) + mset [n]) = set_mset (mset (free l))"
          using r unfolding takes_def by metis
        ultimately show "m \<in> set (free ?r)" by auto
      qed
      then obtain ms where ms: "set ms \<subseteq> set ns" "c' = int (length ms)" "c' \<le> max 0 (need - 1)"
        "takes h ms ?r l'"
        using Cons.IH [OF *(1)] r Cons.prems(5) takes_custody takes_exists by auto
      have "takes h ([n] @ ms) l l'" using r ms(4) by (rule takes_trans)
      with ms *(2) pos show ?thesis by (intro exI [of _ "n # ms"]) auto
    next
      case (Some er)
      show ?thesis
      proof (cases "vanished er")
        case True
        with Some pos Cons.prems(1) have "take_tokens io h need ns l = (e, l', c)" by simp
        from Cons.IH [OF this] Cons.prems show ?thesis by (auto simp del: dir_exists.simps)
      next
        case False
        with Some pos Cons.prems(1) have "l' = l" "c = 0" by auto
        with Cons.prems show ?thesis by (intro exI [of _ "[]"]) (simp add: takes_refl)
      qed
    qed
  qed
qed

lemma custody_distinct_free: "custody l \<Longrightarrow> distinct (free l)"
  using custody_distinct_dir [of l Free_Dir] by simp

lemma free_cpu_tokens_sub:
  assumes "free_cpu_tokens t el l = Inr ts"
  shows "set ts \<subseteq> set (filter (matches_kind cpu_kind) (free l))"
    and "distinct (free l) \<Longrightarrow> distinct ts"
proof -
  let ?all = "sort (filter (matches_kind cpu_kind) (free l))"
  have "ts = ?all \<or> (\<exists>P (cs :: nat list). ts = map fst (filter P (zip ?all cs)))"
  proof (cases el)
    case None
    with assms show ?thesis by (simp add: free_cpu_tokens_def)
  next
    case (Some allowed)
    with assms obtain cpus where
      "ts = map fst (filter (\<lambda>p. snd p \<in> set allowed) (zip ?all cpus))"
      by (auto simp: free_cpu_tokens_def Let_def split: option.splits sum.splits)
    then show ?thesis by blast
  qed
  then obtain P and cs :: "nat list" where *: "ts = ?all \<or> ts = map fst (filter P (zip ?all cs))" by blast
  have sub: "set (map fst (filter P (zip xs cs))) \<subseteq> set xs" for xs :: "name list"
    by (auto dest: set_zip_leftD)
  have dis: "distinct xs \<Longrightarrow> distinct (map fst (filter P (zip xs cs)))" for xs :: "name list"
    by (rule distinct_map_filter) (simp add: map_fst_zip_take)
  have "set ts \<subseteq> set ?all"
    using * sub [of ?all] by blast
  then show "set ts \<subseteq> set (filter (matches_kind cpu_kind) (free l))"
    by simp
  show "distinct (free l) \<Longrightarrow> distinct ts"
    using * dis [of ?all] by auto
qed

text \<open>
  What \<open>take_kinds\<close> leaves in the private directory: tokens of the asked kinds only, taken from
  \<open>free/\<close>. \<open>kinds_met\<close> says that each kind was met as far as the decision demands.
\<close>

definition kinds_met :: "adaptive option \<Rightarrow> bool \<Rightarrow> (string, int) dict \<Rightarrow> name list \<Rightarrow> bool" where
  "kinds_met ad probe wanted ms \<longleftrightarrow>
     (\<forall>(kind, need) \<in> set wanted. short_allowed ad probe kind \<or>
        physical_need ad kind need \<le> int (length (filter (matches_kind kind) ms)))"

lemma kinds_met_Cons:
  "kinds_met ad p ((k, v) # rest) ms \<longleftrightarrow>
     (short_allowed ad p k \<or> physical_need ad k v \<le> int (length (filter (matches_kind k) ms)))
     \<and> kinds_met ad p rest ms"
  by (simp add: kinds_met_def)

lemma kinds_met_append: "kinds_met ad p ws ms \<Longrightarrow> kinds_met ad p ws (ms' @ ms)"
  by (fastforce simp: kinds_met_def)

definition listing :: "adaptive option \<Rightarrow> tiers option \<Rightarrow> string \<Rightarrow> ledger \<Rightarrow> name list result" where
  "listing ad t kind l =
     (if kind = cpu_kind
      then free_cpu_tokens t (case ad of None \<Rightarrow> None | Some a \<Rightarrow> ad_eligible_cpus a) l
      else Inr (sort (filter (matches_kind kind) (free l))))"

lemma listing_sub:
  assumes "listing ad t kind l = Inr ts" and "custody l"
  shows "set ts \<subseteq> set (free l)" and "distinct ts" and "\<forall>n \<in> set ts. matches_kind kind n"
  using assms free_cpu_tokens_sub [of t _ l ts] custody_distinct_free [of l]
  by (auto simp: listing_def split: if_splits)

lemma take_kinds_takes:
  "take_kinds io h ad t p ws l = (e, l') \<Longrightarrow> custody l \<Longrightarrow> dir_exists l (Held_Dir h) \<Longrightarrow>
   \<exists>ms. takes h ms l l' \<and> (e = None \<longrightarrow> kinds_met ad p ws ms)
     \<and> int (length ms) \<le> sum_list (map (\<lambda>(k, v). max 0 (physical_need ad k v)) ws)"
proof (induction ws arbitrary: l e l')
  case Nil
  then show ?case by (auto intro!: exI [of _ "[]"] takes_refl simp: kinds_met_def)
next
  case (Cons w ws)
  obtain kind v where w: "w = (kind, v)" by (cases w)
  let ?need = "physical_need ad kind v"
  have nonneg: "0 \<le> sum_list (map (\<lambda>(k, v). max 0 (physical_need ad k v)) ws)"
    by (intro sum_list_nonneg) auto
  show ?case
  proof (cases "listing ad t kind l")
    case (Inl er)
    with Cons.prems w nonneg show ?thesis
      by (auto simp: listing_def intro!: exI [of _ "[]"] takes_refl split: if_splits)
  next
    case (Inr ts)
    note ls = listing_sub [OF Inr Cons.prems(2)]
    obtain e1 l1 c where tk: "take_tokens io h ?need ts l = (e1, l1, c)"
      by (cases "take_tokens io h ?need ts l")
    obtain ms where ms: "set ms \<subseteq> set ts" "c = int (length ms)" "c \<le> max 0 ?need" "takes h ms l l1"
      using take_tokens_takes [OF tk Cons.prems(2,3) ls(1,2)] by blast
    have all: "filter (matches_kind kind) ms = ms"
      using ms(1) ls(3) by (auto simp: filter_id_conv)
    show ?thesis
    proof (cases "e1 = None \<and> \<not> (c < ?need \<and> \<not> short_allowed ad p kind)")
      case True
      with Cons.prems(1) w Inr tk have rest: "take_kinds io h ad t p ws l1 = (e, l')"
        by (auto simp: listing_def Let_def split: if_splits)
      then obtain ms' where ms': "takes h ms' l1 l'" "e = None \<longrightarrow> kinds_met ad p ws ms'"
        "int (length ms') \<le> sum_list (map (\<lambda>(k, v). max 0 (physical_need ad k v)) ws)"
        using Cons.IH takes_custody [OF ms(4)] takes_exists [OF ms(4)] by blast
      have "takes h (ms @ ms') l l'" using ms(4) ms'(1) by (rule takes_trans)
      moreover have "e = None \<longrightarrow> kinds_met ad p (w # ws) (ms @ ms')"
        using ms'(2) True ms(2) all w kinds_met_append by (auto simp: kinds_met_Cons)
      ultimately show ?thesis
        using ms(2,3) ms'(3) w by (intro exI [of _ "ms @ ms'"]) auto
    next
      case False
      let ?s = "\<lparr>sh_resource = kind, sh_requested = ?need, sh_available = c\<rparr>"
      from False Cons.prems(1) w Inr tk have "e \<noteq> None" and
        l': "l' = l1 \<or> l' = l1\<lparr>last_shortage := Some ?s\<rparr>"
        by (auto simp: listing_def Let_def split: if_splits option.splits)
      moreover have "takes h ms l l'"
        using ms(4) l' by (auto simp: takes_def conserves_def custody_def)
      ultimately show ?thesis
        using ms(2,3) nonneg w by (intro exI [of _ ms]) auto
    qed
  qed
qed

section \<open>Admission is all or nothing\<close>

lemma write_gpu_metadata_same: "same_tokens l (snd (write_gpu_metadata io h g want l))"
  by (auto simp: write_gpu_metadata_def held_by_def intro!: same_tokens_set_holder split: option.splits)

lemma write_cpu_metadata_same: "same_tokens l (snd (write_cpu_metadata io h ad t want l))"
  by (auto simp: write_cpu_metadata_def held_by_def intro!: same_tokens_set_holder
      split: option.splits sum.splits)

lemma roll_back_returns: "custody l \<Longrightarrow> returns h l (snd (roll_back io h e l))"
  using empty_into_free_returns [of l h io]
  by (auto simp: roll_back_def split: prod.splits sum.splits)

lemma takes_same_tokens:
  "takes h ms l l' \<Longrightarrow> same_tokens l' l'' \<Longrightarrow> dir_exists l'' (Held_Dir h) \<Longrightarrow> takes h ms l l''"
  using conserves_same_tokens [of l' l'']
  by (auto simp: takes_def same_tokens_def conserves_def simp del: dir_exists.simps)

lemma write_metadata_exists [simp]:
  "dir_exists (snd (write_gpu_metadata io h g want l)) d = dir_exists l d"
  "dir_exists (snd (write_cpu_metadata io h ad t want l)) d = dir_exists l d"
  by (cases d; auto simp: write_gpu_metadata_def write_cpu_metadata_def
      split: option.splits sum.splits)+

text \<open>
  The endings of an acquisition that asked for something: the private directory holds what was
  taken, or it was rolled back.
\<close>

lemma begin_acquire_locked_cases:
  assumes "begin_acquire_locked io c key demand ad t g l = (r, l')" and "custody l"
  defines "h \<equiv> acquisition_handle c key"
  obtains (idle) "r = Inr (Some h)" "wanted_of demand = []" "l' = l\<lparr>last_shortage := None\<rparr>"
  | (taken) ms where "r = Inr (Some h)" "takes h ms (mkdir_holder h (l\<lparr>last_shortage := None\<rparr>)) l'"
      "kinds_met ad (g = Some True) (wanted_of demand) ms"
      "int (length ms) \<le> sum_list (map (\<lambda>(k, v). max 0 (physical_need ad k v))
         (sorted_items (wanted_of demand)))"
  | (rolled) ms l1 e where "r \<noteq> Inr (Some h)" "\<forall>x. r = Inr x \<longrightarrow> x = None"
      "takes h ms (mkdir_holder h (l\<lparr>last_shortage := None\<rparr>)) l1"
      "roll_back io h e l1 = (r, l')"
proof -
  let ?l0 = "l\<lparr>last_shortage := None\<rparr>"
  let ?m = "mkdir_holder h ?l0"
  let ?w = "sorted_items (wanted_of demand)"
  have c0: "custody ?l0" using assms(2) by (simp add: custody_def)
  then have cm: "custody ?m" using same_tokens_mkdir by (rule same_tokens_custody [rotated])
  have ex: "dir_exists ?m (Held_Dir h)" by (rule mkdir_holder_simps)
  show thesis
  proof (cases "wanted_of demand = [] \<and> (case ad of None \<Rightarrow> None | Some a \<Rightarrow> ad_funded a) = None")
    case True
    with assms(1) have "r = Inr (Some h)" "l' = ?l0"
      by (auto simp: begin_acquire_locked_def h_def)
    with True idle show thesis by blast
  next
    case some: False
    obtain e1 l1 where tk: "take_kinds io h ad t (g = Some True) ?w ?m = (e1, l1)"
      by (cases "take_kinds io h ad t (g = Some True) ?w ?m")
    obtain ms where ms: "takes h ms ?m l1" "e1 = None \<longrightarrow> kinds_met ad (g = Some True) ?w ms"
      "int (length ms) \<le> sum_list (map (\<lambda>(k, v). max 0 (physical_need ad k v)) ?w)"
      using take_kinds_takes [OF tk cm ex] by blast
    obtain e2 l2 where wg: "write_gpu_metadata io h (g \<noteq> None)
        (dict_get (wanted_of demand) gpu_kind 0) l1 = (e2, l2)"
      by fastforce
    obtain e3 l3 where wc: "write_cpu_metadata io h ad t
        (dict_get (wanted_of demand) cpu_kind 0) l2 = (e3, l3)"
      by fastforce
    have t2: "takes h ms ?m l2"
      using ms(1) write_gpu_metadata_same [of l1 io h "g \<noteq> None"] wg takes_exists [OF ms(1)]
        write_metadata_exists(1) by (metis snd_conv takes_same_tokens)
    have t3: "takes h ms ?m l3"
      using t2 write_cpu_metadata_same [of l2 io h ad t] wc takes_exists [OF t2]
        write_metadata_exists(2) by (metis snd_conv takes_same_tokens)
    have rb: "\<exists>r'. roll_back io h e lx = (r', snd (roll_back io h e lx)) \<and> r' \<noteq> Inr (Some h)
        \<and> (\<forall>x. r' = Inr x \<longrightarrow> x = None)" for e lx
      by (auto simp: roll_back_def split: prod.splits sum.splits)
    have run: "(r, l') = (case e1 of Some e \<Rightarrow> roll_back io h e l1 | None \<Rightarrow>
        (case e2 of Some e \<Rightarrow> roll_back io h e l2 | None \<Rightarrow>
          (case e3 of Some e \<Rightarrow> roll_back io h e l3 | None \<Rightarrow> (Inr (Some h), l3))))"
      using assms(1) some tk wg wc
      by (auto simp: begin_acquire_locked_def h_def Let_def split: option.splits)
    show thesis
    proof (cases "e1 = None \<and> e2 = None \<and> e3 = None")
      case True
      have "kinds_met ad (g = Some True) (wanted_of demand) ms"
        using ms(2) True by (simp add: kinds_met_def)
      with True run t3 ms(3) taken show thesis by auto
    next
      case False
      then obtain e lx where "roll_back io h e lx = (r, l')" "takes h ms ?m lx"
        using run ms(1) t2 t3 by (auto split: option.splits)
      with rb [of e lx] rolled show thesis by auto
    qed
  qed
qed

lemma takes_conserves_mkdir:
  assumes "takes h ms (mkdir_holder h (l\<lparr>last_shortage := None\<rparr>)) l'" and "custody l"
  shows "conserves l l'"
proof -
  have "custody (l\<lparr>last_shortage := None\<rparr>)" using assms(2) by (simp add: custody_def)
  then have "conserves (l\<lparr>last_shortage := None\<rparr>) (mkdir_holder h (l\<lparr>last_shortage := None\<rparr>))"
    using same_tokens_mkdir by (rule conserves_same_tokens)
  with assms(1) show ?thesis by (simp add: takes_def conserves_def)
qed

lemma begin_acquire_locked_conserves:
  assumes "custody l"
  shows "conserves l (snd (begin_acquire_locked io c key demand ad t g l))"
proof -
  obtain r l' where b: "begin_acquire_locked io c key demand ad t g l = (r, l')"
    by fastforce
  from b assms have "conserves l l'"
  proof (cases rule: begin_acquire_locked_cases)
    case idle
    with assms show ?thesis by (simp add: conserves_def custody_def)
  next
    case (taken ms)
    then show ?thesis using assms by (blast intro: takes_conserves_mkdir)
  next
    case (rolled ms l1 e)
    have "conserves l l1" using rolled(3) assms by (rule takes_conserves_mkdir)
    moreover have "conserves l1 l'"
      using roll_back_returns [OF conserves_custody [OF calculation], of "acquisition_handle c key" io e]
        rolled(4) by (simp add: returns_def)
    ultimately show ?thesis by (rule conserves_trans)
  qed
  with b show ?thesis by simp
qed

lemma refuse_conserves: "custody l \<Longrightarrow> conserves l (snd (refuse s l))"
  by (simp add: refuse_def conserves_def custody_def)

lemma begin_acquire_conserves:
  "custody l \<Longrightarrow> conserves l (snd (begin_acquire gate a io c key demand ad t g l))"
  using begin_acquire_locked_conserves refuse_conserves
  by (auto simp: begin_acquire_def split: floor_gate.splits bool.splits)

interpretation beg: conserving
  "\<lambda>(gate, a, io, c, key, demand, ad, t, g) l. snd (begin_acquire gate a io c key demand ad t g l)"
  by unfold_locales (use begin_acquire_conserves in auto)

lemma sweep_loop_conserves: "custody l \<Longrightarrow> conserves l (snd (sweep_loop io st ns l))"
proof (induction ns arbitrary: l)
  case Nil
  then show ?case by (simp add: conserves_refl)
next
  case (Cons n ns)
  let ?e = "snd (empty_into_free io n l)"
  have e: "conserves l ?e"
    using empty_into_free_returns [OF Cons.prems] by (simp add: returns_def)
  then have "conserves ?e (snd (sweep_loop io st ns ?e))"
    by (intro Cons.IH) (rule conserves_custody)
  with e Cons show ?case
    by (auto intro: conserves_trans split: prod.splits sum.splits)
qed

interpretation swp: conserving
  "\<lambda>(io, now, grace, local, alive, mtime) l. snd (sweep_stale_acquisitions io now grace local alive mtime l)"
  by unfold_locales (auto simp: sweep_stale_acquisitions_def sweep_loop_conserves)

lemma acquire_conserves:
  assumes "custody l"
  shows "conserves l (snd (acquire gate a io c key demand l))"
proof -
  let ?b = "begin_acquire gate True io c key demand None None None l"
  have b: "conserves l (snd ?b)" using assms by (rule begin_acquire_conserves)
  have com: "conserves (snd ?b) (fst (commit_acquire io key h (snd ?b)))" for h
    using commit_acquire_shifts [OF conserves_custody [OF b]] by (simp add: shifts_def)
  have aba: "conserves x (snd (abandon_acquire io h x))" if "custody x" for x h
    using empty_into_free_returns [OF that] by (simp add: abandon_acquire_def returns_def)
  have rel: "conserves x (snd (release io key x))" if "custody x" for x
    using empty_into_free_returns [OF that] by (simp add: release_def returns_def)
  have "conserves (snd ?b) (snd (acquire gate a io c key demand l)) \<or> snd (acquire gate a io c key demand l) = l"
  proof (cases "\<exists>h. fst ?b = Inr (Some h) \<and> a")
    case False
    then show ?thesis
      using conserves_refl [OF conserves_custody [OF b]]
      by (auto simp: acquire_def split: prod.splits sum.splits option.splits)
  next
    case True
    then obtain h l1 where h: "?b = (Inr (Some h), l1)" and a: "a" by (metis prod.collapse)
    let ?c = "fst (commit_acquire io key h l1)"
    have c: "conserves l1 ?c" using com [of h] h by simp
    have ab: "conserves ?c (snd (abandon_acquire io h ?c))"
      using conserves_custody [OF c] by (rule aba)
    have re: "conserves (snd (abandon_acquire io h ?c)) (snd (release io key (snd (abandon_acquire io h ?c))))"
      using conserves_custody [OF ab] by (rule rel)
    from h a have "snd (acquire gate a io c key demand l)
        \<in> {?c, snd (abandon_acquire io h ?c), snd (release io key (snd (abandon_acquire io h ?c)))}"
      by (auto simp: acquire_def split: prod.splits sum.splits)
    moreover have "conserves l1 (snd (abandon_acquire io h ?c))"
      using c ab by (rule conserves_trans)
    moreover have "conserves l1 (snd (release io key (snd (abandon_acquire io h ?c))))"
      using conserves_trans [OF c ab] re by (rule conserves_trans)
    ultimately show ?thesis using c h by auto
  qed
  then show ?thesis
    using conserves_trans [OF b] conserves_refl [OF assms] by (elim disjE) simp_all
qed

interpretation acq: conserving "\<lambda>(gate, a, io, c, key, demand) l. snd (acquire gate a io c key demand l)"
  by unfold_locales (use acquire_conserves in auto)

subsection \<open>A refused acquisition\<close>

lemma move_tokens_complete:
  "(\<And>n. rename_err io s d n = None) \<Longrightarrow> length ns \<le> lim \<Longrightarrow>
   \<exists>l'. move_tokens io False s d lim ns l = (l', ns, False)"
proof (induction ns arbitrary: lim l)
  case Nil
  then show ?case by simp
next
  case (Cons n ns)
  have "length ns \<le> lim - 1" using Cons.prems(2) by simp
  then obtain l' where "move_tokens io False s d (lim - 1) ns (rename_token s d n l) = (l', ns, False)"
    using Cons.IH [OF Cons.prems(1)] by blast
  with Cons.prems show ?case by (cases lim) simp_all
qed

lemma unlink_metadata_held_by: "held_by k' (snd (unlink_metadata io k l)) = held_by k' l"
  using same_tokens_unlink_metadata [of l io k] by (simp add: same_tokens_def)

lemma empty_into_free_complete:
  assumes "custody l" and "\<And>n. rename_err io (Held_Dir k) Free_Dir n = None"
  shows "held_by k (snd (empty_into_free io k l)) = []"
proof (cases "holder_of k l")
  case None
  then show ?thesis by (simp add: empty_into_free_def held_by_def)
next
  case (Some h)
  obtain l' where mv: "move_tokens io False (Held_Dir k) Free_Dir (length (tokens h))
      (sort (tokens h)) l = (l', sort (tokens h), False)"
    using move_tokens_complete [OF assms(2), of "sort (tokens h)" "length (tokens h)"] by auto
  have "distinct (tokens h)" and ts: "held_by k l = tokens h"
    using custody_distinct_dir [OF assms(1), of "Held_Dir k"] Some by (simp_all add: held_by_def)
  then have "mset (held_by k l') + mset (tokens h) = mset (tokens h)"
    using move_tokens_custody [OF mv assms(1)] by simp
  then have "held_by k l' = []" by simp
  moreover have "held_by k (snd (unlink_metadata io k l')) = held_by k l'"
    by (rule unlink_metadata_held_by)
  ultimately show ?thesis
    using Some mv by (auto simp: empty_into_free_def split: prod.splits sum.splits)
qed

lemma begin_refused_core:
  assumes "custody l" and "holder_of (acquisition_handle c key) l = None"
    and "\<And>n. rename_err io (Held_Dir (acquisition_handle c key)) Free_Dir n = None"
    and "begin_acquire gate a io c key demand ad t g l = (r, l')"
    and "r \<noteq> Inr (Some (acquisition_handle c key))"
  shows "mset (free l') = mset (free l) \<and> (\<forall>k. held_by k l' = held_by k l)"
proof (cases "\<exists>s. l' = l\<lparr>last_shortage := Some s\<rparr>")
  case True
  then show ?thesis by auto
next
  case False
  let ?h = "acquisition_handle c key"
  have b: "begin_acquire_locked io c key demand ad t g l = (r, l')"
    using assms(4) False
    by (auto simp: begin_acquire_def refuse_def split: floor_gate.splits bool.splits if_splits)
  from b assms(1) show ?thesis
  proof (cases rule: begin_acquire_locked_cases)
    case (rolled ms l1 e)
    have l1: "custody l1" using takes_custody rolled(3) .
    have r: "returns ?h l1 l'" using roll_back_returns [OF l1, of ?h io e] rolled(4) by simp
    have "l' = snd (empty_into_free io ?h l1)"
      using rolled(4) by (auto simp: roll_back_def split: prod.splits sum.splits)
    then have empty: "held_by ?h l' = []"
      using empty_into_free_complete [OF l1 assms(3)] by simp
    have h0: "held_by ?h l = []" using assms(2) by (simp add: held_by_def)
    have "mset (free l') = mset (free l)"
      using r rolled(3) empty h0 by (simp add: returns_def takes_def)
    moreover have "held_by k l' = held_by k l" for k
      using r rolled(3) empty h0 by (cases "k = ?h") (simp_all add: returns_def takes_def)
    ultimately show ?thesis by blast
  qed (use assms(5) in auto)
qed



subsection \<open>An admitted acquisition\<close>

lemma matches_kind_unique:
  assumes "matches_kind k n" and "matches_kind k' n"
    and "CHR ''-'' \<notin> set k" and "CHR ''-'' \<notin> set k'"
  shows "k = k'"
proof -
  have "takeWhile (\<lambda>x. x \<noteq> CHR ''-'') n = j" if "matches_kind j n" "CHR ''-'' \<notin> set j" for j
    using that by (auto simp: matches_kind_def startswith_iff takeWhile_neq_append)
  with assms show ?thesis by metis
qed

lemma matching_kinds_at_most_one:
  "distinct (map fst ws) \<Longrightarrow> \<forall>(k, v) \<in> set ws. CHR ''-'' \<notin> set k \<Longrightarrow>
   length (filter (\<lambda>(k, v). matches_kind k n) ws) \<le> 1"
proof (induction ws)
  case Nil
  then show ?case by simp
next
  case (Cons w ws)
  obtain k v where w: "w = (k, v)" by (cases w)
  show ?case
  proof (cases "matches_kind k n")
    case True
    have "filter (\<lambda>(k, v). matches_kind k n) ws = []"
    proof (rule filter_False, clarify)
      fix k' v' assume "(k', v') \<in> set ws" and "matches_kind k' n"
      with True Cons.prems w have "k = k'" by (intro matches_kind_unique) auto
      with \<open>(k', v') \<in> set ws\<close> Cons.prems w show False by (auto intro: rev_image_eqI)
    qed
    with w True show ?thesis by simp
  next
    case False
    with Cons w show ?thesis by simp
  qed
qed

lemma sum_matching_le:
  fixes ws :: "(string, int) dict"
  assumes "distinct (map fst ws)" and "\<forall>(k, v) \<in> set ws. CHR ''-'' \<notin> set k"
  shows "sum_list (map (\<lambda>(k, v). length (filter (matches_kind k) ms)) ws) \<le> length ms"
proof (induction ms)
  case Nil
  then show ?case by (simp add: sum_list_0 case_prod_unfold)
next
  case (Cons n ms)
  have step: "sum_list (map (\<lambda>(k, v). length (filter (matches_kind k) (n # ms))) xs)
      = length (filter (\<lambda>(k, v). matches_kind k n) xs)
        + sum_list (map (\<lambda>(k, v). length (filter (matches_kind k) ms)) xs)"
    for xs :: "(string, int) dict"
    by (induction xs) auto
  show ?case
    unfolding step using Cons.IH matching_kinds_at_most_one [OF assms, of n] by simp
qed

lemma sum_list_squeeze:
  fixes f g :: "'a \<Rightarrow> int"
  assumes "\<forall>x \<in> set xs. f x \<le> g x" and "sum_list (map g xs) \<le> sum_list (map f xs)"
  shows "\<forall>x \<in> set xs. g x = f x"
  using assms
proof (induction xs)
  case Nil
  then show ?case by simp
next
  case (Cons x xs)
  have "sum_list (map f xs) \<le> sum_list (map g xs)"
    using Cons.prems(1) by (intro sum_list_mono) simp
  with Cons show ?case by simp
qed

lemma sum_list_of_nat: "int (sum_list (map f xs)) = sum_list (map (int \<circ> f) xs)"
  by (induction xs) simp_all

lemma static_demand_exact:
  assumes "kinds_met None False ws ms" and "distinct (map fst ws)"
    and "\<forall>(k, v) \<in> set ws. CHR ''-'' \<notin> set k \<and> 0 < v"
    and "int (length ms) \<le> sum_list (map (\<lambda>(k, v). max 0 (physical_need None k v)) ws)"
  shows "\<forall>(k, v) \<in> set ws. int (length (filter (matches_kind k) ms)) = v"
    and "int (length ms) = sum_list (map snd ws)"
proof -
  let ?c = "\<lambda>(k, v :: int). int (length (filter (matches_kind k) ms))"
  have eq: "map (\<lambda>(k, v). max 0 (physical_need None k v)) ws = map snd ws"
    using assms(3) by (intro map_cong) (auto simp: physical_need_def)
  have le: "\<forall>x \<in> set ws. snd x \<le> ?c x"
    using assms(1) by (auto simp: kinds_met_def short_allowed_def physical_need_def)
  have "sum_list (map ?c ws) \<le> int (length ms)"
  proof -
    have "sum_list (map ?c ws) = int (sum_list (map (\<lambda>(k, v). length (filter (matches_kind k) ms)) ws))"
      by (simp add: sum_list_of_nat comp_def case_prod_unfold)
    also have "\<dots> \<le> int (length ms)"
      using sum_matching_le [OF assms(2), of ms] assms(3) by fastforce
    finally show ?thesis .
  qed
  with assms(4) eq have up: "sum_list (map ?c ws) \<le> sum_list (map snd ws)" by simp
  from sum_list_squeeze [OF le up]
  show "\<forall>(k, v) \<in> set ws. int (length (filter (matches_kind k) ms)) = v" by auto
  have "sum_list (map snd ws) \<le> sum_list (map ?c ws)" using le by (intro sum_list_mono) blast
  with \<open>sum_list (map ?c ws) \<le> int (length ms)\<close> assms(4) eq
  show "int (length ms) = sum_list (map snd ws)" by simp
qed

lemma wanted_of_props:
  assumes "distinct (map fst demand)"
  shows "distinct (map fst (wanted_of demand))" and "\<forall>(k, v) \<in> set (wanted_of demand). 0 < v"
  using assms by (auto simp: wanted_of_def distinct_map_filter)

text \<open>The kinds a demand may name without two of them matching one token.\<close>

definition plain_demand :: "(string, int) dict \<Rightarrow> bool" where
  "plain_demand d \<longleftrightarrow> distinct (map fst d) \<and> list_all (\<lambda>(k, v). CHR ''-'' \<notin> set k) d"

lemma plain_demand_wanted:
  assumes "plain_demand d"
  shows "distinct (map fst (wanted_of d))"
    and "\<forall>(k, v) \<in> set (wanted_of d). CHR ''-'' \<notin> set k \<and> 0 < v"
  using assms wanted_of_props [of d]
  by (auto simp: plain_demand_def list_all_iff wanted_of_def)

text \<open>
  An admitted static acquisition: what left \<open>free/\<close> is what the handle holds, and it is the
  demand, kind by kind.
\<close>

lemma begin_locked_admitted_exact:
  assumes "custody l" and "holder_of (acquisition_handle c key) l = None" and "plain_demand demand"
    and "begin_acquire_locked io c key demand None t None l = (Inr (Some h), l')"
  obtains ms where "h = acquisition_handle c key" "mset (held_by h l') = mset ms"
    "mset (free l') + mset ms = mset (free l)" "\<forall>k. k \<noteq> h \<longrightarrow> held_by k l' = held_by k l"
    "\<forall>(k, v) \<in> set (wanted_of demand). int (length (filter (matches_kind k) ms)) = v"
    "int (length ms) = sum_list (map snd (wanted_of demand))"
proof -
  let ?w = "sorted_items (wanted_of demand)"
  have plain: "distinct (map fst ?w)" "\<forall>(k, v) \<in> set ?w. CHR ''-'' \<notin> set k \<and> 0 < v"
    using plain_demand_wanted [OF assms(3)] by simp_all
  have h0: "held_by (acquisition_handle c key) l = []" using assms(2) by (simp add: held_by_def)
  from assms(4) assms(1) show thesis
  proof (cases rule: begin_acquire_locked_cases)
    case idle
    with h0 show thesis by (intro that [of "[]"]) auto
  next
    case (taken ms)
    have met: "kinds_met None False ?w ms" using taken(3) by (simp add: kinds_met_def)
    have sums: "sum_list (map snd ?w) = sum_list (map snd (wanted_of demand))"
      by (metis mset_map mset_sorted_items sum_mset_sum_list)
    from static_demand_exact [OF met plain taken(4)] sums h0 taken(1,2)
    show thesis by (intro that [of ms]) (auto simp: takes_def)
  qed auto
qed

subsection \<open>Admission is decided by the free tokens\<close>

lemma take_tokens_all:
  "(\<And>n. rename_err io Free_Dir (Held_Dir h) n = None) \<Longrightarrow>
   \<exists>l'. take_tokens io h need ns l = (None, l', min (max 0 need) (int (length ns)))"
proof (induction ns arbitrary: need l)
  case Nil
  then show ?case by simp
next
  case (Cons n ns)
  show ?case
  proof (cases "need \<le> 0")
    case True
    then show ?thesis by simp
  next
    case False
    obtain l' where "take_tokens io h (need - 1) ns (rename_token Free_Dir (Held_Dir h) n l)
        = (None, l', min (max 0 (need - 1)) (int (length ns)))"
      using Cons.IH [OF Cons.prems] by blast
    with False Cons.prems show ?thesis by auto
  qed
qed

definition free_of :: "string \<Rightarrow> ledger \<Rightarrow> int" where
  "free_of k l = int (length (filter (matches_kind k) (free l)))"

lemma free_of_takes:
  assumes "takes h ms l l'" and "\<forall>n \<in> set ms. matches_kind k n"
    and "CHR ''-'' \<notin> set k" and "CHR ''-'' \<notin> set k'" and "k \<noteq> k'"
  shows "free_of k' l' = free_of k' l"
proof -
  have "filter (matches_kind k') ms = []"
    using assms matches_kind_unique by (auto simp: filter_empty_conv)
  moreover have "mset (filter (matches_kind k') (free l')) + mset (filter (matches_kind k') ms)
      = mset (filter (matches_kind k') (free l))"
    using assms(1) by (simp add: takes_def flip: filter_union_mset)
  ultimately have "mset (filter (matches_kind k') (free l')) = mset (filter (matches_kind k') (free l))"
    by simp
  then show ?thesis
    unfolding free_of_def by (metis size_mset)
qed

lemma take_kinds_static_iff:
  assumes "\<And>n. rename_err io Free_Dir (Held_Dir h) n = None"
  shows "custody l \<Longrightarrow> dir_exists l (Held_Dir h) \<Longrightarrow> distinct (map fst ws) \<Longrightarrow>
   \<forall>(k, v) \<in> set ws. CHR ''-'' \<notin> set k \<and> 0 < v \<Longrightarrow>
   fst (take_kinds io h None t False ws l) = (if \<forall>(k, v) \<in> set ws. v \<le> free_of k l then None else Some Insufficient)"
proof (induction ws arbitrary: l)
  case Nil
  then show ?case by simp
next
  case (Cons w ws)
  obtain kind v where w: "w = (kind, v)" by (cases w)
  let ?ts = "sort (filter (matches_kind kind) (free l))"
  have ls: "listing None t kind l = Inr ?ts"
    by (simp add: listing_def free_cpu_tokens_def)
  have need: "physical_need None kind v = v" "\<not> short_allowed None False kind"
    by (simp_all add: physical_need_def short_allowed_def)
  obtain l1 where tk: "take_tokens io h v ?ts l = (None, l1, min v (free_of kind l))"
    using take_tokens_all [OF assms, of v ?ts l] Cons.prems(4) w
    by (auto simp: free_of_def max_def split: if_splits)
  have unfold: "take_kinds io h None t False (w # ws) l =
      (if min v (free_of kind l) < v then
         (Some Insufficient, l1\<lparr>last_shortage := Some \<lparr>sh_resource = kind, sh_requested = v,
            sh_available = min v (free_of kind l)\<rparr>\<rparr>)
       else take_kinds io h None t False ws l1)"
    using w tk need ls by (simp add: listing_def)
  obtain ms where ms: "set ms \<subseteq> set ?ts" "takes h ms l l1"
    using take_tokens_takes [OF tk Cons.prems(1,2)] listing_sub [OF ls Cons.prems(1)] by blast
  have same: "free_of k' l1 = free_of k' l" if "(k', v') \<in> set ws" for k' v'
    using that Cons.prems(3,4) w ms
    by (intro free_of_takes [OF ms(2), of kind]) (auto intro: rev_image_eqI)
  have "fst (take_kinds io h None t False ws l1)
      = (if \<forall>(k, v) \<in> set ws. v \<le> free_of k l1 then None else Some Insufficient)"
    using Cons.prems takes_custody [OF ms(2)] takes_exists [OF ms(2)] w
    by (intro Cons.IH) (simp_all del: dir_exists.simps)
  moreover have "(\<forall>(k, v) \<in> set ws. v \<le> free_of k l1) \<longleftrightarrow> (\<forall>(k, v) \<in> set ws. v \<le> free_of k l)"
    using same by fastforce
  ultimately show ?case
    unfolding unfold using w by (simp add: min_def)
qed

text \<open>A file system on which no rename and no metadata removal fails.\<close>

definition faultless :: "io \<Rightarrow> bool" where
  "faultless io \<longleftrightarrow> (\<forall>s d n. rename_err io s d n = None) \<and> (\<forall>k f. \<not> metadata_unlink_err io k f)"

lemma faultless_no_fault [simp]: "faultless no_fault"
  by (simp add: faultless_def no_fault_def)

lemma faultlessD:
  "faultless io \<Longrightarrow> rename_err io s d n = None" "faultless io \<Longrightarrow> \<not> metadata_unlink_err io k f"
  by (simp_all add: faultless_def)

lemma empty_into_free_ok: "faultless io \<Longrightarrow> \<exists>n. fst (empty_into_free io k l) = Inr n"
  by (auto simp: empty_into_free_def unlink_metadata_def Let_def faultless_def
      split: option.splits prod.splits)

lemma begin_locked_static_iff:
  assumes "custody l" and "plain_demand demand" and "faultless io"
  shows "fst (begin_acquire_locked io c key demand None t None l) =
    (if \<forall>(k, v) \<in> set demand. v \<le> free_of k l then Inr (Some (acquisition_handle c key)) else Inr None)"
proof -
  let ?h = "acquisition_handle c key" and ?w = "sorted_items (wanted_of demand)"
  let ?m = "mkdir_holder ?h (l\<lparr>last_shortage := None\<rparr>)"
  have plain: "distinct (map fst ?w)" "\<forall>(k, v) \<in> set ?w. CHR ''-'' \<notin> set k \<and> 0 < v"
    using plain_demand_wanted [OF assms(2)] by simp_all
  have "custody (l\<lparr>last_shortage := None\<rparr>)" using assms(1) by (simp add: custody_def)
  then have cm: "custody ?m" using same_tokens_mkdir by (rule same_tokens_custody [rotated])
  have "(v \<le> free_of k l) = (0 < v \<longrightarrow> v \<le> free_of k l)" for k v
    by (auto simp: free_of_def)
  then have all: "(\<forall>(k, v) \<in> set ?w. v \<le> free_of k ?m) = (\<forall>(k, v) \<in> set demand. v \<le> free_of k l)"
    by (fastforce simp: wanted_of_def free_of_def)
  have tk: "fst (take_kinds io ?h None t False ?w ?m)
      = (if \<forall>(k, v) \<in> set demand. v \<le> free_of k l then None else Some Insufficient)"
    using take_kinds_static_iff [OF faultlessD(1) [OF assms(3)] cm mkdir_holder_simps(7) plain]
    by (simp only: all)
  have "fst (roll_back io ?h Insufficient x) = Inr None" for x
    using empty_into_free_ok [OF assms(3), of ?h x]
    by (auto simp: roll_back_def split: prod.splits sum.splits)
  moreover have "wanted_of demand = [] \<Longrightarrow> \<forall>(k, v) \<in> set demand. v \<le> free_of k l"
    using all by simp
  ultimately show ?thesis
    using tk by (auto simp: begin_acquire_locked_def Let_def write_gpu_metadata_def
        write_cpu_metadata_def split: prod.splits if_splits)
qed

text \<open>
  on an ordinary demand (distinct kinds without dashes, no adaptive decision, a file system
  that does its renames) the acquisition succeeds exactly when every kind has enough free
  tokens. On success the private handle holds exactly the demanded number of each kind and
  nothing more has left \<open>free/\<close>; no other holder changes.
\<close>

theorem begin_acquire_admits_iff:
  assumes "custody l" and "plain_demand demand" and "faultless io"
    and "holder_of (acquisition_handle c key) l = None"
  shows "fst (begin_acquire Gate_None True io c key demand None t None l) =
      (if \<forall>(k, v) \<in> set demand. v \<le> free_of k l
       then Inr (Some (acquisition_handle c key)) else Inr None)
    \<and> ((\<forall>(k, v) \<in> set demand. v \<le> free_of k l) \<longrightarrow>
        (let l' = snd (begin_acquire Gate_None True io c key demand None t None l);
             h = acquisition_handle c key in
         (\<forall>(k, v) \<in> set demand. 0 < v \<longrightarrow>
            int (length (filter (matches_kind k) (held_by h l'))) = v)
         \<and> int (length (held_by h l')) = sum_list (map snd (wanted_of demand))
         \<and> mset (free l') + mset (held_by h l') = mset (free l)
         \<and> (\<forall>k. k \<noteq> h \<longrightarrow> held_by k l' = held_by k l)))"
proof -
  let ?b = "begin_acquire Gate_None True io c key demand None t None l"
  let ?fit = "\<forall>(k, v) \<in> set demand. v \<le> free_of k l"
  let ?h = "acquisition_handle c key"
  have b: "?b = begin_acquire_locked io c key demand None t None l"
    by (simp add: begin_acquire_def)
  have r: "fst ?b = (if ?fit then Inr (Some ?h) else Inr None)"
    unfolding b by (rule begin_locked_static_iff [OF assms(1-3)])
  have "(\<forall>(k, v) \<in> set demand. 0 < v \<longrightarrow>
      int (length (filter (matches_kind k) (held_by ?h (snd ?b)))) = v)
    \<and> int (length (held_by ?h (snd ?b))) = sum_list (map snd (wanted_of demand))
    \<and> mset (free (snd ?b)) + mset (held_by ?h (snd ?b)) = mset (free l)
    \<and> (\<forall>k. k \<noteq> ?h \<longrightarrow> held_by k (snd ?b) = held_by k l)" if ?fit
  proof -
    have "begin_acquire_locked io c key demand None t None l = (Inr (Some ?h), snd ?b)"
      using r that b by (metis prod.collapse)
    from assms(1,4,2) this
    obtain ms where "?h = ?h" and ms: "mset (held_by ?h (snd ?b)) = mset ms"
      "mset (free (snd ?b)) + mset ms = mset (free l)" "\<forall>k. k \<noteq> ?h \<longrightarrow> held_by k (snd ?b) = held_by k l"
      "\<forall>(k, v) \<in> set (wanted_of demand). int (length (filter (matches_kind k) ms)) = v"
      "int (length ms) = sum_list (map snd (wanted_of demand))"
      by (rule begin_locked_admitted_exact)
    have len: "length (filter P (held_by ?h (snd ?b))) = length (filter P ms)" for P
      using ms(1) by (metis mset_filter size_mset)
    have total: "length (held_by ?h (snd ?b)) = length ms"
      using ms(1) by (metis size_mset)
    have "\<forall>(k, v) \<in> set demand. 0 < v \<longrightarrow>
        int (length (filter (matches_kind k) (held_by ?h (snd ?b)))) = v"
      using ms(4) unfolding len by (auto simp: wanted_of_def)
    with ms total show ?thesis by simp
  qed
  with r show ?thesis by (simp add: Let_def)
qed

theorem begin_acquire_admits_iff_witness:
  "fst (begin_acquire Gate_None True no_fault
     \<lparr>cl_usec = 1, cl_host = ''h'', cl_pid = 2, cl_nonce = ''00000000''\<rparr> ''k''
     [(''cpu'', 1)] None None None ((fresh_ledger False)\<lparr>free := [''cpu-0001'', ''cpu-0000'']\<rparr>))
   = Inr (Some (acquisition_handle \<lparr>cl_usec = 1, cl_host = ''h'', cl_pid = 2, cl_nonce = ''00000000''\<rparr> ''k''))"
proof -
  let ?c = "\<lparr>cl_usec = 1, cl_host = ''h'', cl_pid = 2, cl_nonce = ''00000000''\<rparr>"
  let ?l = "(fresh_ledger False)\<lparr>free := [''cpu-0001'', ''cpu-0000'']\<rparr>"
  have "custody ?l"
    by (simp add: custody_def live_tokens_def held_names_def fresh_ledger_def)
  moreover have "plain_demand [(''cpu'', 1)]" by (simp add: plain_demand_def)
  moreover have "holder_of (acquisition_handle ?c ''k'') ?l = None"
    by (simp add: holder_of_def fresh_ledger_def)
  moreover have "(1 :: int) \<le> free_of ''cpu'' ?l"
    by (simp add: free_of_def matches_kind_def)
  ultimately show ?thesis
    using begin_acquire_admits_iff [of ?l "[(''cpu'', 1)]" no_fault ?c "''k''" None] by simp
qed

subsection \<open>Begin and commit together\<close>

lemma move_tokens_keep_complete:
  "(\<And>n. rename_err io s d n = None) \<Longrightarrow> length ns \<le> lim \<Longrightarrow> custody l \<Longrightarrow>
   set ns \<subseteq> set (dir_names l s) \<Longrightarrow> distinct ns \<Longrightarrow> dir_exists l d \<Longrightarrow>
   s \<noteq> d \<Longrightarrow> s \<noteq> Dead_Dir \<Longrightarrow> d \<noteq> Dead_Dir \<Longrightarrow>
   \<exists>l'. move_tokens io True s d lim ns l = (l', ns, False)"
proof (induction ns arbitrary: lim l)
  case Nil
  then show ?case by simp
next
  case (Cons n ns)
  have n: "n \<in> set (dir_names l s)" using Cons.prems by simp
  have nd: "n \<notin> set (dir_names l d)"
    using custody_gone [OF Cons.prems(3) n] Cons.prems
      dir_names_live [of n "take_out s n l" d] by (auto simp: dir_names_take_out)
  let ?r = "rename_token s d n l"
  have "set ns \<subseteq> set (dir_names ?r s)"
    using Cons.prems by (auto simp: dir_names_rename intro: in_set_remove1 [THEN iffD2])
  then obtain l' where "move_tokens io True s d (lim - 1) ns ?r = (l', ns, False)"
    using Cons.IH [of "lim - 1" ?r] Cons.prems n custody_rename [OF Cons.prems(3) n] by force
  with Cons.prems nd show ?case by (cases lim) simp_all
qed

lemma take_tokens_metadata: "same_metadata l (fst (snd (take_tokens io h need ns l)))"
proof (induction io h need ns l rule: take_tokens.induct)
  case (1 io h need l)
  then show ?case by simp
next
  case (2 io h need n ns l)
  let ?r = "rename_token Free_Dir (Held_Dir h) n l"
  have "same_metadata l (fst (snd (take_tokens io h (need - 1) ns ?r)))"
    if "\<not> need \<le> 0" "rename_err io Free_Dir (Held_Dir h) n = None"
    using same_metadata_trans [OF same_metadata_rename "2.IH"(1)] that by blast
  with "2.IH"(2) show ?case
    by (simp split: option.splits prod.splits) auto
qed

lemma same_metadata_shortage [simp]:
  "same_metadata l (l'\<lparr>last_shortage := s\<rparr>) = same_metadata l l'"
  by (simp add: same_metadata_def holder_of_def)

lemma take_kinds_listing:
  "take_kinds io h ad t probe ((kind, need0) # rest) l =
     (let need = physical_need ad kind need0 in
      case listing ad t kind l of
        Inl e \<Rightarrow> (Some e, l)
      | Inr ts \<Rightarrow>
          (case take_tokens io h need ts l of
             (Some e, l', _) \<Rightarrow> (Some e, l')
           | (None, l', taken) \<Rightarrow>
               if taken < need \<and> \<not> short_allowed ad probe kind then
                 (Some Insufficient,
                  l'\<lparr>last_shortage :=
                       Some \<lparr>sh_resource = kind, sh_requested = need, sh_available = taken\<rparr>\<rparr>)
               else take_kinds io h ad t probe rest l'))"
  by (simp add: listing_def)

lemma take_kinds_metadata: "same_metadata l (snd (take_kinds io h ad t p ws l))"
proof (induction ws arbitrary: l)
  case Nil
  then show ?case by simp
next
  case (Cons w ws)
  obtain kind v where w: "w = (kind, v)" by (cases w)
  have tk: "same_metadata l l1" if "take_tokens io h need ts l = (e, l1, c)" for need ts e l1 c
    using take_tokens_metadata [of l io h need ts] that by simp
  have rest: "same_metadata l (snd (take_kinds io h ad t p ws l1))"
    if "take_tokens io h need ts l = (e, l1, c)" for need ts e l1 c
    using tk [OF that] Cons.IH by (rule same_metadata_trans)
  show ?case
  proof (cases "listing ad t kind l")
    case (Inl e)
    with w show ?thesis by (simp add: take_kinds_listing del: take_kinds.simps)
  next
    case (Inr ts)
    obtain e l1 c where tt: "take_tokens io h (physical_need ad kind v) ts l = (e, l1, c)"
      by (cases "take_tokens io h (physical_need ad kind v) ts l")
    from tk [OF tt] rest [OF tt] Inr tt w show ?thesis
      by (cases e) (simp_all add: take_kinds_listing Let_def del: take_kinds.simps)
  qed
qed

lemma move_metadata_absent:
  assumes "holder_of a l = Some h" and "cpu_md h = None" and "gpu_md h = None"
  shows "move_cpu_metadata io a b l = (l, 0)" and "move_gpu_metadata io a b l = (l, 0)"
  using assms by (auto simp: move_cpu_metadata_def move_gpu_metadata_def split: option.splits)

lemma commit_acquire_exact:
  assumes "custody l" and "faultless io" and "a \<noteq> key" and "held_by key l = []"
    and "holder_of a l = Some h" and "cpu_md h = None" and "gpu_md h = None"
  obtains l' ms where "commit_acquire io key a l = (l', int (length (tokens h)), ms)"
    "mset (held_by key l') = mset (tokens h)" "held_by a l' = []" "free l' = free l"
    "\<forall>k. k \<noteq> a \<longrightarrow> k \<noteq> key \<longrightarrow> held_by k l' = held_by k l"
proof -
  let ?m = "mkdir_holder key l" and ?ts = "sort (tokens h)"
  have a: "holder_of a ?m = Some h" using assms(5) by simp
  have cm: "custody ?m" using same_tokens_mkdir assms(1) by (rule same_tokens_custody)
  have ts: "held_by a ?m = tokens h" using a by (simp add: held_by_def)
  have dis: "distinct ?ts"
    using custody_distinct_dir [OF cm, of "Held_Dir a"] ts by simp
  note side = cm _ dis mkdir_holder_simps(7)
  obtain l4 where mv: "move_tokens io True (Held_Dir a) (Held_Dir key) (length (tokens h)) ?ts ?m
      = (l4, ?ts, False)"
    using move_tokens_keep_complete [OF faultlessD(1) [OF assms(2)] _ side] assms(3) ts by fastforce
  note res = move_tokens_custody [OF mv side]
  have sub: "set ?ts \<subseteq> set (dir_names ?m (Held_Dir a))" using ts by simp
  have "mset (held_by a l4) + mset (tokens h) = mset (tokens h)"
    and "mset (held_by key l4) = mset (tokens h)"
    and others: "\<forall>e. e \<noteq> Held_Dir a \<longrightarrow> e \<noteq> Held_Dir key \<longrightarrow> dir_names l4 e = dir_names ?m e"
    using res [OF sub] assms(3,4) ts by simp_all
  moreover have "free l4 = free l"
    using others [rule_format, of Free_Dir] by simp
  moreover have "held_by k l4 = held_by k l" if "k \<noteq> a" "k \<noteq> key" for k
    using others [rule_format, of "Held_Dir k"] that by simp
  moreover have "commit_acquire io key a l = (rmdir_holder io a l4, int (length (tokens h)), ?ts)"
    using assms(5) mv by (simp add: commit_acquire_def move_metadata_absent [OF a assms(6,7)])
  ultimately show thesis by (intro that [of "rmdir_holder io a l4" ?ts]) simp_all
qed

lemma begin_locked_static_metadata:
  assumes "begin_acquire_locked io c key demand None t None l = (Inr (Some h), l')"
    and "holder_of (acquisition_handle c key) l = None" and "wanted_of demand \<noteq> []" and "custody l"
  obtains hh where "holder_of h l' = Some hh" "cpu_md hh = None" "gpu_md hh = None"
proof -
  let ?m = "mkdir_holder (acquisition_handle c key) (l\<lparr>last_shortage := None\<rparr>)"
  let ?w = "sorted_items (wanted_of demand)"
  have h: "h = acquisition_handle c key"
    using assms(1,4) by (cases rule: begin_acquire_locked_cases) auto
  obtain e l1 where tk: "take_kinds io h None t False ?w ?m = (e, l1)" by fastforce
  have "roll_back io h x l1 \<noteq> (Inr (Some h), l')" for x
    by (auto simp: roll_back_def split: prod.splits sum.splits)
  then have "l' = l1"
    using assms(1,3) tk by (auto simp: begin_acquire_locked_def Let_def h [symmetric]
        write_gpu_metadata_def write_cpu_metadata_def split: option.splits)
  then have "same_metadata ?m l'" using take_kinds_metadata [of ?m io h None t False ?w] tk by simp
  moreover have "holder_of h (l\<lparr>last_shortage := None\<rparr>) = None"
    using assms(2) by (simp add: h holder_of_def)
  then have "holder_of h ?m = Some empty_holder" by (simp add: h)
  ultimately have "map_option cpu_md (holder_of h l') = Some None"
    "map_option gpu_md (holder_of h l') = Some None"
    by (auto simp: same_metadata_def empty_holder_def)
  then show thesis by (auto intro: that)
qed

lemma acquire_admitted_total:
  assumes "custody l" and "plain_demand demand" and "faultless io"
    and "holder_of (acquisition_handle c key) l = None" and "holder_of key l = None"
    and "acquisition_handle c key \<noteq> key" and "\<forall>(k, v) \<in> set demand. v \<le> free_of k l"
  obtains l' where "acquire Gate_None True io c key demand l = (Inr True, l')"
    "\<forall>(k, v) \<in> set demand. 0 < v \<longrightarrow> int (length (filter (matches_kind k) (held_by key l'))) = v"
    "mset (free l') + mset (held_by key l') = mset (free l)"
    "\<forall>k. k \<noteq> key \<longrightarrow> held_by k l' = held_by k l"
    "int (length (held_by key l')) = sum_list (map snd (wanted_of demand))"
proof -
  let ?h = "acquisition_handle c key"
  let ?b = "begin_acquire_locked io c key demand None None None l"
  have bl: "begin_acquire Gate_None True io c key demand None None None l = ?b"
    by (simp add: begin_acquire_def)
  have "fst ?b = Inr (Some ?h)" using begin_locked_static_iff [OF assms(1-3)] assms(7) by simp
  then obtain l1 where b: "?b = (Inr (Some ?h), l1)" by (cases ?b) simp
  from assms(1,4,2) b obtain ms where "?h = ?h" and ms: "mset (held_by ?h l1) = mset ms"
    "mset (free l1) + mset ms = mset (free l)" "\<forall>k. k \<noteq> ?h \<longrightarrow> held_by k l1 = held_by k l"
    "\<forall>(k, v) \<in> set (wanted_of demand). int (length (filter (matches_kind k) ms)) = v"
    "int (length ms) = sum_list (map snd (wanted_of demand))"
    by (rule begin_locked_admitted_exact)
  have k0: "held_by key l1 = []" "held_by ?h l = []"
    using ms(3) assms(4-6) by (auto simp: held_by_def)
  have c1: "custody l1"
    using begin_acquire_locked_conserves [OF assms(1)] b by (metis conserves_custody snd_conv)
  show thesis
  proof (cases "wanted_of demand = []")
    case True
    then have "?b = (Inr (Some ?h), l\<lparr>last_shortage := None\<rparr>)"
      by (simp add: begin_acquire_locked_def)
    moreover have "holder_of ?h (l\<lparr>last_shortage := None\<rparr>) = None"
      using assms(4) by (simp add: holder_of_def)
    ultimately have "acquire Gate_None True io c key demand l = (Inr True, l\<lparr>last_shortage := None\<rparr>)"
      using True by (simp add: acquire_def bl commit_acquire_def)
    moreover have "\<not> 0 < v" if "(k, v) \<in> set demand" for k v
      using True that by (auto simp: wanted_of_def filter_empty_conv)
    moreover have "held_by key (l\<lparr>last_shortage := None\<rparr>) = []"
      using assms(5) by (simp add: held_by_def holder_of_def)
    ultimately show thesis
      using True by (intro that [of "l\<lparr>last_shortage := None\<rparr>"]) (auto simp: held_by_def holder_of_def)
  next
    case False
    obtain hh where hh: "holder_of ?h l1 = Some hh" "cpu_md hh = None" "gpu_md hh = None"
      using begin_locked_static_metadata [OF b assms(4) False assms(1)] .
    have th: "mset (tokens hh) = mset ms" using ms(1) hh(1) by (simp add: held_by_def)
    obtain l2 ns where co: "commit_acquire io key ?h l1 = (l2, int (length (tokens hh)), ns)"
      "mset (held_by key l2) = mset (tokens hh)" "held_by ?h l2 = []" "free l2 = free l1"
      "\<forall>k. k \<noteq> ?h \<longrightarrow> k \<noteq> key \<longrightarrow> held_by k l2 = held_by k l1"
      using commit_acquire_exact [OF c1 assms(3,6) k0(1) hh] .
    have "length (tokens hh) = length ms" using th by (metis size_mset)
    then have acq: "acquire Gate_None True io c key demand l = (Inr True, l2)"
      using b co(1) ms(5) by (simp add: acquire_def bl)
    have len: "length (filter P (held_by key l2)) = length (filter P ms)" for P
      using co(2) th by (metis mset_filter size_mset)
    have "\<forall>(k, v) \<in> set demand. 0 < v \<longrightarrow> int (length (filter (matches_kind k) (held_by key l2))) = v"
      using ms(4) unfolding len by (auto simp: wanted_of_def)
    moreover have "held_by k l2 = held_by k l" if "k \<noteq> key" for k
      using co(3,5) ms(3) k0(2) that by (cases "k = ?h") simp_all
    moreover have "int (length (held_by key l2)) = sum_list (map snd (wanted_of demand))"
      using ms(5) co(2) th by (metis size_mset)
    ultimately show thesis
      using acq ms(2) co(2,4) th by (intro that [of l2]) simp_all
  qed
qed

lemma acquire_admitted:
  assumes "custody l" and "plain_demand demand" and "faultless io"
    and "holder_of (acquisition_handle c key) l = None" and "holder_of key l = None"
    and "acquisition_handle c key \<noteq> key" and "\<forall>(k, v) \<in> set demand. v \<le> free_of k l"
  obtains l' where "acquire Gate_None True io c key demand l = (Inr True, l')"
    "\<forall>(k, v) \<in> set demand. 0 < v \<longrightarrow> int (length (filter (matches_kind k) (held_by key l'))) = v"
    "mset (free l') + mset (held_by key l') = mset (free l)"
    "\<forall>k. k \<noteq> key \<longrightarrow> held_by k l' = held_by k l"
  using acquire_admitted_total [OF assms] that by blast

text \<open>
  C4: \<open>acquire\<close> takes every token the demand asks for, or none of them. It answers \<open>True\<close>
  exactly when each kind has enough free tokens; then the action holds the demanded number of
  each kind and those tokens, and only those, have left \<open>free/\<close>. Otherwise \<open>free/\<close> and every
  holder are as before.
\<close>

theorem acquire_all_or_nothing:
  assumes "custody l" and "plain_demand demand" and "faultless io"
    and "holder_of (acquisition_handle c key) l = None" and "holder_of key l = None"
    and "acquisition_handle c key \<noteq> key"
  shows "case acquire Gate_None True io c key demand l of (r, l') \<Rightarrow>
    r = Inr (\<forall>(k, v) \<in> set demand. v \<le> free_of k l)
    \<and> (if \<forall>(k, v) \<in> set demand. v \<le> free_of k l then
         (\<forall>(k, v) \<in> set demand. 0 < v \<longrightarrow> int (length (filter (matches_kind k) (held_by key l'))) = v)
         \<and> mset (free l') + mset (held_by key l') = mset (free l)
         \<and> (\<forall>k. k \<noteq> key \<longrightarrow> held_by k l' = held_by k l)
       else mset (free l') = mset (free l) \<and> (\<forall>k. held_by k l' = held_by k l))"
proof (cases "\<forall>(k, v) \<in> set demand. v \<le> free_of k l")
  case True
  from assms True obtain l' where "acquire Gate_None True io c key demand l = (Inr True, l')"
    "\<forall>(k, v) \<in> set demand. 0 < v \<longrightarrow> int (length (filter (matches_kind k) (held_by key l'))) = v"
    "mset (free l') + mset (held_by key l') = mset (free l)"
    "\<forall>k. k \<noteq> key \<longrightarrow> held_by k l' = held_by k l"
    by (rule acquire_admitted)
  with True show ?thesis by simp
next
  case False
  let ?b = "begin_acquire Gate_None True io c key demand None None None l"
  have b: "?b = begin_acquire_locked io c key demand None None None l"
    by (simp add: begin_acquire_def)
  then have "fst ?b = Inr None" using begin_locked_static_iff [OF assms(1-3)] False by simp
  then obtain l1 where l1: "?b = (Inr None, l1)" by (cases ?b) simp
  then have acq: "acquire Gate_None True io c key demand l = (Inr False, l1)"
    by (simp add: acquire_def)
  have no: "(\<forall>(k, v) \<in> set demand. v \<le> free_of k l) = False" using False by blast
  show ?thesis
    unfolding acq no using begin_refused_core [OF assms(1,4) faultlessD(1) [OF assms(3)] l1] by simp
qed

theorem acquire_all_or_nothing_witness:
  "\<exists>l'. acquire Gate_None True no_fault
     \<lparr>cl_usec = 1, cl_host = ''h'', cl_pid = 2, cl_nonce = ''00000000''\<rparr> ''k''
     [(''cpu'', 1)] ((fresh_ledger False)\<lparr>free := [''cpu-0001'', ''cpu-0000'']\<rparr>) = (Inr True, l')
   \<and> length (filter (matches_kind ''cpu'') (held_by ''k'' l')) = 1"
proof -
  let ?c = "\<lparr>cl_usec = 1, cl_host = ''h'', cl_pid = 2, cl_nonce = ''00000000''\<rparr>"
  let ?l = "(fresh_ledger False)\<lparr>free := [''cpu-0001'', ''cpu-0000'']\<rparr>"
  obtain r l' where a: "acquire Gate_None True no_fault ?c ''k'' [(''cpu'', 1)] ?l = (r, l')"
    by fastforce
  have 1: "custody ?l"
    by (simp add: custody_def live_tokens_def held_names_def fresh_ledger_def)
  have 2: "plain_demand [(''cpu'', 1)]" by (simp add: plain_demand_def)
  have 3: "holder_of (acquisition_handle ?c ''k'') ?l = None" "holder_of ''k'' ?l = None"
    by (simp_all add: holder_of_def fresh_ledger_def)
  have 4: "acquisition_handle ?c ''k'' \<noteq> ''k''"
    by code_simp
  have "(1 :: int) \<le> free_of ''cpu'' ?l"
    by (simp add: free_of_def matches_kind_def)
  with acquire_all_or_nothing [OF 1 2 faultless_no_fault 3 4] a show ?thesis by simp
qed

section \<open>The seat an acquisition records\<close>

lemma borrow_loop_inv:
  "distinct as \<Longrightarrow>
   distinct (borrow_loop tier want as cs) \<and> set as \<subseteq> set (borrow_loop tier want as cs)
   \<and> set (borrow_loop tier want as cs) \<subseteq> set as \<union> (set tier \<inter> set cs)"
proof (induction tier want as cs rule: borrow_loop.induct)
  case (1 tier want assigned)
  then show ?case by simp
next
  case (2 tier want assigned c cs)
  then show ?case by (auto simp: le_supI1)
qed

lemma cpu_ids_sub: "cpu_ids ordered ns = Inr cs \<Longrightarrow> set cs \<subseteq> set ordered \<and> length cs = length ns"
  by (induction ns arbitrary: cs) (auto split: option.splits sum.splits if_splits)

lemma filter_members_distinct:
  assumes "distinct xs" and "distinct ys" and "set ys \<subseteq> set xs"
  shows "mset (filter (\<lambda>c. c \<in> set ys) xs) = mset ys"
proof -
  have "set (filter (\<lambda>c. c \<in> set ys) xs) = set ys" using assms(3) by auto
  then show ?thesis
    using set_eq_iff_mset_eq_distinct [of "filter (\<lambda>c. c \<in> set ys) xs" ys] assms(1,2)
    by (simp del: set_filter mset_filter)
qed

definition seat_of :: "cpu_meta \<Rightarrow> nat list" where
  "seat_of m = al_preferred (cm_allocation m) @ al_fallback (cm_allocation m)"

definition kept_of :: "cpu_meta \<Rightarrow> nat list" where
  "kept_of m = (case cm_allowance m of None \<Rightarrow> [] | Some a \<Rightarrow> aw_cpus a)"

lemma assign_cpus_unfunded:
  assumes "assign_cpus t ad want own = Inr as" and "ad_funded ad = None"
    and "distinct (tier_cpus t)" and "set own \<subseteq> set (tier_cpus t)"
  shows "distinct as" "set own \<subseteq> set as" "set as \<subseteq> set own \<union> set (ad_borrowable_cpus ad)"
    "set as \<subseteq> set (tier_cpus t)" "int (length as) = want"
proof -
  let ?a0 = "filter (\<lambda>c. c \<in> set own) (tier_cpus t)"
  let ?a1 = "borrow_loop (al_preferred t) want ?a0 (ad_borrowable_cpus ad)"
  have as: "as = borrow_loop (al_fallback t) want ?a1 (ad_borrowable_cpus ad)"
    and len: "int (length as) = want"
    using assms(1,2) by (auto simp: assign_cpus_def Let_def split: if_splits)
  have i1: "distinct ?a1 \<and> set ?a0 \<subseteq> set ?a1
      \<and> set ?a1 \<subseteq> set ?a0 \<union> (set (al_preferred t) \<inter> set (ad_borrowable_cpus ad))"
    using assms(3) by (intro borrow_loop_inv) simp
  then have i2: "distinct as \<and> set ?a1 \<subseteq> set as
      \<and> set as \<subseteq> set ?a1 \<union> (set (al_fallback t) \<inter> set (ad_borrowable_cpus ad))"
    unfolding as by (intro borrow_loop_inv) simp
  have a0: "set ?a0 = set own" using assms(4) by auto
  show "distinct as" "int (length as) = want" using i2 len by simp_all
  show "set own \<subseteq> set as" "set as \<subseteq> set own \<union> set (ad_borrowable_cpus ad)"
    using i1 i2 a0 by blast+
  show "set as \<subseteq> set (tier_cpus t)"
    using i1 i2 by (auto simp: tier_cpus_def)
qed

lemma seat_split:
  assumes "pref = filter (\<lambda>c. c \<in> set as) (al_preferred t)"
    and "fall = filter (\<lambda>c. c \<in> set as) (al_fallback t)"
    and "distinct (tier_cpus t)" and "distinct as" and "set as \<subseteq> set (tier_cpus t)"
  shows "mset (pref @ fall) = mset as"
proof -
  have "pref @ fall = filter (\<lambda>c. c \<in> set as) (tier_cpus t)"
    by (simp add: assms(1,2) tier_cpus_def)
  then show ?thesis using filter_members_distinct [OF assms(3-5)] by simp
qed

lemma mset_keep_split:
  assumes "distinct xs" and "set kept \<subseteq> set xs" and "distinct kept"
  shows "mset (filter (\<lambda>c. c \<notin> set kept) xs) + mset kept = mset xs"
proof -
  have "mset (filter (\<lambda>c. c \<in> set kept) xs) = mset kept"
    using assms by (intro filter_members_distinct) simp_all
  moreover have "mset xs = mset (filter (\<lambda>c. c \<in> set kept) xs) + mset (filter (\<lambda>c. c \<notin> set kept) xs)"
    unfolding mset_filter by (rule multiset_partition)
  ultimately show ?thesis by (simp only: union_commute)
qed

text \<open>
  the seat recorded for an admission that borrows. The CPUs the action runs on and the CPUs
  an export allowance keeps for its dependents are together exactly as many as were asked for,
  all different and all of the configured topology; every CPU the action holds a token for is
  among them, a borrowed CPU was declared borrowable, the kept CPUs are CPUs it holds tokens
  for, and at least one stays with the action itself.
\<close>

theorem seat_cpus_sound:
  assumes "seat_cpus t ad want toks = Inr m" and "ad_funded ad = None" and "distinct (tier_cpus t)"
    and "cpu_ids (tier_cpus t) toks = Inr own" and "distinct own"
  shows "int (length (seat_of m @ kept_of m)) = want
    \<and> distinct (seat_of m @ kept_of m)
    \<and> set own \<subseteq> set (seat_of m @ kept_of m)
    \<and> set (seat_of m @ kept_of m) \<subseteq> set (tier_cpus t)
    \<and> set (seat_of m) - set own \<subseteq> set (ad_borrowable_cpus ad)
    \<and> set (kept_of m) \<subseteq> set own
    \<and> (kept_of m \<noteq> [] \<longrightarrow> \<not> set own \<subseteq> set (kept_of m))
    \<and> set (al_preferred (cm_allocation m)) \<subseteq> set (al_preferred t)
    \<and> set (al_fallback (cm_allocation m)) \<subseteq> set (al_fallback t)
    \<and> cm_borrowed_cpu m = max 0 (want - int (length toks))"
proof -
  have own: "set own \<subseteq> set (tier_cpus t)" using cpu_ids_sub [OF assms(4)] by simp
  obtain as where as: "assign_cpus t ad want own = Inr as"
    using assms(1,4) by (cases "assign_cpus t ad want own") (auto simp: seat_cpus_def)
  note ac = assign_cpus_unfunded [OF as assms(2,3) own]
  define pref where "pref = filter (\<lambda>c. c \<in> set as) (al_preferred t)"
  define fall where "fall = filter (\<lambda>c. c \<in> set as) (al_fallback t)"
  have ms: "mset (pref @ fall) = mset as"
    by (rule seat_split [OF pref_def fall_def assms(3) ac(1,4)])
  have dis: "distinct (pref @ fall)" using ms ac(1) by (metis mset_eq_imp_distinct_iff)
  have sets: "set (pref @ fall) = set as" using ms by (metis set_mset_mset)
  have len: "length (pref @ fall) = length as" using ms by (metis size_mset)
  have tiers: "set pref \<subseteq> set (al_preferred t)" "set fall \<subseteq> set (al_fallback t)"
    by (auto simp: pref_def fall_def)
  show ?thesis
  proof (cases "ad_allowance ad")
    case None
    then have m: "seat_of m = pref @ fall" "kept_of m = []"
      "al_preferred (cm_allocation m) = pref" "al_fallback (cm_allocation m) = fall"
      "cm_borrowed_cpu m = max 0 (want - int (length toks))"
      using assms(1,2,4) as ac(5)
      by (auto simp: seat_cpus_def Let_def seat_of_def kept_of_def pref_def fall_def)
    show ?thesis
      unfolding m using dis sets len ac tiers by auto
  next
    case (Some aw)
    define ordered where "ordered = filter (\<lambda>c. c \<in> set own) (pref @ fall)"
    define kept where "kept = drop (length ordered - nat (aq_cpu aw)) ordered"
    have cnt: "0 < aq_cpu aw" "aq_cpu aw < int (length ordered)"
      using assms(1,4) as Some
      by (auto simp: seat_cpus_def Let_def ordered_def pref_def fall_def split: if_splits)
    have m: "seat_of m = filter (\<lambda>c. c \<notin> set kept) (pref @ fall)" "kept_of m = sort kept"
      "al_preferred (cm_allocation m) = filter (\<lambda>c. c \<notin> set kept) pref"
      "al_fallback (cm_allocation m) = filter (\<lambda>c. c \<notin> set kept) fall"
      "cm_borrowed_cpu m = max 0 (want - int (length toks))"
      using assms(1,2,4) as ac(5) Some
      by (auto simp: seat_cpus_def Let_def seat_of_def kept_of_def pref_def fall_def kept_def
          ordered_def split: if_splits)
    have do: "distinct ordered" "set ordered = set own"
      using dis sets ac(2) by (auto simp: ordered_def)
    have dk: "distinct kept" "set kept \<subseteq> set own"
      using do set_drop_subset [of _ ordered] by (auto simp: kept_def)
    have "\<not> set own \<subseteq> set kept"
    proof
      assume "set own \<subseteq> set kept"
      then have "card (set own) \<le> length kept" by (meson List.finite_set card_length card_mono le_trans)
      moreover have "card (set own) = length ordered" using do by (metis distinct_card)
      ultimately show False using cnt by (simp add: kept_def)
    qed
    moreover have "mset (seat_of m @ kept_of m) = mset as"
    proof -
      have "set kept \<subseteq> set (pref @ fall)" using dk(2) sets ac(2) by blast
      from mset_keep_split [OF dis this dk(1)] show ?thesis using ms m(1,2) by (simp add: add.assoc)
    qed
    then have "length (seat_of m @ kept_of m) = length as" "distinct (seat_of m @ kept_of m)"
      "set (seat_of m @ kept_of m) = set as"
      using ac(1) by (metis size_mset, metis mset_eq_imp_distinct_iff, metis set_mset_mset)
    moreover have "set (kept_of m) \<subseteq> set own" "set (kept_of m) = set kept"
      using m(2) dk by simp_all
    ultimately show ?thesis
      using ac tiers m(3-5) by auto
  qed
qed

theorem seat_cpus_sound_witness:
  "\<exists>m. seat_cpus \<lparr>al_preferred = [4, 5], al_fallback = [6]\<rparr>
      \<lparr>ad_preferred_borrow = 0, ad_eligible_cpus = None, ad_borrowing = True,
        ad_borrowable_cpus = [6], ad_funded = None,
        ad_allowance = Some \<lparr>aq_cpu = 1, aq_slots = 1, aq_mem_gb = 2\<rparr>\<rparr>
      3 [''cpu-0000'', ''cpu-0001''] = Inr m
    \<and> int (length (seat_of m @ kept_of m)) = 3"
proof -
  let ?t = "\<lparr>al_preferred = [4, 5], al_fallback = [6]\<rparr>"
  let ?ad = "\<lparr>ad_preferred_borrow = 0, ad_eligible_cpus = None, ad_borrowing = True,
        ad_borrowable_cpus = [6], ad_funded = None,
        ad_allowance = Some \<lparr>aq_cpu = 1, aq_slots = 1, aq_mem_gb = 2\<rparr>\<rparr>"
  have ids: "cpu_ids (tier_cpus ?t) [''cpu-0000'', ''cpu-0001''] = Inr [4, 5]"
    by code_simp
  have "\<not> isl (seat_cpus ?t ?ad 3 [''cpu-0000'', ''cpu-0001''])"
    by code_simp
  then obtain m where m: "seat_cpus ?t ?ad 3 [''cpu-0000'', ''cpu-0001''] = Inr m"
    by (metis sum.collapse(2))
  have "int (length (seat_of m @ kept_of m)) = 3"
    using seat_cpus_sound [OF m _ _ ids] by (simp add: tier_cpus_def)
  with m show ?thesis by blast
qed

end
