(* ===== verification/Ledger_Mint.thy ===== *)
theory Ledger_Mint
  imports Ledger_Acquire
begin

text \<open>
  The operations of \<open>ResourceLedger\<close> that create and destroy capacity: \<open>ensure_capacity\<close>
  (adopt what is present, then mint the missing indices behind a permanent marker),
  \<open>retire_free_capacity\<close> (lower a total by free tokens only, counting an unreadable holder as
  held) and \<open>retire_held\<close> (destroy a holder's tokens into \<open>minted/dead/\<close>). The lemmas show that
  no file-system fault makes any of them duplicate a token, that a marker is never left for a
  name the ledger cannot account for, and that a destroyed name is never minted again.
\<close>

section \<open>Minting\<close>

text \<open>
  \<open>_token_is_held\<close>: a tier ledger lists each holder, a host ledger probes for the one name;
  either way a holder that cannot be read is an error and never an answer.
\<close>

fun token_is_held :: "io \<Rightarrow> bool \<Rightarrow> name \<Rightarrow> name list \<Rightarrow> ledger \<Rightarrow> bool result" where
  "token_is_held io st n [] l = Inr False"
| "token_is_held io st n (k # ks) l =
     (if holder_err io k \<or> (if st then listing_err io k else probe_err io k n)
      then Inl (OSError EIO)
      else if n \<in> set (held_by k l) then Inr True
      else token_is_held io st n ks l)"

definition holder_keys :: "ledger \<Rightarrow> name list" where
  "holder_keys l = sort (map fst (held l))"

text \<open>\<open>_adopt_present_tokens\<close>: the names of every token the scans show.\<close>

fun present_held :: "io \<Rightarrow> bool \<Rightarrow> name list \<Rightarrow> ledger \<Rightarrow> name list result" where
  "present_held io st [] l = Inr []"
| "present_held io st (k # ks) l =
     (if holder_err io k \<or> (st \<and> listing_err io k) then Inl (OSError EIO)
      else case present_held io st ks l of
        Inl e \<Rightarrow> Inl e
      | Inr ns \<Rightarrow> Inr ((if listing_err io k then [] else filter is_token (held_by k l)) @ ns))"

definition present_names :: "io \<Rightarrow> ledger \<Rightarrow> name list result" where
  "present_names io l =
     (if (strict l \<and> free_err io) \<or> held_err io then Inl (OSError EIO)
      else case present_held io (strict l) (holder_keys l) l of
        Inl e \<Rightarrow> Inl e
      | Inr ns \<Rightarrow> Inr ((if free_err io then [] else filter is_token (free l)) @ ns))"

text \<open>One marker per name without one; a marker that cannot be created is left out.\<close>

fun adopt_names :: "io \<Rightarrow> name list \<Rightarrow> ledger \<Rightarrow> ledger" where
  "adopt_names io [] l = l"
| "adopt_names io (n # ns) l =
     adopt_names io ns
       (if n \<in> set (minted l) \<or> mark_err io n then l else l\<lparr>minted := n # minted l\<rparr>)"

definition adopt_present_tokens :: "io \<Rightarrow> ledger \<Rightarrow> unit result \<times> ledger" where
  "adopt_present_tokens io l =
     (case present_names io l of
        Inl e \<Rightarrow> (Inl e, l)
      | Inr ns \<Rightarrow> (Inr (), adopt_names io (sort (remdups ns)) l))"

text \<open>
  One index. \<open>Mint_Stop\<close> is the silent return of a tier ledger whose census failed,
  \<open>Mint_Raise\<close> an exception.
\<close>

datatype mint = Mint_Next | Mint_Stop | Mint_Raise error

definition mint_index :: "io \<Rightarrow> name \<Rightarrow> ledger \<Rightarrow> mint \<times> ledger" where
  "mint_index io n l =
     (if n \<in> set (minted l) then (Mint_Next, l)
      else if mark_err io n then (Mint_Raise (OSError EIO), l)
      else
        let l1 = l\<lparr>minted := n # minted l\<rparr> in
        case (if held_err io then Inl (OSError EIO)
              else token_is_held io (strict l) n (holder_keys l) l1) of
          Inl e \<Rightarrow>
            if unmark_err io n then (Mint_Raise (OSError EIO), l1)
            else (if strict l then Mint_Stop else Mint_Raise e, l1\<lparr>minted := remove1 n (minted l1)\<rparr>)
        | Inr True \<Rightarrow> (Mint_Next, l1)
        | Inr False \<Rightarrow>
            if n \<in> set (free l1) then (Mint_Next, l1)
            else if create_err io n then (Mint_Raise (OSError EIO), l1)
            else (Mint_Next, l1\<lparr>free := n # free l1\<rparr>))"

fun mint_names :: "io \<Rightarrow> name list \<Rightarrow> ledger \<Rightarrow> mint \<times> ledger" where
  "mint_names io [] l = (Mint_Next, l)"
| "mint_names io (n # ns) l =
     (case mint_index io n l of
        (Mint_Next, l') \<Rightarrow> mint_names io ns l'
      | (m, l') \<Rightarrow> (m, l'))"

definition index_names :: "string \<Rightarrow> int \<Rightarrow> name list" where
  "index_names kind num = map (token_name kind) [0..<nat num]"

fun mint_kinds :: "io \<Rightarrow> (string, int) dict \<Rightarrow> ledger \<Rightarrow> mint \<times> ledger" where
  "mint_kinds io [] l = (Mint_Next, l)"
| "mint_kinds io ((kind, num) # rest) l =
     (if num < 0 then (Mint_Raise PoolContractError, l)
      else case mint_names io (index_names kind num) l of
        (Mint_Next, l') \<Rightarrow> mint_kinds io rest l'
      | (m, l') \<Rightarrow> (m, l'))"

definition ensure_capacity ::
  "io \<Rightarrow> (string, int) dict \<Rightarrow> ledger \<Rightarrow> unit result \<times> ledger" where
  "ensure_capacity io capacity l =
     (case (if markers_err io then (Inl (OSError EIO), l) else adopt_present_tokens io l) of
        (Inl e, l1) \<Rightarrow> (if strict l then Inr () else Inl e, l1)
      | (Inr _, l1) \<Rightarrow>
          (case mint_kinds io (sorted_items capacity) l1 of
             (Mint_Raise e, l2) \<Rightarrow> (Inl e, l2)
           | (_, l2) \<Rightarrow> (Inr (), l2)))"

section \<open>Retiring\<close>

text \<open>
  \<open>_held_census\<close>: the tokens of the holders that can be read, and the holders that cannot.
\<close>

definition unreadable :: "io \<Rightarrow> name \<Rightarrow> bool" where
  "unreadable io k \<longleftrightarrow> holder_err io k \<or> listing_err io k"

definition held_census :: "io \<Rightarrow> ledger \<Rightarrow> (name list \<times> name list) result" where
  "held_census io l =
     (if held_err io then Inl (OSError EIO)
      else Inr (concat (map (\<lambda>k. filter is_token (held_by k l))
                  (filter (\<lambda>k. \<not> unreadable io k) (holder_keys l))),
                filter (unreadable io) (holder_keys l)))"

text \<open>\<open>_minted_and_dead_names\<close>: the markers and the destroyed names, or no bound at all.\<close>

definition minted_and_dead_names :: "io \<Rightarrow> ledger \<Rightarrow> (name list \<times> name list) option" where
  "minted_and_dead_names io l = (if markers_err io then None else Some (minted l, dead l))"

text \<open>
  How many free tokens of a kind are too many: against the exact held count, or, with an
  unreadable holder, against the most the markers allow to be held.
\<close>

definition excess_of ::
  "(name list \<times> name list) option \<Rightarrow> bool \<Rightarrow> string \<Rightarrow> int \<Rightarrow> name list \<Rightarrow> name list \<Rightarrow> nat" where
  "excess_of minted_dead un kind target free_ts held_ts =
     (if \<not> un then
        nat (int (length free_ts) + int (length (filter (matches_kind kind) held_ts)) - target)
      else case minted_dead of
        None \<Rightarrow> length free_ts
      | Some (markers, deads) \<Rightarrow>
          let bound = remdups (filter (\<lambda>n. matches_kind kind n \<and> n \<notin> set free_ts \<and> n \<notin> set deads) markers
                        @ filter (matches_kind kind) held_ts) in
          nat (int (length free_ts) + int (length bound) - target))"

text \<open>
  The marker goes first, then the token; a token whose unlink fails stays, unmarked, and is not
  counted.
\<close>

fun retire_tokens :: "io \<Rightarrow> name list \<Rightarrow> ledger \<Rightarrow> nat result \<times> ledger" where
  "retire_tokens io [] l = (Inr 0, l)"
| "retire_tokens io (n # ns) l =
     (if unmark_err io n then (Inl (OSError EIO), l)
      else
        let l1 = l\<lparr>minted := remove1 n (minted l)\<rparr> in
        if unlink_err io Free_Dir n then retire_tokens io ns l1
        else case retire_tokens io ns (l1\<lparr>free := remove1 n (free l1)\<rparr>) of
               (Inl e, l2) \<Rightarrow> (Inl e, l2)
             | (Inr c, l2) \<Rightarrow> (Inr (Suc c), l2))"

text \<open>The free tokens of a kind, highest name first.\<close>

definition free_of_kind :: "io \<Rightarrow> string \<Rightarrow> ledger \<Rightarrow> name list" where
  "free_of_kind io kind l =
     (if free_err io then [] else rev (sort (filter (matches_kind kind) (free l))))"

fun retire_kinds ::
  "io \<Rightarrow> (name list \<times> name list) option \<Rightarrow> name list \<Rightarrow> bool \<Rightarrow> (string, int) dict \<Rightarrow> ledger
     \<Rightarrow> (string, nat) dict result \<times> ledger" where
  "retire_kinds io minted_dead held_ts un [] l = (Inr [], l)"
| "retire_kinds io minted_dead held_ts un ((kind, target) # rest) l =
     (if target < 0 then (Inl PoolContractError, l)
      else
        let fs = free_of_kind io kind l;
            x = excess_of minted_dead un kind target fs held_ts in
        case retire_tokens io (take x fs) l of
          (Inl e, l1) \<Rightarrow> (Inl e, l1)
        | (Inr c, l1) \<Rightarrow>
            (case retire_kinds io minted_dead held_ts un rest l1 of
               (Inl e, l2) \<Rightarrow> (Inl e, l2)
             | (Inr d, l2) \<Rightarrow> (Inr (if c = 0 then d else (kind, c) # d), l2)))"

text \<open>
  \<open>report_census\<close>: an exact census removes the report, an inexact one counts on from it. Reading
  and writing it never fails the retire (\<open>rd\<close> and \<open>wr\<close> say whether they work).
\<close>

definition report_census ::
  "bool \<Rightarrow> bool \<Rightarrow> int \<Rightarrow> name list \<Rightarrow> string list \<Rightarrow> (string, nat) dict \<Rightarrow> ledger
     \<Rightarrow> census_report option \<times> ledger" where
  "report_census rd wr now un asked retired l =
     (if un = [] then (None, if wr then l\<lparr>census_file := None\<rparr> else l)
      else
        let previous = (if rd then census_file l else None);
            r = \<lparr>cr_unreadable = un, cr_asked = sort asked, cr_retired = retired,
                 cr_cycles = (case previous of
                                Some p \<Rightarrow> if 0 < cr_cycles p then cr_cycles p + 1 else 1
                              | None \<Rightarrow> 1),
                 cr_first = (case previous of Some p \<Rightarrow> cr_first p | None \<Rightarrow> now),
                 cr_last = now\<rparr> in
        (Some r, if wr then l\<lparr>census_file := Some r\<rparr> else l))"

definition retire_free_capacity ::
  "io \<Rightarrow> bool \<Rightarrow> bool \<Rightarrow> int \<Rightarrow> (string, int) dict \<Rightarrow> ledger
     \<Rightarrow> ((string, nat) dict \<times> census_report option) result \<times> ledger" where
  "retire_free_capacity io rd wr now capacity l =
     (case held_census io l of
        Inl e \<Rightarrow> (Inl e, l)
      | Inr (held_ts, un) \<Rightarrow>
          (case retire_kinds io (minted_and_dead_names io l) held_ts (un \<noteq> [])
                  (sorted_items capacity) l of
             (Inl e, l1) \<Rightarrow> (Inl e, l1)
           | (Inr retired, l1) \<Rightarrow>
               (case report_census rd wr now un (map fst capacity) retired l1 of
                  (r, l2) \<Rightarrow> (Inr (retired, r), l2))))"

section \<open>Destroying held tokens\<close>

text \<open>
  The loop of \<open>retire_held\<close> over one kind, highest name first: a token that has gone counts when
  it is already dead, any other failure leaves it held.
\<close>

fun destroy_tokens :: "io \<Rightarrow> name \<Rightarrow> nat \<Rightarrow> name list \<Rightarrow> ledger \<Rightarrow> nat \<times> ledger" where
  "destroy_tokens io k want [] l = (0, l)"
| "destroy_tokens io k want (n # ns) l =
     (if want = 0 then (0, l)
      else if dead_err io then destroy_tokens io k want ns l
      else case rename_err io (Held_Dir k) Dead_Dir n of
        None \<Rightarrow>
          (case destroy_tokens io k (want - 1) ns (rename_token (Held_Dir k) Dead_Dir n l) of
             (c, l') \<Rightarrow> (Suc c, l'))
      | Some ENOENT \<Rightarrow>
          if n \<in> set (dead l)
          then (case destroy_tokens io k (want - 1) ns l of (c, l') \<Rightarrow> (Suc c, l'))
          else destroy_tokens io k want ns l
      | Some _ \<Rightarrow> destroy_tokens io k want ns l)"

fun retire_held_loop ::
  "io \<Rightarrow> name \<Rightarrow> (string, int) dict \<Rightarrow> ledger \<Rightarrow> (string, nat) dict \<times> ledger" where
  "retire_held_loop io k [] l = ([], l)"
| "retire_held_loop io k ((kind, want) # rest) l =
     (if want \<le> 0 then retire_held_loop io k rest l
      else case destroy_tokens io k (nat want)
                  (rev (sort (filter (matches_kind kind) (held_by k l)))) l of
             (c, l') \<Rightarrow>
               (case retire_held_loop io k rest l' of
                  (d, l'') \<Rightarrow> (if c = 0 then d else (kind, c) # d, l'')))"

definition retire_held ::
  "io \<Rightarrow> name \<Rightarrow> (string, int) dict \<Rightarrow> ledger \<Rightarrow> (string, nat) dict \<times> ledger" where
  "retire_held io key counts l =
     (if holder_of key l = None then ([], l)
      else case retire_held_loop io key (sorted_items counts) l of
             (d, l') \<Rightarrow> (d, drop_empty_holder io key l'))"

section \<open>What minting does to custody\<close>

definition declared :: "(string, int) dict \<Rightarrow> name set" where
  "declared capacity = (\<Union>(kind, num) \<in> set capacity. set (index_names kind num))"

text \<open>
  A step that at most mints: new tokens are free, come from \<open>S\<close>, were neither marked nor live,
  and are marked afterwards.
\<close>

definition mints :: "name set \<Rightarrow> ledger \<Rightarrow> ledger \<Rightarrow> bool" where
  "mints S l l' \<longleftrightarrow>
     custody l' \<and> held l' = held l \<and> dead l' = dead l \<and> strict l' = strict l
     \<and> set (minted l) \<subseteq> set (minted l')
     \<and> (distinct (minted l) \<longrightarrow> distinct (minted l'))
     \<and> (\<exists>ms. mset (free l') = mset (free l) + mset ms \<and> set ms \<subseteq> S
          \<and> set ms \<inter> set (minted l) = {} \<and> set ms \<subseteq> set (minted l')
          \<and> set ms \<inter> set_mset (live_tokens l) = {})"

lemma mints_refl: "custody l \<Longrightarrow> mints S l l"
  by (auto simp: mints_def intro: exI [of _ "[]"])

lemma mints_trans:
  assumes "mints S l l'" and "mints S l' l''"
  shows "mints S l l''"
proof -
  from assms(1) obtain ms where ms: "mset (free l') = mset (free l) + mset ms" "set ms \<subseteq> S"
    "set ms \<inter> set (minted l) = {}" "set ms \<subseteq> set (minted l')" "set ms \<inter> set_mset (live_tokens l) = {}"
    by (auto simp: mints_def)
  from assms(2) obtain ns where ns: "mset (free l'') = mset (free l') + mset ns" "set ns \<subseteq> S"
    "set ns \<inter> set (minted l') = {}" "set ns \<subseteq> set (minted l'')" "set ns \<inter> set_mset (live_tokens l') = {}"
    by (auto simp: mints_def)
  have sub: "set_mset (live_tokens l) \<subseteq> set_mset (live_tokens l')"
    using assms(1) ms(1) by (auto simp: mints_def live_tokens_def held_names_def)
  have mono: "set (minted l) \<subseteq> set (minted l')" "set (minted l') \<subseteq> set (minted l'')"
    using assms by (simp_all add: mints_def)
  have "mset (free l'') = mset (free l) + mset (ms @ ns)" using ms(1) ns(1) by simp
  moreover have "set (ms @ ns) \<subseteq> S" "set (ms @ ns) \<inter> set (minted l) = {}"
    "set (ms @ ns) \<subseteq> set (minted l'')" "set (ms @ ns) \<inter> set_mset (live_tokens l) = {}"
    using ms ns sub mono by auto
  ultimately show ?thesis
    using assms mono by (auto simp: mints_def intro!: exI [of _ "ms @ ns"])
qed

lemma mints_mono: "mints S l l' \<Longrightarrow> S \<subseteq> T \<Longrightarrow> mints T l l'"
  by (auto simp: mints_def)

lemma mints_custody: "mints S l l' \<Longrightarrow> custody l'"
  by (simp add: mints_def)

lemma mark_mints: "custody l \<Longrightarrow> n \<notin> set (minted l) \<Longrightarrow> mints S l (l\<lparr>minted := n # minted l\<rparr>)"
  by (auto simp: mints_def custody_def live_tokens_def held_names_def intro: exI [of _ "[]"])

lemma create_mints:
  assumes "custody l" and "n \<notin> set (minted l)" and "n \<notin># live_tokens l"
  shows "mints {n} l (l\<lparr>minted := n # minted l, free := n # free l\<rparr>)"
proof -
  let ?l = "l\<lparr>minted := n # minted l, free := n # free l\<rparr>"
  have "live_tokens ?l = add_mset n (live_tokens l)"
    by (simp add: live_tokens_def held_names_def)
  then have "custody ?l"
    using assms(1,3) by (auto simp: custody_def not_in_iff)
  with assms(2,3) show ?thesis
    by (auto simp: mints_def intro: exI [of _ "[n]"])
qed

lemma token_is_held_answer:
  "token_is_held io st n ks l = Inr b \<Longrightarrow> b \<longleftrightarrow> (\<exists>k \<in> set ks. n \<in> set (held_by k l))"
  by (induction ks) (auto split: if_splits)

lemma not_live_iff:
  assumes "custody l"
  shows "n \<notin># live_tokens l \<longleftrightarrow> n \<notin> set (free l) \<and> (\<forall>k \<in> set (holder_keys l). n \<notin> set (held_by k l))"
proof -
  have "held_by k l = []" if "k \<notin> set (holder_keys l)" for k
    using that by (cases "holder_of k l")
      (auto simp: holder_keys_def held_by_def holder_of_def dest: map_of_SomeD intro: rev_image_eqI)
  then have "(\<exists>k. n \<in> set (held_by k l)) \<longleftrightarrow> (\<exists>k \<in> set (holder_keys l). n \<in> set (held_by k l))"
    by (metis empty_iff list.set(1))
  then show ?thesis
    using set_held_names [of l n] assms by (auto simp: live_tokens_def custody_def)
qed

lemma held_by_minted [simp]: "held_by k (l\<lparr>minted := ms\<rparr>) = held_by k l"
  by (simp add: held_by_def holder_of_def)

lemma token_is_held_minted [simp]:
  "token_is_held io st n ks (l\<lparr>minted := ms\<rparr>) = token_is_held io st n ks l"
  by (induction ks) simp_all

text \<open>The four ways one index may end.\<close>

lemma mint_index_cases:
  assumes "mint_index io n l = (m, l')" and "custody l"
  obtains (same) "l' = l" "m = Mint_Next \<Longrightarrow> n \<in> set (minted l)"
  | (marked) "n \<notin> set (minted l)" "l' = l\<lparr>minted := n # minted l\<rparr>" "m = Mint_Next" "n \<in># live_tokens l"
  | (stranded) "n \<notin> set (minted l)" "l' = l\<lparr>minted := n # minted l\<rparr>" "m = Mint_Raise (OSError EIO)"
      "unmark_err io n \<or> create_err io n"
  | (created) "n \<notin> set (minted l)" "l' = l\<lparr>minted := n # minted l, free := n # free l\<rparr>"
      "m = Mint_Next" "n \<notin># live_tokens l"
proof (cases "n \<in> set (minted l) \<or> mark_err io n")
  case True
  with assms(1) have "l' = l" "m = Mint_Next \<longrightarrow> n \<in> set (minted l)"
    by (auto simp: mint_index_def split: if_splits)
  then show thesis by (intro same) auto
next
  case run: False
  let ?a = "if held_err io then Inl (OSError EIO)
            else token_is_held io (strict l) n (holder_keys l) l"
  show thesis
  proof (cases ?a)
    case (Inl e)
    with run assms(1) have "(l' = l \<and> m \<noteq> Mint_Next)
        \<or> (l' = l\<lparr>minted := n # minted l\<rparr> \<and> m = Mint_Raise (OSError EIO) \<and> unmark_err io n)"
      by (auto simp: mint_index_def Let_def split: if_splits)
    then show thesis using run same stranded by blast
  next
    case (Inr b)
    then have ans: "b \<longleftrightarrow> (\<exists>k \<in> set (holder_keys l). n \<in> set (held_by k l))"
      by (auto split: if_splits dest: token_is_held_answer)
    show thesis
    proof (cases "b \<or> n \<in> set (free l)")
      case True
      then have "n \<in># live_tokens l" using ans not_live_iff [OF assms(2)] by blast
      moreover have "l' = l\<lparr>minted := n # minted l\<rparr>" "m = Mint_Next"
        using True run Inr assms(1) by (auto simp: mint_index_def Let_def split: if_splits bool.splits)
      ultimately show thesis using run marked by blast
    next
      case False
      then have "n \<notin># live_tokens l" using ans not_live_iff [OF assms(2)] by blast
      moreover have "(l' = l\<lparr>minted := n # minted l\<rparr> \<and> m = Mint_Raise (OSError EIO) \<and> create_err io n)
          \<or> (l' = l\<lparr>minted := n # minted l, free := n # free l\<rparr> \<and> m = Mint_Next)"
        using False run Inr assms(1) by (auto simp: mint_index_def Let_def split: if_splits bool.splits)
      ultimately show thesis using run stranded created by blast
    qed
  qed
qed

lemma mint_index_mints:
  assumes "custody l"
  shows "mints {n} l (snd (mint_index io n l))"
proof -
  obtain m l' where "mint_index io n l = (m, l')" by fastforce
  from this assms show ?thesis
    by (cases rule: mint_index_cases)
      (simp_all add: \<open>mint_index io n l = (m, l')\<close> assms mints_refl mark_mints create_mints)
qed

lemma mint_names_mints: "custody l \<Longrightarrow> mints (set ns) l (snd (mint_names io ns l))"
proof (induction ns arbitrary: l)
  case Nil
  then show ?case by (simp add: mints_refl)
next
  case (Cons n ns)
  obtain m l' where i: "mint_index io n l = (m, l')" by fastforce
  have 1: "mints (set (n # ns)) l l'"
    using mint_index_mints [OF Cons.prems, of n io] i by (auto intro: mints_mono)
  have "mints (set ns) l' (snd (mint_names io ns l'))"
    using mints_custody [OF 1] by (rule Cons.IH)
  then have 2: "mints (set (n # ns)) l' (snd (mint_names io ns l'))"
    by (rule mints_mono) auto
  show ?case using i 1 mints_trans [OF 1 2] by (cases m) simp_all
qed

lemma mint_kinds_mints: "custody l \<Longrightarrow> mints (declared cs) l (snd (mint_kinds io cs l))"
proof (induction cs arbitrary: l)
  case Nil
  then show ?case by (simp add: mints_refl)
next
  case (Cons c cs)
  obtain kind num where c: "c = (kind, num)" by (cases c)
  obtain m l' where i: "mint_names io (index_names kind num) l = (m, l')" by fastforce
  have 1: "mints (declared (c # cs)) l l'"
    using mint_names_mints [OF Cons.prems, of "index_names kind num" io] i c
    by (auto simp: declared_def intro: mints_mono)
  have "mints (declared cs) l' (snd (mint_kinds io cs l'))"
    using mints_custody [OF 1] by (rule Cons.IH)
  then have 2: "mints (declared (c # cs)) l' (snd (mint_kinds io cs l'))"
    by (rule mints_mono) (auto simp: declared_def)
  show ?case
    using i c 1 mints_trans [OF 1 2] mints_refl [OF Cons.prems] by (cases m) simp_all
qed

lemma adopt_names_mints: "custody l \<Longrightarrow> mints {} l (adopt_names io ns l)"
proof (induction ns arbitrary: l)
  case Nil
  then show ?case by (simp add: mints_refl)
next
  case (Cons n ns)
  let ?l = "if n \<in> set (minted l) \<or> mark_err io n then l else l\<lparr>minted := n # minted l\<rparr>"
  have 1: "mints {} l ?l" using Cons.prems by (simp add: mints_refl mark_mints)
  then have "mints {} ?l (adopt_names io ns ?l)" by (intro Cons.IH) (rule mints_custody)
  with 1 show ?case using mints_trans by (simp only: adopt_names.simps)
qed

lemma declared_sorted [simp]: "declared (sorted_items cs) = declared cs"
  by (simp add: declared_def)

lemma ensure_capacity_mints:
  assumes "custody l"
  shows "mints (declared cs) l (snd (ensure_capacity io cs l))"
proof -
  obtain r l1 where a: "adopt_present_tokens io l = (r, l1)" by fastforce
  have "mints {} l l1"
    using a assms adopt_names_mints [OF assms]
    by (auto simp: adopt_present_tokens_def mints_refl split: sum.splits)
  then have 1: "mints (declared cs) l l1" by (rule mints_mono) simp
  have "mints (declared cs) l1 (snd (mint_kinds io (sorted_items cs) l1))"
    using mint_kinds_mints [OF mints_custody [OF 1], of "sorted_items cs" io] by simp
  with 1 have "mints (declared cs) l (snd (mint_kinds io (sorted_items cs) l1))"
    by (rule mints_trans)
  with 1 a assms show ?thesis
    by (auto simp: ensure_capacity_def mints_refl split: sum.splits prod.splits mint.splits)
qed

text \<open>
  C5: whatever the file system answers, \<open>ensure_capacity\<close> never duplicates a token. Every token
  it creates carries a declared name that had no marker and was neither free nor held, its
  marker exists afterwards, holders and destroyed names are untouched, and no token is lost.
\<close>

theorem ensure_capacity_never_duplicates:
  assumes "custody l"
  shows "custody (snd (ensure_capacity io capacity l))
    \<and> held (snd (ensure_capacity io capacity l)) = held l
    \<and> dead (snd (ensure_capacity io capacity l)) = dead l
    \<and> set (minted l) \<subseteq> set (minted (snd (ensure_capacity io capacity l)))
    \<and> (\<exists>new. mset (free (snd (ensure_capacity io capacity l))) = mset (free l) + mset new
         \<and> set new \<subseteq> declared capacity \<and> set new \<inter> set (minted l) = {}
         \<and> set new \<inter> set_mset (live_tokens l) = {}
         \<and> set new \<subseteq> set (minted (snd (ensure_capacity io capacity l))))"
  using ensure_capacity_mints [OF assms, of capacity io] unfolding mints_def by blast

theorem ensure_capacity_never_duplicates_witness:
  "custody (snd (ensure_capacity no_fault [(''gpu'', 2)]
     ((fresh_ledger False)\<lparr>free := [''gpu-0000'']\<rparr>)))
   \<and> free (snd (ensure_capacity no_fault [(''gpu'', 2)]
       ((fresh_ledger False)\<lparr>free := [''gpu-0000'']\<rparr>))) = [''gpu-0001'', ''gpu-0000'']"
proof -
  let ?l = "(fresh_ledger False)\<lparr>free := [''gpu-0000'']\<rparr>"
  have "custody ?l"
    by (simp add: custody_def live_tokens_def held_names_def fresh_ledger_def)
  moreover have "free (snd (ensure_capacity no_fault [(''gpu'', 2)] ?l)) = [''gpu-0001'', ''gpu-0000'']"
    by code_simp
  ultimately show ?thesis using ensure_capacity_never_duplicates [of ?l] by blast
qed

subsection \<open>Refusal of a partial view\<close>

lemma present_held_refuses:
  "\<exists>k \<in> set ks. unreadable io k \<Longrightarrow> \<exists>e. present_held io True ks l = Inl e"
proof (induction ks)
  case Nil
  then show ?case by simp
next
  case (Cons k ks)
  then show ?case by (cases "unreadable io k") (auto simp: unreadable_def split: sum.splits)
qed

text \<open>
  a tier ledger mints nothing from a partial view. With any holder, \<open>free/\<close>, \<open>held/\<close> or
  \<open>minted/\<close> unreadable the call returns without having changed anything.
\<close>

theorem tier_mint_refuses_partial_view:
  assumes "strict l"
    and "markers_err io \<or> free_err io \<or> held_err io \<or> (\<exists>k \<in> set (holder_keys l). unreadable io k)"
  shows "ensure_capacity io capacity l = (Inr (), l)"
proof (cases "\<exists>k \<in> set (holder_keys l). unreadable io k")
  case True
  then obtain e where "present_held io True (holder_keys l) l = Inl e"
    using present_held_refuses by blast
  with assms(1) show ?thesis
    by (simp add: ensure_capacity_def adopt_present_tokens_def present_names_def)
next
  case False
  with assms show ?thesis
    by (auto simp: ensure_capacity_def adopt_present_tokens_def present_names_def)
qed

theorem tier_mint_refuses_partial_view_witness:
  "ensure_capacity (no_fault\<lparr>listing_err := \<lambda>k. k = ''a''\<rparr>) [(''gib'', 4)]
     ((fresh_ledger True)\<lparr>held := [(''a'', empty_holder)]\<rparr>)
   = (Inr (), (fresh_ledger True)\<lparr>held := [(''a'', empty_holder)]\<rparr>)"
  by (rule tier_mint_refuses_partial_view)
    (simp_all add: fresh_ledger_def holder_keys_def unreadable_def no_fault_def)

text \<open>A name that gained a marker has a token, unless its create or the marker's removal failed.\<close>

definition no_stranding :: "io \<Rightarrow> bool" where
  "no_stranding io \<longleftrightarrow> (\<forall>n. \<not> create_err io n \<and> \<not> unmark_err io n)"

definition backs_markers :: "ledger \<Rightarrow> ledger \<Rightarrow> bool" where
  "backs_markers l l' \<longleftrightarrow> set (minted l') \<subseteq> set (minted l) \<union> set_mset (live_tokens l')"

lemma mints_live: "mints S l l' \<Longrightarrow> set_mset (live_tokens l) \<subseteq> set_mset (live_tokens l')"
proof -
  assume m: "mints S l l'"
  then obtain ms where "mset (free l') = mset (free l) + mset ms" and h: "held l' = held l"
    by (auto simp: mints_def)
  then have "set_mset (mset (free l')) = set_mset (mset (free l) + mset ms)" by simp
  with h show ?thesis by (auto simp: live_tokens_def held_names_def)
qed

lemma backs_markers_trans:
  "backs_markers l l' \<Longrightarrow> backs_markers l' l'' \<Longrightarrow> mints S l' l'' \<Longrightarrow> backs_markers l l''"
  using mints_live by (fastforce simp: backs_markers_def)

lemma mint_index_backs:
  assumes "custody l" and "no_stranding io"
  shows "backs_markers l (snd (mint_index io n l))"
proof -
  obtain m l' where i: "mint_index io n l = (m, l')" by fastforce
  from this assms(1) have "backs_markers l l'"
  proof (cases rule: mint_index_cases)
    case stranded
    with assms(2) show ?thesis by (auto simp: no_stranding_def)
  qed (auto simp: backs_markers_def live_tokens_def held_names_def)
  with i show ?thesis by simp
qed

lemma mint_names_backs:
  "custody l \<Longrightarrow> no_stranding io \<Longrightarrow> backs_markers l (snd (mint_names io ns l))"
proof (induction ns arbitrary: l)
  case Nil
  then show ?case by (simp add: backs_markers_def)
next
  case (Cons n ns)
  obtain m l' where i: "mint_index io n l = (m, l')" by fastforce
  have b: "backs_markers l l'" and c: "custody l'"
    using mint_index_backs [OF Cons.prems, of n] mints_custody [OF mint_index_mints [OF Cons.prems(1)], of io n] i
    by simp_all
  have "backs_markers l (snd (mint_names io ns l'))"
    using b Cons.IH [OF c Cons.prems(2)] mint_names_mints [OF c] by (rule backs_markers_trans)
  with i b show ?case by (cases m) simp_all
qed

lemma mint_kinds_backs:
  "custody l \<Longrightarrow> no_stranding io \<Longrightarrow> backs_markers l (snd (mint_kinds io cs l))"
proof (induction cs arbitrary: l)
  case Nil
  then show ?case by (simp add: backs_markers_def)
next
  case (Cons x cs)
  obtain kind num where x: "x = (kind, num)" by (cases x)
  obtain m l' where i: "mint_names io (index_names kind num) l = (m, l')" by fastforce
  have b: "backs_markers l l'" and c: "custody l'"
    using mint_names_backs [OF Cons.prems, of "index_names kind num"] i
      mints_custody [OF mint_names_mints [OF Cons.prems(1)], of io "index_names kind num"] by simp_all
  have "backs_markers l (snd (mint_kinds io cs l'))"
    using b Cons.IH [OF c Cons.prems(2)] mint_kinds_mints [OF c] by (rule backs_markers_trans)
  with i b x show ?case by (cases m) (simp_all add: backs_markers_def)
qed

lemma adopt_names_markers: "set (minted (adopt_names io ns l)) \<subseteq> set (minted l) \<union> set ns"
  by (induction ns arbitrary: l) (fastforce split: if_splits)+

lemma present_held_live: "present_held io st ks l = Inr ns \<Longrightarrow> set ns \<subseteq> (\<Union>k \<in> set ks. set (held_by k l))"
  by (induction ks arbitrary: ns) (fastforce split: if_splits sum.splits)+

lemma present_names_live: "present_names io l = Inr ns \<Longrightarrow> custody l \<Longrightarrow> set ns \<subseteq> set_mset (live_tokens l)"
proof
  fix n assume p: "present_names io l = Inr ns" and c: "custody l" and n: "n \<in> set ns"
  from p obtain hs where hs: "present_held io (strict l) (holder_keys l) l = Inr hs"
    "ns = (if free_err io then [] else filter is_token (free l)) @ hs"
    by (auto simp: present_names_def split: if_splits sum.splits)
  with n have "n \<in> set (free l) \<or> (\<exists>k \<in> set (holder_keys l). n \<in> set (held_by k l))"
    using present_held_live [OF hs(1)] by (auto split: if_splits)
  then show "n \<in># live_tokens l" using not_live_iff [OF c] by blast
qed

text \<open>
  no index is lost to an unreadable holder (issue 936). When neither the creation of a free
  token nor the removal of a marker fails, every marker an \<open>ensure_capacity\<close> leaves behind,
  raising or not, belongs to a token that exists; so the next call may still mint every index
  this one did not.
\<close>

theorem ensure_capacity_strands_no_marker:
  assumes "custody l" and "no_stranding io" and "set (minted l) \<subseteq> set_mset (live_tokens l) \<union> set (dead l)"
  shows "set (minted (snd (ensure_capacity io capacity l)))
    \<subseteq> set_mset (live_tokens (snd (ensure_capacity io capacity l))) \<union> set (dead (snd (ensure_capacity io capacity l)))"
proof -
  let ?l' = "snd (ensure_capacity io capacity l)"
  obtain r l1 where a: "adopt_present_tokens io l = (r, l1)" by fastforce
  have m1: "mints {} l l1"
    using a adopt_names_mints [OF assms(1)] mints_refl [OF assms(1)]
    by (auto simp: adopt_present_tokens_def split: sum.splits)
  have "backs_markers l l1"
  proof (cases "present_names io l")
    case (Inl e)
    with a show ?thesis by (simp add: adopt_present_tokens_def backs_markers_def)
  next
    case (Inr ns)
    with a have l1: "l1 = adopt_names io (sort (remdups ns)) l" by (simp add: adopt_present_tokens_def)
    have "set (minted l1) \<subseteq> set (minted l) \<union> set ns"
      using adopt_names_markers [of io "sort (remdups ns)" l] by (simp add: l1)
    with present_names_live [OF Inr assms(1)] mints_live [OF m1] show ?thesis
      by (auto simp: backs_markers_def)
  qed
  moreover have "backs_markers l1 (snd (mint_kinds io (sorted_items capacity) l1))"
    "mints (declared (sorted_items capacity)) l1 (snd (mint_kinds io (sorted_items capacity) l1))"
    using mints_custody [OF m1] assms(2) by (simp_all add: mint_kinds_backs mint_kinds_mints del: declared_sorted)
  ultimately have "backs_markers l (snd (mint_kinds io (sorted_items capacity) l1))"
    using backs_markers_trans by blast
  with \<open>backs_markers l l1\<close> a have "backs_markers l ?l'"
    by (auto simp: ensure_capacity_def backs_markers_def split: sum.splits prod.splits mint.splits)
  moreover have "mints (declared capacity) l ?l'" using assms(1) by (rule ensure_capacity_mints)
  then have "set_mset (live_tokens l) \<subseteq> set_mset (live_tokens ?l')" "dead ?l' = dead l"
    by (simp_all add: mints_live) (simp add: mints_def)
  ultimately show ?thesis using assms(3) unfolding backs_markers_def by auto
qed

theorem ensure_capacity_strands_no_marker_witness:
  "set (minted (snd (ensure_capacity (no_fault\<lparr>probe_err := \<lambda>_ _. True\<rparr>) [(''gib'', 2)]
      ((fresh_ledger False)\<lparr>held := [(''a'', empty_holder)]\<rparr>)))) = {}"
proof -
  let ?io = "no_fault\<lparr>probe_err := \<lambda>_ _. True\<rparr>"
  let ?l = "(fresh_ledger False)\<lparr>held := [(''a'', empty_holder)]\<rparr>"
  have "custody ?l"
    by (simp add: custody_def live_tokens_def held_names_def fresh_ledger_def empty_holder_def)
  moreover have "no_stranding ?io" by (simp add: no_stranding_def no_fault_def)
  moreover have "minted ?l = []" by (simp add: fresh_ledger_def)
  ultimately have "set (minted (snd (ensure_capacity ?io [(''gib'', 2)] ?l)))
      \<subseteq> set_mset (live_tokens (snd (ensure_capacity ?io [(''gib'', 2)] ?l)))
        \<union> set (dead (snd (ensure_capacity ?io [(''gib'', 2)] ?l)))"
    using ensure_capacity_strands_no_marker [of ?l ?io] by simp
  moreover have "free (snd (ensure_capacity ?io [(''gib'', 2)] ?l)) = []"
    "dead (snd (ensure_capacity ?io [(''gib'', 2)] ?l)) = []"
    "held_names (snd (ensure_capacity ?io [(''gib'', 2)] ?l)) = []"
    by code_simp+
  ultimately show ?thesis by (simp add: live_tokens_def)
qed

section \<open>What retiring does\<close>

definition held_of :: "string \<Rightarrow> ledger \<Rightarrow> int" where
  "held_of k l = int (length (filter (matches_kind k) (held_names l)))"

lemma held_by_keys:
  assumes "distinct (map fst (held l))"
  shows "mset (concat (map (\<lambda>k. held_by k l) (holder_keys l))) = mset (held_names l)"
proof -
  have m: "mset (concat xss) = sum_mset (image_mset mset (mset xss))" for xss :: "name list list"
    by (induction xss) simp_all
  have "map (\<lambda>k. held_by k l) (map fst (held l)) = map (tokens \<circ> snd) (held l)"
    using assms by (auto simp: held_by_def holder_of_def)
  moreover have "mset (map (\<lambda>k. held_by k l) (holder_keys l)) = mset (map (\<lambda>k. held_by k l) (map fst (held l)))"
    by (simp add: holder_keys_def multiset.map_comp)
  ultimately have "mset (map (\<lambda>k. held_by k l) (holder_keys l)) = mset (map (tokens \<circ> snd) (held l))"
    by (simp only:)
  then show ?thesis by (simp only: m held_names_def)
qed

lemma matches_kind_is_token: "matches_kind k n \<Longrightarrow> is_token n"
  by (auto simp: matches_kind_def is_token_def startswith_iff)

lemma held_census_exact:
  assumes "held_census io l = Inr (ts, [])" and "custody l"
  shows "int (length (filter (matches_kind k) ts)) = held_of k l"
proof -
  have all: "filter (\<lambda>k. \<not> unreadable io k) (holder_keys l) = holder_keys l"
    using assms(1) by (auto simp: held_census_def filter_empty_conv filter_id_conv split: if_splits)
  have f: "filter (matches_kind k) (concat (map (\<lambda>j. filter is_token (held_by j l)) ks))
      = filter (matches_kind k) (concat (map (\<lambda>j. held_by j l) ks))" for ks
    by (induction ks) (auto intro: filter_cong dest: matches_kind_is_token)
  have "ts = concat (map (\<lambda>j. filter is_token (held_by j l)) (holder_keys l))"
    using assms(1) all by (auto simp: held_census_def split: if_splits)
  then have "filter (matches_kind k) ts
      = filter (matches_kind k) (concat (map (\<lambda>j. held_by j l) (holder_keys l)))"
    using f by simp
  moreover have "mset (concat (map (\<lambda>j. held_by j l) (holder_keys l))) = mset (held_names l)"
    using assms(2) by (intro held_by_keys) (simp add: custody_def)
  ultimately show ?thesis
    unfolding held_of_def by (metis mset_filter size_mset)
qed

lemma held_census_sub: "held_census io l = Inr (ts, un) \<Longrightarrow> custody l \<Longrightarrow> set ts \<subseteq> set (held_names l)"
proof
  fix n assume "held_census io l = Inr (ts, un)" and c: "custody l" and "n \<in> set ts"
  then have "\<exists>k. n \<in> set (held_by k l)" by (auto simp: held_census_def split: if_splits)
  with c show "n \<in> set (held_names l)" using set_held_names [of l n] by (simp add: custody_def)
qed

lemma retire_tokens_frame:
  "held (snd (retire_tokens io ns l)) = held l \<and> dead (snd (retire_tokens io ns l)) = dead l
   \<and> strict (snd (retire_tokens io ns l)) = strict l
   \<and> mset (free (snd (retire_tokens io ns l))) \<subseteq># mset (free l)
   \<and> set (minted l) \<subseteq> set (minted (snd (retire_tokens io ns l))) \<union> set ns
   \<and> mset (minted (snd (retire_tokens io ns l))) \<subseteq># mset (minted l)"
proof (induction ns arbitrary: l)
  case Nil
  then show ?case by simp
next
  case (Cons n ns)
  let ?l1 = "l\<lparr>minted := remove1 n (minted l)\<rparr>"
  let ?l2 = "?l1\<lparr>free := remove1 n (free l)\<rparr>"
  have rem: "mset xs - {#n#} \<subseteq># mset xs" for xs :: "name list" by (rule diff_subset_eq_self)
  have left: "set (minted l) \<subseteq> insert n (set (remove1 n (minted l)))"
    by (auto intro: in_set_remove1 [THEN iffD2])
  show ?case
    using Cons.IH [of ?l1] Cons.IH [of ?l2] left rem [of "minted l"] rem [of "free l"]
    by (auto simp: Let_def intro: subset_mset.order_trans split: prod.splits sum.splits)
qed

lemma retire_tokens_custody: "custody l \<Longrightarrow> custody (snd (retire_tokens io ns l))"
proof -
  assume c: "custody l"
  have "live_tokens (snd (retire_tokens io ns l)) \<subseteq># live_tokens l"
    using retire_tokens_frame [of io ns l]
    by (simp add: live_tokens_def held_names_def subset_mset.add_right_mono)
  with c show ?thesis
    using retire_tokens_frame [of io ns l] unfolding custody_def
    by (metis le_trans mset_subset_eq_count)
qed

definition retire_ok :: "io \<Rightarrow> bool" where
  "retire_ok io \<longleftrightarrow> \<not> free_err io \<and> \<not> held_err io \<and> (\<forall>n. \<not> unmark_err io n \<and> \<not> unlink_err io Free_Dir n)"

lemma retire_tokens_all:
  "retire_ok io \<Longrightarrow> set ns \<subseteq> set (free l) \<Longrightarrow> distinct ns \<Longrightarrow>
   \<exists>l'. retire_tokens io ns l = (Inr (length ns), l') \<and> mset (free l') + mset ns = mset (free l)"
proof (induction ns arbitrary: l)
  case Nil
  then show ?case by simp
next
  case (Cons n ns)
  let ?l1 = "l\<lparr>minted := remove1 n (minted l), free := remove1 n (free l)\<rparr>"
  have "set ns \<subseteq> set (free ?l1)" using Cons.prems by (auto intro: in_set_remove1 [THEN iffD2])
  then obtain l' where l': "retire_tokens io ns ?l1 = (Inr (length ns), l')"
    "mset (free l') + mset ns = mset (free ?l1)"
    using Cons by force
  moreover have "add_mset n (mset (free ?l1)) = mset (free l)" using Cons.prems(2) by simp
  ultimately show ?case
    using Cons.prems(1) by (auto simp: retire_ok_def)
qed

text \<open>
  The lower bound that makes the shrink safe: however the census went, at least the true excess
  is retired, since an unreadable holder is charged with every marked name that is neither free
  nor destroyed.
\<close>

definition covers :: "(name list \<times> name list) option \<Rightarrow> name list \<Rightarrow> bool \<Rightarrow> ledger \<Rightarrow> bool" where
  "covers minted_dead held_ts un l \<longleftrightarrow>
     (if \<not> un then \<forall>k. int (length (filter (matches_kind k) held_ts)) = held_of k l
      else case minted_dead of None \<Rightarrow> True
           | Some (markers, deads) \<Rightarrow> set (held_names l) \<subseteq> set markers - set deads)"

lemma excess_covers:
  assumes "covers md held_ts un l" and "custody l" and "set fs \<subseteq> set (free l)"
  shows "int (length fs) + held_of k l - target \<le> int (excess_of md un k target fs held_ts)
    \<or> excess_of md un k target fs held_ts = length fs"
proof (cases "un \<and> md \<noteq> None")
  case True
  then obtain markers deads where md: "md = Some (markers, deads)" and un by auto
  let ?b = "remdups (filter (\<lambda>n. matches_kind k n \<and> n \<notin> set fs \<and> n \<notin> set deads) markers
      @ filter (matches_kind k) held_ts)"
  have "n \<notin> set fs" if "n \<in> set (held_names l)" for n
  proof
    assume "n \<in> set fs"
    with assms(3) have "n \<in> set (free l)" by blast
    then have "1 \<le> count (mset (free l)) n" "1 \<le> count (mset (held_names l)) n"
      using that by (simp_all add: count_mset_0_iff Suc_leI count_greater_zero_iff flip: One_nat_def)
    moreover have "count (mset (free l)) n + count (mset (held_names l)) n \<le> 1"
      using assms(2) by (simp add: custody_def live_tokens_def)
    ultimately show False by linarith
  qed
  then have "set (filter (matches_kind k) (held_names l)) \<subseteq> set ?b"
    using assms(1) md \<open>un\<close> by (auto simp: covers_def)
  then have "card (set (filter (matches_kind k) (held_names l))) \<le> length ?b"
    by (rule order_trans [OF card_mono [OF finite_set] card_length])
  moreover have "distinct (held_names l)"
  proof -
    have "count (mset (held_names l)) n \<le> 1" for n
      using assms(2) by (metis add_leD2 count_union custody_def live_tokens_def)
    then show ?thesis by (auto simp: distinct_count_atmost_1 le_Suc_eq count_mset_0_iff)
  qed
  then have "card (set (filter (matches_kind k) (held_names l))) = length (filter (matches_kind k) (held_names l))"
    by (intro distinct_card) simp
  ultimately have "held_of k l \<le> int (length ?b)" unfolding held_of_def by linarith
  then show ?thesis using md \<open>un\<close> by (simp add: excess_of_def Let_def)
next
  case False
  with assms(1) show ?thesis by (cases md) (auto simp: excess_of_def covers_def)
qed

lemma free_of_kind_props:
  assumes "retire_ok io" and "custody l"
  shows "set (free_of_kind io k l) \<subseteq> set (free l)" "distinct (free_of_kind io k l)"
    "int (length (free_of_kind io k l)) = free_of k l" "\<forall>n \<in> set (free_of_kind io k l). matches_kind k n"
  using assms custody_distinct_free [OF assms(2)] by (auto simp: free_of_kind_def retire_ok_def free_of_def)

text \<open>What one kind's retirement leaves free: of the kind itself, and of every other.\<close>

lemma retire_one_kind:
  assumes "retire_ok io" and "custody l"
  obtains l1 where "retire_tokens io (take x (free_of_kind io k l)) l = (Inr (min x (nat (free_of k l))), l1)"
    "free_of k l1 = max 0 (free_of k l - int x)" "custody l1" "held l1 = held l"
    "\<And>k'. CHR ''-'' \<notin> set k \<Longrightarrow> CHR ''-'' \<notin> set k' \<Longrightarrow> k' \<noteq> k \<Longrightarrow> free_of k' l1 = free_of k' l"
proof -
  let ?fs = "free_of_kind io k l"
  note fk = free_of_kind_props [OF assms, of k]
  have len: "length ?fs = nat (free_of k l)" using fk(3) by simp
  have "set (take x ?fs) \<subseteq> set (free l)" using fk(1) by (meson order_trans set_take_subset)
  then obtain l1 where l1: "retire_tokens io (take x ?fs) l = (Inr (length (take x ?fs)), l1)"
    "mset (free l1) + mset (take x ?fs) = mset (free l)"
    using retire_tokens_all [OF assms(1)] fk(2) distinct_take by blast
  have part: "free_of j l1 + int (length (filter (matches_kind j) (take x ?fs))) = free_of j l" for j
  proof -
    have "mset (filter (matches_kind j) (free l1)) + mset (filter (matches_kind j) (take x ?fs))
        = mset (filter (matches_kind j) (free l))"
      using l1(2) by (simp flip: filter_union_mset)
    then have "length (filter (matches_kind j) (free l1)) + length (filter (matches_kind j) (take x ?fs))
        = length (filter (matches_kind j) (free l))"
      by (metis size_mset size_union)
    then show ?thesis by (simp add: free_of_def)
  qed
  have "filter (matches_kind k) (take x ?fs) = take x ?fs"
    using fk(4) by (auto simp: filter_id_conv dest: in_set_takeD)
  moreover have "0 \<le> free_of k l" by (simp add: free_of_def)
  ultimately have "free_of k l1 = max 0 (free_of k l - int x)"
    using part [of k] len by (simp add: min_def split: if_splits)
  moreover have "free_of k' l1 = free_of k' l"
    if "CHR ''-'' \<notin> set k" "CHR ''-'' \<notin> set k'" "k' \<noteq> k" for k'
  proof -
    have "filter (matches_kind k') (take x ?fs) = []"
      using fk(4) that matches_kind_unique by (auto simp: filter_empty_conv dest!: in_set_takeD)
    with part [of k'] show ?thesis by simp
  qed
  moreover have "custody l1" "held l1 = held l"
    using retire_tokens_custody [OF assms(2), of io "take x ?fs"] retire_tokens_frame [of io "take x ?fs" l] l1(1)
    by simp_all
  ultimately show thesis using l1(1) len that by (simp add: min.commute)
qed

lemma held_same: "held l' = held l \<Longrightarrow> held_of k l' = held_of k l" "held l' = held l \<Longrightarrow> held_names l' = held_names l"
  by (simp_all add: held_of_def held_names_def)

lemma retire_kinds_bound:
  "retire_ok io \<Longrightarrow> custody l \<Longrightarrow> covers md held_ts un l \<Longrightarrow> distinct (map fst cs) \<Longrightarrow>
   \<forall>(k, v) \<in> set cs. CHR ''-'' \<notin> set k \<and> 0 \<le> v \<Longrightarrow>
   \<exists>d l'. retire_kinds io md held_ts un cs l = (Inr d, l') \<and> held l' = held l \<and> custody l'
     \<and> (\<forall>(k, v) \<in> set cs. free_of k l' \<le> max 0 (v - held_of k l)
          \<and> (\<not> un \<longrightarrow> free_of k l' = min (free_of k l) (max 0 (v - held_of k l))))
     \<and> (\<forall>k. CHR ''-'' \<notin> set k \<longrightarrow> k \<notin> fst ` set cs \<longrightarrow> free_of k l' = free_of k l)"
proof (induction cs arbitrary: l)
  case Nil
  then show ?case by simp
next
  case (Cons c cs)
  obtain k v where c: "c = (k, v)" by (cases c)
  let ?fs = "free_of_kind io k l"
  let ?x = "excess_of md un k v ?fs held_ts"
  note fk = free_of_kind_props [OF Cons.prems(1,2), of k]
  obtain l1 where l1: "retire_tokens io (take ?x ?fs) l = (Inr (min ?x (nat (free_of k l))), l1)"
    "free_of k l1 = max 0 (free_of k l - int ?x)" "custody l1" "held l1 = held l"
    "\<And>k'. CHR ''-'' \<notin> set k \<Longrightarrow> CHR ''-'' \<notin> set k' \<Longrightarrow> k' \<noteq> k \<Longrightarrow> free_of k' l1 = free_of k' l"
    using retire_one_kind [OF Cons.prems(1,2), of ?x k] by blast
  have "covers md held_ts un l1"
    using Cons.prems(3) unfolding covers_def held_same [OF l1(4)] .
  then obtain d l' where r: "retire_kinds io md held_ts un cs l1 = (Inr d, l')" "held l' = held l1" "custody l'"
    "\<forall>(k, v) \<in> set cs. free_of k l' \<le> max 0 (v - held_of k l1)
          \<and> (\<not> un \<longrightarrow> free_of k l' = min (free_of k l1) (max 0 (v - held_of k l1)))"
    "\<forall>k. CHR ''-'' \<notin> set k \<longrightarrow> k \<notin> fst ` set cs \<longrightarrow> free_of k l' = free_of k l1"
    using Cons.IH [OF Cons.prems(1) l1(3)] Cons.prems(4,5) by auto
  have k: "CHR ''-'' \<notin> set k" "0 \<le> v" "k \<notin> fst ` set cs" using Cons.prems(4,5) c by auto
  have "free_of k l' = free_of k l1" using r(5) k by blast
  moreover have "int (length ?fs) + held_of k l - v \<le> int ?x \<or> ?x = length ?fs"
    using excess_covers [OF Cons.prems(3,2) fk(1)] .
  ultimately have here: "free_of k l' \<le> max 0 (v - held_of k l)"
    using l1(2) fk(3) by auto
  have exact: "free_of k l' = min (free_of k l) (max 0 (v - held_of k l))" if "\<not> un"
    using that \<open>free_of k l' = free_of k l1\<close> l1(2) fk(3) Cons.prems(3)
    by (auto simp: excess_of_def covers_def free_of_def)
  have other: "free_of j l1 = free_of j l" if "(j, w) \<in> set cs" for j w
    using that Cons.prems(4,5) c k(1) by (intro l1(5)) (auto intro: rev_image_eqI)
  have rest: "\<forall>(j, w) \<in> set cs. free_of j l' \<le> max 0 (w - held_of j l)
      \<and> (\<not> un \<longrightarrow> free_of j l' = min (free_of j l) (max 0 (w - held_of j l)))"
    using r(4) other by (auto simp: held_same [OF l1(4)])
  have out: "\<forall>j. CHR ''-'' \<notin> set j \<longrightarrow> j \<notin> fst ` set (c # cs) \<longrightarrow> free_of j l' = free_of j l"
    using r(5) l1(5) k(1) c by auto
  have run: "\<exists>d'. retire_kinds io md held_ts un (c # cs) l = (Inr d', l')"
    using c k(2) l1(1) r(1) by (simp add: Let_def)
  have all: "\<forall>(j, w) \<in> set (c # cs). free_of j l' \<le> max 0 (w - held_of j l)
      \<and> (\<not> un \<longrightarrow> free_of j l' = min (free_of j l) (max 0 (w - held_of j l)))"
    using here exact rest c by simp
  from run obtain d' where "retire_kinds io md held_ts un (c # cs) l = (Inr d', l')" ..
  moreover have "held l' = held l" using r(2) l1(4) by simp
  ultimately show ?case
    using r(3) all out by blast
qed

lemma held_census_covers:
  assumes "held_census io l = Inr (ts, un)" and "accounted l"
  shows "covers (minted_and_dead_names io l) ts (un \<noteq> []) l"
proof (cases "un = []")
  case True
  with assms held_census_exact [of io l ts] show ?thesis
    by (simp add: covers_def accounted_def)
next
  case False
  have "set (held_names l) \<subseteq> set (minted l) - set (dead l)"
    using assms(2) by (auto simp: accounted_def live_tokens_def)
  with False show ?thesis by (simp add: covers_def minted_and_dead_names_def)
qed

lemma report_census_same:
  "free (snd (report_census rd wr now un asked d l)) = free l"
  "held (snd (report_census rd wr now un asked d l)) = held l"
  "minted (snd (report_census rd wr now un asked d l)) = minted l"
  "dead (snd (report_census rd wr now un asked d l)) = dead l"
  "strict (snd (report_census rd wr now un asked d l)) = strict l"
  by (auto simp: report_census_def Let_def)

definition plain_capacity :: "(string, int) dict \<Rightarrow> bool" where
  "plain_capacity d \<longleftrightarrow> distinct (map fst d) \<and> list_all (\<lambda>(k, v). CHR ''-'' \<notin> set k \<and> 0 \<le> v) d"

text \<open>
  C6: lowering a capacity never over-admits, readable holders or not (issue 936). Whatever
  holders could not be read, afterwards each asked kind has no free token left, or its free
  tokens together with everything that is truly held stay within the target; no holder loses a
  token. With every holder readable the shrink is exact: it retires the excess and no more.
\<close>

theorem retire_free_capacity_safe:
  assumes "accounted l" and "retire_ok io" and "plain_capacity capacity"
  shows "\<exists>d r l'. retire_free_capacity io rd wr now capacity l = (Inr (d, r), l')
    \<and> held l' = held l
    \<and> (\<forall>(k, v) \<in> set capacity. free_of k l' = 0 \<or> free_of k l' + held_of k l \<le> v)
    \<and> ((\<forall>k \<in> set (holder_keys l). \<not> unreadable io k) \<longrightarrow>
        (\<forall>(k, v) \<in> set capacity. free_of k l' = min (free_of k l) (max 0 (v - held_of k l))))"
proof -
  obtain ts un where hc: "held_census io l = Inr (ts, un)"
    using assms(2) by (auto simp: held_census_def retire_ok_def)
  have cs: "distinct (map fst (sorted_items capacity))"
    "\<forall>(k, v) \<in> set (sorted_items capacity). CHR ''-'' \<notin> set k \<and> 0 \<le> v"
    using assms(3) by (auto simp: plain_capacity_def list_all_iff)
  have cust: "custody l" using assms(1) by (simp add: accounted_def)
  obtain d l1 where r: "retire_kinds io (minted_and_dead_names io l) ts (un \<noteq> []) (sorted_items capacity) l = (Inr d, l1)"
    "held l1 = held l"
    "\<forall>(k, v) \<in> set (sorted_items capacity). free_of k l1 \<le> max 0 (v - held_of k l)
       \<and> (\<not> un \<noteq> [] \<longrightarrow> free_of k l1 = min (free_of k l) (max 0 (v - held_of k l)))"
    using retire_kinds_bound [OF assms(2) cust held_census_covers [OF hc assms(1)] cs] by blast
  obtain rep l2 where rep: "report_census rd wr now un (map fst capacity) d l1 = (rep, l2)" by fastforce
  then have l2: "free l2 = free l1" "held l2 = held l1"
    using report_census_same [of rd wr now un "map fst capacity" d l1] by simp_all
  have "retire_free_capacity io rd wr now capacity l = (Inr (d, rep), l2)"
    using hc r(1) rep by (simp add: retire_free_capacity_def)
  moreover have "\<forall>(k, v) \<in> set capacity. free_of k l2 = 0 \<or> free_of k l2 + held_of k l \<le> v"
    using r(3) l2(1) by (fastforce simp: free_of_def max_def split: if_splits)
  moreover have "un = []" if "\<forall>k \<in> set (holder_keys l). \<not> unreadable io k"
    using that hc by (auto simp: held_census_def filter_empty_conv split: if_splits)
  ultimately show ?thesis using r(2,3) l2 by (auto simp: free_of_def)
qed

theorem retire_free_capacity_safe_witness:
  "\<exists>d r l'. retire_free_capacity (no_fault\<lparr>listing_err := \<lambda>k. k = ''a''\<rparr>) True True 7 [(''gib'', 2)]
      \<lparr>strict = True, free = [''gib-0003'', ''gib-0002''],
       held = [(''a'', \<lparr>tokens = [''gib-0000'', ''gib-0001''], cpu_md = None, gpu_md = None\<rparr>)],
       minted = [''gib-0000'', ''gib-0001'', ''gib-0002'', ''gib-0003''], dead = [],
       last_shortage = None, census_file = None\<rparr> = (Inr (d, r), l')
   \<and> free l' = []"
proof -
  let ?io = "no_fault\<lparr>listing_err := \<lambda>k. k = ''a''\<rparr>"
  let ?l = "\<lparr>strict = True, free = [''gib-0003'', ''gib-0002''],
       held = [(''a'', \<lparr>tokens = [''gib-0000'', ''gib-0001''], cpu_md = None, gpu_md = None\<rparr>)],
       minted = [''gib-0000'', ''gib-0001'', ''gib-0002'', ''gib-0003''], dead = [],
       last_shortage = None, census_file = None\<rparr>"
  have "accounted ?l"
    by (simp add: accounted_def custody_iff_distinct live_tokens_def held_names_def)
  moreover have "retire_ok ?io" by (simp add: retire_ok_def no_fault_def)
  moreover have "plain_capacity [(''gib'', 2)]" by (simp add: plain_capacity_def)
  ultimately obtain d r l' where x: "retire_free_capacity ?io True True 7 [(''gib'', 2)] ?l = (Inr (d, r), l')"
    using retire_free_capacity_safe [of ?l ?io "[(''gib'', 2)]" True True 7] by blast
  moreover have "free (snd (retire_free_capacity ?io True True 7 [(''gib'', 2)] ?l)) = []"
    by code_simp
  ultimately show ?thesis by auto
qed

section \<open>Destroying a holder's tokens\<close>

text \<open>Tokens \<open>ms\<close> of holder \<open>k\<close> went to \<open>minted/dead/\<close>, and nothing else moved.\<close>

definition destroys :: "name \<Rightarrow> name list \<Rightarrow> ledger \<Rightarrow> ledger \<Rightarrow> bool" where
  "destroys k ms l l' \<longleftrightarrow>
     accounted l' \<and> free l' = free l \<and> minted l' = minted l \<and> strict l' = strict l
     \<and> mset (held_by k l') + mset ms = mset (held_by k l)
     \<and> (\<forall>j. j \<noteq> k \<longrightarrow> held_by j l' = held_by j l)
     \<and> live_tokens l' + mset ms = live_tokens l
     \<and> set (dead l') = set (dead l) \<union> set ms"

lemma destroys_refl: "accounted l \<Longrightarrow> destroys k [] l l"
  by (simp add: destroys_def)

lemma destroys_trans: "destroys k ms l l' \<Longrightarrow> destroys k ns l' l'' \<Longrightarrow> destroys k (ms @ ns) l l''"
  unfolding destroys_def by (simp add: ac_simps Un_assoc) (metis union_assoc union_commute)

lemma destroys_same_tokens: "destroys k ms l l' \<Longrightarrow> same_tokens l' l'' \<Longrightarrow> destroys k ms l l''"
  using same_tokens_custody [of l' l''] same_tokens_live [of l' l'']
  by (auto simp: destroys_def same_tokens_def accounted_def)

lemma rename_destroys:
  assumes "accounted l" and "n \<in> set (held_by k l)"
  shows "destroys k [n] l (rename_token (Held_Dir k) Dead_Dir n l)"
proof -
  let ?r = "rename_token (Held_Dir k) Dead_Dir n l"
  have cust: "custody l" using assms(1) by (simp add: accounted_def)
  have n: "n \<in> set (dir_names l (Held_Dir k))" using assms(2) by simp
  have live: "add_mset n (live_tokens ?r) = live_tokens l"
    using live_take_out [OF n] by (simp add: rename_token_def)
  have names: "dir_names ?r e = (if e = Dead_Dir then List.insert n (dead l)
      else if e = Held_Dir k then remove1 n (held_by k l) else dir_names l e)" for e
    by (subst dir_names_rename) auto
  have "n \<notin># live_tokens ?r"
    using custody_gone [OF cust n] by (simp add: rename_token_def)
  moreover have sub: "set_mset (live_tokens ?r) \<subseteq> set_mset (live_tokens l)"
    using live [symmetric] by auto
  moreover have "n \<in># live_tokens l" using dir_names_live [OF n] by simp
  moreover have "custody ?r"
  proof -
    have "count (live_tokens ?r) m \<le> count (live_tokens l) m" for m
      unfolding live [symmetric] by simp
    with cust show ?thesis by (fastforce simp: custody_def intro: le_trans)
  qed
  ultimately have "accounted ?r"
    using assms(1) names [of Dead_Dir] by (auto simp: accounted_def List.insert_def)
  moreover have "free ?r = free l" using names [of Free_Dir] by simp
  moreover have "held_by j ?r = held_by j l" if "j \<noteq> k" for j
    using names [of "Held_Dir j"] that by simp
  moreover have "mset (held_by k ?r) + mset [n] = mset (held_by k l)"
    using names [of "Held_Dir k"] assms(2) by simp
  moreover have "set (dead ?r) = set (dead l) \<union> set [n]"
    using names [of Dead_Dir] by simp
  ultimately show ?thesis using live by (simp add: destroys_def)
qed

lemma destroy_tokens_destroys:
  "destroy_tokens io k want ns l = (c, l') \<Longrightarrow> accounted l \<Longrightarrow> set ns \<subseteq> set (held_by k l) \<Longrightarrow>
   distinct ns \<Longrightarrow> \<exists>ms. destroys k ms l l' \<and> c = length ms \<and> c \<le> want \<and> set ms \<subseteq> set ns"
proof (induction ns arbitrary: want l c l')
  case Nil
  then show ?case by (auto intro: exI [of _ "[]"] destroys_refl)
next
  case (Cons n ns)
  show ?case
  proof (cases "want = 0")
    case True
    with Cons.prems show ?thesis by (auto intro: exI [of _ "[]"] destroys_refl)
  next
    case pos: False
    show ?thesis
    proof (cases "\<not> dead_err io \<and> rename_err io (Held_Dir k) Dead_Dir n = None")
      case True
      let ?r = "rename_token (Held_Dir k) Dead_Dir n l"
      from True pos Cons.prems(1) obtain c' where
        *: "destroy_tokens io k (want - 1) ns ?r = (c', l')" "c = Suc c'"
        by (auto split: prod.splits)
      have d: "destroys k [n] l ?r" using Cons.prems by (intro rename_destroys) simp_all
      have "set ns \<subseteq> set (held_by k ?r)"
      proof
        fix m assume "m \<in> set ns"
        with Cons.prems have "m \<noteq> n" "m \<in> set (held_by k l)" by auto
        moreover have "set_mset (mset (held_by k ?r) + mset [n]) = set_mset (mset (held_by k l))"
          using d unfolding destroys_def by metis
        ultimately show "m \<in> set (held_by k ?r)" by auto
      qed
      then obtain ms where ms: "destroys k ms ?r l'" "c' = length ms" "c' \<le> want - 1" "set ms \<subseteq> set ns"
        using Cons.IH [OF *(1)] d Cons.prems(4) by (auto simp: destroys_def)
      have "destroys k ([n] @ ms) l l'" using d ms(1) by (rule destroys_trans)
      with ms *(2) pos show ?thesis by (intro exI [of _ "n # ms"]) auto
    next
      case False
      have "n \<in># live_tokens l" using dir_names_live [of n l "Held_Dir k"] Cons.prems(3) by simp
      then have "n \<notin> set (dead l)" using Cons.prems(2) by (auto simp: accounted_def)
      with False pos Cons.prems(1) have "destroy_tokens io k want ns l = (c, l')"
        by (auto split: option.splits errno.splits if_splits)
      from Cons.IH [OF this] Cons.prems show ?thesis by auto
    qed
  qed
qed

lemma retire_held_loop_destroys:
  "retire_held_loop io k cs l = (d, l') \<Longrightarrow> accounted l \<Longrightarrow>
   \<exists>ms. destroys k ms l l' \<and> sum_list (map snd d) = length ms"
proof (induction cs arbitrary: l d l')
  case Nil
  then show ?case by (auto intro: exI [of _ "[]"] destroys_refl)
next
  case (Cons x cs)
  obtain kind want where x: "x = (kind, want)" by (cases x)
  show ?case
  proof (cases "want \<le> 0")
    case True
    with Cons x show ?thesis by simp
  next
    case False
    let ?ts = "rev (sort (filter (matches_kind kind) (held_by k l)))"
    obtain c l1 where dt: "destroy_tokens io k (nat want) ?ts l = (c, l1)" by fastforce
    obtain d' where rest: "retire_held_loop io k cs l1 = (d', l')" "d = (if c = 0 then d' else (kind, c) # d')"
      using Cons.prems(1) x False dt by (auto split: prod.splits if_splits)
    have "distinct (held_by k l)"
      using custody_distinct_dir [of l "Held_Dir k"] Cons.prems(2) by (simp add: accounted_def)
    then obtain ms where ms: "destroys k ms l l1" "c = length ms"
      using destroy_tokens_destroys [OF dt Cons.prems(2)] by auto
    then obtain ns where ns: "destroys k ns l1 l'" "sum_list (map snd d') = length ns"
      using Cons.IH [OF rest(1)] by (auto simp: destroys_def)
    have "destroys k (ms @ ns) l l'" using ms(1) ns(1) by (rule destroys_trans)
    with ms(2) ns(2) rest(2) show ?thesis by (intro exI [of _ "ms @ ns"]) auto
  qed
qed

lemma retire_held_destroys_some:
  assumes "accounted l"
  obtains ms where "destroys k ms l (snd (retire_held io k cs l))"
    "sum_list (map snd (fst (retire_held io k cs l))) = length ms"
proof (cases "holder_of k l = None")
  case True
  with assms that [of "[]"] show thesis by (simp add: retire_held_def destroys_refl)
next
  case False
  obtain d l1 where r: "retire_held_loop io k (sorted_items cs) l = (d, l1)" by fastforce
  then obtain ms where ms: "destroys k ms l l1" "sum_list (map snd d) = length ms"
    using retire_held_loop_destroys assms by blast
  then have "same_tokens l1 (drop_empty_holder io k l1)"
    by (intro drop_empty_holder_same) (simp add: destroys_def accounted_def)
  with ms(1) have "destroys k ms l (drop_empty_holder io k l1)" by (rule destroys_same_tokens)
  moreover have "retire_held io k cs l = (d, drop_empty_holder io k l1)"
    using False r by (auto simp: retire_held_def)
  ultimately show thesis using ms(2) by (intro that [of ms]) simp_all
qed

text \<open>
  destroying held tokens drops the holder and the total together. Whatever renames fail, the
  reported counts are the tokens that left the holder, each of them is filed as dead with its
  mint marker in place, \<open>free/\<close> and every other holder are untouched, and the accounting
  invariant holds: a destroyed name is not live and keeps its marker.
\<close>

theorem retire_held_never_frees:
  assumes "accounted l"
  shows "case retire_held io key counts l of (d, l') \<Rightarrow>
    accounted l' \<and> free l' = free l \<and> minted l' = minted l
    \<and> (\<forall>j. j \<noteq> key \<longrightarrow> held_by j l' = held_by j l)
    \<and> (\<exists>gone. mset (held_by key l') + mset gone = mset (held_by key l)
         \<and> set (dead l') = set (dead l) \<union> set gone \<and> set gone \<subseteq> set (minted l')
         \<and> length gone = sum_list (map snd d))"
proof -
  obtain ms where ms: "destroys key ms l (snd (retire_held io key counts l))"
    "sum_list (map snd (fst (retire_held io key counts l))) = length ms"
    using assms by (rule retire_held_destroys_some)
  moreover have "set ms \<subseteq> set (dead (snd (retire_held io key counts l)))"
    using ms(1) by (simp add: destroys_def)
  ultimately show ?thesis
    by (auto simp: destroys_def accounted_def case_prod_unfold intro!: exI [of _ ms])
qed

theorem retire_held_never_frees_witness:
  "dead (snd (retire_held no_fault ''a'' [(''gib'', 1)]
      \<lparr>strict = True, free = [],
       held = [(''a'', \<lparr>tokens = [''gib-0000'', ''gib-0001''], cpu_md = None, gpu_md = None\<rparr>)],
       minted = [''gib-0000'', ''gib-0001''], dead = [], last_shortage = None, census_file = None\<rparr>))
   = [''gib-0001'']"
proof -
  let ?l = "\<lparr>strict = True, free = [],
       held = [(''a'', \<lparr>tokens = [''gib-0000'', ''gib-0001''], cpu_md = None, gpu_md = None\<rparr>)],
       minted = [''gib-0000'', ''gib-0001''], dead = [], last_shortage = None, census_file = None\<rparr>"
  have "accounted ?l"
    by (simp add: accounted_def custody_iff_distinct live_tokens_def held_names_def)
  then have "case retire_held no_fault ''a'' [(''gib'', 1)] ?l of (d, l') \<Rightarrow> accounted l'"
    using retire_held_never_frees [of ?l "''a''" no_fault "[(''gib'', 1)]"] by (simp add: case_prod_unfold)
  moreover have "dead (snd (retire_held no_fault ''a'' [(''gib'', 1)] ?l)) = [''gib-0001'']"
    by code_simp
  ultimately show ?thesis by simp
qed

section \<open>Minting is complete and idempotent\<close>

text \<open>A file system on which a mint meets no fault.\<close>

definition mint_ok :: "io \<Rightarrow> bool" where
  "mint_ok io \<longleftrightarrow> no_stranding io \<and> \<not> markers_err io \<and> \<not> free_err io \<and> \<not> held_err io
     \<and> (\<forall>k. \<not> holder_err io k \<and> \<not> listing_err io k \<and> (\<forall>n. \<not> probe_err io k n))
     \<and> (\<forall>n. \<not> mark_err io n)"

lemma token_is_held_ok: "mint_ok io \<Longrightarrow> \<exists>b. token_is_held io st n ks l = Inr b"
  by (induction ks) (auto simp: mint_ok_def)

lemma mint_index_ok:
  assumes "mint_ok io" and "custody l"
  shows "fst (mint_index io n l) = Mint_Next" and "n \<in> set (minted (snd (mint_index io n l)))"
proof -
  obtain b where b: "token_is_held io (strict l) n (holder_keys l) l = Inr b"
    using token_is_held_ok [OF assms(1)] by blast
  have io: "\<not> held_err io" "\<not> mark_err io n" "\<not> create_err io n"
    using assms(1) by (auto simp: mint_ok_def no_stranding_def)
  show "fst (mint_index io n l) = Mint_Next" "n \<in> set (minted (snd (mint_index io n l)))"
    using b io by (auto simp: mint_index_def Let_def split: bool.splits)
qed

lemma mint_names_ok:
  "mint_ok io \<Longrightarrow> custody l \<Longrightarrow>
   fst (mint_names io ns l) = Mint_Next \<and> set ns \<subseteq> set (minted (snd (mint_names io ns l)))"
proof (induction ns arbitrary: l)
  case Nil
  then show ?case by simp
next
  case (Cons n ns)
  obtain l1 where l1: "mint_index io n l = (Mint_Next, l1)" "n \<in> set (minted l1)"
    using mint_index_ok [OF Cons.prems, of n] by (metis prod.collapse)
  have c1: "custody l1" using mint_index_mints [OF Cons.prems(2), of n io] l1 by (simp add: mints_def)
  have "set (minted l1) \<subseteq> set (minted (snd (mint_names io ns l1)))"
    using mint_names_mints [OF c1] by (simp add: mints_def)
  with Cons.IH [OF Cons.prems(1) c1] l1 show ?case by auto
qed

lemma mint_kinds_ok:
  "mint_ok io \<Longrightarrow> custody l \<Longrightarrow> \<forall>(k, v) \<in> set cs. 0 \<le> v \<Longrightarrow>
   fst (mint_kinds io cs l) = Mint_Next \<and> declared cs \<subseteq> set (minted (snd (mint_kinds io cs l)))"
proof (induction cs arbitrary: l)
  case Nil
  then show ?case by (simp add: declared_def)
next
  case (Cons c cs)
  obtain k v where c: "c = (k, v)" by (cases c)
  obtain l1 where l1: "mint_names io (index_names k v) l = (Mint_Next, l1)"
    "set (index_names k v) \<subseteq> set (minted l1)"
    using mint_names_ok [OF Cons.prems(1,2), of "index_names k v"] by (metis prod.collapse)
  have c1: "custody l1"
    using mint_names_mints [OF Cons.prems(2), of "index_names k v" io] l1 by (simp add: mints_def)
  have "set (minted l1) \<subseteq> set (minted (snd (mint_kinds io cs l1)))"
    using mint_kinds_mints [OF c1] by (simp add: mints_def)
  moreover have "fst (mint_kinds io cs l1) = Mint_Next"
    "declared cs \<subseteq> set (minted (snd (mint_kinds io cs l1)))"
    using Cons.IH [OF Cons.prems(1) c1] Cons.prems(3) by auto
  ultimately show ?case using c l1 Cons.prems(3) by (auto simp: declared_def)
qed

lemma mint_names_skip: "set ns \<subseteq> set (minted l) \<Longrightarrow> mint_names io ns l = (Mint_Next, l)"
  by (induction ns) (simp_all add: mint_index_def)

lemma mint_kinds_skip:
  "\<forall>(k, v) \<in> set cs. 0 \<le> v \<Longrightarrow> declared cs \<subseteq> set (minted l) \<Longrightarrow> mint_kinds io cs l = (Mint_Next, l)"
  by (induction cs) (auto simp: declared_def mint_names_skip)

lemma adopt_names_skip: "set ns \<subseteq> set (minted l) \<Longrightarrow> adopt_names io ns l = l"
  by (induction ns) simp_all

lemma adopt_names_all: "mint_ok io \<Longrightarrow> set ns \<subseteq> set (minted (adopt_names io ns l))"
proof (induction ns arbitrary: l)
  case Nil
  then show ?case by simp
next
  case (Cons n ns)
  have mono: "set (minted x) \<subseteq> set (minted (adopt_names io ns x))" for x
    by (induction ns arbitrary: x) (fastforce split: if_splits)+
  let ?l = "if n \<in> set (minted l) \<or> mark_err io n then l else l\<lparr>minted := n # minted l\<rparr>"
  have "n \<in> set (minted ?l)" using Cons.prems by (simp add: mint_ok_def)
  then have "n \<in> set (minted (adopt_names io ns ?l))" using mono by blast
  moreover have "set ns \<subseteq> set (minted (adopt_names io ns ?l))" using Cons.prems by (rule Cons.IH)
  ultimately show ?case by (simp only: adopt_names.simps list.set insert_subset)
qed

lemma present_held_ok:
  "mint_ok io \<Longrightarrow> present_held io st ks l = Inr (concat (map (\<lambda>k. filter is_token (held_by k l)) ks))"
  by (induction ks) (auto simp: mint_ok_def)

lemma present_names_ok:
  assumes "mint_ok io" and "custody l"
  obtains ns where "present_names io l = Inr ns" "set ns = {n \<in> set_mset (live_tokens l). is_token n}"
proof -
  have "(n \<in> set (free l) \<or> (\<exists>k \<in> set (holder_keys l). n \<in> set (held_by k l))) = (n \<in># live_tokens l)" for n
    using not_live_iff [OF assms(2)] by blast
  with assms(1) that present_held_ok [OF assms(1)] show thesis
    by (fastforce simp: present_names_def mint_ok_def)
qed

lemma ensure_capacity_ok:
  assumes "mint_ok io" and "custody l" and "\<forall>(k, v) \<in> set capacity. 0 \<le> v"
  obtains l' where "ensure_capacity io capacity l = (Inr (), l')" "declared capacity \<subseteq> set (minted l')"
    "{n \<in> set_mset (live_tokens l'). is_token n} \<subseteq> set (minted l')"
    "backs_markers l l'"
proof -
  obtain ns where ns: "present_names io l = Inr ns" "set ns = {n \<in> set_mset (live_tokens l). is_token n}"
    using present_names_ok [OF assms(1,2)] .
  let ?l1 = "adopt_names io (sort (remdups ns)) l"
  let ?l2 = "snd (mint_kinds io (sorted_items capacity) ?l1)"
  have m1: "mints {} l ?l1" using assms(2) by (rule adopt_names_mints)
  have c1: "custody ?l1" using m1 by (rule mints_custody)
  have k: "fst (mint_kinds io (sorted_items capacity) ?l1) = Mint_Next"
    "declared capacity \<subseteq> set (minted ?l2)"
    using mint_kinds_ok [OF assms(1) c1, of "sorted_items capacity"] assms(3) by simp_all
  have m2: "mints (declared capacity) ?l1 ?l2"
    using mint_kinds_mints [OF c1, of "sorted_items capacity" io] by simp
  have run: "ensure_capacity io capacity l = (Inr (), ?l2)"
    using assms(1) ns(1) k(1)
    by (auto simp: ensure_capacity_def adopt_present_tokens_def mint_ok_def split: prod.splits mint.splits)
  have old: "{n \<in> set_mset (live_tokens l). is_token n} \<subseteq> set (minted ?l2)"
    using adopt_names_all [OF assms(1), of "sort (remdups ns)" l] ns(2) m2 by (auto simp: mints_def)
  moreover have "set_mset (live_tokens ?l2) \<subseteq> set_mset (live_tokens l) \<union> set (minted ?l2)"
  proof -
    have m: "mints (declared capacity) l ?l2"
      using mints_mono [OF m1, of "declared capacity"] m2 mints_trans by blast
    then obtain ms where "mset (free ?l2) = mset (free l) + mset ms" "set ms \<subseteq> set (minted ?l2)"
      by (auto simp: mints_def)
    then have "set (free ?l2) \<subseteq> set (free l) \<union> set (minted ?l2)"
      by (metis Un_mono set_mset_mset set_mset_union subset_refl)
    with m show ?thesis by (auto simp: mints_def live_tokens_def held_names_def)
  qed
  moreover have "backs_markers l ?l2"
  proof (rule backs_markers_trans [OF _ _ m2])
    show "backs_markers ?l1 ?l2" using c1 assms(1) by (simp add: mint_kinds_backs mint_ok_def)
    show "backs_markers l ?l1"
      using adopt_names_markers [of io "sort (remdups ns)" l] ns(2) mints_live [OF m1]
      by (auto simp: backs_markers_def)
  qed
  ultimately show thesis using run k(2) by (intro that [of ?l2]) auto
qed

text \<open>
  without faults \<open>ensure_capacity\<close> mints exactly what is missing. The free tokens it adds
  are the declared names that had no marker and no token, and calling it again changes nothing,
  so workers that declare the same capacity converge.
\<close>

theorem ensure_capacity_mints_missing_once:
  assumes "mint_ok io" and "custody l" and "\<forall>(k, v) \<in> set capacity. 0 \<le> v"
  shows "case ensure_capacity io capacity l of (r, l') \<Rightarrow>
    r = Inr ()
    \<and> set (free l') = set (free l) \<union> (declared capacity - set (minted l) - set_mset (live_tokens l))
    \<and> ensure_capacity io capacity l' = (Inr (), l')"
proof -
  obtain l' where e: "ensure_capacity io capacity l = (Inr (), l')"
    "declared capacity \<subseteq> set (minted l')" "{n \<in> set_mset (live_tokens l'). is_token n} \<subseteq> set (minted l')"
    "backs_markers l l'"
    using ensure_capacity_ok [OF assms] .
  have m: "mints (declared capacity) l l'"
    using ensure_capacity_mints [OF assms(2), of capacity io] e(1) by simp
  then obtain ms where ms: "mset (free l') = mset (free l) + mset ms" "set ms \<subseteq> declared capacity"
    "set ms \<inter> set (minted l) = {}" "set ms \<inter> set_mset (live_tokens l) = {}"
    by (auto simp: mints_def)
  have f: "set (free l') = set (free l) \<union> set ms" using ms(1) by (metis set_mset_mset set_mset_union)
  have held: "held_names l' = held_names l" using m by (simp add: mints_def held_names_def)
  have "declared capacity - set (minted l) - set_mset (live_tokens l) \<subseteq> set ms"
    using e(2,4) f held by (auto simp: backs_markers_def live_tokens_def)
  with f ms have free: "set (free l') = set (free l) \<union> (declared capacity - set (minted l) - set_mset (live_tokens l))"
    by blast
  obtain ns where ns: "present_names io l' = Inr ns" "set ns = {n \<in> set_mset (live_tokens l'). is_token n}"
    using present_names_ok [OF assms(1) mints_custody [OF m]] .
  have "adopt_present_tokens io l' = (Inr (), l')"
    using ns e(3) by (simp add: adopt_present_tokens_def adopt_names_skip)
  moreover have "mint_kinds io (sorted_items capacity) l' = (Mint_Next, l')"
    using assms(3) e(2) by (intro mint_kinds_skip) simp_all
  ultimately have "ensure_capacity io capacity l' = (Inr (), l')"
    using assms(1) by (simp add: ensure_capacity_def mint_ok_def)
  with e(1) free show ?thesis by simp
qed

theorem ensure_capacity_mints_missing_once_witness:
  "case ensure_capacity no_fault [(''gpu'', 2)] ((fresh_ledger False)\<lparr>free := [''gpu-0000'']\<rparr>) of (r, l') \<Rightarrow>
    ensure_capacity no_fault [(''gpu'', 2)] l' = (Inr (), l')"
proof -
  let ?l = "(fresh_ledger False)\<lparr>free := [''gpu-0000'']\<rparr>"
  have "custody ?l"
    by (simp add: custody_iff_distinct held_names_def fresh_ledger_def)
  moreover have "mint_ok no_fault" by (simp add: mint_ok_def no_stranding_def no_fault_def)
  ultimately show ?thesis
    using ensure_capacity_mints_missing_once [of no_fault ?l "[(''gpu'', 2)]"] by (simp add: case_prod_unfold)
qed

end
