(* ===== verification/Ledger_Machine.thy ===== *)
theory Ledger_Machine
  imports Ledger_Mint
begin

text \<open>
  The ledger as a state machine: one step is one call of one mutator, by any worker, with any
  arguments and any file-system faults. The steps interleave freely, since each runs under the
  ledger's exclusion. The theorems are about every reachable state.
\<close>

section \<open>Steps\<close>

text \<open>
  \<open>C\<close> is the largest capacity anybody ever declares for a kind. A retire that cannot remove a
  token it has unmarked leaves an unmarked token, which custody survives and the accounting does
  not; the flag \<open>f\<close> says whether that one fault may happen.
\<close>

definition within :: "(string \<Rightarrow> nat) \<Rightarrow> (string, int) dict \<Rightarrow> bool" where
  "within C capacity \<longleftrightarrow> list_all (\<lambda>(k, v). nat v \<le> C k) capacity"

inductive step :: "(string \<Rightarrow> nat) \<Rightarrow> bool \<Rightarrow> ledger \<Rightarrow> ledger \<Rightarrow> bool" for C f where
  ensure: "within C capacity \<Longrightarrow> step C f l (snd (ensure_capacity io capacity l))"
| retire: "f \<or> (\<forall>n. \<not> unlink_err io Free_Dir n) \<Longrightarrow> step C f l (snd (retire_free_capacity io rd wr now capacity l))"
| destroy: "step C f l (snd (retire_held io key counts l))"
| start: "step C f l (snd (begin_acquire gate a io c key demand ad t g l))"
| commit: "step C f l (fst (commit_acquire io key h l))"
| abandon: "step C f l (snd (abandon_acquire io h l))"
| take: "step C f l (snd (acquire gate a io c key demand l))"
| sweep: "step C f l (snd (sweep_stale_acquisitions io now grace local alive mtime l))"
| give: "step C f l (snd (release io key l))"
| give_count: "step C f l (fst (release_count io key counts l))"
| give_kinds: "step C f l (fst (release_kinds io key kinds l))"
| give_except: "step C f l (fst (release_except io key keep l))"
| move: "step C f l (snd (transfer io from into l))"
| move_count: "step C f l (snd (transfer_count io from into num l))"
| move_tokens: "step C f l (snd (transfer_tokens io from into names l))"

inductive reachable :: "(string \<Rightarrow> nat) \<Rightarrow> bool \<Rightarrow> ledger \<Rightarrow> bool" for C f where
  fresh: "reachable C f (fresh_ledger s)"
| next_state: "reachable C f l \<Longrightarrow> step C f l l' \<Longrightarrow> reachable C f l'"

inductive_cases stepE: "step C f l l'"

section \<open>What a step does to the live tokens\<close>

lemmas conserving_ops =
  rel.conserves_op aba.conserves_op relc.conserves_op relk.conserves_op relx.conserves_op
  com.conserves_op tra.conserves_op trc.conserves_op trt.conserves_op
  beg.conserves_op swp.conserves_op acq.conserves_op

text \<open>A step that creates nothing: what is live afterwards was live before.\<close>

definition consumes :: "ledger \<Rightarrow> ledger \<Rightarrow> bool" where
  "consumes l l' \<longleftrightarrow> custody l' \<and> live_tokens l' \<subseteq># live_tokens l"

lemma consumes_refl: "custody l \<Longrightarrow> consumes l l"
  by (simp add: consumes_def)

lemma consumes_trans: "consumes l l' \<Longrightarrow> consumes l' l'' \<Longrightarrow> consumes l l''"
  by (auto simp: consumes_def)

lemma conserves_consumes: "conserves l l' \<Longrightarrow> consumes l l'"
  by (simp add: conserves_def consumes_def)

lemma custody_less:
  assumes "custody l" and "live_tokens l' \<subseteq># live_tokens l" and "distinct (map fst (held l'))"
  shows "consumes l l'"
  using assms unfolding consumes_def custody_def by (metis le_trans mset_subset_eq_count)

lemma retire_tokens_consumes: "custody l \<Longrightarrow> consumes l (snd (retire_tokens io ns l))"
  using retire_tokens_frame [of io ns l]
  by (intro custody_less) (auto simp: live_tokens_def held_names_def custody_def)

lemma retire_kinds_consumes: "custody l \<Longrightarrow> consumes l (snd (retire_kinds io md hs un cs l))"
proof (induction cs arbitrary: l)
  case Nil
  then show ?case by (simp add: consumes_refl)
next
  case (Cons c cs)
  obtain k v where c: "c = (k, v)" by (cases c)
  let ?ns = "take (excess_of md un k v (free_of_kind io k l) hs) (free_of_kind io k l)"
  let ?l1 = "snd (retire_tokens io ?ns l)"
  have 1: "consumes l ?l1" using Cons.prems by (rule retire_tokens_consumes)
  have "consumes ?l1 (snd (retire_kinds io md hs un cs ?l1))"
    using 1 by (intro Cons.IH) (simp add: consumes_def)
  with 1 have "consumes l (snd (retire_kinds io md hs un cs ?l1))" by (rule consumes_trans)
  with 1 c consumes_refl [OF Cons.prems] show ?case
    by (auto simp: Let_def split: prod.splits sum.splits)
qed

lemma report_census_conserves: "custody l \<Longrightarrow> conserves l (snd (report_census rd wr now un asked d l))"
  by (simp add: conserves_def custody_def live_tokens_def held_names_def report_census_same)

lemma retire_free_capacity_consumes:
  assumes "custody l"
  shows "consumes l (snd (retire_free_capacity io rd wr now capacity l))"
proof (cases "held_census io l")
  case (Inl e)
  with assms show ?thesis by (simp add: retire_free_capacity_def consumes_refl)
next
  case (Inr p)
  obtain hs un where p: "p = (hs, un)" by (cases p)
  let ?r = "retire_kinds io (minted_and_dead_names io l) hs (un \<noteq> []) (sorted_items capacity) l"
  have 1: "consumes l (snd ?r)" using assms by (rule retire_kinds_consumes)
  then have "consumes (snd ?r) (snd (report_census rd wr now un (map fst capacity) d (snd ?r)))" for d
    by (intro conserves_consumes report_census_conserves) (simp add: consumes_def)
  with 1 have "consumes l (snd (report_census rd wr now un (map fst capacity) d (snd ?r)))" for d
    using consumes_trans by blast
  with 1 Inr p show ?thesis
    by (cases "fst ?r") (simp_all add: retire_free_capacity_def case_prod_unfold)
qed

lemma destroy_tokens_consumes:
  "custody l \<Longrightarrow> set ns \<subseteq> set (held_by k l) \<Longrightarrow> distinct ns \<Longrightarrow>
   consumes l (snd (destroy_tokens io k want ns l))"
proof (induction ns arbitrary: want l)
  case Nil
  then show ?case by (simp add: consumes_refl)
next
  case (Cons n ns)
  let ?r = "rename_token (Held_Dir k) Dead_Dir n l"
  have n: "n \<in> set (dir_names l (Held_Dir k))" using Cons.prems by simp
  have live: "add_mset n (live_tokens ?r) = live_tokens l"
    using live_take_out [OF n] by (simp add: rename_token_def)
  have r: "consumes l ?r"
    using Cons.prems(1) live [symmetric] by (intro custody_less) (simp_all add: custody_def)
  have "held_by k ?r = remove1 n (held_by k l)"
    using dir_names_rename [of l Dead_Dir "Held_Dir k" n "Held_Dir k"] by simp
  then have "set ns \<subseteq> set (held_by k ?r)"
    using Cons.prems(2,3) by (auto intro: in_set_remove1 [THEN iffD2])
  then have "consumes ?r (snd (destroy_tokens io k w ns ?r))" for w
    using r Cons.prems(3) by (intro Cons.IH) (simp_all add: consumes_def)
  with r have moved: "consumes l (snd (destroy_tokens io k w ns ?r))" for w
    using consumes_trans by blast
  have kept: "consumes l (snd (destroy_tokens io k w ns l))" for w
    using Cons.prems by (intro Cons.IH) simp_all
  show ?case
    using moved [of "want - 1"] kept [of want] kept [of "want - 1"] consumes_refl [OF Cons.prems(1)]
    by (simp split: option.split errno.split prod.split if_split) auto
qed

lemma retire_held_loop_consumes: "custody l \<Longrightarrow> consumes l (snd (retire_held_loop io k cs l))"
proof (induction cs arbitrary: l)
  case Nil
  then show ?case by (simp add: consumes_refl)
next
  case (Cons c cs)
  obtain kind want where c: "c = (kind, want)" by (cases c)
  let ?ts = "rev (sort (filter (matches_kind kind) (held_by k l)))"
  let ?l1 = "snd (destroy_tokens io k (nat want) ?ts l)"
  have "distinct (held_by k l)" using custody_distinct_dir [OF Cons.prems, of "Held_Dir k"] by simp
  then have 1: "consumes l ?l1" using Cons.prems by (intro destroy_tokens_consumes) auto
  then have "consumes ?l1 (snd (retire_held_loop io k cs ?l1))"
    by (intro Cons.IH) (simp add: consumes_def)
  with 1 have "consumes l (snd (retire_held_loop io k cs ?l1))" by (rule consumes_trans)
  with c Cons.IH [OF Cons.prems] show ?case by (auto split: prod.splits)
qed

lemma retire_held_consumes:
  assumes "custody l"
  shows "consumes l (snd (retire_held io key counts l))"
proof -
  let ?l1 = "snd (retire_held_loop io key (sorted_items counts) l)"
  have 1: "consumes l ?l1" using assms by (rule retire_held_loop_consumes)
  then have "custody ?l1" by (simp add: consumes_def)
  then have "consumes ?l1 (drop_empty_holder io key ?l1)"
    by (meson conserves_consumes conserves_same_tokens drop_empty_holder_same)
  with 1 have "consumes l (drop_empty_holder io key ?l1)" by (rule consumes_trans)
  with assms show ?thesis
    by (auto simp: retire_held_def consumes_refl split: prod.splits)
qed

text \<open>Every call but the two retires and the mint only moves tokens.\<close>

lemma step_kinds:
  assumes "step C f l l'" and "custody l"
  obtains (mints) capacity io where "within C capacity" "l' = snd (ensure_capacity io capacity l)"
  | (retires) io rd wr now capacity where "f \<or> (\<forall>n. \<not> unlink_err io Free_Dir n)"
      "l' = snd (retire_free_capacity io rd wr now capacity l)"
  | (destroys) io key counts where "l' = snd (retire_held io key counts l)"
  | (moves) "conserves l l'"
  using assms
proof (cases rule: step.cases)
  case (ensure capacity io)
  with mints show thesis by blast
next
  case retire
  with retires show thesis by blast
next
  case destroy
  with destroys show thesis by blast
qed (use assms(2) moves conserving_ops in \<open>fastforce\<close>)+

lemma step_effect:
  assumes "step C f l l'" and "custody l"
  obtains (mint) capacity where "within C capacity" "mints (declared capacity) l l'"
  | (consume) "consumes l l'"
  using assms
  by (cases rule: step_kinds)
    (use assms(2) mint consume ensure_capacity_mints retire_free_capacity_consumes retire_held_consumes
      conserves_consumes in blast)+

section \<open>No over-admission\<close>

definition offered :: "(string \<Rightarrow> nat) \<Rightarrow> name set" where
  "offered C = {token_name k i | k i. i < C k}"

lemma declared_within: "within C capacity \<Longrightarrow> declared capacity \<subseteq> offered C"
  by (fastforce simp: within_def declared_def index_names_def offered_def list_all_iff)

definition never_over :: "(string \<Rightarrow> nat) \<Rightarrow> ledger \<Rightarrow> bool" where
  "never_over C l \<longleftrightarrow> custody l \<and> set_mset (live_tokens l) \<subseteq> offered C"

lemma step_never_over:
  assumes "step C f l l'" and "never_over C l"
  shows "never_over C l'"
proof -
  have c: "custody l" using assms(2) by (simp add: never_over_def)
  from assms(1) c show ?thesis
  proof (cases rule: step_effect)
    case (mint capacity)
    then obtain ms where ms: "mset (free l') = mset (free l) + mset ms" "set ms \<subseteq> declared capacity"
      and h: "held l' = held l" "custody l'"
      by (auto simp: mints_def)
    have "live_tokens l' = live_tokens l + mset ms"
      using ms(1) h(1) by (simp add: live_tokens_def held_names_def union_ac)
    then show ?thesis
      using ms(2) declared_within [OF mint(1)] assms(2) h(2) by (auto simp: never_over_def)
  next
    case consume
    with assms(2) show ?thesis
      by (auto simp: never_over_def consumes_def dest: set_mset_mono)
  qed
qed

lemma reachable_never_over: "reachable C f l \<Longrightarrow> never_over C l"
proof (induction rule: reachable.induct)
  case (fresh s)
  then show ?case
    by (simp add: never_over_def custody_def live_tokens_def held_names_def fresh_ledger_def)
next
  case (next_state l l')
  then show ?case using step_never_over by blast
qed

text \<open>
  C1: no over-admission. In every state that any interleaving of ledger calls can reach, under
  any faults, no token is in two places and a kind never has more tokens, free and held
  together, than the largest capacity ever declared for it.
\<close>

theorem reachable_no_over_admission:
  assumes "reachable C f l"
  shows "custody l \<and> length (filter (\<lambda>n. kind_of n = k) (free l @ held_names l)) \<le> C k"
proof -
  have inv: "custody l" "set_mset (live_tokens l) \<subseteq> offered C"
    using reachable_never_over [OF assms] by (simp_all add: never_over_def)
  let ?xs = "filter (\<lambda>n. kind_of n = k) (free l @ held_names l)"
  have dis: "distinct (free l @ held_names l)" using inv(1) by (simp add: custody_iff_distinct)
  have names: "n \<in> token_name k ` {..<C k}" if "n \<in> set (free l @ held_names l)" "kind_of n = k" for n
    using that inv(2) by (auto simp: live_tokens_def offered_def)
  then have "set ?xs \<subseteq> token_name k ` {..<C k}" by auto
  then have "length ?xs \<le> card (token_name k ` {..<C k})"
    using dis by (intro distinct_subset_card) auto
  also have "\<dots> \<le> C k" by (metis card_image_le card_lessThan finite_lessThan)
  finally have len: "length ?xs \<le> C k" .
  with inv(1) show ?thesis by simp
qed

theorem reachable_no_over_admission_witness:
  "custody (snd (acquire Gate_None True no_fault
      \<lparr>cl_usec = 1, cl_host = ''h'', cl_pid = 2, cl_nonce = ''00000000''\<rparr> ''k'' [(''gpu'', 1)]
      (snd (ensure_capacity no_fault [(''gpu'', 2)] (fresh_ledger False)))))"
proof -
  let ?C = "\<lambda>k. if k = ''gpu'' then 2 else 0"
  have "reachable ?C True (snd (acquire Gate_None True no_fault
      \<lparr>cl_usec = 1, cl_host = ''h'', cl_pid = 2, cl_nonce = ''00000000''\<rparr> ''k'' [(''gpu'', 1)]
      (snd (ensure_capacity no_fault [(''gpu'', 2)] (fresh_ledger False)))))"
    by (intro next_state [OF next_state [OF fresh ensure] take]) (simp add: within_def)
  then show ?thesis using reachable_no_over_admission by blast
qed

section \<open>The accounting invariant\<close>

lemma mints_accounted:
  assumes "mints S l l'" and "accounted l"
  shows "accounted l'" and "dead l' = dead l"
proof -
  from assms(1) obtain ms where ms: "mset (free l') = mset (free l) + mset ms"
    "set ms \<inter> set (minted l) = {}" "set ms \<subseteq> set (minted l')" and h: "held l' = held l"
    by (auto simp: mints_def)
  have "live_tokens l' = live_tokens l + mset ms"
    using ms(1) h by (simp add: live_tokens_def held_names_def union_ac)
  with assms ms show "accounted l'" by (auto simp: accounted_def mints_def)
  show "dead l' = dead l" using assms(1) by (simp add: mints_def)
qed

lemma retire_tokens_accounted:
  "(\<And>n. \<not> unlink_err io Free_Dir n) \<Longrightarrow> accounted l \<Longrightarrow> set ns \<subseteq> set (free l) \<Longrightarrow> distinct ns \<Longrightarrow>
   accounted (snd (retire_tokens io ns l))"
proof (induction ns arbitrary: l)
  case Nil
  then show ?case by simp
next
  case (Cons n ns)
  let ?l = "l\<lparr>minted := remove1 n (minted l), free := remove1 n (free l)\<rparr>"
  have cust: "custody l" and n: "n \<in> set (dir_names l Free_Dir)"
    using Cons.prems by (simp_all add: accounted_def)
  have live: "live_tokens ?l = live_tokens (take_out Free_Dir n l)"
    by (simp add: live_tokens_def held_names_def)
  have whole: "add_mset n (live_tokens ?l) = live_tokens l"
    using live_take_out [OF n] unfolding live by simp
  have gone: "n \<notin># live_tokens ?l" using custody_gone [OF cust n] unfolding live by simp
  have "custody ?l"
    using cust whole [symmetric] custody_less [of l ?l] by (simp add: custody_def consumes_def)
  moreover have "n \<notin> set (dead l)"
    using whole [symmetric] Cons.prems(2) by (auto simp: accounted_def)
  moreover have "set_mset (live_tokens ?l) \<subseteq> set_mset (live_tokens l) - {n}"
    using whole [symmetric] gone by auto
  ultimately have "accounted ?l"
    using Cons.prems(2) by (auto simp: accounted_def)
  moreover have "set ns \<subseteq> set (free ?l)"
    using Cons.prems(3,4) by (auto intro: in_set_remove1 [THEN iffD2])
  ultimately have "accounted (snd (retire_tokens io ns ?l))"
    using Cons.IH Cons.prems by auto
  with Cons.prems show ?case by (auto simp: Let_def split: prod.splits sum.splits)
qed

lemma retire_kinds_accounted:
  "(\<And>n. \<not> unlink_err io Free_Dir n) \<Longrightarrow> accounted l \<Longrightarrow>
   accounted (snd (retire_kinds io md hs un cs l)) \<and> dead (snd (retire_kinds io md hs un cs l)) = dead l"
proof (induction cs arbitrary: l)
  case Nil
  then show ?case by simp
next
  case (Cons c cs)
  obtain k v where c: "c = (k, v)" by (cases c)
  let ?fs = "free_of_kind io k l"
  let ?ns = "take (excess_of md un k v ?fs hs) ?fs"
  let ?l1 = "snd (retire_tokens io ?ns l)"
  have "distinct (free l)" using Cons.prems(2) custody_distinct_free by (simp add: accounted_def)
  then have "set ?fs \<subseteq> set (free l)" "distinct ?fs" by (auto simp: free_of_kind_def)
  then have "set ?ns \<subseteq> set (free l)" "distinct ?ns" by (auto dest: in_set_takeD)
  then have 1: "accounted ?l1" using Cons.prems by (intro retire_tokens_accounted)
  have 2: "dead ?l1 = dead l" using retire_tokens_frame by blast
  show ?case
    using c Cons.prems(2) 1 2 Cons.IH [OF Cons.prems(1) 1]
    by (auto simp: Let_def split: prod.splits sum.splits)
qed

lemma retire_free_capacity_accounted:
  assumes "\<And>n. \<not> unlink_err io Free_Dir n" and "accounted l"
  shows "accounted (snd (retire_free_capacity io rd wr now capacity l))
    \<and> dead (snd (retire_free_capacity io rd wr now capacity l)) = dead l"
proof (cases "held_census io l")
  case (Inl e)
  with assms show ?thesis by (simp add: retire_free_capacity_def)
next
  case (Inr p)
  obtain hs un where p: "p = (hs, un)" by (cases p)
  let ?r = "retire_kinds io (minted_and_dead_names io l) hs (un \<noteq> []) (sorted_items capacity) l"
  have r: "accounted (snd ?r) \<and> dead (snd ?r) = dead l" using assms by (rule retire_kinds_accounted)
  have "accounted (snd (report_census rd wr now un (map fst capacity) d (snd ?r)))
      \<and> dead (snd (report_census rd wr now un (map fst capacity) d (snd ?r))) = dead l" for d
    using r by (auto simp: accounted_def custody_def live_tokens_def held_names_def report_census_same)
  with r Inr p show ?thesis
    by (cases "fst ?r") (simp_all add: retire_free_capacity_def case_prod_unfold)
qed

lemma conserves_accounted: "conserves l l' \<Longrightarrow> accounted l \<Longrightarrow> accounted l' \<and> dead l' = dead l"
  by (simp add: conserves_def accounted_def)

lemma step_accounted:
  assumes "step C False l l'" and "accounted l"
  shows "accounted l' \<and> set (dead l) \<subseteq> set (dead l')"
proof -
  have c: "custody l" using assms(2) by (simp add: accounted_def)
  from assms(1) c show ?thesis
  proof (cases rule: step_kinds)
    case (mints capacity io)
    with mints_accounted [OF ensure_capacity_mints [OF c] assms(2)] show ?thesis by simp
  next
    case (retires io rd wr now capacity)
    with retire_free_capacity_accounted assms(2) show ?thesis by simp
  next
    case (destroys io key counts)
    obtain ms where "Ledger_Mint.destroys key ms l l'"
      using retire_held_destroys_some [OF assms(2), of key io counts] destroys by blast
    then show ?thesis by (simp add: destroys_def)
  next
    case moves
    with conserves_accounted assms(2) show ?thesis by fastforce
  qed
qed

lemma reachable_accounted: "reachable C False l \<Longrightarrow> accounted l"
proof (induction rule: reachable.induct)
  case (fresh s)
  then show ?case
    by (simp add: accounted_def custody_def live_tokens_def held_names_def fresh_ledger_def)
next
  case (next_state l l')
  then show ?case using step_accounted by blast
qed

inductive steps :: "(string \<Rightarrow> nat) \<Rightarrow> ledger \<Rightarrow> ledger \<Rightarrow> bool" for C where
  done_steps: "steps C l l"
| more_steps: "step C False l l' \<Longrightarrow> steps C l' l'' \<Longrightarrow> steps C l l''"



end
