(* ===== verification/Ledger_Transfer.thy ===== *)
theory Ledger_Transfer
  imports Ledger_Acquire
begin

text \<open>
  What the three transfers of \<open>ResourceLedger\<close> promise about one reservation: tokens go from one
  holder to the other and are never free on the way, the returned count is what moved, and an
  interrupted transfer is finished by calling it again.
\<close>

section \<open>Handing tokens over\<close>

definition hands :: "name \<Rightarrow> name \<Rightarrow> name list \<Rightarrow> ledger \<Rightarrow> ledger \<Rightarrow> bool" where
  "hands a b ms l l' \<longleftrightarrow>
     conserves l l' \<and> free l' = free l
     \<and> mset (held_by a l') + mset ms = mset (held_by a l)
     \<and> mset (held_by b l') = mset (held_by b l) + mset ms
     \<and> (\<forall>k. k \<noteq> a \<longrightarrow> k \<noteq> b \<longrightarrow> held_by k l' = held_by k l)"

lemma hands_refl: "custody l \<Longrightarrow> hands a b [] l l"
  by (simp add: hands_def conserves_refl)

lemma hands_custody: "hands a b ms l l' \<Longrightarrow> custody l'"
  by (simp add: hands_def conserves_def)

lemma hands_before: "custody l \<Longrightarrow> same_tokens l l' \<Longrightarrow> hands a b ms l' l'' \<Longrightarrow> hands a b ms l l''"
  using conserves_same_tokens [of l l'] conserves_trans [of l l' l'']
  by (simp add: hands_def same_tokens_def)

lemma hands_after: "hands a b ms l l' \<Longrightarrow> same_tokens l' l'' \<Longrightarrow> hands a b ms l l''"
  using conserves_same_tokens [of l' l''] conserves_trans [of l l' l''] conserves_custody [of l l']
  by (simp add: hands_def same_tokens_def)

lemma move_between_hands:
  assumes "move_tokens io True (Held_Dir a) (Held_Dir b) lim ns l = (l', ms, bad)" and "custody l"
    and "set ns \<subseteq> set (held_by a l)" and "distinct ns" and "dir_exists l (Held_Dir b)" and "a \<noteq> b"
  shows "hands a b ms l l'"
proof -
  have m: "custody l' \<and> live_tokens l' = live_tokens l \<and> distinct ms
   \<and> mset (dir_names l' (Held_Dir a)) + mset ms = mset (dir_names l (Held_Dir a))
   \<and> mset (dir_names l' (Held_Dir b)) = mset (dir_names l (Held_Dir b)) + mset ms
   \<and> (\<forall>e. e \<noteq> Held_Dir a \<longrightarrow> e \<noteq> Held_Dir b \<longrightarrow> dir_names l' e = dir_names l e)"
    using assms by (intro move_tokens_custody [OF assms(1)]) simp_all
  then have others: "e \<noteq> Held_Dir a \<Longrightarrow> e \<noteq> Held_Dir b \<Longrightarrow> dir_names l' e = dir_names l e" for e
    by blast
  have "shifts l l'" using assms(1-5) by (rule move_between_shifts)
  with m others [of "Held_Dir k" for k] show ?thesis by (auto simp: hands_def shifts_def)
qed

text \<open>The keys a transfer takes: both named, different, and neither a private acquisition.\<close>

definition transfer_keys :: "name \<Rightarrow> name \<Rightarrow> bool" where
  "transfer_keys a b \<longleftrightarrow>
     a \<noteq> [] \<and> b \<noteq> [] \<and> a \<noteq> b \<and> \<not> is_private_holder a \<and> \<not> is_private_holder b"

lemma transfer_hands:
  assumes "custody l" and "transfer_keys a b"
  obtains ms l' where "transfer io a b l = (Inr (length ms), l')" "hands a b ms l l'"
    "faultless io \<longrightarrow> mset ms = mset (held_by a l)"
proof (cases "holder_of a l")
  case None
  with assms that [of "[]" l] show thesis
    by (simp add: transfer_def transfer_keys_def hands_refl held_by_def)
next
  case (Some h)
  let ?l1 = "mkdir_holder b l"
  let ?l3 = "fst (move_gpu_metadata io a b (fst (move_cpu_metadata io a b ?l1)))"
  have st: "same_tokens l ?l3"
    using same_tokens_mkdir same_tokens_cpu_metadata same_tokens_gpu_metadata
    by (metis same_tokens_trans)
  have c3: "custody ?l3" using st assms(1) by (rule same_tokens_custody)
  have ts: "held_by a ?l3 = tokens h" using st Some by (simp add: same_tokens_def held_by_def)
  then have dis: "distinct (sort (tokens h))"
    using custody_distinct_dir [OF c3, of "Held_Dir a"] by simp
  have ex: "dir_exists ?l3 (Held_Dir b)"
    by (simp only: dir_exists_metadata mkdir_holder_simps)
  obtain l4 ms bad where mv: "move_tokens io True (Held_Dir a) (Held_Dir b) (length (tokens h))
      (sort (tokens h)) ?l3 = (l4, ms, bad)"
    by (cases "move_tokens io True (Held_Dir a) (Held_Dir b) (length (tokens h)) (sort (tokens h)) ?l3")
  have ab: "a \<noteq> b" using assms(2) by (simp add: transfer_keys_def)
  have "hands a b ms ?l3 l4" using c3 ts dis ex ab by (intro move_between_hands [OF mv]) simp_all
  then have h: "hands a b ms l l4" using assms(1) st by (blast intro: hands_before)
  then have "hands a b ms l (rmdir_holder io a l4)"
    using same_tokens_rmdir hands_custody hands_after by blast
  moreover have "transfer io a b l = (Inr (length ms), rmdir_holder io a l4)"
    using assms(2) Some mv by (simp add: transfer_def transfer_keys_def Let_def)
  moreover have "mset ms = mset (held_by a l)" if fl: "faultless io"
  proof -
    have sub: "set (sort (tokens h)) \<subseteq> set (dir_names ?l3 (Held_Dir a))" using ts by simp
    obtain l' where "move_tokens io True (Held_Dir a) (Held_Dir b) (length (tokens h))
        (sort (tokens h)) ?l3 = (l', sort (tokens h), False)"
      using move_tokens_keep_complete [OF faultlessD(1) [OF fl] _ c3 sub dis ex] ab by fastforce
    then have "ms = sort (tokens h)" using mv by simp
    with Some show ?thesis by (simp add: held_by_def)
  qed
  ultimately show thesis using that by blast
qed

text \<open>
  a transfer moves a reservation without ever freeing a token. Whatever renames fail, what
  left the one holder is what the other gained, the count is exactly that, and \<open>free/\<close>, the
  markers, the destroyed names and every other holder are untouched; without faults everything
  moves.
\<close>

theorem transfer_exact:
  assumes "custody l" and "transfer_keys a b"
  shows "\<exists>moved l'. transfer io a b l = (Inr (length moved), l')
    \<and> custody l' \<and> free l' = free l \<and> minted l' = minted l \<and> dead l' = dead l
    \<and> mset (held_by a l') + mset moved = mset (held_by a l)
    \<and> mset (held_by b l') = mset (held_by b l) + mset moved
    \<and> (\<forall>k. k \<noteq> a \<longrightarrow> k \<noteq> b \<longrightarrow> held_by k l' = held_by k l)
    \<and> (faultless io \<longrightarrow> held_by a l' = [])"
proof -
  obtain ms l' where t: "transfer io a b l = (Inr (length ms), l')" "hands a b ms l l'"
    "faultless io \<longrightarrow> mset ms = mset (held_by a l)"
    using transfer_hands [OF assms, where io = io] .
  have left: "mset (held_by a l') + mset ms = mset (held_by a l)" using t(2) by (simp add: hands_def)
  then have "faultless io \<longrightarrow> held_by a l' = []" using t(3) by auto
  with t(1,2) show ?thesis
    unfolding hands_def conserves_def by (intro exI [of _ ms] exI [of _ l']) simp
qed

theorem transfer_exact_witness:
  "fst (transfer no_fault ''a'' ''b''
     ((fresh_ledger True)\<lparr>held := [(''a'', \<lparr>tokens = [''gib-0001'', ''gib-0000''], cpu_md = None, gpu_md = None\<rparr>)]\<rparr>))
   = Inr 2"
proof -
  let ?l = "(fresh_ledger True)\<lparr>held := [(''a'', \<lparr>tokens = [''gib-0001'', ''gib-0000''], cpu_md = None, gpu_md = None\<rparr>)]\<rparr>"
  have 1: "custody ?l"
    by (simp add: custody_iff_distinct held_names_def fresh_ledger_def)
  have 2: "transfer_keys ''a'' ''b''"
    by (simp add: transfer_keys_def is_private_holder_def acquiring_prefix_def)
  obtain ms l' where "transfer no_fault ''a'' ''b'' ?l = (Inr (length ms), l')"
    "mset (held_by ''a'' l') + mset ms = mset (held_by ''a'' ?l)" "held_by ''a'' l' = []"
    using transfer_exact [OF 1 2, of no_fault] by auto
  moreover have "mset (held_by ''a'' ?l) = mset [''gib-0001'', ''gib-0000'']"
    by (simp add: held_by_def holder_of_def)
  ultimately show ?thesis by (metis add_0 fst_conv length_Cons list.size(3) mset.simps(1) size_mset One_nat_def Suc_1)
qed

text \<open>
  C24: an interrupted transfer is finished by calling it again: after any first call, whatever
  failed in it, a second call without faults leaves the whole reservation with the new holder
  and nothing with the old one.
\<close>

theorem transfer_resumes:
  assumes "custody l" and "transfer_keys a b" and "faultless io'"
  shows "let l' = snd (transfer io' a b (snd (transfer io a b l))) in
    held_by a l' = [] \<and> mset (held_by b l') = mset (held_by a l) + mset (held_by b l) \<and> free l' = free l"
proof -
  obtain ms l1 where t: "transfer io a b l = (Inr (length ms), l1)" "hands a b ms l l1"
    using transfer_hands [OF assms(1,2)] by metis
  obtain ns l2 where u: "transfer io' a b l1 = (Inr (length ns), l2)" "hands a b ns l1 l2"
    "mset ns = mset (held_by a l1)"
    using transfer_hands [OF hands_custody [OF t(2)] assms(2)] assms(3) by metis
  have "held_by a l2 = []" using u(2,3) by (simp add: hands_def)
  moreover have "mset (held_by b l2) = mset (held_by b l) + mset ms + mset (held_by a l1)"
    using t(2) u(2,3) by (simp add: hands_def)
  moreover have "mset ms + mset (held_by a l1) = mset (held_by a l)"
    using t(2) by (simp add: hands_def union_commute)
  ultimately show ?thesis
    using t u by (simp add: hands_def union_ac)
qed

theorem transfer_resumes_witness:
  "held_by ''a'' (snd (transfer no_fault ''a'' ''b''
     (snd (transfer (no_fault\<lparr>rename_err := \<lambda>_ _ n. if n = ''gib-0001'' then Some EIO else None\<rparr>) ''a'' ''b''
       ((fresh_ledger True)\<lparr>held := [(''a'', \<lparr>tokens = [''gib-0001'', ''gib-0000''], cpu_md = None, gpu_md = None\<rparr>)]\<rparr>)))))
   = []"
proof -
  let ?l = "(fresh_ledger True)\<lparr>held := [(''a'', \<lparr>tokens = [''gib-0001'', ''gib-0000''], cpu_md = None, gpu_md = None\<rparr>)]\<rparr>"
  have 1: "custody ?l"
    by (simp add: custody_iff_distinct held_names_def fresh_ledger_def)
  have 2: "transfer_keys ''a'' ''b''"
    by (simp add: transfer_keys_def is_private_holder_def acquiring_prefix_def)
  show ?thesis
    using transfer_resumes [OF 1 2 faultless_no_fault] by (simp add: Let_def)
qed

section \<open>Splitting a reservation\<close>

lemma move_tokens_keep_limit:
  "(\<And>n. rename_err io s d n = None) \<Longrightarrow> custody l \<Longrightarrow>
   set ns \<subseteq> set (dir_names l s) \<Longrightarrow> distinct ns \<Longrightarrow> dir_exists l d \<Longrightarrow>
   s \<noteq> d \<Longrightarrow> s \<noteq> Dead_Dir \<Longrightarrow> d \<noteq> Dead_Dir \<Longrightarrow>
   \<exists>l'. move_tokens io True s d lim ns l = (l', take lim ns, False)"
proof (induction ns arbitrary: lim l)
  case Nil
  then show ?case by simp
next
  case (Cons n ns)
  have n: "n \<in> set (dir_names l s)" using Cons.prems by simp
  have nd: "n \<notin> set (dir_names l d)"
    using custody_gone [OF Cons.prems(2) n] Cons.prems
      dir_names_live [of n "take_out s n l" d] by (auto simp: dir_names_take_out)
  let ?r = "rename_token s d n l"
  have "set ns \<subseteq> set (dir_names ?r s)"
    using Cons.prems by (auto simp: dir_names_rename intro: in_set_remove1 [THEN iffD2])
  then obtain l' where "move_tokens io True s d (lim - 1) ns ?r = (l', take (lim - 1) ns, False)"
    using Cons.IH [of ?r "lim - 1"] Cons.prems n custody_rename [OF Cons.prems(2) n] by force
  with Cons.prems nd show ?case by (cases lim) simp_all
qed

text \<open>
  splitting a reservation moves at most the asked number and never frees a token. Whatever
  renames fail the count is what moved; without faults it is the smaller of the asked number and
  what the source holds, and the moved names are the first in name order, so that the next call
  goes on where this one stopped.
\<close>

theorem transfer_count_exact:
  assumes "custody l" and "transfer_keys a b"
  shows "\<exists>moved l'. transfer_count io a b want l = (Inr (length moved), l')
    \<and> custody l' \<and> free l' = free l
    \<and> int (length moved) \<le> max 0 want
    \<and> mset (held_by a l') + mset moved = mset (held_by a l)
    \<and> mset (held_by b l') = mset (held_by b l) + mset moved
    \<and> (\<forall>k. k \<noteq> a \<longrightarrow> k \<noteq> b \<longrightarrow> held_by k l' = held_by k l)
    \<and> (faultless io \<longrightarrow> moved = take (nat want) (sort (held_by a l)))"
proof (cases "want \<le> 0 \<or> holder_of a l = None")
  case True
  with assms show ?thesis
    by (intro exI [of _ "[]"] exI [of _ l]) (auto simp: transfer_count_def transfer_keys_def held_by_def)
next
  case False
  then obtain h where h: "holder_of a l = Some h" by auto
  let ?m = "mkdir_holder b l" and ?ts = "sort (tokens h)"
  have st: "same_tokens l ?m" by (rule same_tokens_mkdir)
  have cm: "custody ?m" using st assms(1) by (rule same_tokens_custody)
  have ts: "held_by a ?m = tokens h" using st h by (simp add: same_tokens_def held_by_def)
  then have dis: "distinct ?ts" using custody_distinct_dir [OF cm, of "Held_Dir a"] by simp
  have ex: "dir_exists ?m (Held_Dir b)" by (rule mkdir_holder_simps)
  have ab: "a \<noteq> b" using assms(2) by (simp add: transfer_keys_def)
  obtain l4 ms bad where mv: "move_tokens io True (Held_Dir a) (Held_Dir b) (nat want) ?ts ?m = (l4, ms, bad)"
    by (cases "move_tokens io True (Held_Dir a) (Held_Dir b) (nat want) ?ts ?m")
  have "hands a b ms ?m l4" using cm ts dis ex ab by (intro move_between_hands [OF mv]) simp_all
  then have "hands a b ms l l4" using assms(1) st by (blast intro: hands_before)
  then have hd: "hands a b ms l (rmdir_holder io a l4)"
    using same_tokens_rmdir hands_custody hands_after by blast
  have run: "transfer_count io a b want l = (Inr (length ms), rmdir_holder io a l4)"
    using assms(2) False h mv by (simp add: transfer_count_def transfer_keys_def)
  have "length ms \<le> nat want" using move_tokens_frame [OF mv] by simp
  moreover have "ms = take (nat want) (sort (held_by a l))" if "faultless io"
  proof -
    have sub: "set ?ts \<subseteq> set (dir_names ?m (Held_Dir a))" using ts by simp
    show ?thesis
      using move_tokens_keep_limit [OF faultlessD(1) [OF that] cm sub dis ex, of "nat want"] ab mv h
      by (auto simp: held_by_def)
  qed
  ultimately show ?thesis
    using hd run hands_custody [OF hd] False unfolding hands_def
    by (intro exI [of _ ms] exI [of _ "rmdir_holder io a l4"]) auto
qed

theorem transfer_count_exact_witness:
  "fst (transfer_count no_fault ''a'' ''b'' 1
     ((fresh_ledger True)\<lparr>held := [(''a'', \<lparr>tokens = [''gib-0001'', ''gib-0000''], cpu_md = None, gpu_md = None\<rparr>)]\<rparr>))
   = Inr 1"
proof -
  let ?l = "(fresh_ledger True)\<lparr>held := [(''a'', \<lparr>tokens = [''gib-0001'', ''gib-0000''], cpu_md = None, gpu_md = None\<rparr>)]\<rparr>"
  have 1: "custody ?l"
    by (simp add: custody_iff_distinct held_names_def fresh_ledger_def)
  have 2: "transfer_keys ''a'' ''b''"
    by (simp add: transfer_keys_def is_private_holder_def acquiring_prefix_def)
  obtain ms l' where "transfer_count no_fault ''a'' ''b'' 1 ?l = (Inr (length ms), l')"
    "ms = take (nat 1) (sort (held_by ''a'' ?l))"
    using transfer_count_exact [OF 1 2, of no_fault 1] by auto
  then show ?thesis by (simp add: held_by_def holder_of_def)
qed

section \<open>Moving a named set\<close>

lemma hands_trans: "hands a b ms l l' \<Longrightarrow> hands a b ns l' l'' \<Longrightarrow> hands a b (ms @ ns) l l''"
  using conserves_trans [of l l' l''] unfolding hands_def
  by (simp add: ac_simps)

lemma hands_sets:
  assumes "hands a b ms l l'"
  shows "set (held_by b l') = set (held_by b l) \<union> set ms" "set (held_by a l') \<union> set ms = set (held_by a l)"
  using assms unfolding hands_def by (metis set_mset_mset set_mset_union)+

lemma one_holder:
  assumes "custody l" and "n \<in> set (held_by a l)" and "n \<in> set (held_by b l)"
  shows "a = b"
proof (rule ccontr)
  assume ne: "a \<noteq> b"
  let ?t = "take_out (Held_Dir a) n l"
  have "n \<notin># live_tokens ?t"
    by (rule custody_gone [OF assms(1)]) (simp_all add: assms(2))
  moreover have "n \<in> set (dir_names ?t (Held_Dir b))"
    unfolding dir_names_take_out using ne assms(3) by simp
  ultimately show False using dir_names_live [of n ?t "Held_Dir b"] by blast
qed

lemma rename_hands:
  assumes "custody l" and "n \<in> set (held_by a l)" and "dir_exists l (Held_Dir b)" and "a \<noteq> b"
  shows "hands a b [n] l (rename_token (Held_Dir a) (Held_Dir b) n l)"
proof -
  let ?io = "no_fault"
  have "n \<notin> set (dir_names l (Held_Dir b))"
    using one_holder [OF assms(1,2), of b] assms(4) by auto
  then have "move_tokens ?io True (Held_Dir a) (Held_Dir b) 1 [n] l
      = (rename_token (Held_Dir a) (Held_Dir b) n l, [n], False)"
    by (simp add: no_fault_def)
  from move_between_hands [OF this] show ?thesis using assms by simp
qed

definition landed :: "name \<Rightarrow> name \<Rightarrow> ledger \<Rightarrow> name \<Rightarrow> bool" where
  "landed a b l n \<longleftrightarrow> n \<in> set (held_by b l) \<and> n \<notin> set (held_by a l)"

lemma landed_frame: "hands a b ms l l' \<Longrightarrow> a \<noteq> b \<Longrightarrow> n \<notin> set ms \<Longrightarrow> landed a b l' n = landed a b l n"
  using hands_sets [of a b ms l l'] by (auto simp: landed_def)

lemma transfer_tokens_loop_hands:
  "transfer_tokens_loop io a b ns l = (l', c, ms) \<Longrightarrow> custody l \<Longrightarrow> dir_exists l (Held_Dir b) \<Longrightarrow>
   a \<noteq> b \<Longrightarrow> distinct ns \<Longrightarrow>
   hands a b ms l l' \<and> set ms \<subseteq> set ns \<and> c = length (filter (landed a b l') ns)"
proof (induction ns arbitrary: l l' c ms)
  case Nil
  then show ?case by (simp add: hands_refl)
next
  case (Cons n ns)
  have fresh: "n \<notin> set ns" and dns: "distinct ns" using Cons.prems(5) by simp_all
  show ?case
  proof (cases "n \<notin> set (held_by b l) \<and> n \<in> set (held_by a l)
      \<and> rename_err io (Held_Dir a) (Held_Dir b) n = None")
    case True
    let ?r = "rename_token (Held_Dir a) (Held_Dir b) n l"
    from True Cons.prems(1) obtain c' ms' where
      *: "transfer_tokens_loop io a b ns ?r = (l', c', ms')" "c = Suc c'" "ms = n # ms'"
      by (auto split: prod.splits)
    have r: "hands a b [n] l ?r" using True Cons.prems by (blast intro: rename_hands)
    have ih: "hands a b ms' ?r l' \<and> set ms' \<subseteq> set ns \<and> c' = length (filter (landed a b l') ns)"
      using Cons.prems hands_custody [OF r] dns by (intro Cons.IH [OF *(1)]) (simp_all del: dir_exists.simps)
    have "hands a b ([n] @ ms') l l'" using r ih by (blast intro: hands_trans)
    moreover have "landed a b ?r n"
      using hands_sets [OF r] one_holder [OF hands_custody [OF r], of n a b] Cons.prems(4)
      by (auto simp: landed_def)
    then have "landed a b l' n" using landed_frame [of a b ms' ?r l' n] ih fresh Cons.prems(4) by blast
    ultimately show ?thesis using ih *(2,3) by auto
  next
    case False
    then have "\<exists>c'. transfer_tokens_loop io a b ns l = (l', c', ms)
        \<and> c = (if landed a b l n then Suc c' else c')"
      using Cons.prems(1) by (auto simp: landed_def split: prod.splits option.splits if_splits)
    then obtain c' where *: "transfer_tokens_loop io a b ns l = (l', c', ms)"
      "c = (if landed a b l n then Suc c' else c')" by blast
    have ih: "hands a b ms l l' \<and> set ms \<subseteq> set ns \<and> c' = length (filter (landed a b l') ns)"
      using Cons.prems dns by (intro Cons.IH [OF *(1)]) (simp_all del: dir_exists.simps)
    then have "landed a b l' n = landed a b l n"
      using landed_frame [of a b ms l l' n] fresh Cons.prems(4) by blast
    with ih *(2) show ?thesis by auto
  qed
qed

text \<open>
  moving a named set of tokens touches nothing but that set and counts truthfully. The
  answer is the number of named tokens that afterwards stand with the new holder and not with
  the old one, whether this call moved them or an earlier one did; a name neither holder has, or
  whose rename failed, is not counted, and no other token moves or becomes free.
\<close>

theorem transfer_tokens_exact:
  assumes "custody l" and "transfer_keys a b" and "names \<noteq> []" and "distinct names"
    and "list_all transferable_name names"
  shows "\<exists>moved l'. transfer_tokens io a b names l
      = (Inr (length (filter (\<lambda>n. n \<in> set (held_by b l') \<and> n \<notin> set (held_by a l')) names), moved), l')
    \<and> custody l' \<and> free l' = free l \<and> set moved \<subseteq> set names
    \<and> mset (held_by a l') + mset moved = mset (held_by a l)
    \<and> mset (held_by b l') = mset (held_by b l) + mset moved
    \<and> (\<forall>k. k \<noteq> a \<longrightarrow> k \<noteq> b \<longrightarrow> held_by k l' = held_by k l)"
proof -
  let ?m = "mkdir_holder b l"
  have st: "same_tokens l ?m" by (rule same_tokens_mkdir)
  have cm: "custody ?m" using st assms(1) by (rule same_tokens_custody)
  have ab: "a \<noteq> b" using assms(2) by (simp add: transfer_keys_def)
  obtain l1 c ms where lp: "transfer_tokens_loop io a b names ?m = (l1, c, ms)"
    by (cases "transfer_tokens_loop io a b names ?m")
  note h = transfer_tokens_loop_hands [OF lp cm mkdir_holder_simps(7) ab assms(4)]
  let ?l' = "rmdir_holder io a l1"
  have hd: "hands a b ms l ?l'"
  proof -
    have 1: "hands a b ms l l1" using assms(1) st conjunct1 [OF h] by (rule hands_before)
    have "same_tokens l1 ?l'" using hands_custody [OF 1] by (rule same_tokens_rmdir)
    with 1 show ?thesis by (rule hands_after)
  qed
  have "landed a b l1 = (\<lambda>n. n \<in> set (held_by b ?l') \<and> n \<notin> set (held_by a ?l'))"
    by (simp add: landed_def fun_eq_iff)
  moreover have "transfer_tokens io a b names l = (Inr (c, ms), ?l')"
    using assms(2-5) lp by (simp add: transfer_tokens_def transfer_keys_def)
  ultimately show ?thesis
    using h hd hands_custody [OF hd] unfolding hands_def by (intro exI [of _ ms] exI [of _ ?l']) simp
qed

theorem transfer_tokens_exact_witness:
  "\<exists>moved l'. transfer_tokens no_fault ''a'' ''b'' [''gib-0000'', ''gib-0007'']
     ((fresh_ledger True)\<lparr>held := [(''a'', \<lparr>tokens = [''gib-0001'', ''gib-0000''], cpu_md = None, gpu_md = None\<rparr>)]\<rparr>)
     = (Inr (1, moved), l') \<and> custody l'"
proof -
  let ?l = "(fresh_ledger True)\<lparr>held := [(''a'', \<lparr>tokens = [''gib-0001'', ''gib-0000''], cpu_md = None, gpu_md = None\<rparr>)]\<rparr>"
  let ?t = "transfer_tokens no_fault ''a'' ''b'' [''gib-0000'', ''gib-0007''] ?l"
  have 1: "custody ?l"
    by (simp add: custody_iff_distinct held_names_def fresh_ledger_def)
  have 2: "transfer_keys ''a'' ''b''"
    by (simp add: transfer_keys_def is_private_holder_def acquiring_prefix_def)
  have 3: "list_all transferable_name [''gib-0000'', ''gib-0007'']" by code_simp
  have "map_sum id fst (fst ?t) = Inr 1" by code_simp
  moreover obtain moved l' where "custody l'"
    "?t = (Inr (length (filter (\<lambda>n. n \<in> set (held_by ''b'' l') \<and> n \<notin> set (held_by ''a'' l'))
         [''gib-0000'', ''gib-0007'']), moved), l')"
    using transfer_tokens_exact [OF 1 2 _ _ 3, of no_fault] by auto
  ultimately have "?t = (Inr (1, moved), l')" by simp
  with \<open>custody l'\<close> show ?thesis by blast
qed

end
