(* ===== verification/Ledger_Census.thy ===== *)
theory Ledger_Census
  imports Ledger_Mint
begin

text \<open>
  The readers of \<open>ResourceLedger\<close> and of the holder census behind it: the capacity, available
  and held counts, one holder's tokens, the acquisitions a holder still owns, and the closed
  floor snapshot that refuses any population it cannot account for.
\<close>

section \<open>Counting\<close>

text \<open>\<open>counts[kind] = counts.get(kind, 0) + n\<close>, over a dictionary in insertion order.\<close>

definition bump :: "string \<Rightarrow> nat \<Rightarrow> (string, nat) dict \<Rightarrow> (string, nat) dict" where
  "bump k n d = AList.update k (dict_get d k 0 + n) d"

definition tally :: "name list \<Rightarrow> (string, nat) dict" where
  "tally ns = fold (\<lambda>n. bump (kind_of n) 1) ns []"

definition free_tokens :: "io \<Rightarrow> ledger \<Rightarrow> name list" where
  "free_tokens io l = (if free_err io then [] else sort (filter is_token (free l)))"

definition available :: "io \<Rightarrow> ledger \<Rightarrow> (string, nat) dict" where
  "available io l = tally (free_tokens io l)"

definition capacity_census :: "io \<Rightarrow> ledger \<Rightarrow> ((string, nat) dict \<times> name list) result" where
  "capacity_census io l =
     (case held_census io l of
        Inl e \<Rightarrow> Inl e
      | Inr (held_ts, un) \<Rightarrow> Inr (tally (free_tokens io l @ held_ts), un))"

definition capacity :: "io \<Rightarrow> ledger \<Rightarrow> (string, nat) dict result" where
  "capacity io l = (case capacity_census io l of Inl e \<Rightarrow> Inl e | Inr (d, _) \<Rightarrow> Inr d)"

text \<open>\<open>token_counts\<close>, which \<open>holder_tokens\<close> returns: one holder's tokens by kind.\<close>

definition holder_tokens :: "name \<Rightarrow> ledger \<Rightarrow> (string, nat) dict" where
  "holder_tokens k l = tally (sort (filter is_token (held_by k l)))"

text \<open>\<open>token_totals\<close>, which \<open>held\<close> returns: the holders' counts added up.\<close>

definition held_totals :: "ledger \<Rightarrow> (string, nat) dict" where
  "held_totals l =
     fold (\<lambda>k d. fold (\<lambda>(kind, n). bump kind n) (holder_tokens k l) d) (holder_keys l) []"

definition held_keys :: "ledger \<Rightarrow> name list" where
  "held_keys l = sort (filter (\<lambda>k. holder_identity k \<noteq> Private_Holder) (holder_keys l))"

definition holds_gpu :: "name \<Rightarrow> ledger \<Rightarrow> bool" where
  "holds_gpu k l \<longleftrightarrow>
     filter (matches_kind gpu_kind) (held_by k l) \<noteq> []
     \<or> (case holder_of k l of None \<Rightarrow> False | Some h \<Rightarrow> gpu_md h \<noteq> None)"

text \<open>\<open>acquisitions_of\<close> and its complement, the names only a guess could attribute.\<close>

definition acquisitions_of :: "name \<Rightarrow> ledger \<Rightarrow> (name \<times> nat \<times> string \<times> nat \<times> nat) list" where
  "acquisitions_of holder l =
     concat (map (\<lambda>k. case acquisition_handle_of k holder of
                        None \<Rightarrow> []
                      | Some (usec, host, pid) \<Rightarrow> [(k, usec, host, pid, length (held_by k l))])
               (holder_keys l))"

definition unparsed_acquisitions_of :: "name \<Rightarrow> ledger \<Rightarrow> name list" where
  "unparsed_acquisitions_of holder l =
     filter (\<lambda>k. is_private_holder k \<and> acquisition_handle_of k holder = None
               \<and> (let parts = split_on (CHR ''.'') k in 3 \<le> length parts \<and> parts ! 2 = holder))
       (holder_keys l)"

section \<open>The closed snapshot\<close>

text \<open>
  A token name the snapshot takes: a kind, a dash and an ordinal in the spelling the mint
  prints.
\<close>

definition floor_token :: "name \<Rightarrow> bool" where
  "floor_token n \<longleftrightarrow>
     is_token n \<and> kind_of n \<noteq> []
     \<and> (case ordinal_of n of None \<Rightarrow> False | Some i \<Rightarrow> split_last (CHR ''-'') n = pad4 i)"

definition floor_names :: "string list \<Rightarrow> name list \<Rightarrow> name list result" where
  "floor_names kinds ns =
     (if list_all floor_token ns then Inr (filter (\<lambda>n. kind_of n \<in> set kinds) ns)
      else Inl PoolContractError)"

fun floor_held ::
  "io \<Rightarrow> string list \<Rightarrow> name list \<Rightarrow> name list \<Rightarrow> ledger \<Rightarrow> name list result" where
  "floor_held io kinds [] acc l = Inr acc"
| "floor_held io kinds (k # ks) acc l =
     (if unreadable io k then Inl PoolContractError
      else case floor_names kinds (held_by k l) of
        Inl e \<Rightarrow> Inl e
      | Inr ns \<Rightarrow>
          if set acc \<inter> set ns \<noteq> {} then Inl PoolContractError
          else floor_held io kinds ks (acc @ ns) l)"

definition floor_snapshot ::
  "io \<Rightarrow> bool \<Rightarrow> string list \<Rightarrow> ledger \<Rightarrow> (string, nat) dict result" where
  "floor_snapshot io acquired kinds l =
     (if \<not> acquired then Inl PoolContractError
      else if markers_err io \<or> free_err io \<or> held_err io then Inl PoolContractError
      else case (floor_names kinds (minted l), floor_names kinds (dead l), floor_names kinds (free l),
                 floor_held io kinds (holder_keys l) [] l) of
        (Inr ms, Inr ds, Inr fs, Inr hs) \<Rightarrow>
          if set fs \<inter> set hs \<noteq> {} \<or> set ds \<inter> (set fs \<union> set hs) \<noteq> {} then Inl PoolContractError
          else if set ms \<noteq> set fs \<union> set hs \<union> set ds then Inl PoolContractError
          else Inr (map (\<lambda>k. (k, length (filter (\<lambda>n. kind_of n = k) hs))) kinds)
      | _ \<Rightarrow> Inl PoolContractError)"

section \<open>The counts are the tokens\<close>

lemma dict_get_bump: "dict_get (bump k n d) k' 0 = dict_get d k' 0 + (if k = k' then n else 0)"
  by (simp add: dict_get_def bump_def update_conv)

lemma dict_get_fold_bump:
  "dict_get (fold (\<lambda>n. bump (kind_of n) 1) ns d) k 0
     = dict_get d k 0 + length (filter (\<lambda>n. kind_of n = k) ns)"
  by (induction ns arbitrary: d) (auto simp: dict_get_bump)

lemma dict_get_tally: "dict_get (tally ns) k 0 = length (filter (\<lambda>n. kind_of n = k) ns)"
  unfolding tally_def dict_get_fold_bump by (simp add: dict_get_def)

definition count_kind :: "string \<Rightarrow> name list \<Rightarrow> nat" where
  "count_kind k ns = length (filter (\<lambda>n. is_token n \<and> kind_of n = k) ns)"

lemma count_kind_filter: "length (filter (\<lambda>n. kind_of n = k) (filter is_token ns)) = count_kind k ns"
  by (simp add: count_kind_def conj_commute)

lemma count_kind_mset: "mset xs = mset ys \<Longrightarrow> count_kind k xs = count_kind k ys"
  unfolding count_kind_def by (metis mset_filter size_mset)

lemma count_kind_append [simp]: "count_kind k (xs @ ys) = count_kind k xs + count_kind k ys"
  by (simp add: count_kind_def)

lemma count_free_tokens:
  "\<not> free_err io \<Longrightarrow> length (filter (\<lambda>n. kind_of n = k) (free_tokens io l)) = count_kind k (free l)"
  unfolding free_tokens_def
  by (simp add: filter_sort count_kind_def conj_commute)

lemma count_concat: "length (filter P (concat (map f ks))) = sum_list (map (length \<circ> filter P \<circ> f) ks)"
  by (induction ks) simp_all

lemma sum_list_filter_le:
  fixes g :: "'a \<Rightarrow> nat"
  shows "sum_list (map g (filter P ks)) \<le> sum_list (map g ks)"
  by (induction ks) auto

text \<open>
  the capacity reading. Its count of a kind is never more than the tokens there are; it is
  exact when every holder could be read, and the holders it could not read are the ones it
  names. The available count is the free tokens alone, so an unreadable holder's tokens are
  never offered.
\<close>

theorem capacity_census_lower_bound:
  assumes "custody l" and "\<not> free_err io" and "\<not> held_err io"
  shows "\<exists>d un. capacity_census io l = Inr (d, un)
    \<and> un = filter (unreadable io) (holder_keys l)
    \<and> dict_get d k 0 \<le> count_kind k (free l @ held_names l)
    \<and> (un = [] \<longrightarrow> dict_get d k 0 = count_kind k (free l @ held_names l))
    \<and> dict_get (available io l) k 0 = count_kind k (free l)"
proof -
  let ?g = "\<lambda>j. count_kind k (held_by j l)"
  let ?ok = "filter (\<lambda>j. \<not> unreadable io j) (holder_keys l)"
  let ?ts = "concat (map (\<lambda>j. filter is_token (held_by j l)) ?ok)"
  let ?un = "filter (unreadable io) (holder_keys l)"
  have c: "capacity_census io l = Inr (tally (free_tokens io l @ ?ts), ?un)"
    using assms(3) by (simp add: capacity_census_def held_census_def)
  have ts: "length (filter (\<lambda>n. kind_of n = k) ?ts) = sum_list (map ?g ?ok)"
    unfolding count_concat by (simp add: comp_def count_kind_filter del: filter_filter)
  have "mset (concat (map (\<lambda>j. held_by j l) (holder_keys l))) = mset (held_names l)"
    using assms(1) by (intro held_by_keys) (simp add: custody_def)
  then have "count_kind k (held_names l) = count_kind k (concat (map (\<lambda>j. held_by j l) (holder_keys l)))"
    by (metis count_kind_mset)
  also have "\<dots> = sum_list (map ?g (holder_keys l))"
    unfolding count_kind_def count_concat by (simp add: comp_def)
  finally have all: "count_kind k (held_names l) = sum_list (map ?g (holder_keys l))" .
  have d: "dict_get (tally (free_tokens io l @ ?ts)) k 0 = count_kind k (free l) + sum_list (map ?g ?ok)"
    using count_free_tokens [OF assms(2)] ts by (simp add: dict_get_tally del: filter_concat)
  have "sum_list (map ?g ?ok) \<le> sum_list (map ?g (holder_keys l))" by (rule sum_list_filter_le)
  moreover have "dict_get (tally (free_tokens io l @ ?ts)) k 0 = count_kind k (free l @ held_names l)"
    if "?un = []"
  proof -
    have "?ok = holder_keys l" using that by (auto simp: filter_empty_conv filter_id_conv)
    then show ?thesis using d all by (simp only: count_kind_append)
  qed
  moreover have "dict_get (available io l) k 0 = count_kind k (free l)"
    using count_free_tokens [OF assms(2)] by (simp add: available_def dict_get_tally)
  ultimately show ?thesis
    using c d all by (intro exI [of _ "tally (free_tokens io l @ ?ts)"] exI [of _ ?un])
      (simp only: count_kind_append simp_thms, linarith)
qed

theorem capacity_census_lower_bound_witness:
  "capacity_census (no_fault\<lparr>listing_err := \<lambda>k. k = ''a''\<rparr>)
     ((fresh_ledger True)\<lparr>free := [''gib-0002''],
       held := [(''a'', \<lparr>tokens = [''gib-0001'', ''gib-0000''], cpu_md = None, gpu_md = None\<rparr>)]\<rparr>)
   = Inr ([(''gib'', 1)], [''a''])"
proof -
  let ?io = "no_fault\<lparr>listing_err := \<lambda>k. k = ''a''\<rparr>"
  let ?l = "(fresh_ledger True)\<lparr>free := [''gib-0002''],
       held := [(''a'', \<lparr>tokens = [''gib-0001'', ''gib-0000''], cpu_md = None, gpu_md = None\<rparr>)]\<rparr>"
  have cust: "custody ?l" by (simp add: custody_iff_distinct held_names_def fresh_ledger_def)
  have ok: "\<not> free_err ?io" "\<not> held_err ?io" by (simp_all add: no_fault_def)
  obtain d un where "capacity_census ?io ?l = Inr (d, un)"
    using capacity_census_lower_bound [OF cust ok, of "''gib''"] by blast
  moreover have "capacity_census ?io ?l = Inr ([(''gib'', 1)], [''a''])" by code_simp
  ultimately show ?thesis by simp
qed

section \<open>The snapshot is exact, and refuses only what it cannot account for\<close>

definition selected :: "string list \<Rightarrow> name list \<Rightarrow> name list" where
  "selected kinds ns = filter (\<lambda>n. kind_of n \<in> set kinds) ns"

lemma floor_names_Inr: "floor_names kinds ns = Inr xs \<longleftrightarrow> list_all floor_token ns \<and> xs = selected kinds ns"
  by (auto simp: floor_names_def selected_def)

lemma floor_held_Inr:
  "floor_held io kinds ks acc l = Inr hs \<Longrightarrow>
   hs = acc @ selected kinds (concat (map (\<lambda>k. held_by k l) ks))
   \<and> list_all floor_token (concat (map (\<lambda>k. held_by k l) ks))"
proof (induction ks arbitrary: acc)
  case Nil
  then show ?case by (simp add: selected_def)
next
  case (Cons k ks)
  let ?ns = "selected kinds (held_by k l)"
  have "list_all floor_token (held_by k l)" and r: "floor_held io kinds ks (acc @ ?ns) l = Inr hs"
    using Cons.prems by (auto simp: floor_names_Inr split: if_splits sum.splits)
  with Cons.IH [OF r] show ?case by (simp add: selected_def)
qed

lemma count_selected: "k \<in> set kinds \<Longrightarrow> list_all floor_token ns \<Longrightarrow>
  length (filter (\<lambda>n. kind_of n = k) (selected kinds ns)) = count_kind k ns"
  by (induction ns) (auto simp: selected_def count_kind_def floor_token_def)

lemma dict_get_map: "k \<in> set ks \<Longrightarrow> dict_get (map (\<lambda>k. (k, f k)) ks) k 0 = f k"
  by (simp add: dict_get_def map_of_map_restrict)

text \<open>
  a floor snapshot that answers is exact and its population closed. For every asked kind it
  returns the number of tokens all holders hold, private acquisitions included; no token of
  those kinds is both free and held, or live and destroyed, and the markers are exactly the free,
  held and destroyed names.
\<close>

theorem floor_snapshot_exact:
  assumes "floor_snapshot io acquired kinds l = Inr d" and "distinct (map fst (held l))"
  shows "(\<forall>k \<in> set kinds. dict_get d k 0 = count_kind k (held_names l))
    \<and> set (selected kinds (free l)) \<inter> set (selected kinds (held_names l)) = {}
    \<and> set (selected kinds (dead l)) \<inter> set (selected kinds (free l @ held_names l)) = {}
    \<and> set (selected kinds (minted l)) = set (selected kinds (free l @ held_names l @ dead l))"
proof -
  let ?all = "concat (map (\<lambda>k. held_by k l) (holder_keys l))"
  obtain hs where hs: "floor_held io kinds (holder_keys l) [] l = Inr hs"
    and d: "d = map (\<lambda>k. (k, length (filter (\<lambda>n. kind_of n = k) hs))) kinds"
    and sep: "set (selected kinds (free l)) \<inter> set hs = {}"
      "set (selected kinds (dead l)) \<inter> (set (selected kinds (free l)) \<union> set hs) = {}"
      "set (selected kinds (minted l)) = set (selected kinds (free l)) \<union> set hs \<union> set (selected kinds (dead l))"
    using assms(1) by (auto simp: floor_snapshot_def floor_names_Inr split: if_splits sum.splits)
  have all: "hs = selected kinds ?all" "list_all floor_token ?all" using floor_held_Inr [OF hs] by simp_all
  have m: "mset ?all = mset (held_names l)" using assms(2) by (rule held_by_keys)
  have "set ?all = set (held_names l)" using m by (metis set_mset_mset)
  then have sel: "set hs = set (selected kinds (held_names l))"
    unfolding all(1) by (simp add: selected_def)
  have "dict_get d k 0 = count_kind k (held_names l)" if "k \<in> set kinds" for k
    unfolding d dict_get_map [OF that] all(1) count_selected [OF that all(2)] count_kind_mset [OF m] ..
  moreover have "set (selected kinds (xs @ ys)) = set (selected kinds xs) \<union> set (selected kinds ys)" for xs ys
    by (auto simp: selected_def)
  ultimately show ?thesis using sep sel by auto
qed

lemma floor_held_ok:
  "(\<And>k. \<not> unreadable io k) \<Longrightarrow> distinct (acc @ concat (map (\<lambda>k. held_by k l) ks)) \<Longrightarrow>
   list_all floor_token (concat (map (\<lambda>k. held_by k l) ks)) \<Longrightarrow>
   \<exists>hs. floor_held io kinds ks acc l = Inr hs"
proof (induction ks arbitrary: acc)
  case Nil
  then show ?case by simp
next
  case (Cons k ks)
  let ?ns = "selected kinds (held_by k l)"
  have f: "floor_names kinds (held_by k l) = Inr ?ns"
    using Cons.prems(3) by (simp add: floor_names_Inr)
  have "distinct (acc @ ?ns @ concat (map (\<lambda>k. held_by k l) ks))"
    using Cons.prems(2) by (auto simp: selected_def)
  moreover have "set acc \<inter> set ?ns = {}" using Cons.prems(2) by (auto simp: selected_def)
  ultimately show ?case
    using Cons.IH [OF Cons.prems(1), of "acc @ ?ns"] Cons.prems(1,3) f by simp
qed

text \<open>
  the snapshot refuses only what it cannot account for. On a readable ledger whose markers
  are exactly its live and destroyed tokens, each with the name a mint prints, it answers.
\<close>

theorem floor_snapshot_answers:
  assumes "accounted l" and "set (minted l) \<subseteq> set_mset (live_tokens l) \<union> set (dead l)"
    and "list_all floor_token (minted l)" and "mint_ok io"
  shows "\<exists>d. floor_snapshot io True kinds l = Inr d"
proof -
  let ?all = "concat (map (\<lambda>k. held_by k l) (holder_keys l))"
  have ok: "\<not> markers_err io" "\<not> free_err io" "\<not> held_err io" "\<not> unreadable io k" for k
    using assms(4) by (auto simp: mint_ok_def unreadable_def)
  have keys: "distinct (map fst (held l))" using assms(1) by (simp add: accounted_def custody_def)
  have m: "mset ?all = mset (held_names l)" using keys by (rule held_by_keys)
  have sets: "set ?all = set (held_names l)" using m by (metis set_mset_mset)
  have "distinct (free l @ held_names l)"
    using assms(1) by (simp add: accounted_def custody_iff_distinct)
  then have dis: "distinct ?all" "set (free l) \<inter> set ?all = {}"
    using m sets by (auto dest: mset_eq_imp_distinct_iff)
  have live: "set_mset (live_tokens l) = set (free l) \<union> set ?all"
    unfolding live_tokens_def sets by simp
  have sub: "set (free l) \<union> set ?all \<union> set (dead l) = set (minted l)"
    "(set (free l) \<union> set ?all) \<inter> set (dead l) = {}"
    using assms(1,2) live by (auto simp: accounted_def)
  have tok: "list_all floor_token ns" if "set ns \<subseteq> set (minted l)" for ns
    using assms(3) that by (auto simp: list_all_iff)
  have names: "floor_names kinds ns = Inr (selected kinds ns)" if "set ns \<subseteq> set (minted l)" for ns
    using tok [OF that] by (simp add: floor_names_Inr)
  obtain hs where hs: "floor_held io kinds (holder_keys l) [] l = Inr hs"
    using floor_held_ok [OF ok(4), of "[]" l "holder_keys l" kinds] dis(1) tok [of ?all] sub(1) by auto
  then have sel: "hs = selected kinds ?all" using floor_held_Inr by fastforce
  have "set (selected kinds (free l)) \<inter> set hs = {}"
    "set (selected kinds (dead l)) \<inter> (set (selected kinds (free l)) \<union> set hs) = {}"
    "set (selected kinds (minted l)) = set (selected kinds (free l)) \<union> set hs \<union> set (selected kinds (dead l))"
    using sub dis(2) by (auto simp: sel selected_def)
  moreover have dead: "set (dead l) \<subseteq> set (minted l)" and free: "set (free l) \<subseteq> set (minted l)"
    using sub(1) by blast+
  ultimately show ?thesis
    using ok hs names [of "minted l"] names [of "dead l"] names [of "free l"] dead free
    by (simp add: floor_snapshot_def)
qed

theorem floor_snapshot_exact_witness:
  "dict_get [(''gib'', 1 :: nat)] ''gib'' 0 = count_kind ''gib'' (held_names
     \<lparr>strict = True, free = [''gib-0001''],
       held = [(''a'', \<lparr>tokens = [''gib-0000''], cpu_md = None, gpu_md = None\<rparr>)],
       minted = [''gib-0000'', ''gib-0001''], dead = [], last_shortage = None, census_file = None\<rparr>)"
proof -
  let ?l = "\<lparr>strict = True, free = [''gib-0001''],
       held = [(''a'', \<lparr>tokens = [''gib-0000''], cpu_md = None, gpu_md = None\<rparr>)],
       minted = [''gib-0000'', ''gib-0001''], dead = [], last_shortage = None, census_file = None\<rparr>"
  have "floor_snapshot no_fault True [''gib''] ?l = Inr [(''gib'', 1)]" by code_simp
  then show ?thesis using floor_snapshot_exact [of no_fault True "[''gib'']" ?l] by simp
qed

theorem floor_snapshot_answers_witness:
  "\<exists>d. floor_snapshot no_fault True [''gib'']
     \<lparr>strict = True, free = [''gib-0001''],
       held = [(''a'', \<lparr>tokens = [''gib-0000''], cpu_md = None, gpu_md = None\<rparr>)],
       minted = [''gib-0000'', ''gib-0001''], dead = [], last_shortage = None, census_file = None\<rparr> = Inr d"
proof -
  let ?l = "\<lparr>strict = True, free = [''gib-0001''],
       held = [(''a'', \<lparr>tokens = [''gib-0000''], cpu_md = None, gpu_md = None\<rparr>)],
       minted = [''gib-0000'', ''gib-0001''], dead = [], last_shortage = None, census_file = None\<rparr>"
  have 1: "accounted ?l"
    by (simp add: accounted_def custody_iff_distinct live_tokens_def held_names_def)
  have 2: "set (minted ?l) \<subseteq> set_mset (live_tokens ?l) \<union> set (dead ?l)"
    by (simp add: live_tokens_def held_names_def)
  have 3: "list_all floor_token (minted ?l)" by code_simp
  have 4: "mint_ok no_fault" by (simp add: mint_ok_def no_stranding_def no_fault_def)
  from floor_snapshot_answers [OF 1 2 3 4] show ?thesis by blast
qed

end
