(* ===== verification/Window_Credit.thy ===== *)
theory Window_Credit
  imports Token_Names Complex_Main "HOL-Library.Product_Lexorder"
begin

text \<open>
  The admission arithmetic of \<open>window_credit.py\<close>: which window may publish its first step
  against a tier's shared room, in which order claimed consumers are served when the room is
  overcommitted, and which consumer a stuck order ends. Token counts are integers; the times,
  floating-point numbers the code only compares and subtracts, are rational numbers.
\<close>

section \<open>Reasons\<close>

datatype reason =
    No_Reason
  | Reason_Stall
  | Reason_Oversize
  | Reason_Defer_Unknown
  | Reason_Commitment

section \<open>Prelaunch remainders\<close>

definition prelaunch_obligation_gib :: "int \<Rightarrow> int \<Rightarrow> int result" where
  "prelaunch_obligation_gib peak owned =
     (if peak < 0 \<or> owned < 0 then Inl ValueError else Inr (max 0 (peak - owned)))"

definition prelaunch_footprint_gib :: "int \<Rightarrow> int \<Rightarrow> int result" where
  "prelaunch_footprint_gib peak owned =
     (if peak < 0 \<or> owned < 0 then Inl ValueError else Inr (max 0 (peak - owned)))"

section \<open>Grant keys\<close>

definition grant_prefix :: string where
  "grant_prefix = ''advance-''"

text \<open>\<open>sha\<close> is the hexadecimal SHA-256 digest of a phase name.\<close>

definition grant_key ::
  "(string \<Rightarrow> string) \<Rightarrow> string \<Rightarrow> string \<Rightarrow> string \<Rightarrow> string \<Rightarrow> nat option \<Rightarrow> name" where
  "grant_key sha consumer tier_id leg phase chunk_index =
     grant_prefix @ take 16 consumer @ ''-'' @ take 24 (hd (split_on (CHR '':'') tier_id)) @ ''-''
       @ leg @ ''-'' @ take 12 (sha phase)
       @ (case chunk_index of None \<Rightarrow> [] | Some i \<Rightarrow> ''-c'' @ show_nat i)"

section \<open>Gates\<close>

text \<open>A gate's decision; \<open>gd_permanent\<close> is absent on an admission.\<close>

record gate_decision =
  gd_admit :: bool
  gd_reason :: reason
  gd_permanent :: "bool option"
  gd_output_note :: bool

definition gate_newcomer ::
  "int \<Rightarrow> int \<Rightarrow> int \<Rightarrow> int option \<Rightarrow> int \<Rightarrow> int option \<Rightarrow> int \<Rightarrow> bool \<Rightarrow> gate_decision" where
  "gate_newcomer held_gib ready_gib output_gib capacity_gib cur_min next_min existing_min_next
     output_enforced =
     (let note = \<not> output_enforced;
          next_gib = (case next_min of None \<Rightarrow> 0 | Some n \<Rightarrow> n) in
      case capacity_gib of
        None \<Rightarrow> \<lparr>gd_admit = False, gd_reason = Reason_Defer_Unknown, gd_permanent = Some False,
                  gd_output_note = note\<rparr>
      | Some cap \<Rightarrow>
          if cap < cur_min then
            \<lparr>gd_admit = False, gd_reason = Reason_Oversize, gd_permanent = Some True,
             gd_output_note = note\<rparr>
          else if held_gib + ready_gib + output_gib + cur_min + next_gib + existing_min_next \<le> cap then
            \<lparr>gd_admit = True, gd_reason = No_Reason, gd_permanent = None, gd_output_note = note\<rparr>
          else if held_gib + ready_gib + output_gib + existing_min_next = 0 \<and> cap < cur_min + next_gib then
            \<lparr>gd_admit = False, gd_reason = Reason_Oversize, gd_permanent = Some True,
             gd_output_note = note\<rparr>
          else
            \<lparr>gd_admit = False, gd_reason = Reason_Stall, gd_permanent = Some False,
             gd_output_note = note\<rparr>)"

record commitment_decision =
  cd_admit :: bool
  cd_reason :: reason
  cd_lone :: bool

definition gate_commitment :: "int \<Rightarrow> int \<Rightarrow> int \<Rightarrow> bool \<Rightarrow> commitment_decision" where
  "gate_commitment committed growth cap lone =
     (if committed + growth \<le> cap then \<lparr>cd_admit = True, cd_reason = No_Reason, cd_lone = False\<rparr>
      else if lone then \<lparr>cd_admit = True, cd_reason = No_Reason, cd_lone = True\<rparr>
      else \<lparr>cd_admit = False, cd_reason = Reason_Commitment, cd_lone = False\<rparr>)"

definition fence_fits :: "int \<Rightarrow> int \<Rightarrow> int \<Rightarrow> int option \<Rightarrow> bool" where
  "fence_fits held_gib ready_gib output_gib capacity_gib =
     (case capacity_gib of None \<Rightarrow> False | Some cap \<Rightarrow> held_gib + ready_gib + output_gib \<le> cap)"

definition replenish_ok :: "bool \<Rightarrow> int option \<Rightarrow> bool \<Rightarrow> bool" where
  "replenish_ok grant_outstanding need_gib prior_retired =
     (if grant_outstanding then False
      else case need_gib of None \<Rightarrow> False | Some n \<Rightarrow> if n \<le> 0 then False else prior_retired)"

datatype cancel = Consumer_Terminal | Plan_Superseded | Need_Gone_Final | Need_Landed

definition cancel_due :: "bool \<Rightarrow> bool \<Rightarrow> int option \<Rightarrow> bool \<Rightarrow> cancel option" where
  "cancel_due consumer_live superseded need_gib mover_holds_need =
     (if \<not> consumer_live then Some Consumer_Terminal
      else if superseded then Some Plan_Superseded
      else if need_gib = None then Some Need_Gone_Final
      else if mover_holds_need then Some Need_Landed
      else None)"

section \<open>Claim order\<close>

text \<open>
  One claimed consumer: \<open>ca_since\<close> is its \<open>blocked_since_unix\<close> when that is a finite number,
  \<open>ca_mover\<close> its \<open>need_mover\<close> when it names one.
\<close>

record claim =
  ca_consumer :: string
  ca_claimed :: rat
  ca_need :: int
  ca_blocked :: bool
  ca_since :: "rat option"
  ca_mover :: "string option"

definition waited_from :: "claim \<Rightarrow> rat" where
  "waited_from c =
     (if ca_blocked c then (case ca_since c of Some s \<Rightarrow> s | None \<Rightarrow> ca_claimed c) else ca_claimed c)"

datatype standing = Satisfied | Granted | Head | Held_Back

record order_entry =
  oe_consumer :: string
  oe_rank :: nat
  oe_claimed :: rat
  oe_blocked :: bool
  oe_need :: int
  oe_ahead :: "string option"
  oe_blocked_since :: "rat option"
  oe_standing :: standing
  oe_shared_with :: "string option"
  oe_waiting_on :: "string option"
  oe_shortfall :: "int option"

definition claim_rank :: "claim \<Rightarrow> bool \<times> rat \<times> rat \<times> string" where
  "claim_rank c = (\<not> ca_blocked c, waited_from c, ca_claimed c, ca_consumer c)"

record walk =
  wk_left :: int
  wk_target :: int
  wk_head :: "string option"
  wk_ahead :: "string option"
  wk_granted :: "(string, string) dict"

text \<open>One turn of the walk: the entry a claim gets and what is left after it.\<close>

definition place_claim :: "nat \<Rightarrow> claim \<Rightarrow> walk \<Rightarrow> order_entry \<times> walk" where
  "place_claim rank c w =
     (let need = max 0 (ca_need c);
          entry = \<lparr>oe_consumer = ca_consumer c, oe_rank = rank, oe_claimed = ca_claimed c,
                   oe_blocked = ca_blocked c, oe_need = need, oe_ahead = wk_ahead w,
                   oe_blocked_since = (if ca_blocked c then Some (waited_from c) else None),
                   oe_standing = Satisfied, oe_shared_with = None, oe_waiting_on = None,
                   oe_shortfall = None\<rparr>;
          w' = w\<lparr>wk_ahead := Some (ca_consumer c)\<rparr>;
          shared = Option.bind (ca_mover c) (map_of (wk_granted w)) in
      if need \<le> 0 then (entry, w')
      else if shared \<noteq> None then
        (entry\<lparr>oe_standing := Granted, oe_shared_with := shared\<rparr>, w')
      else if wk_head w \<noteq> None then
        (entry\<lparr>oe_standing := Held_Back, oe_waiting_on := wk_head w\<rparr>, w')
      else if need \<le> wk_left w then
        (entry\<lparr>oe_standing := Granted\<rparr>,
         w'\<lparr>wk_left := wk_left w - need, wk_target := wk_target w + need,
            wk_granted := (case ca_mover c of
                             None \<Rightarrow> wk_granted w
                           | Some m \<Rightarrow> AList.update m (ca_consumer c) (wk_granted w))\<rparr>)
      else
        (entry\<lparr>oe_standing := Head, oe_shortfall := Some (need - wk_left w)\<rparr>,
         w'\<lparr>wk_head := Some (ca_consumer c), wk_target := wk_target w + need\<rparr>))"

fun walk_claims :: "nat \<Rightarrow> claim list \<Rightarrow> walk \<Rightarrow> order_entry list \<times> walk" where
  "walk_claims rank [] w = ([], w)"
| "walk_claims rank (c # cs) w =
     (case place_claim rank c w of
        (e, w') \<Rightarrow> (case walk_claims (Suc rank) cs w' of (es, w'') \<Rightarrow> (e # es, w'')))"

record claim_ranking =
  cr_entries :: "order_entry list"
  cr_head :: "string option"
  cr_target_free_gib :: int

definition claim_order :: "claim list \<Rightarrow> int \<Rightarrow> claim_ranking" where
  "claim_order claims free_gib =
     (case walk_claims 0 (sort_key claim_rank claims)
             \<lparr>wk_left = free_gib, wk_target = 0, wk_head = None, wk_ahead = None, wk_granted = []\<rparr> of
        (es, w) \<Rightarrow> \<lparr>cr_entries = es, cr_head = wk_head w, cr_target_free_gib = wk_target w\<rparr>)"

section \<open>A stuck order\<close>

text \<open>
  The relief an order's record carries: \<open>rl_evicted\<close> and \<open>rl_since\<close> are absent when the record
  does not carry a whole number, or a finite time.
\<close>

datatype relief_kind = Relief_Futile | Relief_Short | Relief_Other

record relief =
  rl_kind :: relief_kind
  rl_evicted :: "int option"
  rl_since :: "rat option"

definition relief_stalled_s :: "relief \<Rightarrow> rat \<Rightarrow> rat option" where
  "relief_stalled_s r now =
     (if rl_kind r \<noteq> Relief_Short then None
      else if rl_evicted r \<noteq> Some 0 then None
      else case rl_since r of None \<Rightarrow> None | Some since \<Rightarrow> Some (max 0 (now - since)))"

text \<open>\<open>max(entries, key=rank)\<close>: the first entry of the greatest rank.\<close>

fun max_rank :: "order_entry \<Rightarrow> order_entry list \<Rightarrow> order_entry" where
  "max_rank e [] = e"
| "max_rank e (x # xs) = max_rank (if oe_rank e < oe_rank x then x else e) xs"

definition stuck_victim ::
  "relief \<Rightarrow> order_entry list \<Rightarrow> string option \<Rightarrow> (rat \<times> rat) option \<Rightarrow> string option" where
  "stuck_victim r entries head clock =
     (let stuck = (if rl_kind r = Relief_Futile then True
                   else case clock of
                     None \<Rightarrow> False
                   | Some (now, bound) \<Rightarrow>
                       (case relief_stalled_s r now of None \<Rightarrow> False | Some s \<Rightarrow> \<not> s < bound)) in
      if \<not> stuck then None
      else if entries = [] then None
      else if list_ex (\<lambda>e. \<not> oe_blocked e \<or> oe_standing e = Granted \<or> oe_standing e = Satisfied) entries
      then None
      else
        let others = filter (\<lambda>e. Some (oe_consumer e) \<noteq> head) entries;
            pool = (if others = [] then entries else others) in
        Some (oe_consumer (max_rank (hd pool) (tl pool))))"

section \<open>What the gates promise\<close>

text \<open>
  A gate on shared room: it looks at the obligations already standing, and an obligation that
  retires never turns an admission into a refusal.
\<close>

locale room_gate =
  fixes admits :: "int \<Rightarrow> bool"
  assumes fewer: "a \<le> b \<Longrightarrow> admits b \<Longrightarrow> admits a"
begin

lemma retire_keeps: "0 \<le> r \<Longrightarrow> admits b \<Longrightarrow> admits (b - r)"
  by (rule fewer [of "b - r" b]) simp_all

lemma refused_more: "a \<le> b \<Longrightarrow> \<not> admits a \<Longrightarrow> \<not> admits b"
  using fewer by blast

end

interpretation newcomer: room_gate
  "\<lambda>ob. gd_admit (gate_newcomer ob ready_gib output_gib cap cur_min next_min existing enforced)"
  by unfold_locales (auto simp: gate_newcomer_def Let_def split: option.splits if_splits)

interpretation commitment: room_gate "\<lambda>ob. cd_admit (gate_commitment ob growth cap lone)"
  by unfold_locales (auto simp: gate_commitment_def split: if_splits)

interpretation fence: room_gate "\<lambda>ob. fence_fits ob ready_gib output_gib cap"
  by unfold_locales (auto simp: fence_fits_def split: option.splits)

text \<open>
  the joint-fit gate. A window is admitted only when everything held, queued, owed and
  protected leaves room for its lead and its protected next together, and a refusal is called
  permanent only when it is one: while the capacity stays, no retirement and no growth of the
  other obligations ever admits that window. A transient refusal always leaves something that
  could retire.
\<close>

theorem gate_newcomer_decides:
  fixes cap cur :: int and next_min :: "int option" and enforced :: bool
  assumes "0 \<le> held_gib" and "0 \<le> ready_gib" and "0 \<le> output_gib" and "0 \<le> existing"
  defines "g \<equiv> gate_newcomer held_gib ready_gib output_gib (Some cap) cur next_min existing enforced"
  defines "next_gib \<equiv> (case next_min of None \<Rightarrow> 0 | Some n \<Rightarrow> n)"
  shows "(gd_admit g \<longleftrightarrow> cur \<le> cap \<and> held_gib + ready_gib + output_gib + existing + cur + next_gib \<le> cap)
    \<and> (gd_permanent g = Some True \<longrightarrow>
        (\<forall>h r ob e. 0 \<le> h \<longrightarrow> 0 \<le> r \<longrightarrow> 0 \<le> ob \<longrightarrow> 0 \<le> e \<longrightarrow>
           \<not> gd_admit (gate_newcomer h r ob (Some cap) cur next_min e enforced)))
    \<and> (gd_permanent g = Some False \<longrightarrow> 0 < held_gib + ready_gib + output_gib + existing)"
proof -
  have "gd_admit g \<longleftrightarrow> cur \<le> cap \<and> held_gib + ready_gib + output_gib + existing + cur + next_gib \<le> cap"
    by (auto simp: g_def next_gib_def gate_newcomer_def Let_def)
  moreover have "\<not> gd_admit (gate_newcomer h r ob (Some cap) cur next_min e enforced)"
    if "gd_permanent g = Some True" "0 \<le> h" "0 \<le> r" "0 \<le> ob" "0 \<le> e" for h r ob e
    using that by (auto simp: g_def next_gib_def gate_newcomer_def Let_def split: if_splits)
  moreover have "0 < held_gib + ready_gib + output_gib + existing" if "gd_permanent g = Some False"
    using that assms(1-4) by (auto simp: g_def gate_newcomer_def Let_def split: if_splits)
  ultimately show ?thesis by blast
qed

theorem gate_newcomer_decides_witness:
  "gd_permanent (gate_newcomer 0 0 0 (Some 4) 3 (Some 2) 0 True) = Some True
   \<and> \<not> gd_admit (gate_newcomer 1 0 0 (Some 4) 3 (Some 2) 0 True)"
proof -
  have "gd_permanent (gate_newcomer 0 0 0 (Some 4) 3 (Some 2) 0 True) = Some True"
    by (simp add: gate_newcomer_def)
  then show ?thesis
    using gate_newcomer_decides [where held_gib = 0 and ready_gib = 0 and output_gib = 0 and existing = 0
        and cap = 4 and cur = 3 and next_min = "Some 2" and enforced = True] by simp
qed

lemma grant_key_dash: "CHR ''-'' \<in> set (grant_key sha consumer tier_id leg phase i)"
  by (simp add: grant_key_def grant_prefix_def)

text \<open>
  a grant's holder name is never mistaken for another holder's. It is not a claimant's
  private acquisition, so a transfer takes it, and it is not a content-hashed action key, which
  is hexadecimal, whatever the consumer, tier, leg, phase and digest are.
\<close>

theorem grant_key_separate:
  "\<not> is_private_holder (grant_key sha consumer tier_id leg phase i)
   \<and> (list_all is_hex_digit key \<longrightarrow> grant_key sha consumer tier_id leg phase i \<noteq> key)"
proof -
  have "\<not> is_private_holder (grant_key sha consumer tier_id leg phase i)"
    by (simp add: is_private_holder_def acquiring_prefix_def grant_key_def grant_prefix_def)
  moreover have "\<not> list_all is_hex_digit (grant_key sha consumer tier_id leg phase i)"
  proof
    assume "list_all is_hex_digit (grant_key sha consumer tier_id leg phase i)"
    then have "is_hex_digit (CHR ''-'')" using grant_key_dash by (metis list_all_iff)
    then show False by (simp add: is_hex_digit_def)
  qed
  ultimately show ?thesis by auto
qed

theorem grant_key_separate_witness:
  "\<not> is_private_holder (grant_key (\<lambda>_. ''0123456789ab'') ''c'' ''t:1'' ''mover_row'' ''p'' (Some 3))
   \<and> grant_key (\<lambda>_. ''0123456789ab'') ''c'' ''t:1'' ''mover_row'' ''p'' (Some 3) \<noteq> ''abcdef''"
  using grant_key_separate [of "\<lambda>_. ''0123456789ab''" "''c''" "''t:1''" "''mover_row''" "''p''" "Some 3" "''abcdef''"]
  by (simp add: is_hex_digit_def)

section \<open>What the claim order promises\<close>

definition spends :: "order_entry \<Rightarrow> int" where
  "spends e = (if oe_standing e = Granted \<and> oe_shared_with e = None then oe_need e else 0)"

text \<open>What the walk keeps: money is conserved, and the head is the first that did not fit.\<close>

lemma place_claim_money:
  assumes "place_claim rank c w = (e, w')"
  shows "wk_left w' + spends e = wk_left w" "0 \<le> spends e" "oe_rank e = rank"
    "wk_target w' = wk_target w + spends e + (if oe_standing e = Head then oe_need e else 0)"
    "0 \<le> wk_left w \<Longrightarrow> 0 \<le> wk_left w'"
    "wk_left w < 0 \<Longrightarrow> wk_left w' = wk_left w"
    "oe_standing e = Head \<Longrightarrow> wk_head w = None \<and> wk_head w' = Some (oe_consumer e)
       \<and> wk_left w < oe_need e \<and> oe_shortfall e = Some (oe_need e - wk_left w)"
    "oe_standing e \<noteq> Head \<Longrightarrow> wk_head w' = wk_head w"
    "oe_standing e = Held_Back \<Longrightarrow> wk_head w \<noteq> None \<and> oe_waiting_on e = wk_head w"
    "wk_head w \<noteq> None \<Longrightarrow> spends e = 0"
    "oe_consumer e = ca_consumer c" "oe_need e = max 0 (ca_need c)" "oe_blocked e = ca_blocked c"
    "oe_standing e = Satisfied \<longleftrightarrow> ca_need c \<le> 0"
  using assms by (auto simp: place_claim_def spends_def Let_def split: if_splits)

lemma walk_money:
  "walk_claims rank cs w = (es, w') \<Longrightarrow>
   wk_left w' + sum_list (map spends es) = wk_left w
   \<and> wk_target w' = wk_target w + sum_list (map spends es)
       + sum_list (map (\<lambda>e. if oe_standing e = Head then oe_need e else 0) es)
   \<and> (0 \<le> wk_left w \<longrightarrow> 0 \<le> wk_left w') \<and> (wk_left w < 0 \<longrightarrow> wk_left w' = wk_left w)"
proof (induction cs arbitrary: rank w es w')
  case Nil
  then show ?case by simp
next
  case (Cons c cs)
  obtain e w1 where p: "place_claim rank c w = (e, w1)" by fastforce
  obtain es' where r: "walk_claims (Suc rank) cs w1 = (es', w')" "es = e # es'"
    using Cons.prems p by (auto split: prod.splits)
  from Cons.IH [OF r(1)] place_claim_money [OF p] r(2) show ?case by auto
qed

lemma place_claim_head: "place_claim rank c w = (e, w') \<Longrightarrow> wk_head w = Some h \<Longrightarrow> wk_head w' = Some h"
  by (auto simp: place_claim_def Let_def split: if_splits)

lemma place_claim_granted: "place_claim rank c w = (e, w') \<Longrightarrow> oe_standing e = Granted \<Longrightarrow> 0 < oe_need e"
  by (auto simp: place_claim_def Let_def split: if_splits)

lemma walk_Cons:
  assumes "walk_claims rank (c # cs) w = (es, w')"
  obtains e w1 es' where "place_claim rank c w = (e, w1)" "walk_claims (Suc rank) cs w1 = (es', w')"
    "es = e # es'"
  using assms by (auto split: prod.splits)

lemma walk_head_fixed:
  "walk_claims rank cs w = (es, w') \<Longrightarrow> wk_head w = Some h \<Longrightarrow>
   wk_head w' = Some h \<and> (\<forall>e \<in> set es. oe_standing e \<noteq> Head \<and> spends e = 0)"
proof (induction cs arbitrary: rank w es w')
  case Nil
  then show ?case by simp
next
  case (Cons c cs)
  from Cons.prems(1) show ?case
  proof (rule walk_Cons)
    fix e w1 es'
    assume p: "place_claim rank c w = (e, w1)" and r: "walk_claims (Suc rank) cs w1 = (es', w')" "es = e # es'"
    have "oe_standing e \<noteq> Head" "spends e = 0"
      using place_claim_money(7,10) [OF p] Cons.prems(2) by auto
    with Cons.IH [OF r(1) place_claim_head [OF p Cons.prems(2)]] r(2) show ?case by simp
  qed
qed

lemma walk_standing:
  "walk_claims rank cs w = (es, w') \<Longrightarrow> e \<in> set es \<Longrightarrow>
   (oe_standing e = Held_Back \<longrightarrow> oe_waiting_on e = wk_head w' \<and> wk_head w' \<noteq> None)
   \<and> (oe_standing e = Head \<longrightarrow> wk_head w' = Some (oe_consumer e))"
proof (induction cs arbitrary: rank w es w')
  case Nil
  then show ?case by simp
next
  case (Cons c cs)
  from Cons.prems(1) show ?case
  proof (rule walk_Cons)
    fix e1 w1 es'
    assume p: "place_claim rank c w = (e1, w1)" and r: "walk_claims (Suc rank) cs w1 = (es', w')" "es = e1 # es'"
    show ?case
    proof (cases "e \<in> set es'")
      case True
      with Cons.IH [OF r(1)] show ?thesis by blast
    next
      case False
      with Cons.prems(2) r(2) have e: "e = e1" by simp
      show ?thesis
        using place_claim_money(7,9) [OF p] place_claim_head [OF p] walk_head_fixed [OF r(1)]
        unfolding e by (cases "oe_standing e1") auto
    qed
  qed
qed

lemma walk_ranks:
  "walk_claims rank cs w = (es, w') \<Longrightarrow> map oe_rank es = [rank..<rank + length cs]"
proof (induction cs arbitrary: rank w es w')
  case Nil
  then show ?case by simp
next
  case (Cons c cs)
  from Cons.prems show ?case
  proof (rule walk_Cons)
    fix e w1 es'
    assume p: "place_claim rank c w = (e, w1)" and r: "walk_claims (Suc rank) cs w1 = (es', w')" "es = e # es'"
    show ?case using Cons.IH [OF r(1)] place_claim_money(3) [OF p] r(2) by (simp add: upt_rec)
  qed
qed

lemma walk_consumers:
  "walk_claims rank cs w = (es, w') \<Longrightarrow> map oe_consumer es = map ca_consumer cs"
proof (induction cs arbitrary: rank w es w')
  case Nil
  then show ?case by simp
next
  case (Cons c cs)
  from Cons.prems show ?case
  proof (rule walk_Cons)
    fix e w1 es'
    assume p: "place_claim rank c w = (e, w1)" and r: "walk_claims (Suc rank) cs w1 = (es', w')" "es = e # es'"
    show ?case using Cons.IH [OF r(1)] place_claim_money(11) [OF p] r(2) by simp
  qed
qed

lemma walk_granted_positive:
  "walk_claims rank cs w = (es, w') \<Longrightarrow> e \<in> set es \<Longrightarrow> oe_standing e = Granted \<longrightarrow> 0 < oe_need e"
proof (induction cs arbitrary: rank w es w')
  case Nil
  then show ?case by simp
next
  case (Cons c cs)
  from Cons.prems(1) show ?case
  proof (rule walk_Cons)
    fix e1 w1 es'
    assume p: "place_claim rank c w = (e1, w1)" and r: "walk_claims (Suc rank) cs w1 = (es', w')" "es = e1 # es'"
    show ?case using Cons.IH [OF r(1)] place_claim_granted [OF p] Cons.prems(2) r(2) by auto
  qed
qed

text \<open>
  A granted consumer after the head shares a range already granted: nothing is spent past the
  first that does not fit.
\<close>

lemma walk_after_head:
  "walk_claims rank cs w = (es, w') \<Longrightarrow> i < j \<Longrightarrow> j < length es \<Longrightarrow>
   oe_standing (es ! i) = Head \<or> oe_standing (es ! i) = Held_Back \<Longrightarrow>
   oe_standing (es ! j) = Satisfied \<or> oe_standing (es ! j) = Held_Back
   \<or> (oe_standing (es ! j) = Granted \<and> oe_shared_with (es ! j) \<noteq> None)"
proof (induction cs arbitrary: rank w es w' i j)
  case Nil
  then show ?case by simp
next
  case (Cons c cs)
  from Cons.prems(1) show ?case
  proof (rule walk_Cons)
    fix e w1 es'
    assume p: "place_claim rank c w = (e, w1)" and r: "walk_claims (Suc rank) cs w1 = (es', w')" "es = e # es'"
    obtain j' where j: "j = Suc j'" "j' < length es'" using Cons.prems(2,3) r(2) by (cases j) auto
    show ?case
    proof (cases i)
      case (Suc i')
      with Cons.IH [OF r(1), of i' j'] Cons.prems(2,4) j r(2) show ?thesis by simp
    next
      case 0
      with Cons.prems(4) r(2) have "oe_standing e = Head \<or> oe_standing e = Held_Back" by simp
      then obtain h where "wk_head w1 = Some h"
        using place_claim_money(7,9) [OF p] place_claim_head [OF p] by blast
      from walk_head_fixed [OF r(1) this] have "oe_standing (es' ! j') \<noteq> Head" "spends (es' ! j') = 0"
        using j(2) nth_mem by blast+
      moreover have "oe_standing (es' ! j') = Granted \<longrightarrow> 0 < oe_need (es' ! j')"
        using walk_granted_positive [OF r(1) nth_mem [OF j(2)]] .
      ultimately show ?thesis
        using j(1) r(2) by (cases "oe_standing (es' ! j')") (auto simp: spends_def split: if_splits)
    qed
  qed
qed

lemma walk_blocked:
  "walk_claims rank cs w = (es, w') \<Longrightarrow> map oe_blocked es = map ca_blocked cs"
proof (induction cs arbitrary: rank w es w')
  case Nil
  then show ?case by simp
next
  case (Cons c cs)
  from Cons.prems show ?case
  proof (rule walk_Cons)
    fix e w1 es'
    assume p: "place_claim rank c w = (e, w1)" and r: "walk_claims (Suc rank) cs w1 = (es', w')" "es = e # es'"
    show ?case using Cons.IH [OF r(1)] place_claim_money(13) [OF p] r(2) by simp
  qed
qed

lemma sorted_blocked:
  assumes "i < j" and "j < length claims" and "ca_blocked (sort_key claim_rank claims ! j)"
  shows "ca_blocked (sort_key claim_rank claims ! i)"
proof -
  let ?cs = "sort_key claim_rank claims"
  have "sorted (map claim_rank ?cs)" by (rule sorted_sort_key)
  then have "map claim_rank ?cs ! i \<le> map claim_rank ?cs ! j"
    using assms(1,2) by (intro sorted_nth_mono) simp_all
  then have "claim_rank (?cs ! i) \<le> claim_rank (?cs ! j)" using assms(1,2) by simp
  with assms(3) show ?thesis by (auto simp: claim_rank_def less_eq_prod_def)
qed

text \<open>
  C26: an overcommitted tier serves its claimed consumers one after another. The entries are the
  claims in rank order, blocked consumers before every read-ahead; what is freshly granted never
  exceeds the free room; the target is what the granted consumers and the head take together;
  once a consumer is the head, nobody ranked after it takes anything new, and every one held
  back names that head.
\<close>

theorem claim_order_serves_in_rank:
  "let r = claim_order claims free_gib; es = cr_entries r in
     map oe_consumer es = map ca_consumer (sort_key claim_rank claims)
     \<and> map oe_rank es = [0..<length claims]
     \<and> (\<forall>j < length es. \<forall>i < j. oe_blocked (es ! j) \<longrightarrow> oe_blocked (es ! i))
     \<and> sum_list (map spends es) \<le> max 0 free_gib
     \<and> cr_target_free_gib r = sum_list (map spends es)
         + sum_list (map (\<lambda>e. if oe_standing e = Head then oe_need e else 0) es)
     \<and> (\<forall>e \<in> set es. oe_standing e = Held_Back \<longrightarrow> oe_waiting_on e = cr_head r \<and> cr_head r \<noteq> None)
     \<and> (\<forall>j < length es. \<forall>i < j. oe_standing (es ! i) = Head \<or> oe_standing (es ! i) = Held_Back \<longrightarrow>
          oe_standing (es ! j) \<noteq> Head \<and> spends (es ! j) = 0)"
proof -
  let ?cs = "sort_key claim_rank claims"
  let ?w = "\<lparr>wk_left = free_gib, wk_target = 0, wk_head = None, wk_ahead = None, wk_granted = []\<rparr>"
  obtain es w' where w: "walk_claims 0 ?cs ?w = (es, w')" by fastforce
  have r: "claim_order claims free_gib
      = \<lparr>cr_entries = es, cr_head = wk_head w', cr_target_free_gib = wk_target w'\<rparr>"
    by (simp add: claim_order_def w)
  have len: "length es = length claims"
    using walk_consumers [OF w] by (metis length_map length_sort)
  have "oe_blocked (es ! i)" if "i < j" "j < length es" "oe_blocked (es ! j)" for i j
  proof -
    have b: "oe_blocked (es ! k) = ca_blocked (?cs ! k)" if "k < length es" for k
      using walk_blocked [OF w] that len by (metis length_sort nth_map)
    show ?thesis using that b sorted_blocked [of i j claims] len by simp
  qed
  moreover have "oe_standing (es ! j) \<noteq> Head \<and> spends (es ! j) = 0"
    if "i < j" "j < length es" "oe_standing (es ! i) = Head \<or> oe_standing (es ! i) = Held_Back" for i j
    using walk_after_head [OF w that] by (auto simp: spends_def)
  moreover have "sum_list (map spends es) \<le> max 0 free_gib"
    using walk_money [OF w] by (cases "0 \<le> free_gib") auto
  moreover have "\<forall>e \<in> set es. oe_standing e = Held_Back \<longrightarrow> oe_waiting_on e = wk_head w' \<and> wk_head w' \<noteq> None"
    using walk_standing [OF w] by blast
  ultimately show ?thesis
    using walk_consumers [OF w] walk_ranks [OF w] walk_money [OF w]
    by (simp add: r Let_def)
qed

theorem claim_order_serves_in_rank_witness:
  "map oe_consumer (cr_entries (claim_order
     [\<lparr>ca_consumer = ''a'', ca_claimed = 1, ca_need = 4, ca_blocked = False, ca_since = None, ca_mover = None\<rparr>,
      \<lparr>ca_consumer = ''b'', ca_claimed = 2, ca_need = 3, ca_blocked = True, ca_since = Some 5, ca_mover = None\<rparr>] 5))
   = [''b'', ''a'']"
proof -
  let ?cs = "[\<lparr>ca_consumer = ''a'', ca_claimed = 1, ca_need = 4, ca_blocked = False, ca_since = None, ca_mover = None\<rparr>,
      \<lparr>ca_consumer = ''b'', ca_claimed = 2, ca_need = 3, ca_blocked = True, ca_since = Some 5, ca_mover = None\<rparr>]"
  have "map ca_consumer (sort_key claim_rank ?cs) = [''b'', ''a'']"
    by (simp add: claim_rank_def less_eq_prod_def insort_key_def)
  then show ?thesis
    using claim_order_serves_in_rank [of ?cs 5] by (simp add: Let_def)
qed

section \<open>Who a stuck order ends\<close>

lemma max_rank_props: "max_rank e xs \<in> set (e # xs) \<and> (\<forall>x \<in> set (e # xs). oe_rank x \<le> oe_rank (max_rank e xs))"
proof (induction xs arbitrary: e)
  case Nil
  then show ?case by simp
next
  case (Cons x xs)
  show ?case
    using Cons.IH [of x] Cons.IH [of e] by (cases "oe_rank e < oe_rank x") fastforce+
qed

text \<open>
  a claim order ends a consumer only when nothing else can make room. If \<open>stuck_victim\<close>
  names one, the relief was futile or has been declining for at least the allowed time, no ranked
  consumer is reading, granted or satisfied, and the victim is the lowest ranked one; it is the
  head only when no other consumer is ranked.
\<close>

theorem stuck_victim_last_resort:
  assumes "stuck_victim r entries head clock = Some v"
  shows "(rl_kind r = Relief_Futile
      \<or> (\<exists>now bound since. clock = Some (now, bound) \<and> rl_kind r = Relief_Short
           \<and> rl_evicted r = Some 0 \<and> rl_since r = Some since \<and> bound \<le> max 0 (now - since)))
    \<and> (\<forall>e \<in> set entries. oe_blocked e \<and> (oe_standing e = Head \<or> oe_standing e = Held_Back))
    \<and> (\<exists>e \<in> set entries. oe_consumer e = v
         \<and> (\<forall>x \<in> set entries. Some (oe_consumer x) \<noteq> head \<longrightarrow> oe_rank x \<le> oe_rank e)
         \<and> (Some v = head \<longrightarrow> (\<forall>x \<in> set entries. Some (oe_consumer x) = head)))"
proof -
  let ?others = "filter (\<lambda>e. Some (oe_consumer e) \<noteq> head) entries"
  let ?pool = "if ?others = [] then entries else ?others"
  let ?m = "max_rank (hd ?pool) (tl ?pool)"
  have stuck: "rl_kind r = Relief_Futile
      \<or> (\<exists>now bound s. clock = Some (now, bound) \<and> relief_stalled_s r now = Some s \<and> bound \<le> s)"
    and ne: "entries \<noteq> []"
    and all: "\<forall>e \<in> set entries. oe_blocked e \<and> oe_standing e \<noteq> Granted \<and> oe_standing e \<noteq> Satisfied"
    and v: "v = oe_consumer ?m"
    using assms
    by (auto simp: stuck_victim_def Let_def list_ex_iff not_less split: if_splits option.splits)
  have "rl_kind r = Relief_Futile
      \<or> (\<exists>now bound since. clock = Some (now, bound) \<and> rl_kind r = Relief_Short
           \<and> rl_evicted r = Some 0 \<and> rl_since r = Some since \<and> bound \<le> max 0 (now - since))"
    using stuck by (auto simp: relief_stalled_s_def split: if_splits option.splits)
  moreover have "\<forall>e \<in> set entries. oe_blocked e \<and> (oe_standing e = Head \<or> oe_standing e = Held_Back)"
    using all by (metis standing.exhaust)
  moreover have m: "?m \<in> set ?pool" "\<forall>x \<in> set ?pool. oe_rank x \<le> oe_rank ?m"
    using max_rank_props [of "hd ?pool" "tl ?pool"] ne by (auto simp: list.collapse split: if_splits)
  then have "?m \<in> set entries" by (auto split: if_splits)
  moreover have "\<forall>x \<in> set entries. Some (oe_consumer x) \<noteq> head \<longrightarrow> oe_rank x \<le> oe_rank ?m"
    using m(2) by (auto split: if_splits)
  moreover have "Some v = head \<longrightarrow> (\<forall>x \<in> set entries. Some (oe_consumer x) = head)"
    using m(1) v by (auto simp: filter_empty_conv split: if_splits)
  ultimately show ?thesis using v by blast
qed

theorem stuck_victim_last_resort_witness:
  "\<exists>e \<in> set (cr_entries (claim_order
      [\<lparr>ca_consumer = ''a'', ca_claimed = 1, ca_need = 4, ca_blocked = True, ca_since = Some 1, ca_mover = None\<rparr>,
       \<lparr>ca_consumer = ''b'', ca_claimed = 2, ca_need = 3, ca_blocked = True, ca_since = Some 5, ca_mover = None\<rparr>] 0)).
     oe_consumer e = ''b'' \<and> oe_blocked e"
proof -
  let ?o = "claim_order
      [\<lparr>ca_consumer = ''a'', ca_claimed = 1, ca_need = 4, ca_blocked = True, ca_since = Some 1, ca_mover = None\<rparr>,
       \<lparr>ca_consumer = ''b'', ca_claimed = 2, ca_need = 3, ca_blocked = True, ca_since = Some 5, ca_mover = None\<rparr>] 0"
  have "stuck_victim \<lparr>rl_kind = Relief_Futile, rl_evicted = None, rl_since = None\<rparr> (cr_entries ?o) (cr_head ?o) None
      = Some ''b''"
    by code_simp
  from stuck_victim_last_resort [OF this] show ?thesis by blast
qed

end
