(* ===== verification/Json.thy ===== *)
theory Json
  imports Prelude Complex_Main
begin

text \<open>
  The values a queue record holds: JSON documents as \<open>json.loads\<close> returns them, Python's
  binary64 numbers, and the built-in operations the policies apply to them (\<open>dict.get\<close>, \<open>==\<close>,
  \<open>float()\<close>, \<open>math.isfinite\<close>). A finite float is the rational number it stands for; the
  conversion of an integer rounds to 53 significant bits, ties to even, and overflows as
  CPython's does.
\<close>

section \<open>Floats\<close>

datatype pyfloat = Fin rat | PosInf | NegInf | NaN

fun finite_float :: "pyfloat \<Rightarrow> bool" where
  "finite_float (Fin _) = True"
| "finite_float _ = False"

fun float_less :: "pyfloat \<Rightarrow> pyfloat \<Rightarrow> bool" where
  "float_less (Fin a) (Fin b) = (a < b)"
| "float_less NegInf b = (b \<noteq> NegInf \<and> b \<noteq> NaN)"
| "float_less (Fin a) b = (b = PosInf)"
| "float_less _ _ = False"

definition float_eq :: "pyfloat \<Rightarrow> pyfloat \<Rightarrow> bool" where
  "float_eq a b \<longleftrightarrow> a = b \<and> a \<noteq> NaN"

fun bit_length :: "nat \<Rightarrow> nat" where
  "bit_length n = (if n = 0 then 0 else Suc (bit_length (n div 2)))"

declare bit_length.simps [simp del]

text \<open>Round a magnitude to 53 significant bits, ties to even.\<close>

definition round53 :: "nat \<Rightarrow> nat" where
  "round53 n =
     (if bit_length n \<le> 53 then n
      else let e = bit_length n - 53; q = n div 2 ^ e; r = n mod 2 ^ e; h = 2 ^ (e - 1)
           in (if r < h \<or> (r = h \<and> even q) then q else q + 1) * 2 ^ e)"

text \<open>\<open>float(n)\<close>: \<open>None\<close> is \<open>OverflowError\<close>.\<close>

definition float_of_int :: "int \<Rightarrow> pyfloat option" where
  "float_of_int n =
     (let m = round53 (nat \<bar>n\<bar>)
      in if m < 2 ^ 1024 then Some (Fin (of_int (sgn n) * of_nat m)) else None)"

text \<open>From here on a sum of finite floats rounds to an infinity.\<close>

definition float_max :: rat where "float_max = 2 ^ 1024 - 2 ^ 970"

lemma float_eq_refl [simp]: "float_eq a a \<longleftrightarrow> a \<noteq> NaN"
  by (auto simp: float_eq_def)

lemma float_eq_sym: "float_eq a b \<longleftrightarrow> float_eq b a"
  by (auto simp: float_eq_def)

lemma float_eq_trans: "float_eq a b \<Longrightarrow> float_eq b c \<Longrightarrow> float_eq a c"
  by (auto simp: float_eq_def)

lemma float_eq_Fin [simp]: "float_eq (Fin a) (Fin b) \<longleftrightarrow> a = b"
  by (simp add: float_eq_def)

lemma float_less_irrefl [simp]: "\<not> float_less a a"
  by (cases a) auto

lemma float_less_trans: "float_less a b \<Longrightarrow> float_less b c \<Longrightarrow> float_less a c"
  by (cases a; cases b; cases c) auto

lemma bit_length_bound: "n < 2 ^ bit_length n"
proof (induction n rule: bit_length.induct)
  case (1 n)
  show ?case
  proof (cases "n = 0")
    case True
    then show ?thesis by (simp add: bit_length.simps)
  next
    case False
    with 1 have "n div 2 < 2 ^ bit_length (n div 2)" by simp
    then have "n < 2 * 2 ^ bit_length (n div 2)" by linarith
    with False show ?thesis by (subst bit_length.simps) simp
  qed
qed

lemma bit_length_mono: "m \<le> n \<Longrightarrow> bit_length m \<le> bit_length n"
proof (induction n arbitrary: m rule: bit_length.induct)
  case (1 n)
  show ?case
  proof (cases "m = 0")
    case True
    then show ?thesis by (simp add: bit_length.simps [of 0])
  next
    case False
    with "1.prems" have "n \<noteq> 0" by simp
    moreover have "m div 2 \<le> n div 2" using "1.prems" by (rule div_le_mono)
    ultimately have "bit_length (m div 2) \<le> bit_length (n div 2)" using "1.IH" by blast
    with False \<open>n \<noteq> 0\<close> show ?thesis
      by (subst (1 2) bit_length.simps) simp
  qed
qed

lemma bit_length_power: "bit_length (2 ^ k) = Suc k"
proof (induction k)
  case 0
  then show ?case by (simp add: bit_length.simps [of "Suc 0"] bit_length.simps [of 0])
next
  case (Suc k)
  then show ?case by (subst bit_length.simps) simp
qed

lemma bit_length_less: "n < 2 ^ k \<Longrightarrow> bit_length n \<le> k"
proof (cases k)
  case 0
  then show "n < 2 ^ k \<Longrightarrow> ?thesis" by (simp add: bit_length.simps [of 0])
next
  case (Suc j)
  assume less: "n < 2 ^ k"
  show ?thesis
  proof (rule ccontr)
    assume "\<not> bit_length n \<le> k"
    then have long: "k < bit_length n" by simp
    have "2 ^ (bit_length n - 1) \<le> n"
    proof -
      have "n \<noteq> 0" using long by (intro notI) (simp add: bit_length.simps [of 0])
      then show ?thesis
      proof (induction n rule: bit_length.induct)
        case (1 n)
        show ?case
        proof (cases "n div 2 = 0")
          case True
          with 1 have "n = 1" by linarith
          then show ?thesis by (simp add: bit_length.simps [of "Suc 0"] bit_length.simps [of 0])
        next
          case False
          with 1 have IH: "2 ^ (bit_length (n div 2) - 1) \<le> n div 2" by simp
          have pos: "0 < bit_length (n div 2)" using False by (subst bit_length.simps) simp
          have "(2::nat) ^ (bit_length n - 1) = 2 * 2 ^ (bit_length (n div 2) - 1)"
            using 1 pos by (subst bit_length.simps) (simp flip: power_Suc)
          with IH show ?thesis by linarith
        qed
      qed
    qed
    moreover have "(2::nat) ^ k \<le> 2 ^ (bit_length n - 1)"
      using long by (intro power_increasing) auto
    ultimately show False using less by linarith
  qed
qed

lemma float_of_int_small: "\<bar>n\<bar> \<le> 2 ^ 53 \<Longrightarrow> float_of_int n = Some (Fin (of_int n))"
proof -
  assume bound: "\<bar>n\<bar> \<le> 2 ^ 53"
  have "round53 (nat \<bar>n\<bar>) = nat \<bar>n\<bar>"
  proof (cases "\<bar>n\<bar> = 2 ^ 53")
    case True
    then have "nat \<bar>n\<bar> = 2 ^ 53" by simp
    then show ?thesis by (simp only: round53_def bit_length_power) simp
  next
    case False
    with bound have "\<bar>n\<bar> < 2 ^ 53" by simp
    then have "nat \<bar>n\<bar> < 2 ^ 53" by (simp add: nat_less_iff)
    then show ?thesis by (simp add: round53_def bit_length_less)
  qed
  moreover have "nat \<bar>n\<bar> < 2 ^ 1024"
  proof -
    have "nat \<bar>n\<bar> \<le> 2 ^ 53" using bound by (simp add: nat_le_iff)
    also have "(2::nat) ^ 53 < 2 ^ 1024" by (rule power_strict_increasing) auto
    finally show ?thesis .
  qed
  moreover have "of_int (sgn n) * of_nat (nat \<bar>n\<bar>) = (of_int n :: rat)"
    by (simp add: sgn_if)
  ultimately show ?thesis by (simp add: float_of_int_def)
qed

section \<open>JSON values\<close>

datatype json =
    JNull
  | JBool bool
  | JInt int
  | JFloat pyfloat
  | JStr string
  | JArr "json list"
  | JObj "(string \<times> json) list"

type_synonym obj = "(string, json) dict"

text \<open>\<open>d.get(k)\<close>: \<open>None\<close> for a missing key.\<close>

definition get :: "string \<Rightarrow> obj \<Rightarrow> json" where
  "get k d = dict_get d k JNull"

definition has_key :: "string \<Rightarrow> obj \<Rightarrow> bool" where
  "has_key k d \<longleftrightarrow> map_of d k \<noteq> None"

text \<open>\<open>d[k] = v\<close>: in place for a present key, at the end otherwise.\<close>

definition put :: "string \<Rightarrow> json \<Rightarrow> obj \<Rightarrow> obj" where
  "put k v d = AList.update k v d"

lemma get_put [simp]: "get k (put l v d) = (if k = l then v else get k d)"
  by (simp add: get_def put_def dict_get_def update_conv')

lemma has_key_put [simp]: "has_key k (put l v d) \<longleftrightarrow> k = l \<or> has_key k d"
  by (simp add: has_key_def put_def update_conv')

text \<open>Reading a literal dictionary.\<close>

lemma get_append: "get k (xs @ ys) = (if has_key k xs then get k xs else get k ys)"
  by (auto simp: get_def dict_get_def has_key_def map_add_def split: option.splits)

lemma has_key_append: "has_key k (xs @ ys) \<longleftrightarrow> has_key k xs \<or> has_key k ys"
  by (auto simp: has_key_def map_add_def split: option.splits)

lemma get_Cons: "get k ((l, v) # d) = (if k = l then v else get k d)"
  by (simp add: get_def dict_get_def)

lemma has_key_Cons: "has_key k ((l, v) # d) \<longleftrightarrow> k = l \<or> has_key k d"
  by (simp add: has_key_def)

lemma get_Nil: "get k [] = JNull"
  by (simp add: get_def dict_get_def)

lemma has_key_Nil: "\<not> has_key k []"
  by (simp add: has_key_def)

lemma dict_get_put: "dict_get (put l v d) k w = (if k = l then v else dict_get d k w)"
  by (simp add: dict_get_def put_def update_conv')

text \<open>The exact number a value compares by: \<open>True == 1\<close> and \<open>1 == 1.0\<close> in Python.\<close>

fun numeric :: "json \<Rightarrow> pyfloat option" where
  "numeric (JBool b) = Some (Fin (if b then 1 else 0))"
| "numeric (JInt n) = Some (Fin (of_int n))"
| "numeric (JFloat f) = Some f"
| "numeric _ = None"

text \<open>\<open>a == b\<close> on JSON values.\<close>

lemma size_elem_arr: "x \<in> set xs \<Longrightarrow> size (x :: json) < size (JArr xs)"
  by (simp add: less_Suc_eq_le size_list_estimation')

lemma size_elem_obj: "kv \<in> set d \<Longrightarrow> size (snd kv) < size (JObj d)"
proof -
  assume "kv \<in> set d"
  then have "size_prod (\<lambda>x. 0) size kv \<le> size_list (size_prod (\<lambda>x. 0) size) d"
    by (simp add: size_list_estimation')
  moreover have "size (snd kv) < size_prod (\<lambda>x. 0) size kv" by (cases kv) simp
  ultimately show ?thesis by simp
qed

function py_eq :: "json \<Rightarrow> json \<Rightarrow> bool" where
  "py_eq a b =
     (if numeric a \<noteq> None \<or> numeric b \<noteq> None
      then numeric a \<noteq> None \<and> numeric b \<noteq> None \<and> float_eq (the (numeric a)) (the (numeric b))
      else case a of
          JNull \<Rightarrow> b = JNull
        | JStr s \<Rightarrow> b = JStr s
        | JArr xs \<Rightarrow>
            (case b of
               JArr ys \<Rightarrow>
                 length xs = length ys \<and> (\<forall>(x, y) \<in> set (zip xs ys). py_eq x y)
             | _ \<Rightarrow> False)
        | JObj d \<Rightarrow>
            (case b of
               JObj e \<Rightarrow>
                 length d = length e \<and>
                 (\<forall>kv \<in> set d. \<exists>lw \<in> set e. fst kv = fst lw \<and> py_eq (snd kv) (snd lw))
             | _ \<Rightarrow> False)
        | _ \<Rightarrow> False)"
  by pat_completeness auto
termination
  by (relation "measure (size \<circ> fst)")
    (auto simp del: json.size intro: size_elem_arr [OF set_zip_leftD] size_elem_obj)

declare py_eq.simps [simp del]

lemma py_eq_numeric:
  "numeric a = Some x \<Longrightarrow> py_eq a b \<longleftrightarrow> (\<exists>y. numeric b = Some y \<and> float_eq x y)"
  by (subst py_eq.simps) auto

lemma py_eq_JNull [simp]: "py_eq JNull JNull"
  by (simp add: py_eq.simps)

lemma py_eq_JStr [simp]: "py_eq (JStr s) b \<longleftrightarrow> b = JStr s"
  by (subst py_eq.simps) auto

lemma py_eq_JStr_right [simp]: "py_eq a (JStr s) \<longleftrightarrow> a = JStr s"
  by (subst py_eq.simps) (auto split: option.splits json.splits)

lemma py_eq_JNull_float [simp]: "\<not> py_eq JNull (JFloat f)"
  by (simp add: py_eq.simps)

text \<open>
  \<open>isinstance(v, (int, float)) and not isinstance(v, bool)\<close>, the number test of the queue's
  readers, and \<open>float(v)\<close>. The one caller that passes an untested value reads it from a
  withdrawal decision, whose reader has refused everything but a finite number; text therefore
  counts as unreadable here.
\<close>

fun is_number :: "json \<Rightarrow> bool" where
  "is_number (JInt _) = True"
| "is_number (JFloat _) = True"
| "is_number _ = False"

fun py_float :: "json \<Rightarrow> pyfloat result" where
  "py_float (JBool b) = Inr (Fin (if b then 1 else 0))"
| "py_float (JInt n) = (case float_of_int n of None \<Rightarrow> Inl OverflowError | Some f \<Rightarrow> Inr f)"
| "py_float (JFloat f) = Inr f"
| "py_float (JStr _) = Inl ValueError"
| "py_float _ = Inl TypeError"

text \<open>\<open>float(v)\<close> where a string may arrive: \<open>txt\<close> is its reading of one.\<close>

definition float_of :: "(string \<Rightarrow> pyfloat option) \<Rightarrow> json \<Rightarrow> pyfloat result" where
  "float_of txt v =
     (case v of
        JStr s \<Rightarrow> (case txt s of None \<Rightarrow> Inl ValueError | Some f \<Rightarrow> Inr f)
      | _ \<Rightarrow> py_float v)"

text \<open>\<open>d[k]\<close>.\<close>

definition item :: "string \<Rightarrow> obj \<Rightarrow> json result" where
  "item k d = (case map_of d k of None \<Rightarrow> Inl KeyError | Some v \<Rightarrow> Inr v)"

text \<open>\<open>bool(v)\<close>.\<close>

fun truthy :: "json \<Rightarrow> bool" where
  "truthy JNull = False"
| "truthy (JBool b) = b"
| "truthy (JInt n) = (n \<noteq> 0)"
| "truthy (JFloat f) = (f \<noteq> Fin 0)"
| "truthy (JStr s) = (s \<noteq> [])"
| "truthy (JArr xs) = (xs \<noteq> [])"
| "truthy (JObj d) = (d \<noteq> [])"

end
