(* ===== verification/Endings.thy ===== *)
theory Endings
  imports Json
begin

text \<open>
  How an action ended (\<open>endings.py\<close>) and the poll that answers a waiter from it
  (\<open>terminal_record\<close>, \<open>_read_preemption_successor\<close> and \<open>outcome_poll\<close> of \<open>action_wait.py\<close>).
  A key's terminal rows are captured once and resolved by generation (\<open>resolve_current\<close>); a
  waiter bound to one generation asks \<open>resolve_run\<close>, which requests the reads it needs one at
  a time; \<open>resolve_attempt\<close> turns the immutable attempt log into the one mutable transition it
  permits. The directory reads are the arguments: what each returned, or the error it raised.
\<close>

section \<open>Captured records\<close>

datatype terminal_state = Done | Failed | Withdrawn

datatype read_result =
    Present obj
  | Absent
  | Unknown string

record observation =
  address_state :: terminal_state
  address_path :: string
  obs_result :: read_result

type_synonym recorded_ending = "string \<times> obj"

section \<open>The current ending of a key\<close>

text \<open>\<open>publication_generation\<close>: a finite binary64, or \<open>None\<close>.\<close>

definition publication_generation :: "json \<Rightarrow> rat option" where
  "publication_generation v =
     (if is_number v then (case py_float v of Inr (Fin q) \<Rightarrow> Some q | _ \<Rightarrow> None) else None)"

definition readable :: "observation list \<Rightarrow> terminal_state \<rightharpoonup> recorded_ending" where
  "readable cs = foldl (\<lambda>m ob. case obs_result ob of
       Present r \<Rightarrow> m(address_state ob \<mapsto> (address_path ob, r)) | _ \<Rightarrow> m) Map.empty cs"

definition unreadable_entries :: "observation list \<Rightarrow> (terminal_state \<times> string \<times> string) list" where
  "unreadable_entries cs = concat (map (\<lambda>ob. case obs_result ob of
       Unknown reason \<Rightarrow> [(address_state ob, address_path ob, reason)] | _ \<Rightarrow> []) cs)"

definition generation :: "(terminal_state \<rightharpoonup> recorded_ending) \<Rightarrow> terminal_state \<Rightarrow> rat option" where
  "generation m s =
     (case m s of None \<Rightarrow> None | Some (_, r) \<Rightarrow> publication_generation (get ''published_unix'' r))"

definition present :: "(terminal_state \<rightharpoonup> recorded_ending) \<Rightarrow> terminal_state list" where
  "present m = filter (\<lambda>s. m s \<noteq> None) [Done, Failed, Withdrawn]"

definition failure :: "(terminal_state \<rightharpoonup> recorded_ending) \<Rightarrow> terminal_state option" where
  "failure m = find (\<lambda>s. m s \<noteq> None) [Failed, Withdrawn]"

record history_entry =
  he_state :: terminal_state
  he_path :: string
  he_record :: obj
  he_generation :: "rat option"

record current =
  cur_state :: "terminal_state option"
  cur_path :: "string option"
  cur_record :: "obj option"
  cur_generation :: "rat option"
  cur_history :: "history_entry list"
  cur_unreadable :: "(terminal_state \<times> string \<times> string) list"
  cur_ambiguous :: bool
  cur_coexisting :: "terminal_state list"

definition current_result ::
  "observation list \<Rightarrow> terminal_state option \<Rightarrow> bool \<Rightarrow> current" where
  "current_result cs state ambiguous =
     (let m = readable cs; unreadable = unreadable_entries cs;
          entry = (\<lambda>s. \<lparr>he_state = s, he_path = fst (the (m s)), he_record = snd (the (m s)),
                        he_generation = generation m s\<rparr>)
      in \<lparr>cur_state = state,
          cur_path = map_option (\<lambda>s. fst (the (m s))) state,
          cur_record = map_option (\<lambda>s. snd (the (m s))) state,
          cur_generation = Option.bind state (generation m),
          cur_history = map entry (filter (\<lambda>s. Some s \<noteq> state) (present m)),
          cur_unreadable = unreadable,
          cur_ambiguous = ambiguous,
          cur_coexisting = present m @ map fst unreadable\<rparr>)"

text \<open>
  The decision itself, over what the capture holds: the readable rows, their generations and
  how many rows could not be read.
\<close>

definition decide ::
  "(terminal_state \<rightharpoonup> recorded_ending) \<Rightarrow> nat \<Rightarrow> terminal_state option \<times> bool" where
  "decide m unread =
     (let here = present m; coexisting = length here + unread; gen = generation m in
      if coexisting = 0 then (None, False)
      else if length here = 1 \<and> unread = 0 then (Some (hd here), False)
      else let orderable = filter (\<lambda>s. gen s \<noteq> None) here in
        if 2 \<le> length orderable then
          (let newest = Max (set (map (the \<circ> gen) orderable));
               winners = filter (\<lambda>s. gen s = Some newest) orderable in
           if length winners = 1 then
             (let winner = hd winners in
              if winner = Done \<and> length orderable \<noteq> coexisting then (failure m, True)
              else (Some winner, unread \<noteq> 0))
           else (case find (\<lambda>s. s \<noteq> Done) winners of
                   Some s \<Rightarrow> (Some s, True)
                 | None \<Rightarrow> (Some (hd winners), True)))
        else if length orderable = 1 then
          (let only = hd orderable in
           if only = Done \<and> 1 < coexisting then (failure m, True)
           else (Some only, 1 < coexisting))
        else (case failure m of
                Some s \<Rightarrow> (Some s, 1 < coexisting)
              | None \<Rightarrow> ((if here = [] then None else Some (hd here)), 1 < coexisting)))"

definition resolve_current :: "observation list \<Rightarrow> current" where
  "resolve_current cs =
     (case decide (readable cs) (length (unreadable_entries cs)) of
        (state, ambiguous) \<Rightarrow> current_result cs state ambiguous)"

section \<open>The ending of one run\<close>

datatype 'a captured = Uncaptured | Captured 'a

record supersession =
  sup_path :: string
  sup_action_key :: string
  sup_published_unix :: pyfloat
  sup_successor_published_unix :: pyfloat
  sup_record :: obj

datatype observed_ending =
    Recorded recorded_ending
  | Superseded supersession

datatype read_fault =
    UnreadableTerminal string
  | OutcomeReadUnavailable string
  | Fault error

record run_capture =
  terminals :: "recorded_ending list"
  broken :: "read_fault list"
  publication_errors :: "read_fault list"
  withdrawals :: "recorded_ending list captured"
  archives :: "recorded_ending list captured"
  publication :: "supersession option captured"
  successor :: "pyfloat option captured"

datatype run_reply =
    RunAnswer "observed_ending option" "pyfloat option"
  | WithdrawalInputs "pyfloat option"
  | ArchiveInputs pyfloat
  | PublicationInputs pyfloat
  | PreemptionInputs pyfloat recorded_ending

definition preempted :: "obj \<Rightarrow> pyfloat option \<Rightarrow> bool" where
  "preempted ending g \<longleftrightarrow>
     g \<noteq> None \<and> get ''preempted_by'' ending \<noteq> JNull \<and> get ''status'' ending = JStr ''withdrawn''"

text \<open>The filter of \<open>preemption_successor\<close>: a genuine handoff from this stop.\<close>

definition hands_off :: "obj \<Rightarrow> pyfloat \<Rightarrow> obj \<Rightarrow> bool" where
  "hands_off ending g r \<longleftrightarrow>
     is_number (get ''published_unix'' r) \<and>
     (case get ''supersedes_withdrawal'' r of
        JObj parent \<Rightarrow> py_eq (get ''published_unix'' parent) (JFloat g) \<and>
          py_eq (get ''preempted_by'' parent) (get ''preempted_by'' ending)
      | _ \<Rightarrow> False)"

fun handoffs :: "obj \<Rightarrow> pyfloat \<Rightarrow> obj list \<Rightarrow> pyfloat list result" where
  "handoffs ending g [] = Inr []"
| "handoffs ending g (r # rs) =
     (if hands_off ending g r then
        (case py_float (get ''published_unix'' r) of
           Inl e \<Rightarrow> Inl e
         | Inr theirs \<Rightarrow>
             (case handoffs ending g rs of
                Inl e \<Rightarrow> Inl e
              | Inr later \<Rightarrow> Inr (if float_less g theirs then theirs # later else later)))
      else handoffs ending g rs)"

fun min_float :: "pyfloat \<Rightarrow> pyfloat list \<Rightarrow> pyfloat" where
  "min_float a [] = a"
| "min_float a (b # bs) = min_float (if float_less b a then b else a) bs"

definition preemption_successor :: "obj \<Rightarrow> pyfloat \<Rightarrow> obj list \<Rightarrow> pyfloat option result" where
  "preemption_successor ending g records =
     (case handoffs ending g records of
        Inl e \<Rightarrow> Inl e
      | Inr [] \<Rightarrow> Inr None
      | Inr (a # later) \<Rightarrow> Inr (Some (min_float a later)))"

text \<open>The loop of \<open>resolve_run\<close> over the captured withdrawal decisions.\<close>

definition of_run :: "pyfloat option \<Rightarrow> obj \<Rightarrow> bool result" where
  "of_run g r =
     (case g of
        None \<Rightarrow> Inr True
      | Some x \<Rightarrow>
          (case item ''published_unix'' r of
             Inl e \<Rightarrow> Inl e
           | Inr v \<Rightarrow> (case py_float v of Inl e \<Rightarrow> Inl e | Inr f \<Rightarrow> Inr (float_eq f x))))"

fun add_withdrawals ::
  "pyfloat option \<Rightarrow> recorded_ending list \<Rightarrow> recorded_ending list \<Rightarrow> recorded_ending list result" where
  "add_withdrawals g found [] = Inr found"
| "add_withdrawals g found ((p, r) # ws) =
     (case of_run g r of
        Inl e \<Rightarrow> Inl e
      | Inr mine \<Rightarrow>
          add_withdrawals g
            (if mine \<and> \<not> list_ex (\<lambda>(_, old). get ''status'' old = JStr ''withdrawn'' \<and>
                  py_eq (get ''published_unix'' old) (get ''published_unix'' r)) found
             then found @ [(p, r)] else found) ws)"

fun exact_entries :: "pyfloat \<Rightarrow> recorded_ending list \<Rightarrow> recorded_ending list result" where
  "exact_entries g [] = Inr []"
| "exact_entries g ((p, r) # es) =
     (if is_number (get ''published_unix'' r) then
        (case py_float (get ''published_unix'' r) of
           Inl e \<Rightarrow> Inl e
         | Inr f \<Rightarrow>
             (case exact_entries g es of
                Inl e \<Rightarrow> Inl e
              | Inr later \<Rightarrow> Inr (if float_eq f g then (p, r) # later else later)))
      else exact_entries g es)"

definition stamp_of :: "recorded_ending \<Rightarrow> pyfloat result" where
  "stamp_of entry =
     (let v = get ''published_unix'' (snd entry)
      in if is_number v then py_float v else Inr NegInf)"

text \<open>\<open>max(found, key=stamp)\<close>: the first entry no later one exceeds.\<close>

fun latest_of ::
  "recorded_ending \<Rightarrow> pyfloat \<Rightarrow> recorded_ending list \<Rightarrow> recorded_ending result" where
  "latest_of best high [] = Inr best"
| "latest_of best high (e # es) =
     (case stamp_of e of
        Inl err \<Rightarrow> Inl err
      | Inr f \<Rightarrow> if float_less high f then latest_of e f es else latest_of best high es)"

definition landing ::
  "run_capture \<Rightarrow> pyfloat \<Rightarrow> recorded_ending list \<Rightarrow> recorded_ending list \<Rightarrow> read_fault + run_reply" where
  "landing c g found exact =
     (if found = [] then
        (case broken c of e # _ \<Rightarrow> Inl e | [] \<Rightarrow> Inr (RunAnswer None (Some g)))
      else
        let landed = (case exact of e # _ \<Rightarrow> e | [] \<Rightarrow> hd found) in
        if preempted (snd landed) (Some g) then
          (case successor c of
             Uncaptured \<Rightarrow> Inr (PreemptionInputs g landed)
           | Captured (Some next) \<Rightarrow> Inr (RunAnswer None (Some next))
           | Captured None \<Rightarrow> Inr (RunAnswer (Some (Recorded landed)) (Some g)))
        else Inr (RunAnswer (Some (Recorded landed)) (Some g)))"

definition resolve_exact ::
  "run_capture \<Rightarrow> pyfloat \<Rightarrow> recorded_ending list \<Rightarrow> read_fault + run_reply" where
  "resolve_exact c g found =
     (case exact_entries g found of
        Inl e \<Rightarrow> Inl (Fault e)
      | Inr exact \<Rightarrow>
          if exact = [] then
            (case publication c of
               Uncaptured \<Rightarrow> Inr (PublicationInputs g)
             | Captured (Some s) \<Rightarrow> Inr (RunAnswer (Some (Superseded s)) (Some g))
             | Captured None \<Rightarrow>
                 (case publication_errors c of e # _ \<Rightarrow> Inl e | [] \<Rightarrow> landing c g found exact))
          else landing c g found exact)"

definition resolve_any :: "run_capture \<Rightarrow> recorded_ending list \<Rightarrow> read_fault + run_reply" where
  "resolve_any c found =
     (case publication_errors c of
        e # _ \<Rightarrow> Inl e
      | [] \<Rightarrow>
          (case found of
             [] \<Rightarrow> (case broken c of e # _ \<Rightarrow> Inl e | [] \<Rightarrow> Inr (RunAnswer None None))
           | [e] \<Rightarrow> Inr (RunAnswer (Some (Recorded e)) None)
           | e # es \<Rightarrow>
               (case stamp_of e of
                  Inl err \<Rightarrow> Inl (Fault err)
                | Inr f \<Rightarrow>
                    (case latest_of e f es of
                       Inl err \<Rightarrow> Inl (Fault err)
                     | Inr best \<Rightarrow> Inr (RunAnswer (Some (Recorded best)) None)))))"

definition resolve_run :: "run_capture \<Rightarrow> pyfloat option \<Rightarrow> read_fault + run_reply" where
  "resolve_run c g =
     (case withdrawals c of
        Uncaptured \<Rightarrow> Inr (WithdrawalInputs g)
      | Captured ws \<Rightarrow>
          (case add_withdrawals g (terminals c) ws of
             Inl e \<Rightarrow> Inl (Fault e)
           | Inr found \<Rightarrow>
               (case g of
                  None \<Rightarrow> resolve_any c found
                | Some x \<Rightarrow>
                    if \<not> list_ex (\<lambda>(_, r). py_eq (get ''published_unix'' r) (JFloat x)) found then
                      (case archives c of
                         Uncaptured \<Rightarrow> Inr (ArchiveInputs x)
                       | Captured old \<Rightarrow> resolve_exact c x (found @ old))
                    else resolve_exact c x found)))"

section \<open>The waiter's poll\<close>

text \<open>\<open>action_wait.terminal_record\<close>: the record at a path, when it belongs to the generation.\<close>

definition terminal_record ::
  "string \<Rightarrow> read_result \<Rightarrow> pyfloat option \<Rightarrow> bool \<Rightarrow> read_fault + obj option" where
  "terminal_record path seen g report_unreadable =
     (case seen of
        Absent \<Rightarrow> Inr None
      | Unknown _ \<Rightarrow> if report_unreadable then Inl (UnreadableTerminal path) else Inr None
      | Present r \<Rightarrow>
          (case g of
             None \<Rightarrow> Inr (Some r)
           | Some x \<Rightarrow>
               if is_number (get ''published_unix'' r) then
                 (case py_float (get ''published_unix'' r) of
                    Inl e \<Rightarrow> Inl (Fault e)
                  | Inr f \<Rightarrow> Inr (if float_eq f x then Some r else None))
               else Inr (Some r)))"

definition publication_superseded_schema :: string where
  "publication_superseded_schema = ''prismabuild.publication_superseded.v1''"

text \<open>\<open>require_execution_ending\<close>: publication evidence supplies no execution ending.\<close>

definition execution_ending :: "obj \<Rightarrow> bool" where
  "execution_ending r \<longleftrightarrow>
     \<not> (get ''status'' r = JStr ''superseded'' \<or>
        get ''schema'' r = JStr publication_superseded_schema)"

text \<open>The reads one poll may make, by what they return or raise.\<close>

record poll_reads =
  rd_watched :: "(string \<times> read_result) list"
  rd_withdrawals :: "pyfloat option \<Rightarrow> read_fault + recorded_ending list"
  rd_archives :: "pyfloat \<Rightarrow> read_fault + recorded_ending list"
  rd_publication :: "pyfloat \<Rightarrow> read_fault + supersession option"
  rd_lineage :: "read_fault + obj list"

fun capture_watched ::
  "pyfloat option \<Rightarrow> bool \<Rightarrow> (string \<times> read_result) list \<Rightarrow> run_capture \<Rightarrow>
   read_fault + run_capture" where
  "capture_watched g report [] c = Inr c"
| "capture_watched g report ((path, seen) # rest) c =
     (case terminal_record path seen g report of
        Inl (Fault e) \<Rightarrow> Inl (Fault e)
      | Inl fault \<Rightarrow> capture_watched g report rest (c\<lparr>broken := broken c @ [fault]\<rparr>)
      | Inr None \<Rightarrow> capture_watched g report rest c
      | Inr (Some r) \<Rightarrow>
          if execution_ending r
          then capture_watched g report rest (c\<lparr>terminals := terminals c @ [(path, r)]\<rparr>)
          else capture_watched g report rest
            (c\<lparr>publication_errors := publication_errors c @ [OutcomeReadUnavailable path]\<rparr>))"

definition empty_capture :: run_capture where
  "empty_capture = \<lparr>terminals = [], broken = [], publication_errors = [],
     withdrawals = Uncaptured, archives = Uncaptured, publication = Uncaptured,
     successor = Uncaptured\<rparr>"

definition read_preemption_successor ::
  "poll_reads \<Rightarrow> obj \<Rightarrow> pyfloat \<Rightarrow> read_fault + pyfloat option" where
  "read_preemption_successor q ending g =
     (if preempted ending (Some g) then
        (case rd_lineage q of
           Inl e \<Rightarrow> Inl e
         | Inr records \<Rightarrow>
             (case preemption_successor ending g
                (filter (\<lambda>r. case get ''supersedes_withdrawal'' r of JObj _ \<Rightarrow> True | _ \<Rightarrow> False)
                  records) of
                Inl e \<Rightarrow> Inl (Fault e)
              | Inr s \<Rightarrow> Inr s))
      else Inr None)"

text \<open>How many inputs a capture still lacks: the measure of the poll's loop.\<close>

definition missing_inputs :: "run_capture \<Rightarrow> nat" where
  "missing_inputs c =
     (if withdrawals c = Uncaptured then 1 else 0) + (if archives c = Uncaptured then 1 else 0)
     + (if publication c = Uncaptured then 1 else 0) + (if successor c = Uncaptured then 1 else 0)"

lemma landing_request:
  "landing c g found exact = Inr (PreemptionInputs h e) \<Longrightarrow> h = g \<and> successor c = Uncaptured"
  by (auto simp: landing_def Let_def split: if_splits list.splits captured.splits option.splits)

lemma landing_shape:
  "landing c g found exact \<noteq> Inr (WithdrawalInputs h)"
  "landing c g found exact \<noteq> Inr (ArchiveInputs x)"
  "landing c g found exact \<noteq> Inr (PublicationInputs x)"
  by (auto simp: landing_def Let_def split: if_splits list.splits captured.splits option.splits)

lemma resolve_exact_request:
  "resolve_exact c g found = Inr (PreemptionInputs h e) \<Longrightarrow> h = g \<and> successor c = Uncaptured"
  "resolve_exact c g found = Inr (PublicationInputs h) \<Longrightarrow> h = g \<and> publication c = Uncaptured"
  "resolve_exact c g found \<noteq> Inr (WithdrawalInputs k)"
  "resolve_exact c g found \<noteq> Inr (ArchiveInputs x)"
  by (auto simp: resolve_exact_def landing_shape dest: landing_request
      split: sum.splits if_splits captured.splits option.splits list.splits)

lemma resolve_any_answers:
  "resolve_any c found = Inr reply \<Longrightarrow> \<exists>e. reply = RunAnswer e None"
  by (auto simp: resolve_any_def split: sum.splits list.splits)

lemma resolve_run_request:
  "resolve_run c g = Inr (WithdrawalInputs h) \<Longrightarrow> h = g \<and> withdrawals c = Uncaptured"
  "resolve_run c g = Inr (ArchiveInputs x) \<Longrightarrow> g = Some x \<and> archives c = Uncaptured"
  "resolve_run c g = Inr (PublicationInputs x) \<Longrightarrow> g = Some x \<and> publication c = Uncaptured"
  "resolve_run c g = Inr (PreemptionInputs x e) \<Longrightarrow> g = Some x \<and> successor c = Uncaptured"
  by (auto simp: resolve_run_def resolve_exact_request(3,4)
      dest: resolve_exact_request(1,2) dest!: resolve_any_answers
      split: sum.splits if_splits captured.splits option.splits)

function fulfil ::
  "poll_reads \<Rightarrow> pyfloat option \<Rightarrow> run_capture \<Rightarrow>
   read_fault + (observed_ending option \<times> pyfloat option)" where
  "fulfil q g c =
     (case resolve_run c g of
        Inl e \<Rightarrow> Inl e
      | Inr (RunAnswer ending h) \<Rightarrow> Inr (ending, h)
      | Inr (WithdrawalInputs h) \<Rightarrow>
          (case rd_withdrawals q h of
             Inl e \<Rightarrow> Inl e | Inr ws \<Rightarrow> fulfil q g (c\<lparr>withdrawals := Captured ws\<rparr>))
      | Inr (ArchiveInputs x) \<Rightarrow>
          (case rd_archives q x of
             Inl e \<Rightarrow> Inl e | Inr old \<Rightarrow> fulfil q g (c\<lparr>archives := Captured old\<rparr>))
      | Inr (PublicationInputs x) \<Rightarrow>
          (case rd_publication q x of
             Inl e \<Rightarrow> Inl e | Inr s \<Rightarrow> fulfil q g (c\<lparr>publication := Captured s\<rparr>))
      | Inr (PreemptionInputs x ending) \<Rightarrow>
          (case read_preemption_successor q (snd ending) x of
             Inl e \<Rightarrow> Inl e | Inr s \<Rightarrow> fulfil q g (c\<lparr>successor := Captured s\<rparr>)))"
  by pat_completeness auto
termination
  by (relation "measure (\<lambda>(q, g, c). missing_inputs c)")
    (auto simp: missing_inputs_def dest: resolve_run_request)

declare fulfil.simps [simp del]

definition outcome_poll ::
  "poll_reads \<Rightarrow> pyfloat option \<Rightarrow> bool \<Rightarrow>
   read_fault + (observed_ending option \<times> pyfloat option)" where
  "outcome_poll q g report =
     (case capture_watched g report (rd_watched q) empty_capture of
        Inl e \<Rightarrow> Inl e
      | Inr c \<Rightarrow> fulfil q g c)"

section \<open>The transition an attempt permits\<close>

text \<open>
  Text in an attempt record is kept as its UTF-8 bytes, so that \<open>encode\<close> is the identity; the
  tail of a stream may start inside a code point, and each byte of the split point is replaced
  by U+FFFD when the tail is decoded.
\<close>

definition terminal_stream_tail_bytes :: nat where
  "terminal_stream_tail_bytes = 64 * 1024"

definition continuation :: "char \<Rightarrow> bool" where
  "continuation c \<longleftrightarrow> 128 \<le> (of_char c :: nat) \<and> (of_char c :: nat) < 192"

definition replacement :: string where
  "replacement = map char_of [239 :: nat, 191, 189]"

definition decode_tail :: "string \<Rightarrow> string" where
  "decode_tail bs =
     concat (map (\<lambda>_. replacement) (takeWhile continuation bs)) @ dropWhile continuation bs"

definition terminal_stream_inline :: "string \<Rightarrow> string \<times> nat \<times> bool" where
  "terminal_stream_inline raw =
     (if length raw \<le> terminal_stream_tail_bytes then (raw, length raw, False)
      else (decode_tail (drop (length raw - terminal_stream_tail_bytes) raw), length raw, True))"

datatype attempt_fault =
    No_Outcome
  | Bad_Status
  | Bad_Disposition
  | Bad_Bounds
  | Stopped_Success
  | Bad_Stop
  | Wrong_Disposition string string
  | Bad_Detail
  | Bad_Finish_Time
  | Bad_Finish_Host
  | Escaped error

record transition =
  tr_attempt :: int
  tr_status :: string
  tr_disposition :: string
  tr_output_retry_stopped :: bool
  tr_finished_unix :: json
  tr_finished_host :: string
  tr_served :: "(json \<times> json) option"
  tr_detail :: obj

definition nonempty_text :: "json \<Rightarrow> string option" where
  "nonempty_text v = (case v of JStr s \<Rightarrow> if s = [] then None else Some s | _ \<Rightarrow> None)"

definition succeeded :: "string \<Rightarrow> bool" where
  "succeeded status \<longleftrightarrow> status = ''executed'' \<or> status = ''cache_hit''"

definition worker_failure_final :: "obj \<Rightarrow> bool" where
  "worker_failure_final a \<longleftrightarrow>
     get ''retry_scope'' a = JStr ''interruption'' \<and> get ''worker_reported'' a = JBool True"

definition expected_disposition :: "obj \<Rightarrow> string \<Rightarrow> int \<Rightarrow> int \<Rightarrow> string" where
  "expected_disposition a status attempt max_attempts =
     (if status = ''withdrawn'' then ''withdrawn''
      else if succeeded status then ''done''
      else if has_key ''output_retry_stop'' a \<or> worker_failure_final a \<or> attempt \<ge> max_attempts
        then ''failed''
      else ''requeued'')"

text \<open>\<open>str(adopted.get(stream) or "")\<close>, with \<open>str_of\<close> for Python's \<open>str\<close> of a value that is not text.\<close>

definition stream_text :: "(json \<Rightarrow> string) \<Rightarrow> json \<Rightarrow> string" where
  "stream_text str_of v =
     (if truthy v then (case v of JStr s \<Rightarrow> s | _ \<Rightarrow> str_of v) else [])"

definition put_stream :: "(json \<Rightarrow> string) \<Rightarrow> obj \<Rightarrow> string \<Rightarrow> obj \<Rightarrow> obj" where
  "put_stream str_of a stream detail =
     (case terminal_stream_inline (stream_text str_of (get stream a)) of
        (inline, full_bytes, was_cut) \<Rightarrow>
          let d = put (stream @ ''_truncated'') (JBool was_cut)
                    (put (stream @ ''_bytes'') (JInt (int full_bytes))
                      (put stream (JStr inline) detail))
          in case get ''logs'' a of
               JObj logs \<Rightarrow>
                 (case get stream logs of
                    JObj metadata \<Rightarrow> put (stream @ ''_log'') (JObj metadata) d
                  | _ \<Rightarrow> d)
             | _ \<Rightarrow> d)"

definition finish_time :: "json \<Rightarrow> attempt_fault option" where
  "finish_time v =
     (if \<not> is_number v then Some Bad_Finish_Time
      else case py_float v of
          Inl e \<Rightarrow> Some (Escaped e)
        | Inr f \<Rightarrow> if finite_float f then None else Some Bad_Finish_Time)"

text \<open>\<open>valid_stop\<close> stands for \<open>validate_output_retry_stop\<close>: whether it accepts the stop record.\<close>

definition adopt_attempt ::
  "(json \<Rightarrow> string) \<Rightarrow> (json \<Rightarrow> obj \<Rightarrow> bool) \<Rightarrow> obj \<Rightarrow> attempt_fault + transition" where
  "adopt_attempt str_of valid_stop a =
     (case nonempty_text (get ''status'' a) of
        None \<Rightarrow> Inl Bad_Status
      | Some status \<Rightarrow>
     (case nonempty_text (get ''disposition'' a) of
        None \<Rightarrow> Inl Bad_Disposition
      | Some disposition \<Rightarrow>
     (case (get ''attempt'' a, get ''max_attempts'' a) of
        (JInt attempt, JInt max_attempts) \<Rightarrow>
          (let stopped = has_key ''output_retry_stop'' a;
               expected = expected_disposition a status attempt max_attempts in
           if stopped \<and> succeeded status then Inl Stopped_Success
           else if stopped \<and> \<not> valid_stop (get ''output_retry_stop'' a) a then Inl Bad_Stop
           else if disposition \<noteq> expected then Inl (Wrong_Disposition expected disposition)
           else
             (case get ''detail'' a of
                JObj detail \<Rightarrow>
                  (case finish_time (get ''finished_unix'' a) of
                     Some fault \<Rightarrow> Inl fault
                   | None \<Rightarrow>
                       (case nonempty_text (get ''finished_host'' a) of
                          None \<Rightarrow> Inl Bad_Finish_Host
                        | Some host \<Rightarrow>
                            Inr \<lparr>tr_attempt = attempt, tr_status = status,
                              tr_disposition = disposition,
                              tr_output_retry_stopped = stopped,
                              tr_finished_unix = get ''finished_unix'' a,
                              tr_finished_host = host,
                              tr_served =
                                (if has_key ''served_from'' a
                                 then Some (get ''served_from'' a, get ''resident_set'' a)
                                 else None),
                              tr_detail =
                                put_stream str_of a ''stderr''
                                  (put_stream str_of a ''stdout'' detail)\<rparr>))
              | _ \<Rightarrow> Inl Bad_Detail))
      | _ \<Rightarrow> Inl Bad_Bounds)))"

definition resolve_attempt ::
  "(json \<Rightarrow> string) \<Rightarrow> (json \<Rightarrow> obj \<Rightarrow> bool) \<Rightarrow> obj list \<Rightarrow> attempt_fault + transition" where
  "resolve_attempt str_of valid_stop attempts =
     (if attempts = [] then Inl No_Outcome else adopt_attempt str_of valid_stop (last attempts))"

section \<open>Resolving by generation\<close>

lemma present_cases:
  "present m = (if m Done \<noteq> None then [Done] else []) @ (if m Failed \<noteq> None then [Failed] else [])
     @ (if m Withdrawn \<noteq> None then [Withdrawn] else [])"
  by (simp add: present_def)

lemma set_present [simp]: "s \<in> set (present m) \<longleftrightarrow> m s \<noteq> None"
  by (cases s) (auto simp: present_def)

lemma generation_present: "generation m s = Some g \<Longrightarrow> m s \<noteq> None"
  by (auto simp: generation_def split: option.splits)

lemma terminal_state_ex: "(\<exists>s. P s) \<longleftrightarrow> P Done \<or> P Failed \<or> P Withdrawn"
  by (metis terminal_state.exhaust)

lemma terminal_state_all: "(\<forall>s. P s) \<longleftrightarrow> P Done \<and> P Failed \<and> P Withdrawn"
  by (metis terminal_state.exhaust)

text \<open>A success with every rival readable, ordered and strictly older.\<close>

definition strictly_newest ::
  "(terminal_state \<rightharpoonup> recorded_ending) \<Rightarrow> terminal_state \<Rightarrow> bool" where
  "strictly_newest m s \<longleftrightarrow>
     (\<exists>g. generation m s = Some g \<and>
        (\<forall>t. t \<noteq> s \<and> m t \<noteq> None \<longrightarrow> (\<exists>h. generation m t = Some h \<and> h < g)))"

lemma generation_absent [simp]: "m s = None \<Longrightarrow> generation m s = None"
  by (simp add: generation_def)

lemma decide_done_clean:
  "decide m unread = (Some Done, False) \<longleftrightarrow>
     unread = 0 \<and> m Done \<noteq> None \<and> (present m = [Done] \<or> strictly_newest m Done)"
  unfolding strictly_newest_def terminal_state_all
  by (cases "m Done"; cases "m Failed"; cases "m Withdrawn"; cases "generation m Done";
      cases "generation m Failed"; cases "generation m Withdrawn")
    (auto simp: decide_def present_cases failure_def Let_def max_def)

lemma decide_done_contested:
  "decide m unread = (Some Done, True) \<longleftrightarrow>
     0 < unread \<and> present m = [Done] \<and> generation m Done = None"
  by (cases "m Done"; cases "m Failed"; cases "m Withdrawn"; cases "generation m Done";
      cases "generation m Failed"; cases "generation m Withdrawn")
    (auto simp: decide_def present_cases failure_def Let_def max_def)

lemma decide_newest:
  "strictly_newest m s \<Longrightarrow> decide m 0 = (Some s, False)"
  unfolding strictly_newest_def terminal_state_all
  by (cases s; cases "m Done"; cases "m Failed"; cases "m Withdrawn"; cases "generation m Done";
      cases "generation m Failed"; cases "generation m Withdrawn")
    (auto simp: decide_def present_cases failure_def Let_def max_def)

lemma resolve_current_fields [simp]:
  "cur_state (resolve_current cs) =
     fst (decide (readable cs) (length (unreadable_entries cs)))"
  "cur_ambiguous (resolve_current cs) =
     snd (decide (readable cs) (length (unreadable_entries cs)))"
  by (auto simp: resolve_current_def current_result_def Let_def split: prod.splits)

text \<open>
  C27: A key is reported as an unambiguous success exactly when its \<open>done\<close> record was read,
  no candidate was unreadable, and the record is either alone or carries a finite generation
  strictly newer than that of every other record of the key, all of them ordered.
\<close>

theorem resolve_current_success:
  "cur_state (resolve_current cs) = Some Done \<and> \<not> cur_ambiguous (resolve_current cs) \<longleftrightarrow>
     unreadable_entries cs = [] \<and> readable cs Done \<noteq> None \<and>
     (present (readable cs) = [Done] \<or> strictly_newest (readable cs) Done)"
  using decide_done_clean [of "readable cs" "length (unreadable_entries cs)"]
  by (simp add: prod_eq_iff)

text \<open>
  The one contested state that is read as a success, flagged ambiguous: a \<open>done\<close>
  record with no usable generation, no other readable record, and a candidate that could not be
  read. In every other contest the reported state is a failure, a cancellation or none.
\<close>

theorem resolve_current_contested_success:
  "cur_state (resolve_current cs) = Some Done \<and> cur_ambiguous (resolve_current cs) \<longleftrightarrow>
     unreadable_entries cs \<noteq> [] \<and> present (readable cs) = [Done] \<and>
     generation (readable cs) Done = None"
  using decide_done_contested [of "readable cs" "length (unreadable_entries cs)"]
  by (simp add: prod_eq_iff)

lemma readable_append:
  "readable (cs @ [ob]) = (case obs_result ob of
     Present r \<Rightarrow> (readable cs)(address_state ob \<mapsto> (address_path ob, r)) | _ \<Rightarrow> readable cs)"
  by (simp add: readable_def split: read_result.splits)

lemma readable_iff:
  "distinct (map address_state cs) \<Longrightarrow>
   readable cs s = Some (p, r) \<longleftrightarrow>
     (\<exists>ob \<in> set cs. address_state ob = s \<and> address_path ob = p \<and> obs_result ob = Present r)"
proof (induction cs rule: rev_induct)
  case Nil
  then show ?case by (simp add: readable_def)
next
  case (snoc ob cs)
  have fresh: "address_state x \<noteq> address_state ob" if "x \<in> set cs" for x
    using that snoc.prems by (auto simp: image_iff)
  from snoc show ?case
    by (auto simp: readable_append dest: fresh split: read_result.splits)
qed

lemma readable_permuted:
  assumes "distinct (map address_state cs)" "mset cs = mset cs'"
  shows "readable cs = readable cs'"
proof (rule ext)
  fix s
  have d: "distinct (map address_state cs')"
    using assms by (metis mset_eq_imp_distinct_iff mset_map)
  have same: "set cs = set cs'" using assms(2) by (rule mset_eq_setD)
  show "readable cs s = readable cs' s"
  proof (rule option.expand [rule_format])
    show "(readable cs s = None) = (readable cs' s = None)"
      using readable_iff [OF assms(1), of s] readable_iff [OF d, of s] same
      by (metis not_None_eq surj_pair)
  next
    assume "readable cs s \<noteq> None" "readable cs' s \<noteq> None"
    then show "the (readable cs s) = the (readable cs' s)"
      using readable_iff [OF assms(1), of s] readable_iff [OF d, of s] same
      by (metis not_None_eq option.sel surj_pair)
  qed
qed

lemma unreadable_permuted:
  "mset cs = mset cs' \<Longrightarrow> mset (unreadable_entries cs) = mset (unreadable_entries cs')"
proof -
  have key: "mset (unreadable_entries xs) = \<Sum>\<^sub># (image_mset (\<lambda>ob. case obs_result ob of
       Unknown reason \<Rightarrow> {#(address_state ob, address_path ob, reason)#} | _ \<Rightarrow> {#}) (mset xs))"
    for xs
    by (induction xs) (auto simp: unreadable_entries_def split: read_result.splits)
  assume "mset cs = mset cs'"
  then show ?thesis by (simp add: key)
qed

text \<open>
  The answer does not depend on the order in which the terminal directories were
  read: two captures of the same candidates name the same state, record, generation, history
  and ambiguity, and the same unreadable candidates.
\<close>

theorem resolve_current_order_independent:
  assumes "distinct (map address_state cs)" "mset cs = mset cs'"
  shows "(cur_state (resolve_current cs) = cur_state (resolve_current cs')) \<and>
    (cur_record (resolve_current cs) = cur_record (resolve_current cs')) \<and>
    (cur_generation (resolve_current cs) = cur_generation (resolve_current cs')) \<and>
    (cur_history (resolve_current cs) = cur_history (resolve_current cs')) \<and>
    (cur_ambiguous (resolve_current cs) = cur_ambiguous (resolve_current cs')) \<and>
    (mset (cur_unreadable (resolve_current cs)) = mset (cur_unreadable (resolve_current cs')))"
  using readable_permuted [OF assms] unreadable_permuted [OF assms(2)]
    mset_eq_length [OF unreadable_permuted [OF assms(2)]]
  by (simp_all add: resolve_current_def current_result_def Let_def split: prod.splits)

definition sample_row :: "terminal_state \<Rightarrow> int \<Rightarrow> observation" where
  "sample_row s g = \<lparr>address_state = s, address_path = ''row'',
     obs_result = Present [(''published_unix'', JInt g)]\<rparr>"

theorem resolve_current_order_independent_witness:
  "cur_state (resolve_current [sample_row Done 5, sample_row Failed 3]) =
   cur_state (resolve_current [sample_row Failed 3, sample_row Done 5])"
  using resolve_current_order_independent [of "[sample_row Done 5, sample_row Failed 3]"
      "[sample_row Failed 3, sample_row Done 5]"]
  by (simp add: sample_row_def)

text \<open>
  When every candidate was read and one of them carries a finite generation strictly
  newer than that of all the others, that record answers, unambiguously, whatever its state; the
  other records are its history.
\<close>

theorem resolve_current_newest:
  assumes "unreadable_entries cs = []" "strictly_newest (readable cs) s"
  shows "(cur_state (resolve_current cs) = Some s) \<and>
    (\<not> cur_ambiguous (resolve_current cs)) \<and>
    (cur_record (resolve_current cs) = map_option snd (readable cs s)) \<and>
    (set (map he_state (cur_history (resolve_current cs))) = {t. readable cs t \<noteq> None} - {s})"
proof -
  have decided: "decide (readable cs) (length (unreadable_entries cs)) = (Some s, False)"
    using assms by (simp add: decide_newest)
  have here: "readable cs s \<noteq> None"
    using assms(2) generation_present by (auto simp: strictly_newest_def)
  have "cur_state (resolve_current cs) = Some s" "\<not> cur_ambiguous (resolve_current cs)"
    by (simp_all add: decided)
  moreover have "cur_record (resolve_current cs) = map_option snd (readable cs s)"
    using here by (auto simp: resolve_current_def decided current_result_def Let_def)
  moreover have "set (map he_state (cur_history (resolve_current cs))) = {t. readable cs t \<noteq> None} - {s}"
    by (auto simp: resolve_current_def decided current_result_def Let_def image_iff)
  ultimately show ?thesis by blast
qed

theorem resolve_current_newest_witness:
  "cur_state (resolve_current [sample_row Done 3, sample_row Failed 5]) = Some Failed"
proof (rule resolve_current_newest [THEN conjunct1])
  show "unreadable_entries [sample_row Done 3, sample_row Failed 5] = []"
    by (simp add: unreadable_entries_def sample_row_def)
  show "strictly_newest (readable [sample_row Done 3, sample_row Failed 5]) Failed"
    by (simp add: strictly_newest_def terminal_state_all readable_def sample_row_def
        generation_def publication_generation_def get_def dict_get_def float_of_int_small)
qed

section \<open>The handoff of a preempted run\<close>

lemma float_less_neg_trans:
  "\<not> float_less b a \<Longrightarrow> \<not> float_less a m \<Longrightarrow> a \<noteq> NaN \<Longrightarrow> m \<noteq> NaN \<Longrightarrow> \<not> float_less b m"
  by (cases a; cases b; cases m) auto

lemma float_less_not_NaN: "float_less a b \<Longrightarrow> a \<noteq> NaN \<and> b \<noteq> NaN"
  by (cases a; cases b) auto

lemma float_less_asym: "float_less a b \<Longrightarrow> \<not> float_less b a"
  by (cases a; cases b) auto

lemma min_float_in: "min_float a bs \<in> set (a # bs)"
proof (induction bs arbitrary: a)
  case (Cons b bs)
  show ?case using Cons [of b] Cons [of a] by auto
qed simp

lemma min_float_least:
  "\<forall>x \<in> set (a # bs). x \<noteq> NaN \<Longrightarrow> x \<in> set (a # bs) \<Longrightarrow> \<not> float_less x (min_float a bs)"
proof (induction bs arbitrary: a x)
  case Nil
  then show ?case by simp
next
  case (Cons b bs)
  define c where "c = (if float_less b a then b else a)"
  have c: "\<forall>x \<in> set (c # bs). x \<noteq> NaN" using Cons.prems(1) by (auto simp: c_def)
  have m: "min_float c bs \<noteq> NaN" using c min_float_in [of c bs] by auto
  have lower: "\<not> float_less c (min_float c bs)" using Cons.IH [OF c, of c] by simp
  have sides: "\<not> float_less a c" "\<not> float_less b c"
    by (auto simp: c_def dest: float_less_asym)
  show ?case
  proof (cases "x \<in> set bs")
    case True
    then show ?thesis using Cons.IH [OF c, of x] by (simp flip: c_def)
  next
    case False
    with Cons.prems(2) have "\<not> float_less x c" using sides by auto
    then have "\<not> float_less x (min_float c bs)"
      using float_less_neg_trans lower m c by simp
    then show ?thesis by (simp flip: c_def)
  qed
qed

text \<open>The generations a stop was handed on to.\<close>

definition handed_to :: "obj \<Rightarrow> pyfloat \<Rightarrow> obj list \<Rightarrow> pyfloat set" where
  "handed_to ending g records =
     {f. \<exists>r \<in> set records. hands_off ending g r \<and>
        py_float (get ''published_unix'' r) = Inr f \<and> float_less g f}"

lemma handoffs_set: "handoffs ending g rs = Inr fs \<Longrightarrow> set fs = handed_to ending g rs"
  by (induction rs arbitrary: fs)
    (auto simp: handed_to_def split: if_splits sum.splits)

lemma handoffs_total:
  "(\<forall>r \<in> set rs. hands_off ending g r \<longrightarrow> py_float (get ''published_unix'' r) \<noteq> Inl OverflowError)
   \<Longrightarrow> \<exists>fs. handoffs ending g rs = Inr fs"
proof (induction rs)
  case Nil
  then show ?case by simp
next
  case (Cons r rs)
  have "\<exists>f. py_float (get ''published_unix'' r) = Inr f" if "hands_off ending g r"
    using that Cons.prems
    by (cases "get ''published_unix'' r") (auto simp: hands_off_def split: option.splits)
  with Cons show ?case by (auto split: sum.splits)
qed

text \<open>
  The successor a waiter follows after a preemption is the earliest generation the
  stop was really handed on to: newer than the stopped one, naming it and the same preemptor. It
  answers \<open>None\<close> exactly when there is no such generation. Nothing else is followed.
\<close>

theorem preemption_successor_least:
  assumes "\<forall>r \<in> set records. hands_off ending g r \<longrightarrow>
    py_float (get ''published_unix'' r) \<noteq> Inl OverflowError"
  shows "\<exists>s. preemption_successor ending g records = Inr s \<and>
    (case s of
       None \<Rightarrow> handed_to ending g records = {}
     | Some f \<Rightarrow> f \<in> handed_to ending g records \<and>
         (\<forall>f' \<in> handed_to ending g records. \<not> float_less f' f))"
proof -
  obtain fs where fs: "handoffs ending g records = Inr fs"
    using handoffs_total [OF assms] by blast
  then have set: "set fs = handed_to ending g records" by (rule handoffs_set)
  show ?thesis
  proof (cases fs)
    case Nil
    with fs set show ?thesis by (simp add: preemption_successor_def)
  next
    case (Cons a later)
    have "\<forall>x \<in> set (a # later). x \<noteq> NaN"
      using set Cons by (auto simp: handed_to_def dest: float_less_not_NaN)
    then have "\<forall>x \<in> set fs. \<not> float_less x (min_float a later)"
      using min_float_least [of a later] unfolding Cons by blast
    moreover have "min_float a later \<in> set fs" using min_float_in [of a later] Cons by simp
    ultimately show ?thesis
      using fs unfolding set [symmetric] by (simp add: preemption_successor_def Cons)
  qed
qed

definition sample_handoff :: "int \<Rightarrow> obj" where
  "sample_handoff n = [(''published_unix'', JInt n),
     (''supersedes_withdrawal'', JObj [(''published_unix'', JInt 1), (''preempted_by'', JStr ''k'')])]"

lemma sample_handoff_genuine:
  "hands_off [(''preempted_by'', JStr ''k'')] (Fin 1) (sample_handoff n)"
  by (simp add: hands_off_def sample_handoff_def get_def dict_get_def py_eq_numeric)

theorem preemption_successor_least_witness:
  "\<exists>s. preemption_successor [(''preempted_by'', JStr ''k'')] (Fin 1)
      [sample_handoff 9, sample_handoff 4] = Inr s \<and> s \<noteq> None"
proof -
  have read: "py_float (get ''published_unix'' (sample_handoff n)) = Inr (Fin (of_int n))"
    if "\<bar>n\<bar> \<le> 2 ^ 53" for n
    using that by (simp add: sample_handoff_def get_def dict_get_def float_of_int_small)
  have "handed_to [(''preempted_by'', JStr ''k'')] (Fin 1) [sample_handoff 9, sample_handoff 4] \<noteq> {}"
    using sample_handoff_genuine read [of 9] by (force simp: handed_to_def)
  moreover have "\<forall>r \<in> set [sample_handoff 9, sample_handoff 4].
      hands_off [(''preempted_by'', JStr ''k'')] (Fin 1) r \<longrightarrow>
      py_float (get ''published_unix'' r) \<noteq> Inl OverflowError"
    using read [of 9] read [of 4] by simp
  ultimately show ?thesis
    using preemption_successor_least by (fastforce split: option.splits)
qed

section \<open>What a poll answers\<close>

text \<open>A record that may stand for the run: of its generation, or carrying none.\<close>

definition of_gen :: "pyfloat \<Rightarrow> obj \<Rightarrow> bool" where
  "of_gen g r \<longleftrightarrow> \<not> is_number (get ''published_unix'' r) \<or>
     (\<exists>f. py_float (get ''published_unix'' r) = Inr f \<and> float_eq f g)"

definition capture_of :: "pyfloat \<Rightarrow> run_capture \<Rightarrow> bool" where
  "capture_of g c \<longleftrightarrow>
     (\<forall>e \<in> set (terminals c). of_gen g (snd e)) \<and>
     (\<forall>old. archives c = Captured old \<longrightarrow> (\<forall>e \<in> set old. of_gen g (snd e))) \<and>
     (\<forall>s. successor c = Captured (Some s) \<longrightarrow> float_less g s)"

lemma item_get: "item k r = Inr v \<Longrightarrow> get k r = v"
  by (auto simp: item_def get_def dict_get_def split: option.splits)

lemma of_run_of_gen: "of_run (Some g) r = Inr True \<Longrightarrow> of_gen g r"
  by (auto simp: of_run_def of_gen_def dest: item_get split: sum.splits)

lemma add_withdrawals_of_gen:
  "add_withdrawals (Some g) found ws = Inr all \<Longrightarrow> \<forall>e \<in> set found. of_gen g (snd e) \<Longrightarrow>
   \<forall>e \<in> set all. of_gen g (snd e)"
proof (induction ws arbitrary: found)
  case Nil
  then show ?case by simp
next
  case (Cons w ws)
  obtain p r where w: "w = (p, r)" by (cases w)
  obtain mine where mine: "of_run (Some g) r = Inr mine"
    using Cons.prems(1) w by (auto split: sum.splits)
  obtain found' where step: "add_withdrawals (Some g) found' ws = Inr all"
    and found': "found' = found \<or> mine \<and> found' = found @ [(p, r)]"
    using Cons.prems(1) unfolding w by (simp add: mine split: if_splits)
  have "\<forall>e \<in> set found'. of_gen g (snd e)"
    using found' Cons.prems(2) mine of_run_of_gen by auto
  with step show ?case by (rule Cons.IH)
qed

definition exactly_of :: "pyfloat \<Rightarrow> recorded_ending \<Rightarrow> bool" where
  "exactly_of g e \<longleftrightarrow> is_number (get ''published_unix'' (snd e)) \<and>
     (\<exists>f. py_float (get ''published_unix'' (snd e)) = Inr f \<and> float_eq f g)"

lemma exact_entries_filter: "exact_entries g es = Inr xs \<Longrightarrow> xs = filter (exactly_of g) es"
proof (induction es arbitrary: xs)
  case Nil
  then show ?case by simp
next
  case (Cons e es)
  then show ?case
    by (cases e) (auto simp: exactly_of_def split: if_splits sum.splits)
qed

definition proper_answer :: "pyfloat \<Rightarrow> observed_ending option \<Rightarrow> pyfloat option \<Rightarrow> bool" where
  "proper_answer g ending h \<longleftrightarrow>
     (case ending of
        Some (Recorded (_, r)) \<Rightarrow> h = Some g \<and> of_gen g r
      | Some (Superseded _) \<Rightarrow> h = Some g
      | None \<Rightarrow> h = Some g \<or> (\<exists>n. h = Some n \<and> float_less g n))"

lemma landing_proper:
  assumes "landing c g found exact = Inr (RunAnswer ending h)" "capture_of g c"
    "\<forall>e \<in> set found. of_gen g (snd e)" "set exact \<subseteq> set found"
  shows "proper_answer g ending h"
proof (cases "found = []")
  case True
  with assms(1) show ?thesis by (auto simp: landing_def proper_answer_def split: list.splits)
next
  case False
  define landed where "landed = (case exact of e # _ \<Rightarrow> e | [] \<Rightarrow> hd found)"
  have "landed \<in> set found"
    using False assms(4) by (auto simp: landed_def split: list.splits)
  then have "of_gen g (snd landed)" using assms(3) by blast
  then show ?thesis
    using assms(1,2) False
    by (auto simp: landing_def Let_def proper_answer_def capture_of_def split_beta
        simp flip: landed_def split: if_splits captured.splits option.splits)
qed

lemma resolve_exact_proper:
  assumes "resolve_exact c g found = Inr (RunAnswer ending h)" "capture_of g c"
    "\<forall>e \<in> set found. of_gen g (snd e)"
  shows "proper_answer g ending h"
proof -
  obtain exact where exact: "exact_entries g found = Inr exact"
    using assms(1) by (auto simp: resolve_exact_def split: sum.splits)
  then have sub: "set exact \<subseteq> set found" by (auto dest: exact_entries_filter)
  consider "landing c g found exact = Inr (RunAnswer ending h)"
    | s where "ending = Some (Superseded s)" "h = Some g"
    using assms(1) exact
    by (auto simp: resolve_exact_def split: if_splits captured.splits option.splits list.splits)
  then show ?thesis
  proof cases
    case 1
    then show ?thesis using assms(2,3) sub by (rule landing_proper)
  next
    case 2
    then show ?thesis by (simp add: proper_answer_def)
  qed
qed

lemma resolve_run_proper:
  assumes "resolve_run c (Some g) = Inr (RunAnswer ending h)" "capture_of g c"
  shows "proper_answer g ending h"
proof -
  obtain ws found where add: "add_withdrawals (Some g) (terminals c) ws = Inr found"
    and found: "resolve_exact c g found = Inr (RunAnswer ending h) \<or>
      (\<exists>old. archives c = Captured old \<and> resolve_exact c g (found @ old) = Inr (RunAnswer ending h))"
    using assms(1)
    by (auto simp: resolve_run_def split: captured.splits sum.splits if_splits)
  have "\<forall>e \<in> set found. of_gen g (snd e)"
    using add_withdrawals_of_gen [OF add] assms(2) by (auto simp: capture_of_def)
  moreover have "\<forall>e \<in> set old. of_gen g (snd e)" if "archives c = Captured old" for old
    using that assms(2) by (simp add: capture_of_def)
  ultimately show ?thesis
    using found resolve_exact_proper [OF _ assms(2)] by (metis Un_iff set_append)
qed

lemma read_successor_later:
  "read_preemption_successor q ending g = Inr (Some s) \<Longrightarrow> float_less g s"
proof -
  assume "read_preemption_successor q ending g = Inr (Some s)"
  then obtain rs where "preemption_successor ending g rs = Inr (Some s)"
    by (auto simp: read_preemption_successor_def split: if_splits sum.splits)
  then obtain a later where fs: "handoffs ending g rs = Inr (a # later)"
    and s: "s = min_float a later"
    by (auto simp: preemption_successor_def split: sum.splits list.splits)
  then have "s \<in> handed_to ending g rs" using handoffs_set [OF fs] min_float_in [of a later] by simp
  then show ?thesis by (auto simp: handed_to_def)
qed

lemma fulfil_proper:
  assumes archives: "\<And>old e. rd_archives q x = Inr old \<Longrightarrow> e \<in> set old \<Longrightarrow> of_gen x (snd e)"
  shows "fulfil q (Some x) c = Inr (ending, h) \<Longrightarrow> capture_of x c \<Longrightarrow> proper_answer x ending h"
proof (induction "missing_inputs c" arbitrary: c rule: less_induct)
  case less
  have step: "proper_answer x ending h"
    if "fulfil q (Some x) c' = Inr (ending, h)" "missing_inputs c' < missing_inputs c"
      "capture_of x c'" for c'
    using less.hyps [OF that(2,1,3)] .
  show ?case
  proof (cases "resolve_run c (Some x)")
    case (Inl e)
    then show ?thesis using less.prems(1) by (simp add: fulfil.simps [of q "Some x" c])
  next
    case (Inr reply)
    note request = resolve_run_request [of c "Some x"]
    show ?thesis
    proof (cases reply)
      case (RunAnswer e k)
      then have "e = ending" "k = h"
        using less.prems(1) Inr by (simp_all add: fulfil.simps [of q "Some x" c])
      then show ?thesis using resolve_run_proper less.prems(2) Inr RunAnswer by blast
    next
      case (WithdrawalInputs k)
      then show ?thesis
        using less.prems Inr request(1) [of k]
        by (auto simp: fulfil.simps [of q "Some x" c] missing_inputs_def capture_of_def
            split: sum.splits intro!: step)
    next
      case (ArchiveInputs y)
      then have y: "y = x" and lacking: "archives c = Uncaptured"
        using Inr request(2) [of y] by simp_all
      obtain old where old: "rd_archives q x = Inr old"
        and more: "fulfil q (Some x) (c\<lparr>archives := Captured old\<rparr>) = Inr (ending, h)"
        using less.prems(1) Inr
        by (auto simp: fulfil.simps [of q "Some x" c] ArchiveInputs y split: sum.splits)
      show ?thesis
        using less.prems(2) lacking archives [OF old]
        by (intro step [OF more]) (auto simp: missing_inputs_def capture_of_def)
    next
      case (PublicationInputs y)
      then have y: "y = x" and lacking: "publication c = Uncaptured"
        using Inr request(3) [of y] by simp_all
      obtain s where more: "fulfil q (Some x) (c\<lparr>publication := Captured s\<rparr>) = Inr (ending, h)"
        using less.prems(1) Inr
        by (auto simp: fulfil.simps [of q "Some x" c] PublicationInputs y split: sum.splits)
      show ?thesis
        using less.prems(2) lacking
        by (intro step [OF more]) (auto simp: missing_inputs_def capture_of_def)
    next
      case (PreemptionInputs y e)
      then have y: "y = x" and lacking: "successor c = Uncaptured"
        using Inr request(4) [of y e] by simp_all
      obtain s where s: "read_preemption_successor q (snd e) x = Inr s"
        and more: "fulfil q (Some x) (c\<lparr>successor := Captured s\<rparr>) = Inr (ending, h)"
        using less.prems(1) Inr
        by (auto simp: fulfil.simps [of q "Some x" c] PreemptionInputs y split: sum.splits)
      show ?thesis
        using less.prems(2) lacking read_successor_later [of q "snd e" x] s
        by (intro step [OF more]) (auto simp: missing_inputs_def capture_of_def)
    qed
  qed
qed

lemma terminal_record_of_gen:
  "terminal_record path seen (Some g) report = Inr (Some r) \<Longrightarrow> of_gen g r"
  by (auto simp: terminal_record_def of_gen_def split: read_result.splits if_splits sum.splits)

lemma capture_watched_of_gen:
  "capture_watched (Some g) report ws c = Inr c' \<Longrightarrow> capture_of g c \<Longrightarrow> capture_of g c'"
  by (induction "Some g" report ws c rule: capture_watched.induct)
    (auto simp: capture_of_def dest: terminal_record_of_gen
      split: sum.splits read_fault.splits option.splits if_splits)


definition sample_reads :: poll_reads where
  "sample_reads = \<lparr>rd_watched = [(''done'', Present [(''published_unix'', JInt 7)])],
     rd_withdrawals = (\<lambda>_. Inr []), rd_archives = (\<lambda>_. Inr []),
     rd_publication = (\<lambda>_. Inr None), rd_lineage = Inr []\<rparr>"

lemma sample_reads_poll:
  "outcome_poll sample_reads (Some (Fin 7)) False =
     Inr (Some (Recorded (''done'', [(''published_unix'', JInt 7)])), Some (Fin 7))"
  by (simp add: outcome_poll_def sample_reads_def terminal_record_def empty_capture_def get_def
      dict_get_def float_of_int_small execution_ending_def fulfil.simps resolve_run_def
      resolve_exact_def landing_def preempted_def py_eq_numeric)


text \<open>A stamp that \<open>float\<close> accepts, where the code converts it.\<close>

definition convertible :: "obj \<Rightarrow> bool" where
  "convertible r \<longleftrightarrow> (is_number (get ''published_unix'' r) \<longrightarrow>
     (\<exists>f. py_float (get ''published_unix'' r) = Inr f))"

definition numbered :: "obj \<Rightarrow> bool" where
  "numbered r \<longleftrightarrow> has_key ''published_unix'' r \<and> is_number (get ''published_unix'' r) \<and> convertible r"

lemma terminal_record_total:
  "(\<And>r. seen = Present r \<Longrightarrow> convertible r) \<Longrightarrow> terminal_record p seen (Some g) report \<noteq> Inl (Fault e)"
  by (auto simp: terminal_record_def convertible_def split: read_result.splits sum.splits)

lemma terminal_record_present:
  "terminal_record p seen g report = Inr (Some r) \<Longrightarrow> seen = Present r"
  by (auto simp: terminal_record_def split: read_result.splits option.splits sum.splits if_splits)

lemma capture_watched_total:
  assumes "\<And>p r. (p, Present r) \<in> set ws \<Longrightarrow> convertible r"
    "\<forall>e \<in> set (terminals c). convertible (snd e)"
  shows "\<exists>c'. capture_watched (Some g) report ws c = Inr c' \<and>
    withdrawals c' = withdrawals c \<and> successor c' = successor c \<and>
    set (terminals c) \<subseteq> set (terminals c') \<and>
    (\<forall>e \<in> set (terminals c'). convertible (snd e)) \<and>
    (\<forall>p r. (p, Present r) \<in> set ws \<and> terminal_record p (Present r) (Some g) report = Inr (Some r) \<and>
       execution_ending r \<longrightarrow> (p, r) \<in> set (terminals c'))"
  using assms
proof (induction ws arbitrary: c)
  case Nil
  then show ?case by simp
next
  case (Cons w ws)
  obtain path seen where w: "w = (path, seen)" by (cases w)
  have conv: "convertible r" if "seen = Present r" for r
    using that Cons.prems(1) w by auto
  have IH: "\<exists>c'. capture_watched (Some g) report ws c'' = Inr c' \<and>
      withdrawals c' = withdrawals c'' \<and> successor c' = successor c'' \<and>
      set (terminals c'') \<subseteq> set (terminals c') \<and>
      (\<forall>e \<in> set (terminals c'). convertible (snd e)) \<and>
      (\<forall>p r. (p, Present r) \<in> set ws \<and> terminal_record p (Present r) (Some g) report = Inr (Some r) \<and>
         execution_ending r \<longrightarrow> (p, r) \<in> set (terminals c'))"
    if "\<forall>e \<in> set (terminals c''). convertible (snd e)" for c''
  proof (rule Cons.IH [OF _ that])
    fix p r
    assume "(p, Present r) \<in> set ws"
    then show "convertible r" using Cons.prems(1) [of p r] by simp
  qed
  consider (broken) fault where "terminal_record path seen (Some g) report = Inl fault"
      "\<And>e. fault \<noteq> Fault e"
    | (skip) "terminal_record path seen (Some g) report = Inr None"
    | (kept) r where "terminal_record path seen (Some g) report = Inr (Some r)" "seen = Present r"
    using terminal_record_total [of seen path g report, OF conv]
    by (cases "terminal_record path seen (Some g) report"; cases "projr (terminal_record path seen (Some g) report)")
      (auto dest: terminal_record_present)
  then show ?case
  proof cases
    case broken
    then show ?thesis
      using IH [of "c\<lparr>broken := broken c @ [fault]\<rparr>"] Cons.prems(2) w
      by (cases fault) auto
  next
    case skip
    then show ?thesis using IH [of c] Cons.prems(2) w by auto
  next
    case kept
    show ?thesis
    proof (cases "execution_ending r")
      case True
      then show ?thesis
        using kept IH [of "c\<lparr>terminals := terminals c @ [(path, r)]\<rparr>"] conv Cons.prems(2) w
        by auto
    next
      case False
      then show ?thesis
        using kept Cons.prems(2) w
          IH [of "c\<lparr>publication_errors := publication_errors c @ [OutcomeReadUnavailable path]\<rparr>"]
        by auto
    qed
  qed
qed

lemma of_run_total: "numbered r \<Longrightarrow> \<exists>b. of_run (Some g) r = Inr b"
  by (auto simp: numbered_def convertible_def of_run_def item_def get_def dict_get_def has_key_def)

lemma add_withdrawals_total:
  "(\<And>w. w \<in> set ws \<Longrightarrow> numbered (snd w)) \<Longrightarrow>
   \<exists>all. add_withdrawals (Some g) found ws = Inr all \<and> set found \<subseteq> set all \<and>
     set all \<subseteq> set found \<union> set ws"
proof (induction ws arbitrary: found)
  case Nil
  then show ?case by simp
next
  case (Cons w ws)
  obtain p r where w: "w = (p, r)" by (cases w)
  obtain mine where mine: "of_run (Some g) r = Inr mine"
    using Cons.prems [of w] of_run_total w by auto
  define found' where "found' = (if mine \<and> \<not> list_ex (\<lambda>(_, old). get ''status'' old = JStr ''withdrawn''
      \<and> py_eq (get ''published_unix'' old) (get ''published_unix'' r)) found
    then found @ [(p, r)] else found)"
  obtain all where all: "add_withdrawals (Some g) found' ws = Inr all" "set found' \<subseteq> set all"
      "set all \<subseteq> set found' \<union> set ws"
    using Cons.IH [of found'] Cons.prems by auto
  have found': "set found \<subseteq> set found'" "set found' \<subseteq> set found \<union> {(p, r)}"
    by (auto simp: found'_def)
  have "add_withdrawals (Some g) found (w # ws) = Inr all"
    using all(1) by (simp add: w mine found'_def)
  moreover have "set found \<subseteq> set all" using found'(1) all(2) by (rule subset_trans)
  moreover have "set all \<subseteq> set found \<union> set (w # ws)" using all(3) found'(2) w by fastforce
  ultimately show ?case by blast
qed

lemma exact_entries_total:
  "\<forall>e \<in> set es. convertible (snd e) \<Longrightarrow> exact_entries g es = Inr (filter (exactly_of g) es)"
proof (induction es)
  case Nil
  then show ?case by simp
next
  case (Cons e es)
  then show ?case
    by (cases e) (auto simp: exactly_of_def convertible_def)
qed

lemma read_successor_total:
  assumes "rd_lineage q = Inr recs" "\<forall>r \<in> set recs. convertible r"
  shows "\<exists>s. read_preemption_successor q ending g = Inr s"
proof -
  define rs where "rs = filter (\<lambda>r. case get ''supersedes_withdrawal'' r of JObj _ \<Rightarrow> True | _ \<Rightarrow> False) recs"
  have "\<exists>fs. handoffs ending g rs = Inr fs"
    by (rule handoffs_total)
      (use assms(2) in \<open>auto simp: rs_def convertible_def hands_off_def\<close>)
  then have "\<exists>s. preemption_successor ending g rs = Inr s"
    by (auto simp: preemption_successor_def split: list.splits)
  then show ?thesis using assms(1) by (auto simp: read_preemption_successor_def rs_def)
qed

lemma landing_found:
  assumes "exact \<noteq> []" "found \<noteq> []"
  shows "landing c g found exact = Inr (PreemptionInputs g (hd exact)) \<and> successor c = Uncaptured \<or>
    (\<exists>n. landing c g found exact = Inr (RunAnswer None (Some n)) \<and> successor c = Captured (Some n)) \<or>
    landing c g found exact = Inr (RunAnswer (Some (Recorded (hd exact))) (Some g))"
proof (cases exact)
  case Nil
  with assms(1) show ?thesis by simp
next
  case (Cons e es)
  with assms show ?thesis
    by (auto simp: landing_def Let_def split: captured.splits option.splits)
qed

lemma fulfil_lands:
  assumes run: "\<And>sc. resolve_run (c\<lparr>successor := sc\<rparr>) (Some g) =
      landing (c\<lparr>successor := sc\<rparr>) g found exact"
    and some: "exact \<noteq> []" "found \<noteq> []" and fresh: "successor c = Uncaptured"
    and s: "read_preemption_successor q (snd (hd exact)) g = Inr s"
  shows "\<exists>ending h. fulfil q (Some g) c = Inr (ending, h) \<and>
    (ending = Some (Recorded (hd exact)) \<or> ending = None \<and> (\<exists>n. h = Some n \<and> float_less g n))"
proof -
  have c: "c\<lparr>successor := Uncaptured\<rparr> = c" using fresh by simp
  have answer: "\<exists>ending h. fulfil q (Some g) (c\<lparr>successor := Captured s\<rparr>) = Inr (ending, h) \<and>
      (ending = Some (Recorded (hd exact)) \<or> ending = None \<and> (\<exists>n. h = Some n \<and> float_less g n))"
    using landing_found [OF some, of "c\<lparr>successor := Captured s\<rparr>" g] s
    by (auto simp: fulfil.simps [of q "Some g" "c\<lparr>successor := Captured s\<rparr>"] run
        dest: read_successor_later)
  show ?thesis
    using landing_found [OF some, of c g] run [of Uncaptured] answer s fresh
    by (auto simp: fulfil.simps [of q "Some g" c] c)
qed



section \<open>The adopted attempt\<close>

lemma adopt_attempt_elim:
  assumes "adopt_attempt str_of valid_stop a = Inr t"
  obtains attempt max_attempts detail where
    "get ''attempt'' a = JInt attempt" "get ''max_attempts'' a = JInt max_attempts"
    "tr_attempt t = attempt" "get ''status'' a = JStr (tr_status t)"
    "tr_disposition t = expected_disposition a (tr_status t) attempt max_attempts"
    "tr_output_retry_stopped t = has_key ''output_retry_stop'' a"
    "has_key ''output_retry_stop'' a \<longrightarrow>
       \<not> succeeded (tr_status t) \<and> valid_stop (get ''output_retry_stop'' a) a"
    "tr_detail t = put_stream str_of a ''stderr'' (put_stream str_of a ''stdout'' detail)"
  using assms
  by (auto simp: adopt_attempt_def nonempty_text_def Let_def
      split: option.splits json.splits if_splits)

lemma resolve_attempt_last:
  "resolve_attempt str_of valid_stop attempts = Inr t \<Longrightarrow>
   attempts \<noteq> [] \<and> adopt_attempt str_of valid_stop (last attempts) = Inr t"
  by (simp add: resolve_attempt_def split: if_splits)

text \<open>
  The transition an attempt log permits is decided by its last attempt alone: it is
  done exactly for a success, withdrawn exactly for a cancellation, requeued exactly when the attempt failed
  with retries left and neither an output stop nor a final worker failure forbids one, and failed otherwise. A
  stopped output retry is never a success and its stop record was validated.
\<close>

theorem resolve_attempt_verdict:
  assumes "resolve_attempt str_of valid_stop attempts = Inr t"
  shows "(tr_disposition t = ''done'' \<longleftrightarrow> succeeded (tr_status t)) \<and>
    (tr_disposition t = ''withdrawn'' \<longleftrightarrow> tr_status t = ''withdrawn'') \<and>
    (tr_disposition t = ''requeued'' \<longleftrightarrow>
      \<not> succeeded (tr_status t) \<and> tr_status t \<noteq> ''withdrawn'' \<and> \<not> tr_output_retry_stopped t \<and>
      \<not> worker_failure_final (last attempts) \<and>
      (\<exists>m. get ''max_attempts'' (last attempts) = JInt m \<and> tr_attempt t < m)) \<and>
    (tr_disposition t \<in> {''done'', ''failed'', ''withdrawn'', ''requeued''}) \<and>
    (tr_output_retry_stopped t \<longrightarrow>
      \<not> succeeded (tr_status t) \<and> valid_stop (get ''output_retry_stop'' (last attempts)) (last attempts))"
proof -
  have "adopt_attempt str_of valid_stop (last attempts) = Inr t"
    using resolve_attempt_last [OF assms] by simp
  then obtain attempt m detail where facts:
    "get ''max_attempts'' (last attempts) = JInt m" "tr_attempt t = attempt"
    "tr_disposition t = expected_disposition (last attempts) (tr_status t) attempt m"
    "tr_output_retry_stopped t = has_key ''output_retry_stop'' (last attempts)"
    "has_key ''output_retry_stop'' (last attempts) \<longrightarrow> \<not> succeeded (tr_status t) \<and>
       valid_stop (get ''output_retry_stop'' (last attempts)) (last attempts)"
    by (rule adopt_attempt_elim)
  then show ?thesis
    by (auto simp: expected_disposition_def succeeded_def)
qed

definition sample_attempt :: obj where
  "sample_attempt = [(''status'', JStr ''failed''), (''disposition'', JStr ''requeued''),
     (''attempt'', JInt 1), (''max_attempts'', JInt 3), (''detail'', JObj []),
     (''finished_unix'', JFloat (Fin 8)), (''finished_host'', JStr ''sparky''),
     (''stdout'', JStr ''hello'')]"

lemma sample_attempt_adopted:
  "resolve_attempt (\<lambda>_. []) (\<lambda>_ _. True) [sample_attempt] =
     Inr \<lparr>tr_attempt = 1, tr_status = ''failed'', tr_disposition = ''requeued'',
       tr_output_retry_stopped = False, tr_finished_unix = JFloat (Fin 8),
       tr_finished_host = ''sparky'', tr_served = None,
       tr_detail = put_stream (\<lambda>_. []) sample_attempt ''stderr''
         (put_stream (\<lambda>_. []) sample_attempt ''stdout'' [])\<rparr>"
  by (simp add: resolve_attempt_def adopt_attempt_def nonempty_text_def expected_disposition_def
      succeeded_def worker_failure_final_def finish_time_def sample_attempt_def get_def dict_get_def
      has_key_def Let_def)

theorem resolve_attempt_verdict_witness:
  "get ''max_attempts'' (last [sample_attempt]) = JInt 3 \<and> \<not> worker_failure_final sample_attempt"
  using resolve_attempt_verdict [OF sample_attempt_adopted]
  by (simp add: sample_attempt_def get_def dict_get_def)

text \<open>Well-formed text never has more than three continuation bytes in a row.\<close>

definition utf8_runs :: "string \<Rightarrow> bool" where
  "utf8_runs s \<longleftrightarrow> (\<forall>k \<le> length s. length (takeWhile continuation (drop k s)) \<le> 3)"

lemma length_replacements [simp]: "length (concat (map (\<lambda>_. replacement) xs)) = 3 * length xs"
  by (induction xs) (simp_all add: replacement_def)

lemma decode_tail_shape:
  "\<exists>n. n = length (takeWhile continuation bs) \<and>
     decode_tail bs = concat (replicate n replacement) @ drop n bs"
  by (simp add: decode_tail_def map_replicate_const dropWhile_eq_drop)

lemma terminal_stream_inline_bounded:
  assumes "utf8_runs raw" "terminal_stream_inline raw = (inline, full, was_cut)"
  shows "full = length raw" "was_cut \<longleftrightarrow> terminal_stream_tail_bytes < length raw"
    "\<not> was_cut \<Longrightarrow> inline = raw"
    "was_cut \<Longrightarrow> \<exists>n \<le> 3. inline = concat (replicate n replacement) @
       drop (length raw - terminal_stream_tail_bytes + n) raw"
proof -
  show "full = length raw" "was_cut \<longleftrightarrow> terminal_stream_tail_bytes < length raw"
    "\<not> was_cut \<Longrightarrow> inline = raw"
    using assms(2) by (auto simp: terminal_stream_inline_def split: if_splits)
  assume was_cut
  then have inline: "inline = decode_tail (drop (length raw - terminal_stream_tail_bytes) raw)"
    using assms(2) by (auto simp: terminal_stream_inline_def split: if_splits)
  have "length (takeWhile continuation (drop (length raw - terminal_stream_tail_bytes) raw)) \<le> 3"
    using assms(1) by (simp add: utf8_runs_def)
  then show "\<exists>n \<le> 3. inline = concat (replicate n replacement) @
       drop (length raw - terminal_stream_tail_bytes + n) raw"
    using decode_tail_shape [of "drop (length raw - terminal_stream_tail_bytes) raw"] inline
    by (auto simp: add.commute)
qed

lemma put_stream_fields:
  assumes "terminal_stream_inline (stream_text str_of (get stream a)) = (inline, full, was_cut)"
  shows "get stream (put_stream str_of a stream d) = JStr inline"
    "get (stream @ ''_bytes'') (put_stream str_of a stream d) = JInt (int full)"
    "get (stream @ ''_truncated'') (put_stream str_of a stream d) = JBool was_cut"
    "\<forall>s \<in> {[], ''_bytes'', ''_truncated'', ''_log''}. k \<noteq> stream @ s \<Longrightarrow>
     get k (put_stream str_of a stream d) = get k d"
  using assms by (auto simp: put_stream_def Let_def split: json.splits)

text \<open>
  The record keeps a bounded, honestly labelled copy of each stream: the byte count is
  that of the whole stream, the truncation flag is set exactly when it exceeds 64 KiB, a stream that
  fits is kept whole, and the copy of a longer one is its last 64 KiB with at most three split bytes replaced,
  so never more than six bytes over the bound.
\<close>

theorem resolve_attempt_streams:
  assumes "resolve_attempt str_of valid_stop attempts = Inr t"
    and "stream \<in> {''stdout'', ''stderr''}"
    and "raw = stream_text str_of (get stream (last attempts))" "utf8_runs raw"
  shows "(get (stream @ ''_bytes'') (tr_detail t) = JInt (int (length raw))) \<and>
    (get (stream @ ''_truncated'') (tr_detail t) = JBool (64 * 1024 < length raw)) \<and>
    (\<exists>inline. get stream (tr_detail t) = JStr inline \<and> length inline \<le> 64 * 1024 + 6 \<and>
      (if length raw \<le> 64 * 1024 then inline = raw
       else \<exists>n \<le> 3. inline = concat (replicate n replacement) @ drop (length raw - 64 * 1024 + n) raw))"
proof -
  have "adopt_attempt str_of valid_stop (last attempts) = Inr t"
    using resolve_attempt_last [OF assms(1)] by simp
  then obtain detail where detail: "tr_detail t = put_stream str_of (last attempts) ''stderr''
      (put_stream str_of (last attempts) ''stdout'' detail)"
    by (rule adopt_attempt_elim)
  obtain inline full was_cut where inline: "terminal_stream_inline raw = (inline, full, was_cut)"
    by (cases "terminal_stream_inline raw")
  obtain i2 f2 c2 where err: "terminal_stream_inline
      (stream_text str_of (get ''stderr'' (last attempts))) = (i2, f2, c2)"
    by (cases "terminal_stream_inline (stream_text str_of (get ''stderr'' (last attempts)))")
  note bounded = terminal_stream_inline_bounded [OF assms(4) inline, unfolded terminal_stream_tail_bytes_def]
  have fields: "get stream (tr_detail t) = JStr inline"
    "get (stream @ ''_bytes'') (tr_detail t) = JInt (int full)"
    "get (stream @ ''_truncated'') (tr_detail t) = JBool was_cut"
    using assms(2) inline err unfolding detail assms(3)
    by (auto simp: put_stream_fields [of str_of "''stderr''" "last attempts", simplified]
        put_stream_fields [of str_of "''stdout''" "last attempts", simplified])
  have bytes: "get (stream @ ''_bytes'') (tr_detail t) = JInt (int (length raw))"
    "get (stream @ ''_truncated'') (tr_detail t) = JBool (64 * 1024 < length raw)"
    using fields bounded(1,2) by simp_all
  have "length inline \<le> 64 * 1024 + 6"
  proof (cases was_cut)
    case True
    with bounded(4) obtain n where "n \<le> 3"
      "inline = concat (replicate n replacement) @ drop (length raw - 64 * 1024 + n) raw" by blast
    then show ?thesis by (simp add: length_concat sum_list_replicate replacement_def)
  next
    case False
    then show ?thesis using bounded(2,3) by auto
  qed
  then have "\<exists>inline. get stream (tr_detail t) = JStr inline \<and> length inline \<le> 64 * 1024 + 6 \<and>
      (if length raw \<le> 64 * 1024 then inline = raw
       else \<exists>n \<le> 3. inline = concat (replicate n replacement) @ drop (length raw - 64 * 1024 + n) raw)"
    using fields(1) bounded(2-4) by (intro exI [of _ inline]) auto
  with bytes show ?thesis by blast
qed

theorem resolve_attempt_streams_witness:
  "utf8_runs ''hello'' \<and> get (''stdout'' @ ''_bytes'')
     (put_stream (\<lambda>_. []) sample_attempt ''stderr'' (put_stream (\<lambda>_. []) sample_attempt ''stdout'' []))
   = JInt 5"
proof -
  have runs: "utf8_runs ''hello''"
    unfolding utf8_runs_def by (rule allI, rule impI) (simp add: le_Suc_eq continuation_def, auto simp: continuation_def)
  show ?thesis
    using resolve_attempt_streams [OF sample_attempt_adopted, of "''stdout''" "''hello''"] runs
    by (simp add: stream_text_def sample_attempt_def get_def dict_get_def)
qed

end
