(* ===== verification/Gpu_Facts.thy ===== *)
theory Gpu_Facts
  imports Json "HOL-Library.Word"
begin

unbundle bit_operations_syntax

text \<open>
  What a published GPU sample says (\<open>gpu_sample_facts.py\<close>) and the one exception the GPU
  controller makes from it (\<open>sw_cap_idle_first_job\<close> and \<open>sw_cap_idle_after_drain\<close> of
  \<open>adaptive_gpu.py\<close>). A sample is the JSON object the broker wrote. Its byte counts and times
  are exact rationals here: binary64 sums and differences are not rounded. The argument \<open>txt\<close>
  is Python's \<open>float\<close> on a string, which \<open>nonnegative_float\<close> also accepts.
\<close>

section \<open>Numbers\<close>

text \<open>\<open>math.isfinite\<close> of an integer that is too large to convert raises \<open>OverflowError\<close>.\<close>

definition is_nonnegative_number :: "json \<Rightarrow> bool result" where
  "is_nonnegative_number v =
     (if is_number v then
        (case py_float v of
           Inl e \<Rightarrow> Inl e
         | Inr (Fin q) \<Rightarrow> Inr (0 \<le> q)
         | Inr _ \<Rightarrow> Inr False)
      else Inr False)"

definition nonnegative_float ::
  "(string \<Rightarrow> pyfloat option) \<Rightarrow> bool \<Rightarrow> json \<Rightarrow> rat option" where
  "nonnegative_float txt positive v =
     (case v of
        JBool _ \<Rightarrow> None
      | _ \<Rightarrow>
          (case float_of txt v of
             Inr (Fin q) \<Rightarrow> if q < 0 \<or> positive \<and> q \<le> 0 then None else Some q
           | _ \<Rightarrow> None))"

definition nonnegative_int :: "json \<Rightarrow> nat option" where
  "nonnegative_int v = (case v of JInt n \<Rightarrow> if n < 0 then None else Some (nat n) | _ \<Rightarrow> None)"

section \<open>The sample\<close>

datatype foreign_processes = Foreign_Unknown | Foreign_Clear | Foreign_Present

definition gpu_schema :: string where
  "gpu_schema = ''prismabuild.gpu_capacity.v1''"

definition schema_attribution_declared :: "obj \<Rightarrow> bool" where
  "schema_attribution_declared sample \<longleftrightarrow>
     get ''schema'' sample = JStr gpu_schema \<and> get ''complete'' sample = JBool True \<and>
     get ''attributed'' sample = JBool True"

definition sample_foreign :: "obj \<Rightarrow> foreign_processes" where
  "sample_foreign sample =
     (case get ''foreign_processes'' sample of
        JArr ps \<Rightarrow> if ps = [] then Foreign_Clear else Foreign_Present
      | _ \<Rightarrow> Foreign_Unknown)"

text \<open>\<open>timestamp.within(now, max_age_s)\<close> for a sample whose timestamp is a number.\<close>

definition stamp_within :: "rat \<Rightarrow> rat \<Rightarrow> json \<Rightarrow> bool result" where
  "stamp_within now max_age v =
     (case py_float v of
        Inl e \<Rightarrow> Inl e
      | Inr (Fin q) \<Rightarrow> Inr (0 \<le> now - q \<and> now - q \<le> max_age)
      | Inr _ \<Rightarrow> Inr False)"

definition sample_within :: "rat \<Rightarrow> rat \<Rightarrow> obj \<Rightarrow> bool result" where
  "sample_within now max_age sample =
     (let v = get ''sampled_unix'' sample in if is_number v then stamp_within now max_age v else Inr False)"

section \<open>The inventory of an offer\<close>

record offer_inventory =
  inv_devices :: "obj list"
  inv_foreign :: "json list"
  inv_jobs :: "json list"

definition offer_header ::
  "(string \<Rightarrow> pyfloat option) \<Rightarrow> json \<Rightarrow> string + (obj \<times> rat option)" where
  "offer_header txt sample =
     (case sample of
        JObj d \<Rightarrow>
          if schema_attribution_declared d
          then Inr (d, nonnegative_float txt True (get ''sampled_unix'' d))
          else Inl ''incomplete or unattributed GPU capacity snapshot''
      | _ \<Rightarrow> Inl ''missing trusted GPU capacity snapshot'')"

definition memory_bounds_ok :: "(string \<Rightarrow> pyfloat option) \<Rightarrow> obj \<Rightarrow> bool" where
  "memory_bounds_ok txt d =
     (case (nonnegative_float txt True (get ''memory_total_bytes'' d),
            nonnegative_float txt False (get ''memory_free_bytes'' d),
            nonnegative_float txt False (get ''memory_used_bytes'' d)) of
        (Some t, Some f, Some u) \<Rightarrow> \<not> (f > t \<or> u > t \<or> f + u > t)
      | _ \<Rightarrow> False)"

definition memory_undeclared :: "obj \<Rightarrow> bool" where
  "memory_undeclared d \<longleftrightarrow>
     get ''memory_total_bytes'' d = JNull \<and> get ''memory_free_bytes'' d = JNull \<and>
     get ''memory_used_bytes'' d = JNull"

definition device_ok :: "(string \<Rightarrow> pyfloat option) \<Rightarrow> string list \<Rightarrow> obj \<Rightarrow> string option" where
  "device_ok txt identities d =
     (case (get ''uuid'' d, get ''memory_domain'' d) of
        (JStr uuid, JStr domain) \<Rightarrow>
          if startswith uuid ''GPU-'' \<and> uuid \<notin> set identities \<and>
             (domain = ''discrete'' \<and> memory_bounds_ok txt d \<or>
              domain = ''shared_system'' \<and> (memory_undeclared d \<or> memory_bounds_ok txt d))
          then Some uuid else None
      | _ \<Rightarrow> None)"

fun offer_devices ::
  "(string \<Rightarrow> pyfloat option) \<Rightarrow> string list \<Rightarrow> json list \<Rightarrow> string + obj list" where
  "offer_devices txt identities [] = Inr []"
| "offer_devices txt identities (v # vs) =
     (case v of
        JObj d \<Rightarrow>
          (case device_ok txt identities d of
             None \<Rightarrow> Inl ''unknown GPU identity, memory domain or bounds''
           | Some uuid \<Rightarrow>
               (case offer_devices txt (uuid # identities) vs of
                  Inl e \<Rightarrow> Inl e
                | Inr ds \<Rightarrow> Inr (d # ds)))
      | _ \<Rightarrow> Inl ''malformed GPU device record'')"

definition pressure_fields :: "string list" where
  "pressure_fields = [''memory_pressure_some'', ''memory_pressure_full'',
     ''cpu_pressure_some'', ''cpu_pressure_full'']"

definition pressure_ok :: "(string \<Rightarrow> pyfloat option) \<Rightarrow> obj \<Rightarrow> string \<Rightarrow> bool" where
  "pressure_ok txt sample k =
     (case nonnegative_float txt False (get k sample) of None \<Rightarrow> False | Some q \<Rightarrow> q \<le> 100)"

definition offer_inventory ::
  "(string \<Rightarrow> pyfloat option) \<Rightarrow> obj \<times> rat option \<Rightarrow> rat \<Rightarrow> rat \<Rightarrow> string + offer_inventory" where
  "offer_inventory txt header now max_age =
     (case header of (sample, sampled) \<Rightarrow>
        if (case sampled of None \<Rightarrow> True | Some q \<Rightarrow> \<not> (0 \<le> now - q \<and> now - q \<le> max_age))
        then Inl ''stale or future GPU capacity snapshot''
        else
          (case (get ''devices'' sample, get ''foreign_processes'' sample, get ''jobs'' sample) of
             (JArr devices, JArr foreign, JArr jobs) \<Rightarrow>
               if devices = [] then Inl ''malformed GPU device or attribution inventory''
               else
                 (case (nonnegative_float txt True (get ''host_total_bytes'' sample),
                        nonnegative_float txt False (get ''host_available_bytes'' sample)) of
                    (Some total_bytes, Some available_bytes) \<Rightarrow>
                      if available_bytes > total_bytes
                      then Inl ''invalid host memory bounds in GPU snapshot''
                      else
                        (case find (\<lambda>k. \<not> pressure_ok txt sample k) pressure_fields of
                           Some k \<Rightarrow> Inl (''invalid '' @ k @ '' in GPU snapshot'')
                         | None \<Rightarrow>
                             (case offer_devices txt [] devices of
                                Inl e \<Rightarrow> Inl e
                              | Inr ds \<Rightarrow>
                                  Inr \<lparr>inv_devices = ds, inv_foreign = foreign, inv_jobs = jobs\<rparr>))
                  | _ \<Rightarrow> Inl ''invalid host memory bounds in GPU snapshot'')
           | _ \<Rightarrow> Inl ''malformed GPU device or attribution inventory''))"

section \<open>Unified memory\<close>

record memory_evidence =
  ev_sample_id :: string
  ev_sampled_unix :: rat
  ev_host_total :: rat
  ev_host_available :: rat
  ev_resident :: nat
  ev_foreign :: nat
  ev_residency :: foreign_processes

definition ev_unknown :: "memory_evidence \<Rightarrow> bool" where
  "ev_unknown e \<longleftrightarrow> ev_residency e = Foreign_Unknown"

definition external_bytes :: "memory_evidence \<Rightarrow> rat" where
  "external_bytes e = max 0 (ev_host_total e - ev_host_available e - of_nat (ev_resident e))"

definition ceiling_gib :: "int \<Rightarrow> memory_evidence \<Rightarrow> int" where
  "ceiling_gib margin e =
     (if ev_unknown e then 0
      else max 0 (\<lfloor>(ev_host_total e - external_bytes e) / 1024 ^ 3\<rfloor> - margin))"

definition device_domains :: "obj list \<Rightarrow> (string \<times> json) list" where
  "device_domains ds = map (\<lambda>d. (case get ''uuid'' d of JStr u \<Rightarrow> u | _ \<Rightarrow> [], get ''memory_domain'' d)) ds"

text \<open>What one foreign process is to the shared memory: on another device, attributable with
  its bytes, or not attributable.\<close>

datatype attribution = Elsewhere | Bytes nat | Unattributed

definition attribute :: "(string \<times> json) list \<Rightarrow> json \<Rightarrow> attribution" where
  "attribute domains process =
     (case process of
        JObj p \<Rightarrow>
          (let domain = (case get ''gpu_uuid'' p of JStr u \<Rightarrow> map_of domains u | _ \<Rightarrow> None);
               all_shared = list_all (\<lambda>(_, d). d = JStr ''shared_system'') domains in
           if domain = Some (JStr ''discrete'') then Elsewhere
           else if domain \<noteq> Some (JStr ''shared_system'') \<and> \<not> all_shared then Unattributed
           else (case nonnegative_int (get ''used_bytes'' p) of
                   None \<Rightarrow> Unattributed | Some n \<Rightarrow> Bytes n))
      | _ \<Rightarrow> Unattributed)"

fun foreign_walk ::
  "(string \<times> json) list \<Rightarrow> json list \<Rightarrow> foreign_processes \<times> nat \<Rightarrow> foreign_processes \<times> nat" where
  "foreign_walk domains [] acc = acc"
| "foreign_walk domains (p # ps) (residency, used) =
     (case attribute domains p of
        Elsewhere \<Rightarrow> foreign_walk domains ps (residency, used)
      | Unattributed \<Rightarrow> foreign_walk domains ps (Foreign_Unknown, used)
      | Bytes n \<Rightarrow>
          foreign_walk domains ps
            (if residency = Foreign_Clear then Foreign_Present else residency, used + n))"

definition job_resident :: "json \<Rightarrow> nat" where
  "job_resident job =
     (case job of
        JObj j \<Rightarrow>
          if get ''complete'' j = JBool True then
            (case nonnegative_int (get ''budget_bytes'' j) of
               None \<Rightarrow> 0
             | Some budget \<Rightarrow>
                 (let amount = (\<lambda>k. case nonnegative_int (get k j) of None \<Rightarrow> 0 | Some n \<Rightarrow> n) in
                  min (amount ''host_bytes'' +
                       (if get ''memory_domain'' j = JStr ''shared_system''
                        then amount ''gpu_lower_bound_bytes'' else 0)) budget))
          else 0
      | _ \<Rightarrow> 0)"

definition unified_memory_evidence ::
  "(string \<Rightarrow> pyfloat option) \<Rightarrow> json \<Rightarrow> rat \<Rightarrow> rat \<Rightarrow> memory_evidence option" where
  "unified_memory_evidence txt sample now max_age =
     (case offer_header txt sample of
        Inl _ \<Rightarrow> None
      | Inr (d, sampled) \<Rightarrow>
          (case offer_inventory txt (d, sampled) now max_age of
             Inl _ \<Rightarrow> None
           | Inr stock \<Rightarrow>
               (case get ''sample_id'' d of
                  JStr sample_id \<Rightarrow>
                    (let domains = device_domains (inv_devices stock) in
                     if sample_id = [] \<or>
                        \<not> list_ex (\<lambda>(_, dom). dom = JStr ''shared_system'') domains
                     then None
                     else
                       (case foreign_walk domains (inv_foreign stock) (Foreign_Clear, 0) of
                          (residency, foreign_bytes) \<Rightarrow>
                            Some \<lparr>ev_sample_id = sample_id,
                              ev_sampled_unix = the sampled,
                              ev_host_total = the (nonnegative_float txt True (get ''host_total_bytes'' d)),
                              ev_host_available =
                                the (nonnegative_float txt False (get ''host_available_bytes'' d)),
                              ev_resident = sum_list (map job_resident (inv_jobs stock)),
                              ev_foreign = foreign_bytes,
                              ev_residency = residency\<rparr>))
                | _ \<Rightarrow> None)))"

section \<open>The idle software power cap\<close>

definition other_limiters :: "string list" where
  "other_limiters = [''hw_slowdown'', ''hw_thermal_slowdown'', ''hw_power_brake_slowdown'',
     ''sw_thermal_slowdown'', ''sync_boost'']"

text \<open>The gate on the power and the clock: \<open>None\<close> passes, \<open>Some reason\<close> denies.\<close>

definition ratio_gate ::
  "string \<Rightarrow> string \<Rightarrow> rat \<Rightarrow> json \<Rightarrow> json \<Rightarrow> string option result" where
  "ratio_gate unreadable exceeded fraction v reference =
     (case is_nonnegative_number v of
        Inl e \<Rightarrow> Inl e
      | Inr False \<Rightarrow> Inr (Some unreadable)
      | Inr True \<Rightarrow>
          (case is_nonnegative_number reference of
             Inl e \<Rightarrow> Inl e
           | Inr False \<Rightarrow> Inr (Some unreadable)
           | Inr True \<Rightarrow>
               (case (py_float v, py_float reference) of
                  (Inr (Fin x), Inr (Fin r)) \<Rightarrow>
                    Inr (if r = 0 then Some unreadable
                         else if x > fraction * r then Some exceeded else None)
                | _ \<Rightarrow> Inr (Some unreadable))))"

text \<open>The breakdown of the active limiters and the mask they must agree with.\<close>

definition limiter_gate :: "obj \<Rightarrow> string option" where
  "limiter_gate device =
     (case get ''throttle_reasons'' device of
        JObj reasons \<Rightarrow>
          if get ''sw_power_cap'' reasons \<noteq> JBool True then Some ''sw_power_cap_not_active''
          else
            (case find (\<lambda>k. get k reasons \<noteq> JBool False) other_limiters of
               Some k \<Rightarrow> Some (''other_limiter_not_false:'' @ k)
             | None \<Rightarrow>
            (case get ''gpu_idle'' reasons of
               JBool idle \<Rightarrow>
            (case find (\<lambda>(k, v). k \<noteq> ''gpu_idle'' \<and> k \<noteq> ''sw_power_cap'' \<and> v = JBool True) reasons of
               Some (k, _) \<Rightarrow> Some (''unexpected_limiter_active:'' @ k)
             | None \<Rightarrow>
            (case get ''throttle_active_mask'' device of
               JInt bits \<Rightarrow>
                 if bits AND 4 = 0 then Some ''sw_cap_bit_not_set''
                 else if bits AND NOT (4 OR 1) \<noteq> 0 then Some ''unknown_mask_bits''
                 else if (bits AND 1 \<noteq> 0) \<noteq> idle then Some ''mask_idle_bit_mismatches_reason''
                 else None
             | _ \<Rightarrow> Some ''mask_unknown''))
             | _ \<Rightarrow> Some ''gpu_idle_unknown''))
      | _ \<Rightarrow> Some ''throttle_reasons_missing'')"

text \<open>
  \<open>sw_cap_idle_first_job\<close>: \<open>None\<close> admits, \<open>Some reason\<close> denies. The diagnosis it records
  beside the answer only repeats its inputs.
\<close>

definition sw_cap_idle_first_job ::
  "obj \<Rightarrow> obj \<Rightarrow> json \<Rightarrow> nat \<Rightarrow> bool \<Rightarrow> bool \<Rightarrow> string option result" where
  "sw_cap_idle_first_job sample device reference holders measurement pressure =
     (if get ''name'' device \<noteq> JStr ''NVIDIA GB10'' then Inr (Some ''not_gb10'')
      else if get ''memory_domain'' device \<noteq> JStr ''shared_system'' then Inr (Some ''not_shared_system'')
      else if get ''power_reference_scope'' device \<noteq> JStr ''soc_tdp'' then Inr (Some ''not_soc_tdp'')
      else if measurement then Inr (Some ''measurement_never_excepted'')
      else if 0 < holders then Inr (Some ''holders_present_no_sharing_exception'')
      else if truthy (get ''jobs'' sample) then Inr (Some ''broker_jobs_present'')
      else if truthy (get ''foreign_processes'' sample) then Inr (Some ''foreign_processes_present'')
      else if pressure then Inr (Some ''host_pressure'')
      else if get ''limited'' device \<noteq> JBool True then Inr (Some ''not_limited'')
      else
        (case ratio_gate ''power_or_reference_unknown'' ''power_above_idle_gate'' (65 / 100)
           (get ''power_w'' device) reference of
           Inl e \<Rightarrow> Inl e
         | Inr (Some reason) \<Rightarrow> Inr (Some reason)
         | Inr None \<Rightarrow>
             (case ratio_gate ''clock_unknown'' ''clock_above_idle_threshold'' (10 / 100)
                (get ''sm_clock_mhz'' device) (get ''max_sm_clock_mhz'' device) of
                Inl e \<Rightarrow> Inl e
              | Inr (Some reason) \<Rightarrow> Inr (Some reason)
              | Inr None \<Rightarrow> Inr (limiter_gate device))))"

definition sw_cap_idle_after_drain :: "json \<Rightarrow> bool result" where
  "sw_cap_idle_after_drain diagnosis =
     (case diagnosis of
        JObj d \<Rightarrow>
          if get ''exception_reason'' d \<noteq> JStr ''holders_present_no_sharing_exception'' \<and>
             get ''exception_reason'' d \<noteq> JStr ''broker_jobs_present'' then Inr False
          else
            (case get ''foreign_processes'' d of
               JArr foreign \<Rightarrow>
                 (let device = (''name'', get ''device_name'' d) #
                        map (\<lambda>k. (k, get k d)) [''memory_domain'', ''power_reference_scope'',
                          ''power_w'', ''sm_clock_mhz'', ''max_sm_clock_mhz'', ''throttle_reasons'',
                          ''throttle_active_mask'', ''limited''] in
                  case sw_cap_idle_first_job
                    [(''jobs'', JArr []), (''foreign_processes'', JArr foreign)] device
                    (get ''power_reference_w'' d) 0
                    (get ''measurement'' d \<noteq> JBool False) (get ''pressure'' d \<noteq> JBool False) of
                    Inl e \<Rightarrow> Inl e
                  | Inr denied \<Rightarrow> Inr (denied = None))
             | _ \<Rightarrow> Inr False)
      | _ \<Rightarrow> Inr False)"

section \<open>What the evidence is worth\<close>

lemma floor_div_le: "of_int \<lfloor>x / c\<rfloor> * c \<le> x" if "0 < c" for x c :: rat
proof -
  have "of_int \<lfloor>x / c\<rfloor> \<le> x / c" by (rule of_int_floor_le)
  then have "of_int \<lfloor>x / c\<rfloor> * c \<le> x / c * c" using that by (intro mult_right_mono) simp_all
  then show ?thesis using that by simp
qed

text \<open>The memory the ceiling leaves: what is granted, the margin and what others use all fit.\<close>

lemma ceiling_fits:
  assumes "0 < need" "need \<le> ceiling_gib margin e"
  shows "of_int (need + margin) * 1024 ^ 3 + external_bytes e \<le> ev_host_total e"
proof -
  have "need + margin \<le> \<lfloor>(ev_host_total e - external_bytes e) / 1024 ^ 3\<rfloor>"
    using assms by (auto simp: ceiling_gib_def split: if_splits)
  then have "(of_int (need + margin) :: rat) \<le> of_int \<lfloor>(ev_host_total e - external_bytes e) / 1024 ^ 3\<rfloor>"
    by (simp only: of_int_le_iff)
  then have "of_int (need + margin) * 1024 ^ 3 \<le>
      of_int \<lfloor>(ev_host_total e - external_bytes e) / 1024 ^ 3\<rfloor> * (1024 ^ 3 :: rat)"
    by (rule mult_right_mono) simp
  also have "\<dots> \<le> ev_host_total e - external_bytes e"
    by (rule floor_div_le) simp
  finally show ?thesis by simp
qed

lemma foreign_walk_spec:
  "foreign_walk domains ps (residency, s) =
     (if residency = Foreign_Unknown \<or> (\<exists>p \<in> set ps. attribute domains p = Unattributed)
      then Foreign_Unknown
      else if residency = Foreign_Present \<or> (\<exists>p \<in> set ps. attribute domains p \<noteq> Elsewhere)
      then Foreign_Present else Foreign_Clear,
      s + sum_list (map (\<lambda>p. case attribute domains p of Bytes n \<Rightarrow> n | _ \<Rightarrow> 0) ps))"
proof (induction ps arbitrary: residency s)
  case Nil
  then show ?case by (cases residency) auto
next
  case (Cons p ps)
  then show ?case by (cases residency; cases "attribute domains p") auto
qed

lemma offer_inventory_elim:
  assumes "offer_inventory txt (d, sampled) now max_age = Inr stock"
  obtains q total_bytes available_bytes where "sampled = Some q" "0 \<le> now - q" "now - q \<le> max_age"
    "nonnegative_float txt True (get ''host_total_bytes'' d) = Some total_bytes"
    "nonnegative_float txt False (get ''host_available_bytes'' d) = Some available_bytes"
    "available_bytes \<le> total_bytes"
  using assms
  by (auto simp: offer_inventory_def split: option.splits if_splits json.splits sum.splits)

lemma nonnegative_float_ge: "nonnegative_float txt positive v = Some q \<Longrightarrow> 0 \<le> q"
  by (auto simp: nonnegative_float_def split: json.splits sum.splits pyfloat.splits if_splits)

lemma unified_memory_evidence_elim:
  assumes "unified_memory_evidence txt (JObj d) now max_age = Some e"
  obtains stock where "schema_attribution_declared d"
    "offer_inventory txt (d, nonnegative_float txt True (get ''sampled_unix'' d)) now max_age = Inr stock"
    "ev_sampled_unix e = the (nonnegative_float txt True (get ''sampled_unix'' d))"
    "ev_host_total e = the (nonnegative_float txt True (get ''host_total_bytes'' d))"
    "ev_host_available e = the (nonnegative_float txt False (get ''host_available_bytes'' d))"
    "ev_resident e = sum_list (map job_resident (inv_jobs stock))"
    "(ev_residency e, ev_foreign e) =
       foreign_walk (device_domains (inv_devices stock)) (inv_foreign stock) (Foreign_Clear, 0)"
  using assms
  by (auto simp: unified_memory_evidence_def offer_header_def Let_def
      split: if_splits sum.splits json.splits prod.splits)

text \<open>
  The evidence about shared memory is what a fresh, complete and attributed sample says:
  it is drawn only from a sample no older than the allowed age and never from the future, its
  residency is unknown exactly when some foreign process cannot be attributed, clear exactly when
  every one runs on another device, and its foreign bytes are the sum over the attributable ones.
  Available memory never exceeds the host's.
\<close>

theorem unified_memory_evidence_sound:
  assumes "unified_memory_evidence txt (JObj d) now max_age = Some e"
  shows "(schema_attribution_declared d) \<and>
    (0 \<le> now - ev_sampled_unix e \<and> now - ev_sampled_unix e \<le> max_age) \<and>
    (0 \<le> ev_host_available e \<and> ev_host_available e \<le> ev_host_total e) \<and>
    (\<exists>stock. offer_inventory txt (d, nonnegative_float txt True (get ''sampled_unix'' d)) now max_age = Inr stock \<and>
      (ev_residency e = Foreign_Unknown \<longleftrightarrow>
         (\<exists>p \<in> set (inv_foreign stock). attribute (device_domains (inv_devices stock)) p = Unattributed)) \<and>
      (ev_residency e = Foreign_Clear \<longleftrightarrow>
         (\<forall>p \<in> set (inv_foreign stock). attribute (device_domains (inv_devices stock)) p = Elsewhere)) \<and>
      ev_foreign e = sum_list (map (\<lambda>p. case attribute (device_domains (inv_devices stock)) p of
         Bytes n \<Rightarrow> n | _ \<Rightarrow> 0) (inv_foreign stock)) \<and>
      ev_resident e = sum_list (map job_resident (inv_jobs stock)))"
proof -
  obtain stock where stock: "schema_attribution_declared d"
    "offer_inventory txt (d, nonnegative_float txt True (get ''sampled_unix'' d)) now max_age = Inr stock"
    "ev_sampled_unix e = the (nonnegative_float txt True (get ''sampled_unix'' d))"
    "ev_host_total e = the (nonnegative_float txt True (get ''host_total_bytes'' d))"
    "ev_host_available e = the (nonnegative_float txt False (get ''host_available_bytes'' d))"
    "ev_resident e = sum_list (map job_resident (inv_jobs stock))"
    "(ev_residency e, ev_foreign e) =
       foreign_walk (device_domains (inv_devices stock)) (inv_foreign stock) (Foreign_Clear, 0)"
    using unified_memory_evidence_elim [OF assms] .
  from stock(2) have fresh: "0 \<le> now - ev_sampled_unix e \<and> now - ev_sampled_unix e \<le> max_age"
    using stock(3) by (elim offer_inventory_elim) simp
  from stock(2) have host: "0 \<le> ev_host_available e \<and> ev_host_available e \<le> ev_host_total e"
    using stock(4,5) by (elim offer_inventory_elim) (simp add: nonnegative_float_ge)
  have "ev_residency e = Foreign_Unknown \<longleftrightarrow>
      (\<exists>p \<in> set (inv_foreign stock). attribute (device_domains (inv_devices stock)) p = Unattributed)"
    "ev_residency e = Foreign_Clear \<longleftrightarrow>
      (\<forall>p \<in> set (inv_foreign stock). attribute (device_domains (inv_devices stock)) p = Elsewhere)"
    "ev_foreign e = sum_list (map (\<lambda>p. case attribute (device_domains (inv_devices stock)) p of
         Bytes n \<Rightarrow> n | _ \<Rightarrow> 0) (inv_foreign stock))"
    using stock(7) by (auto simp: foreign_walk_spec)
  then show ?thesis using stock(1) fresh host stock(2,6) by blast
qed

definition sample_gpu :: obj where
  "sample_gpu = [(''schema'', JStr gpu_schema), (''complete'', JBool True), (''attributed'', JBool True),
     (''sampled_unix'', JFloat (Fin 100)), (''sample_id'', JStr ''s1''),
     (''devices'', JArr [JObj [(''uuid'', JStr ''GPU-1''), (''memory_domain'', JStr ''shared_system'')]]),
     (''foreign_processes'', JArr [JObj [(''gpu_uuid'', JStr ''GPU-1''), (''used_bytes'', JInt 7)]]),
     (''jobs'', JArr []), (''host_total_bytes'', JFloat (Fin 1000)),
     (''host_available_bytes'', JFloat (Fin 400)), (''memory_pressure_some'', JFloat (Fin 0)),
     (''memory_pressure_full'', JFloat (Fin 0)), (''cpu_pressure_some'', JFloat (Fin 0)),
     (''cpu_pressure_full'', JFloat (Fin 0))]"

lemma sample_gpu_evidence:
  "unified_memory_evidence (\<lambda>_. None) (JObj sample_gpu) 102 5 =
     Some \<lparr>ev_sample_id = ''s1'', ev_sampled_unix = 100, ev_host_total = 1000,
       ev_host_available = 400, ev_resident = 0, ev_foreign = 7, ev_residency = Foreign_Present\<rparr>"
  by (simp add: unified_memory_evidence_def offer_header_def sample_gpu_def get_def dict_get_def
      schema_attribution_declared_def nonnegative_float_def float_of_def offer_inventory_def
      pressure_fields_def pressure_ok_def device_ok_def memory_undeclared_def device_domains_def
      attribute_def nonnegative_int_def Let_def)

theorem unified_memory_evidence_sound_witness:
  "schema_attribution_declared sample_gpu"
  using unified_memory_evidence_sound [OF sample_gpu_evidence] by blast

section \<open>What the exception admits\<close>

lemma mask_cap_bits:
  fixes bits :: int
  assumes "bits AND 4 \<noteq> 0" "bits AND NOT (4 OR 1) = 0"
  shows "bits = 4 \<or> bits = 5"
proof -
  have "bits = (bits AND 5) OR (bits AND NOT 5)"
    by (rule bit_eqI) (auto simp: bit_simps)
  with assms(2) have m: "bits = bits AND 5" by simp
  have "0 \<le> bits AND 5" "bits AND 5 \<le> 5" by simp_all
  with m have "0 \<le> bits" "bits \<le> 5" by simp_all
  then have "bits \<in> {0, 1, 2, 3, 4, 5}" by auto
  with m assms(1) show ?thesis by auto
qed

text \<open>
  The idle power-cap exception opens exactly one door. It is granted only to an
  unshared, unpressured GB10 with no measurement, holder, broker job or foreign process, whose software
  power cap is the only active limiter: the mask is the cap bit, with the idle bit exactly when the
  breakdown says idle, and no other limiter reads anything but false.
\<close>

theorem sw_cap_exception_narrow:
  assumes "sw_cap_idle_first_job sample device reference holders measurement pressure = Inr None"
  shows "(holders = 0) \<and>
    (\<not> measurement) \<and>
    (\<not> pressure) \<and>
    (\<not> truthy (get ''jobs'' sample)) \<and>
    (\<not> truthy (get ''foreign_processes'' sample)) \<and>
    (get ''name'' device = JStr ''NVIDIA GB10'') \<and>
    (\<exists>reasons idle. get ''throttle_reasons'' device = JObj reasons \<and>
      get ''gpu_idle'' reasons = JBool idle \<and>
      get ''throttle_active_mask'' device = JInt (if idle then 5 else 4) \<and>
      (\<forall>k \<in> set other_limiters. get k reasons = JBool False) \<and>
      (\<forall>(k, v) \<in> set reasons. v = JBool True \<longrightarrow> k = ''gpu_idle'' \<or> k = ''sw_power_cap''))"
proof -
  have gate: "limiter_gate device = None" and rest:
    "holders = 0" "\<not> measurement" "\<not> pressure" "\<not> truthy (get ''jobs'' sample)"
    "\<not> truthy (get ''foreign_processes'' sample)" "get ''name'' device = JStr ''NVIDIA GB10''"
    using assms by (auto simp: sw_cap_idle_first_job_def split: if_splits sum.splits option.splits)
  from gate obtain reasons idle bits where r: "get ''throttle_reasons'' device = JObj reasons"
    "get ''gpu_idle'' reasons = JBool idle" "get ''throttle_active_mask'' device = JInt bits"
    "find (\<lambda>k. get k reasons \<noteq> JBool False) other_limiters = None"
    "find (\<lambda>(k, v). k \<noteq> ''gpu_idle'' \<and> k \<noteq> ''sw_power_cap'' \<and> v = JBool True) reasons = None"
    "bits AND 4 \<noteq> 0" "bits AND NOT (4 OR 1) = 0" "(bits AND 1 \<noteq> 0) = idle"
    unfolding limiter_gate_def
    by (auto split: json.splits if_splits option.splits prod.splits)
  have "bits = (if idle then 5 else 4)"
    using mask_cap_bits [OF r(6,7)] r(8) by auto
  then have "\<exists>reasons idle. get ''throttle_reasons'' device = JObj reasons \<and>
      get ''gpu_idle'' reasons = JBool idle \<and>
      get ''throttle_active_mask'' device = JInt (if idle then 5 else 4) \<and>
      (\<forall>k \<in> set other_limiters. get k reasons = JBool False) \<and>
      (\<forall>(k, v) \<in> set reasons. v = JBool True \<longrightarrow> k = ''gpu_idle'' \<or> k = ''sw_power_cap'')"
    using r by (auto simp: find_None_iff)
  with rest show ?thesis by blast
qed

definition sample_device :: obj where
  "sample_device = [(''name'', JStr ''NVIDIA GB10''), (''memory_domain'', JStr ''shared_system''),
     (''power_reference_scope'', JStr ''soc_tdp''), (''limited'', JBool True),
     (''power_w'', JFloat (Fin 4)), (''sm_clock_mhz'', JFloat (Fin 200)),
     (''max_sm_clock_mhz'', JFloat (Fin 3000)),
     (''throttle_reasons'', JObj ([(''sw_power_cap'', JBool True), (''gpu_idle'', JBool False)] @
        map (\<lambda>k. (k, JBool False)) other_limiters)),
     (''throttle_active_mask'', JInt 4)]"

theorem sw_cap_exception_narrow_witness:
  "get ''name'' sample_device = JStr ''NVIDIA GB10''"
proof -
  have "sw_cap_idle_first_job [] sample_device (JFloat (Fin 100)) 0 False False = Inr None"
    by (simp add: sw_cap_idle_first_job_def sample_device_def get_def dict_get_def ratio_gate_def
        is_nonnegative_number_def limiter_gate_def other_limiters_def)
  then show ?thesis using sw_cap_exception_narrow by blast
qed

end
