(* ===== verification/Drain_Policy.thy ===== *)
theory Drain_Policy
  imports Gpu_Facts
begin

text \<open>
  The staged fairness policy (\<open>drain_policy.py\<close>): whether draining this box's own holders would
  resolve a refusal (\<open>refusal_mode\<close>), and whether the rows behind the refused one are held back
  meanwhile (\<open>prepare_drain\<close>, \<open>begin_drain\<close>, \<open>add_holder\<close>, \<open>finish_drain\<close>), with the clocks it
  leaves for the next pass. Times are exact rationals; a sum of two stamps overflows to infinity as binary64
  does. Every raise of the source is a branch: the assessment of an unreadable verdict, or a
  \<open>DrainFailure\<close> that carries the error.
\<close>

section \<open>Refusals\<close>

definition decision_reason :: "obj option \<Rightarrow> json" where
  "decision_reason decision = (case decision of None \<Rightarrow> JNull | Some d \<Rightarrow> get ''reason'' d)"

definition unmeasured_refusal :: "string option \<Rightarrow> obj option \<Rightarrow> bool" where
  "unmeasured_refusal source decision \<longleftrightarrow>
     source = Some ''adaptive_cpu_refused'' \<and>
     (case decision of
        None \<Rightarrow> False
      | Some d \<Rightarrow>
          get ''reason'' d = JStr ''measurement_host_not_idle'' \<and> get ''fresh'' d = JBool True \<and>
          (case get ''baseline'' d of
             JObj b \<Rightarrow> get ''basis'' b = JStr ''unmeasured'' \<and> get ''exceeds'' b = JBool True
           | _ \<Rightarrow> False))"

definition max_interval_s :: rat where "max_interval_s = 60"

definition max_sample_age_s :: rat where "max_sample_age_s = 5"

definition finite_number :: "json \<Rightarrow> rat option" where
  "finite_number v =
     (if is_number v then (case py_float v of Inr (Fin q) \<Rightarrow> Some q | _ \<Rightarrow> None) else None)"

definition holder_tail_refusal :: "obj option \<Rightarrow> bool" where
  "holder_tail_refusal decision =
     (case decision of
        None \<Rightarrow> False
      | Some d \<Rightarrow>
          (case (get ''baseline'' d, get ''sample'' d) of
             (JObj b, JObj sample) \<Rightarrow>
               get ''reason'' d = JStr ''measurement_host_not_idle'' \<and> get ''fresh'' d = JBool True \<and>
               get ''state'' b = JStr ''holder_tail'' \<and> get ''exceeds'' b = JBool True \<and>
               (case (finite_number (get ''holders_seen_unix'' b),
                      finite_number (get ''interval_start_unix'' b),
                      finite_number (get ''sampled_unix'' sample),
                      finite_number (get ''interval_s'' sample)) of
                  (Some seen, Some started, Some sampled, Some interval) \<Rightarrow>
                    0 < interval \<and> interval \<le> max_interval_s \<and> started = sampled - interval \<and>
                    started \<le> seen \<and> seen \<le> sampled
                | _ \<Rightarrow> False)
           | _ \<Rightarrow> False))"

definition foreign_clear :: "obj option \<Rightarrow> bool" where
  "foreign_clear decision =
     (case decision of
        None \<Rightarrow> False
      | Some d \<Rightarrow>
          (case get ''measurement_pool_drain'' d of
             JObj proof_of \<Rightarrow> get ''foreign_clear'' proof_of = JBool True
           | _ \<Rightarrow> False))"

definition drain_exclusive_cpu :: "string list" where
  "drain_exclusive_cpu = [''measurement_host_not_idle'', ''measurement_holder'',
     ''unbounded_cpu_not_exclusive'']"

definition drain_exclusive_gpu :: "string list" where
  "drain_exclusive_gpu = [''exclusive_holder'', ''measurement_device_not_idle'',
     ''host_or_device_congested'', ''sharing_probe_not_authorized'', ''gpu_memory_budget'']"

definition drain_gpu_holders :: "string list" where
  "drain_gpu_holders = [''exclusive_holder'', ''sharing_probe_not_authorized'',
     ''holder_telemetry_unavailable'', ''max_actions'']"

definition drain_tokens_cpu :: "string list" where
  "drain_tokens_cpu = [''borrow_evidence_unavailable'', ''pressure_override_no_borrow'',
     ''projected_cpu_cost'']"

definition reason_in :: "json \<Rightarrow> string list \<Rightarrow> bool" where
  "reason_in v reasons = (case v of JStr s \<Rightarrow> s \<in> set reasons | _ \<Rightarrow> False)"

definition sw_cap_mode :: "json \<Rightarrow> string option" where
  "sw_cap_mode diagnosis =
     (case diagnosis of
        JObj d \<Rightarrow>
          if get ''exception_reason'' d = JStr ''holders_present_no_sharing_exception'' then Some ''gpu''
          else if get ''exception_reason'' d = JStr ''broker_jobs_present'' then Some ''exclusive''
          else None
      | _ \<Rightarrow> None)"

definition gpu_refusal_mode ::
  "obj option \<Rightarrow> bool \<Rightarrow> (string option \<times> bool) result" where
  "gpu_refusal_mode decision measurement =
     (let reason = decision_reason decision; d = (case decision of None \<Rightarrow> [] | Some d \<Rightarrow> d) in
      if truthy (get ''foreign_processes'' d) then Inr (None, True)
      else if reason = JStr ''host_or_device_congested'' \<and> get ''limited'' d = JBool True then
        (if measurement then Inr (None, False)
         else
           (case sw_cap_idle_after_drain (get ''sw_cap_idle_exception'' d) of
              Inl e \<Rightarrow> Inl e
            | Inr True \<Rightarrow> Inr (sw_cap_mode (get ''sw_cap_idle_exception'' d), False)
            | Inr False \<Rightarrow> Inr (None, False)))
      else if measurement then
        Inr (if reason_in reason drain_exclusive_gpu then Some ''exclusive'' else None, False)
      else Inr (if reason_in reason drain_gpu_holders then Some ''gpu'' else None, False))"

definition cpu_refusal_mode ::
  "obj option \<Rightarrow> (string, int) dict \<Rightarrow> bool \<Rightarrow> int option \<Rightarrow> string option \<times> bool" where
  "cpu_refusal_mode decision demand measurement cpu_count =
     (let reason = decision_reason decision; d = (case decision of None \<Rightarrow> [] | Some d \<Rightarrow> d);
          declared = dict_get demand ''cpu'' 0 in
      if reason = JStr ''measurement_foreign_ambient'' then (None, True)
      else if reason_in reason drain_exclusive_cpu then (Some ''exclusive'', False)
      else if reason = JStr ''host_pressure'' \<and>
              (measurement \<or> declared = 0 \<or> cpu_count = Some declared) then (Some ''exclusive'', False)
      else if reason = JStr ''host_pressure'' then
        (case (get ''held_cpus'' d, get ''foreign_cpus'' d) of
           (JArr held, JArr foreign) \<Rightarrow>
             if held \<noteq> [] \<and> foreign = [] then (Some ''held_cpus'', False) else (None, False)
         | _ \<Rightarrow> (None, False))
      else if reason_in reason drain_tokens_cpu then (Some ''tokens'', False)
      else (None, False))"

definition refusal_mode ::
  "string option \<Rightarrow> obj option \<Rightarrow> (string, int) dict \<Rightarrow> bool \<Rightarrow> int option \<Rightarrow>
   (string option \<times> bool) result" where
  "refusal_mode source decision demand measurement cpu_count =
     (if source = Some ''adaptive_gpu_refused'' then gpu_refusal_mode decision measurement
      else if source = Some ''adaptive_cpu_refused''
        then Inr (cpu_refusal_mode decision demand measurement cpu_count)
      else Inr (None, False))"

section \<open>The question and its prior clocks\<close>

record drain_question =
  dq_key :: string
  dq_need :: "(string, int) dict"
  dq_mode :: string
  dq_adaptive :: bool
  dq_foreign :: bool
  dq_held_cpus :: "int list option"
  dq_cpu_tiers :: bool
  dq_measurement :: bool
  dq_generation :: "string option"
  dq_foreign_clear :: bool
  dq_unmeasured :: bool

record prepared_drain =
  pd_question :: drain_question
  pd_now :: rat
  pd_host :: string
  pd_wait :: bool
  pd_clocks :: obj
  pd_passes :: int
  pd_age :: pyfloat

definition withhold_ceiling_s :: rat where "withhold_ceiling_s = 900"

definition unmeasured_ceiling_s :: rat where "unmeasured_ceiling_s = 180"

definition starvation_floor :: int where "starvation_floor = 3"

definition optional_str :: "string option \<Rightarrow> json" where
  "optional_str s = (case s of None \<Rightarrow> JNull | Some x \<Rightarrow> JStr x)"

text \<open>\<open>PreparedDrain.stamp\<close>: \<open>math.isfinite\<close> of a too large integer raises \<open>OverflowError\<close>.\<close>

definition stamp_value :: "json \<Rightarrow> rat option result" where
  "stamp_value v =
     (if is_number v then
        (case py_float v of Inl e \<Rightarrow> Inl e | Inr (Fin q) \<Rightarrow> Inr (Some q) | Inr _ \<Rightarrow> Inr None)
      else Inr None)"

definition stamp :: "prepared_drain \<Rightarrow> string \<Rightarrow> rat option result" where
  "stamp p name = stamp_value (get name (pd_clocks p))"

text \<open>\<open>int(passes)\<close> of a count read from the prior record.\<close>

definition read_passes :: "json \<Rightarrow> int result" where
  "read_passes v =
     (case v of
        JInt n \<Rightarrow> Inr n
      | JFloat (Fin q) \<Rightarrow> Inr (if 0 \<le> q then \<lfloor>q\<rfloor> else \<lceil>q\<rceil>)
      | JFloat NaN \<Rightarrow> Inl ValueError
      | JFloat _ \<Rightarrow> Inl OverflowError
      | _ \<Rightarrow> Inr 0)"

text \<open>\<open>max(0.0, now - float(first))\<close>: an infinite past is an infinite age.\<close>

definition read_age :: "rat \<Rightarrow> json \<Rightarrow> pyfloat result" where
  "read_age now v =
     (if is_number v then
        (case py_float v of
           Inl e \<Rightarrow> Inl e
         | Inr (Fin q) \<Rightarrow> Inr (Fin (max 0 (now - q)))
         | Inr NegInf \<Rightarrow> Inr PosInf
         | Inr _ \<Rightarrow> Inr (Fin 0))
      else Inr (Fin 0))"

definition episode_clocks :: "obj \<Rightarrow> string \<Rightarrow> string option \<Rightarrow> obj" where
  "episode_clocks prior host generation =
     (case get ''measurement_drains'' prior of
        JObj episodes \<Rightarrow>
          (case get host episodes of
             JObj episode \<Rightarrow>
               if get ''generation'' episode = optional_str generation then episode else []
           | _ \<Rightarrow> [])
      | _ \<Rightarrow> [])"

definition prepare_drain ::
  "drain_question \<Rightarrow> obj \<Rightarrow> rat \<Rightarrow> string \<Rightarrow> prepared_drain result" where
  "prepare_drain q prior now host =
     (let wait = dq_measurement q \<and> (dq_mode q = ''exclusive'' \<or> dq_mode q = ''tokens'');
          clocks = (if wait then episode_clocks prior host (dq_generation q) else prior) in
      case read_passes (get ''passes'' prior) of
        Inl e \<Rightarrow> Inl e
      | Inr passes \<Rightarrow>
          (case read_age now (get ''first_unix'' prior) of
             Inl e \<Rightarrow> Inl e
           | Inr age \<Rightarrow>
               Inr \<lparr>pd_question = q, pd_now = now, pd_host = host, pd_wait = wait,
                 pd_clocks = clocks, pd_passes = passes, pd_age = age\<rparr>))"

section \<open>Verdicts and notes\<close>

record verdict =
  v_eligible :: bool
  v_withhold :: bool
  v_why :: "string option"
  v_mode :: string
  v_age :: pyfloat
  v_short :: "(string, int) dict option"
  v_gpu_first :: "bool option"
  v_drain_host :: "string option"
  v_drain_generation :: "string option"
  v_unmeasured :: bool
  v_unmeasured_until :: "rat option"
  v_measurement_until :: "rat option"
  v_until :: "rat option"
  v_foreign_age :: "rat option"
  v_measurement_key :: "string option"
  v_episode_age :: "rat option"
  v_held_cpus :: "int list option"
  v_holders :: "obj list option"
  v_refills :: "json list option"
  v_drain_resolves :: "bool option"
  v_error :: "error option"

type_synonym clock_notes = "(string, rat option) dict"

datatype drain_notes =
    OrdinaryNotes clock_notes
  | MeasurementNotes string "string option" clock_notes

datatype drain_outcome =
    DrainAssessment verdict "drain_notes option"
  | DrainFailure error "drain_notes option"

record pending_drain =
  pn_prepared :: prepared_drain
  pn_verdict :: verdict
  pn_notes :: clock_notes
  pn_unmeasured_until :: "rat option"
  pn_until :: "rat option"
  pn_epoch :: "rat option"
  pn_short :: "(string, int) dict"
  pn_in_way :: "obj list"
  pn_bounds :: "obj list"
  pn_draining :: "obj list"
  pn_covered :: "(string, int) dict"
  pn_wanted_cpus :: "int list"

definition put_note :: "string \<Rightarrow> rat option \<Rightarrow> pending_drain \<Rightarrow> pending_drain" where
  "put_note k v p = p\<lparr>pn_notes := AList.update k v (pn_notes p)\<rparr>"

definition judge :: "(verdict \<Rightarrow> verdict) \<Rightarrow> pending_drain \<Rightarrow> pending_drain" where
  "judge f p = p\<lparr>pn_verdict := f (pn_verdict p)\<rparr>"

definition initial :: "prepared_drain \<Rightarrow> pending_drain" where
  "initial prepared =
     \<lparr>pn_prepared = prepared,
      pn_verdict = \<lparr>v_eligible = False, v_withhold = False, v_why = None,
        v_mode = dq_mode (pd_question prepared), v_age = pd_age prepared, v_short = None,
        v_gpu_first = None, v_drain_host = None, v_drain_generation = None, v_unmeasured = False,
        v_unmeasured_until = None, v_measurement_until = None, v_until = None, v_foreign_age = None,
        v_measurement_key = None, v_episode_age = None, v_held_cpus = None, v_holders = None,
        v_refills = None, v_drain_resolves = None, v_error = None\<rparr>,
      pn_notes = [], pn_unmeasured_until = None, pn_until = None, pn_epoch = None, pn_short = [],
      pn_in_way = [], pn_bounds = [], pn_draining = [], pn_covered = [], pn_wanted_cpus = []\<rparr>"

text \<open>\<open>_complete\<close>: the deadline of an unmeasured baseline closes every verdict.\<close>

definition close_unmeasured :: "pending_drain \<Rightarrow> verdict" where
  "close_unmeasured p =
     (let prepared = pn_prepared p; v = pn_verdict p in
      if pd_wait prepared \<and> dq_unmeasured (pd_question prepared) then
        let v1 = v\<lparr>v_unmeasured := True\<rparr>;
            v2 = (case pn_unmeasured_until p of
                    None \<Rightarrow> v1
                  | Some deadline \<Rightarrow>
                      (case v_until v1 of
                         None \<Rightarrow> v1\<lparr>v_unmeasured_until := Some deadline\<rparr>
                       | Some original \<Rightarrow>
                           v1\<lparr>v_unmeasured_until := Some deadline, v_measurement_until := Some original,
                              v_until := Some (min original deadline)\<rparr>)) in
        if (case pn_unmeasured_until p of None \<Rightarrow> True | Some deadline \<Rightarrow> pd_now prepared \<ge> deadline)
        then v2\<lparr>v_withhold := False, v_drain_resolves := Some False,
                v_why := (if v_why v2 \<in> {Some ''foreign_load'', Some ''verdict_unreadable''}
                          then v_why v2 else Some ''measurement_baseline_unknown'')\<rparr>
        else v2
      else v)"

definition final_notes :: "pending_drain \<Rightarrow> drain_notes option" where
  "final_notes p =
     (if pn_notes p = [] then None
      else if pd_wait (pn_prepared p)
        then Some (MeasurementNotes (pd_host (pn_prepared p))
               (dq_generation (pd_question (pn_prepared p))) (pn_notes p))
      else Some (OrdinaryNotes (pn_notes p)))"

definition complete :: "pending_drain \<Rightarrow> drain_outcome" where
  "complete p = DrainAssessment (close_unmeasured p) (final_notes p)"

text \<open>
  \<open>failed_drain\<close>: an operating-system, contract, value or type error is a readable verdict
  that withholds nothing; any other error is carried to the caller.
\<close>

definition readable_error :: "error \<Rightarrow> bool" where
  "readable_error e = (case e of
       OSError _ \<Rightarrow> True | PoolContractError \<Rightarrow> True | ValueError \<Rightarrow> True | TypeError \<Rightarrow> True
     | _ \<Rightarrow> False)"

definition failed_drain :: "pending_drain \<Rightarrow> error \<Rightarrow> drain_outcome" where
  "failed_drain p e =
     (if readable_error e then
        complete (judge (\<lambda>v. v\<lparr>v_withhold := False, v_why := Some ''verdict_unreadable'',
          v_error := Some e\<rparr>) p)
      else DrainFailure e (final_notes p))"

section \<open>The first half of an assessment\<close>

record gpu_reading =
  gr_clear :: "bool option"
  gr_foreign :: bool
  gr_declared :: bool

definition read_gpu :: "prepared_drain \<Rightarrow> obj option \<Rightarrow> gpu_reading result" where
  "read_gpu prepared gpu_sample =
     (let q = pd_question prepared; gpu_need = dict_get (dq_need q) ''gpu'' 0 in
      case (if gpu_need \<noteq> 0 then gpu_sample else None) of
        None \<Rightarrow> Inr \<lparr>gr_clear = None, gr_foreign = dq_foreign q, gr_declared = False\<rparr>
      | Some sample \<Rightarrow>
          (let declared = schema_attribution_declared sample in
           case sample_foreign sample of
             Foreign_Clear \<Rightarrow>
               (case sample_within (pd_now prepared) max_sample_age_s sample of
                  Inl e \<Rightarrow> Inl e
                | Inr fresh \<Rightarrow>
                    Inr \<lparr>gr_clear = Some fresh, gr_foreign = dq_foreign q, gr_declared = declared\<rparr>)
           | Foreign_Present \<Rightarrow>
               Inr \<lparr>gr_clear = Some False, gr_foreign = True, gr_declared = declared\<rparr>
           | Foreign_Unknown \<Rightarrow>
               Inr \<lparr>gr_clear = Some False, gr_foreign = dq_foreign q, gr_declared = declared\<rparr>))"

definition gpu_first :: "prepared_drain \<Rightarrow> (string, int) dict \<Rightarrow> gpu_reading \<Rightarrow> bool" where
  "gpu_first prepared avail g \<longleftrightarrow>
     (let q = pd_question prepared; gpu_need = dict_get (dq_need q) ''gpu'' 0 in
      dq_mode q \<noteq> ''gpu'' \<and> gpu_need \<noteq> 0 \<and> gpu_need \<le> dict_get avail ''gpu'' 0 \<and>
      gr_clear g \<noteq> Some False)"

definition shortage :: "drain_question \<Rightarrow> (string, int) dict \<Rightarrow> (string, int) dict" where
  "shortage q avail =
     map (\<lambda>(kind, amount). (kind, amount - dict_get avail kind 0))
       (filter (\<lambda>(kind, amount). amount > dict_get avail kind 0) (dq_need q))"

definition full_generation :: "string option \<Rightarrow> bool" where
  "full_generation g =
     (case g of None \<Rightarrow> False
      | Some s \<Rightarrow> length s = 64 \<and> list_all (\<lambda>c. c \<in> set ''0123456789abcdef'') s)"

text \<open>The deadline of an unmeasured baseline: opened once, then read back.\<close>

definition open_unmeasured :: "pending_drain \<Rightarrow> pending_drain \<times> bool" where
  "open_unmeasured p =
     (let prepared = pn_prepared p in
      if dq_unmeasured (pd_question prepared) then
        (if \<not> has_key ''unmeasured_until_unix'' (pd_clocks prepared) then
           let deadline = pd_now prepared + unmeasured_ceiling_s in
           (put_note ''unmeasured_until_unix'' (Some deadline) (p\<lparr>pn_unmeasured_until := Some deadline\<rparr>), True)
         else
           (case stamp prepared ''unmeasured_until_unix'' of
              Inr (Some deadline) \<Rightarrow> (p\<lparr>pn_unmeasured_until := Some deadline\<rparr>, True)
            | _ \<Rightarrow> (put_note ''unmeasured_until_unix'' (Some 0) p, False)))
      else (p, True))"

definition open_wait :: "pending_drain \<Rightarrow> drain_outcome + pending_drain" where
  "open_wait p =
     (let prepared = pn_prepared p; q = pd_question prepared in
      if pd_wait prepared then
        (if full_generation (dq_generation q) then
           (case open_unmeasured
              (judge (\<lambda>v. v\<lparr>v_drain_host := Some (pd_host prepared),
                 v_drain_generation := dq_generation q\<rparr>) p) of
              (p1, True) \<Rightarrow> Inr p1
            | (p1, False) \<Rightarrow> Inl (failed_drain p1 ValueError))
         else Inl (failed_drain p ValueError))
      else Inr p)"

definition open_holders :: "pending_drain \<Rightarrow> drain_outcome + pending_drain" where
  "open_holders p =
     (let q = pd_question (pn_prepared p);
          p1 = p\<lparr>pn_in_way := [], pn_bounds := [], pn_draining := [],
                 pn_covered := map (\<lambda>(kind, _). (kind, 0)) (pn_short p)\<rparr> in
      if dq_mode q = ''held_cpus'' then
        (case dq_held_cpus q of
           Some cpus \<Rightarrow>
             if cpus \<noteq> [] \<and> dq_cpu_tiers q
             then Inr (judge (\<lambda>v. v\<lparr>v_held_cpus := Some (sort (remdups cpus))\<rparr>)
                    (p1\<lparr>pn_wanted_cpus := remdups cpus\<rparr>))
             else Inl (failed_drain p1 ValueError)
         | None \<Rightarrow> Inl (failed_drain p1 ValueError))
      else Inr p1)"

definition open_clocks :: "pending_drain \<Rightarrow> drain_outcome + pending_drain" where
  "open_clocks p =
     (let prepared = pn_prepared p; now = pd_now prepared in
      case stamp prepared ''measurement_until_unix'' of
        Inl e \<Rightarrow> Inl (failed_drain p e)
      | Inr until \<Rightarrow>
          (case stamp prepared ''epoch_unix'' of
             Inl e \<Rightarrow> Inl (failed_drain p e)
           | Inr epoch \<Rightarrow>
               (let p1 = p\<lparr>pn_until := until, pn_epoch := epoch\<rparr> in
                case (if pd_wait prepared then until else None) of
                  None \<Rightarrow> open_holders p1
                | Some deadline \<Rightarrow>
                    (let p2 = judge (\<lambda>v. v\<lparr>v_measurement_key := Some (dq_key (pd_question prepared)),
                            v_until := Some deadline,
                            v_episode_age := Some (now - (case epoch of None \<Rightarrow> now | Some t \<Rightarrow> t))\<rparr>) p1 in
                     if now \<ge> deadline
                     then Inl (complete (judge (\<lambda>v. v\<lparr>v_why := Some ''measurement_drain_expired''\<rparr>) p2))
                     else open_holders p2))))"

definition judge_foreign :: "gpu_reading \<Rightarrow> pending_drain \<Rightarrow> drain_outcome + pending_drain" where
  "judge_foreign g p =
     (let prepared = pn_prepared p; q = pd_question prepared; now = pd_now prepared;
          gpu_need = dict_get (dq_need q) ''gpu'' 0;
          gpu_foreign_clear = (gpu_need = 0 \<or> (gr_clear g = Some True \<and> gr_declared g));
          clear_foreign = (pd_wait prepared \<and> dq_foreign_clear q \<and> gpu_foreign_clear \<and> \<not> gr_foreign g);
          p1 = (if clear_foreign then put_note ''foreign_unix'' None p else p) in
      case (if gr_foreign g then Inr (Some now) else if clear_foreign then Inr None
            else stamp prepared ''foreign_unix'') of
        Inl e \<Rightarrow> Inl (failed_drain p1 e)
      | Inr seen \<Rightarrow>
          (case seen of
             None \<Rightarrow> open_clocks p1
           | Some t \<Rightarrow>
               if now - t \<le> withhold_ceiling_s then
                 Inl (complete (judge (\<lambda>v. v\<lparr>v_why := Some ''foreign_load'', v_foreign_age := Some (now - t)\<rparr>)
                   (if pd_wait prepared then p1
                    else put_note ''expired_unix'' None (put_note ''epoch_unix'' None p1))))
               else open_clocks p1))"

definition eligible_row :: "prepared_drain \<Rightarrow> (string, int) dict \<Rightarrow> gpu_reading \<Rightarrow> bool" where
  "eligible_row prepared avail g \<longleftrightarrow>
     pd_wait prepared \<or> pd_passes prepared + 1 \<ge> starvation_floor \<or> gpu_first prepared avail g"

definition open_short :: "prepared_drain \<Rightarrow> (string, int) dict \<Rightarrow> pending_drain" where
  "open_short prepared avail =
     (let q = pd_question prepared in
      if dq_mode q = ''tokens''
      then judge (\<lambda>v. v\<lparr>v_short := Some (shortage q avail)\<rparr>)
             ((initial prepared)\<lparr>pn_short := shortage q avail\<rparr>)
      else initial prepared)"

definition begin_drain ::
  "prepared_drain \<Rightarrow> (string, int) dict \<Rightarrow> obj option \<Rightarrow> drain_outcome + pending_drain" where
  "begin_drain prepared avail gpu_sample =
     (let q = pd_question prepared in
      case read_gpu prepared gpu_sample of
        Inl e \<Rightarrow> Inl (failed_drain (initial prepared) e)
      | Inr g \<Rightarrow>
          (let p = open_short prepared avail; eligible = eligible_row prepared avail g in
           if dq_mode q = ''tokens'' \<and> dq_adaptive q \<and> pn_short p = [] then
             Inl (complete (judge (\<lambda>v. v\<lparr>v_why := Some ''not_a_token_shortage''\<rparr>) p))
           else
             (case open_wait (judge (\<lambda>v. v\<lparr>v_eligible := eligible,
                     v_gpu_first := Some (gpu_first prepared avail g)\<rparr>) p) of
                Inl out \<Rightarrow> Inl out
              | Inr p1 \<Rightarrow>
                  (let p2 = (if gr_foreign g then put_note ''foreign_unix'' (Some (pd_now prepared)) p1 else p1) in
                   if \<not> eligible then Inl (complete p2) else judge_foreign g p2))))"

section \<open>Holders\<close>

definition within_ceiling :: "pyfloat \<Rightarrow> bool" where
  "within_ceiling age = (case age of Fin q \<Rightarrow> q \<le> withhold_ceiling_s | NegInf \<Rightarrow> True | _ \<Rightarrow> False)"

text \<open>
  \<open>PoolQueue.holder_bound\<close>: \<open>claim\<close> is the holder's claimed record when one could be read, and
  \<open>declared\<close> what \<open>_declared_run_bound\<close> read from its sealed request (\<open>None\<close> when that raised):
  what governs the run, and the total timeout it asks for.
\<close>

definition holder_bound ::
  "string \<Rightarrow> rat \<Rightarrow> obj option \<Rightarrow> (string option \<times> rat option) option \<Rightarrow> obj result" where
  "holder_bound key moment claim declared =
     (let unknown = [(''action_key'', JStr key), (''bound'', JStr ''unknown'')] in
      case claim of
        None \<Rightarrow> Inr unknown
      | Some c \<Rightarrow>
          if get ''action_key'' c \<noteq> JStr key then Inr unknown
          else (case stamp_value (get ''claimed_unix'' c) of
             Inl e \<Rightarrow> Inl e
           | Inr None \<Rightarrow> Inr unknown
           | Inr (Some claimed) \<Rightarrow>
               (case declared of
                  None \<Rightarrow> Inr unknown
                | Some (governed_by, requested) \<Rightarrow>
                    (let age = max 0 (moment - claimed);
                         bound =
                           (if requested = None \<and> governed_by \<in> {Some ''progress'', Some ''stall''}
                            then ''unbounded''
                            else if (case requested of None \<Rightarrow> False
                                     | Some r \<Rightarrow> claimed + r - moment < 0) then ''overdue''
                            else if age \<le> withhold_ceiling_s \<or>
                                    (case requested of None \<Rightarrow> False
                                     | Some r \<Rightarrow> claimed + r - moment \<le> withhold_ceiling_s)
                            then ''transient'' else ''long'') in
                     Inr [(''action_key'', JStr key), (''bound'', JStr bound),
                          (''age_s'', JFloat (Fin age)), (''claimed_unix'', JFloat (Fin claimed)),
                          (''governed_by'', optional_str governed_by),
                          (''requested_timeout_s'',
                             case requested of None \<Rightarrow> JNull | Some r \<Rightarrow> JFloat (Fin r))]))))"

fun cover :: "(string, int) dict \<Rightarrow> (string, int) dict \<Rightarrow> (string, int) dict result" where
  "cover covered [] = Inr covered"
| "cover covered ((kind, n) # counts) =
     (case map_of covered kind of
        None \<Rightarrow> Inl KeyError
      | Some m \<Rightarrow> cover (AList.update kind (m + n) covered) counts)"

definition add_holder ::
  "pending_drain \<Rightarrow> string \<Rightarrow> obj \<Rightarrow> (string, int) dict \<Rightarrow> drain_outcome + pending_drain" where
  "add_holder p holder bound counts =
     (let p1 = p\<lparr>pn_bounds := pn_bounds p @ [bound]\<rparr> in
      case item ''bound'' bound of
        Inl e \<Rightarrow> Inl (failed_drain p1 e)
      | Inr b \<Rightarrow>
          if b = JStr ''transient'' \<or>
             b = JStr ''unknown'' \<and> within_ceiling (pd_age (pn_prepared p))
          then
            (let p2 = p1\<lparr>pn_draining := pn_draining p1 @ [bound]\<rparr> in
             case cover (pn_covered p2) counts of
               Inl e \<Rightarrow> Inl (failed_drain p2 e)
             | Inr covered \<Rightarrow> Inr (p2\<lparr>pn_covered := covered\<rparr>))
          else
            Inr (p1\<lparr>pn_in_way := pn_in_way p1 @ [(''action_key'', JStr (take 12 holder)) #
              map (\<lambda>k. (k, get k bound)) [''bound'', ''age_s'', ''governed_by'', ''requested_timeout_s'']]\<rparr>))"

section \<open>The second half of an assessment\<close>

text \<open>The declared ends of the holders that have one; an infinite sum is dropped.\<close>

fun declared_ends :: "obj list \<Rightarrow> rat list result" where
  "declared_ends [] = Inr []"
| "declared_ends (b # bs) =
     (if is_number (get ''claimed_unix'' b) \<and> is_number (get ''requested_timeout_s'' b) then
        (case py_float (get ''claimed_unix'' b) of
           Inl e \<Rightarrow> Inl e
         | Inr (Fin claimed) \<Rightarrow>
             (case py_float (get ''requested_timeout_s'' b) of
                Inl e \<Rightarrow> Inl e
              | Inr (Fin timeout) \<Rightarrow>
                  (case declared_ends bs of
                     Inl e \<Rightarrow> Inl e
                   | Inr ends \<Rightarrow>
                       Inr (if \<bar>claimed + timeout\<bar> < float_max then (claimed + timeout) # ends else ends))
              | Inr _ \<Rightarrow> declared_ends bs)
         | Inr _ \<Rightarrow> declared_ends bs)
      else declared_ends bs)"

text \<open>The deadline of a measurement wait: the recorded one, or one that opens the episode now.\<close>

definition measurement_clock :: "pending_drain \<Rightarrow> (rat \<times> rat option) result" where
  "measurement_clock p =
     (let now = pd_now (pn_prepared p) in
      case pn_until p of
        Some u \<Rightarrow> Inr (u, pn_epoch p)
      | None \<Rightarrow>
          (case declared_ends (pn_bounds p) of
             Inl e \<Rightarrow> Inl e
           | Inr ends \<Rightarrow> Inr (fold max ends (now + withhold_ceiling_s), Some now)))"

definition measurement_verdict :: "pending_drain \<Rightarrow> rat \<Rightarrow> rat option \<Rightarrow> verdict \<Rightarrow> verdict" where
  "measurement_verdict p until epoch v =
     (let now = pd_now (pn_prepared p) in
      v\<lparr>v_withhold := now < until,
        v_why := Some (if now < until then ''draining_for_measurement''
                       else ''measurement_drain_expired''),
        v_measurement_key := Some (dq_key (pd_question (pn_prepared p))), v_until := Some until,
        v_episode_age := Some (now - (case epoch of None \<Rightarrow> now | Some t \<Rightarrow> t)),
        v_holders := Some (pn_bounds p)\<rparr>)"

definition finish_measurement :: "pending_drain \<Rightarrow> drain_outcome" where
  "finish_measurement p =
     (case measurement_clock p of
        Inl e \<Rightarrow> failed_drain p e
      | Inr (until, epoch) \<Rightarrow>
          complete (judge (measurement_verdict p until epoch)
            (put_note ''measurement_until_unix'' (Some until) (put_note ''epoch_unix'' epoch p))))"

definition finish_empty :: "pending_drain \<Rightarrow> drain_outcome" where
  "finish_empty p =
     (let prepared = pn_prepared p; now = pd_now prepared in
      if dq_mode (pd_question prepared) = ''exclusive'' then
        (case stamp prepared ''blocked_unix'' of
           Inl e \<Rightarrow> failed_drain p e
         | Inr blocked \<Rightarrow>
             if (case blocked of None \<Rightarrow> False
                 | Some t \<Rightarrow> now - t \<le> max_interval_s + max_sample_age_s)
             then complete (judge (\<lambda>v. v\<lparr>v_withhold := True, v_why := Some ''holder_tail''\<rparr>) p)
             else
               (let p1 = put_note ''foreign_unix'' (Some now) p;
                    p2 = (if pd_wait prepared then p1
                          else put_note ''expired_unix'' None (put_note ''epoch_unix'' None p1)) in
                complete (judge (\<lambda>v. v\<lparr>v_why := Some ''foreign_load''\<rparr>) p2)))
      else
        (let soon = within_ceiling (pd_age prepared) in
         complete (judge (\<lambda>v. v\<lparr>v_withhold := soon,
           v_why := Some (if soon then ''in_flight'' else ''unknown_past_ceiling'')\<rparr>) p)))"

definition drain_fits :: "pending_drain \<Rightarrow> bool" where
  "drain_fits p =
     (if dq_mode (pd_question (pn_prepared p)) \<in> {''exclusive'', ''gpu'', ''held_cpus''}
      then pn_in_way p = []
      else list_all (\<lambda>(kind, amount). dict_get (pn_covered p) kind 0 \<ge> amount) (pn_short p))"

fun refills_of :: "rat \<Rightarrow> rat option \<Rightarrow> obj list \<Rightarrow> obj list result" where
  "refills_of epoch expired [] = Inr []"
| "refills_of epoch expired (b # bs) =
     (if is_number (get ''claimed_unix'' b) then
        (case py_float (get ''claimed_unix'' b) of
           Inl e \<Rightarrow> Inl e
         | Inr claimed \<Rightarrow>
             (case refills_of epoch expired bs of
                Inl e \<Rightarrow> Inl e
              | Inr rest \<Rightarrow>
                  Inr (if float_less (Fin epoch) claimed \<and>
                          (case expired of None \<Rightarrow> True | Some t \<Rightarrow> float_less claimed (Fin t))
                       then b # rest else rest)))
      else refills_of epoch expired bs)"

text \<open>The names of the refills, cut to twelve characters; a key that is not text stays as it is.\<close>

fun refill_keys :: "obj list \<Rightarrow> json list result" where
  "refill_keys [] = Inr []"
| "refill_keys (b # bs) =
     (case item ''action_key'' b of
        Inl e \<Rightarrow> Inl e
      | Inr v \<Rightarrow>
          (case refill_keys bs of
             Inl e \<Rightarrow> Inl e
           | Inr ks \<Rightarrow> Inr ((case v of JStr s \<Rightarrow> JStr (take 12 s) | _ \<Rightarrow> v) # ks)))"

text \<open>The refill clock: when an episode of refills expires, and when it starts over.\<close>

definition refill_clock :: "rat \<Rightarrow> rat \<Rightarrow> rat option \<Rightarrow> bool \<Rightarrow> rat \<times> rat option" where
  "refill_clock now epoch expired refilled =
     (if expired \<noteq> None \<and> \<not> refilled then (now, None)
      else if expired = None \<and> refilled \<and> now - epoch > withhold_ceiling_s then (epoch, Some now)
      else (epoch, expired))"

definition refill_reading :: "pending_drain \<Rightarrow> (rat \<times> rat option \<times> obj list) result" where
  "refill_reading p =
     (case stamp (pn_prepared p) ''epoch_unix'' of
        Inl e \<Rightarrow> Inl e
      | Inr recorded \<Rightarrow>
          (case stamp (pn_prepared p) ''expired_unix'' of
             Inl e \<Rightarrow> Inl e
           | Inr expired \<Rightarrow>
               (let epoch = (case recorded of None \<Rightarrow> pd_now (pn_prepared p) | Some t \<Rightarrow> t) in
                case refills_of epoch expired (pn_draining p) of
                  Inl e \<Rightarrow> Inl e
                | Inr refills \<Rightarrow> Inr (epoch, expired, refills))))"

definition close_refills :: "pending_drain \<Rightarrow> rat \<Rightarrow> rat option \<Rightarrow> json list \<Rightarrow> drain_outcome" where
  "close_refills p epoch expired keys =
     (let p1 = judge (\<lambda>v. v\<lparr>v_episode_age := Some (pd_now (pn_prepared p) - epoch),
                 v_refills := Some keys\<rparr>) p in
      if expired \<noteq> None
      then complete (judge (\<lambda>v. v\<lparr>v_why := Some ''refilled_past_ceiling''\<rparr>) p1)
      else complete (judge (\<lambda>v. v\<lparr>v_withhold := True, v_why := Some ''drains_soon''\<rparr>) p1))"

definition finish_refills :: "pending_drain \<Rightarrow> drain_outcome" where
  "finish_refills p =
     (case refill_reading p of
        Inl e \<Rightarrow> failed_drain p e
      | Inr (epoch0, expired0, refills) \<Rightarrow>
          (case refill_clock (pd_now (pn_prepared p)) epoch0 expired0 (refills \<noteq> []) of
             (epoch, expired) \<Rightarrow>
               (let p1 = put_note ''expired_unix'' expired (put_note ''epoch_unix'' (Some epoch) p) in
                case refill_keys refills of
                  Inl e \<Rightarrow> failed_drain p1 e
                | Inr keys \<Rightarrow> close_refills p1 epoch expired keys)))"

definition finish_blocked :: "pending_drain \<Rightarrow> drain_outcome" where
  "finish_blocked p =
     (if drain_fits p then finish_refills p
      else complete (judge (\<lambda>v. v\<lparr>v_why := Some
             (if pn_in_way p = [] then ''holders_cannot_cover''
              else if list_all (\<lambda>e. get ''bound'' e = JStr ''unknown'') (pn_in_way p)
              then ''unknown_past_ceiling'' else ''holder_does_not_drain_soon'')\<rparr>)
             (put_note ''expired_unix'' None (put_note ''epoch_unix'' None p))))"

definition finish_drain :: "pending_drain \<Rightarrow> drain_outcome" where
  "finish_drain pending =
     (let prepared = pn_prepared pending;
          p0 = judge (\<lambda>v. v\<lparr>v_holders := Some (pn_in_way pending)\<rparr>) pending;
          busy = (pn_draining p0 \<noteq> [] \<or> pn_in_way p0 \<noteq> []);
          p = (if busy then put_note ''blocked_unix'' (Some (pd_now prepared)) p0 else p0) in
      if pd_wait prepared \<and> (pn_bounds p \<noteq> [] \<or> dq_mode (pd_question prepared) = ''tokens'')
      then finish_measurement p
      else if \<not> busy then finish_empty p
      else finish_blocked p)"

section \<open>The notes a pass leaves\<close>

fun note_fields ::
  "clock_notes \<Rightarrow> obj \<Rightarrow> string list \<Rightarrow> obj result" where
  "note_fields notes prior [] = Inr []"
| "note_fields notes prior (k # ks) =
     (case (case map_of notes k of Some v \<Rightarrow> Inr v | None \<Rightarrow> stamp_value (get k prior)) of
        Inl e \<Rightarrow> Inl e
      | Inr v \<Rightarrow>
          (case note_fields notes prior ks of
             Inl e \<Rightarrow> Inl e
           | Inr rest \<Rightarrow> Inr (case v of None \<Rightarrow> rest | Some q \<Rightarrow> (k, JFloat (Fin q)) # rest)))"

definition drain_note_fields :: "string list" where
  "drain_note_fields = [''blocked_unix'', ''foreign_unix'', ''epoch_unix'', ''expired_unix'']"

definition ordinary_note_fields :: "obj \<Rightarrow> clock_notes option \<Rightarrow> obj result" where
  "ordinary_note_fields prior notes =
     note_fields (case notes of None \<Rightarrow> [] | Some n \<Rightarrow> n) prior drain_note_fields"

definition measurement_episodes :: "obj \<Rightarrow> obj" where
  "measurement_episodes prior =
     (case get ''measurement_drains'' prior of JObj episodes \<Rightarrow> episodes | _ \<Rightarrow> [])"

text \<open>The deadline of an unmeasured baseline is kept closed: an unreadable one becomes zero.\<close>

definition unmeasured_field :: "clock_notes \<Rightarrow> obj \<Rightarrow> obj" where
  "unmeasured_field notes previous =
     (case map_of notes ''unmeasured_until_unix'' of
        Some v \<Rightarrow> [(''unmeasured_until_unix'', JFloat (Fin (case v of None \<Rightarrow> 0 | Some q \<Rightarrow> q)))]
      | None \<Rightarrow>
          if has_key ''unmeasured_until_unix'' previous then
            [(''unmeasured_until_unix'',
              JFloat (Fin (case stamp_value (get ''unmeasured_until_unix'' previous) of
                             Inr (Some q) \<Rightarrow> q | _ \<Rightarrow> 0)))]
          else [])"

definition measurement_note_fields ::
  "obj \<Rightarrow> (string \<times> string option \<times> clock_notes) option \<Rightarrow> obj result" where
  "measurement_note_fields episodes notes =
     (case notes of
        None \<Rightarrow> Inr (if episodes = [] then [] else [(''measurement_drains'', JObj episodes)])
      | Some (host, gen, updates) \<Rightarrow>
          (let previous = (case get host episodes of
                 JObj e \<Rightarrow> if get ''generation'' e = optional_str gen then e else []
               | _ \<Rightarrow> []) in
           case note_fields updates previous (drain_note_fields @ [''measurement_until_unix'']) of
             Inl e \<Rightarrow> Inl e
           | Inr entries \<Rightarrow>
               Inr [(''measurement_drains'', JObj (put host
                 (JObj ((''generation'', optional_str gen) # entries @ unmeasured_field updates previous))
                 episodes))]))"

definition pass_head :: "string \<Rightarrow> int \<Rightarrow> pyfloat \<Rightarrow> rat \<Rightarrow> obj" where
  "pass_head key passes first now =
     [(''action_key'', JStr key), (''passes'', JInt (passes + 1)), (''first_unix'', JFloat first),
      (''updated_unix'', JFloat (Fin now))]"

definition kept_reservation :: "obj \<Rightarrow> obj" where
  "kept_reservation prior =
     (if has_key ''measurement_reservation'' prior
      then [(''measurement_reservation'', get ''measurement_reservation'' prior)] else [])"

text \<open>\<open>PoolQueue.record_pass\<close>: the sidecar a refused row leaves for its next pass.\<close>

definition record_pass ::
  "string \<Rightarrow> rat \<Rightarrow> obj \<Rightarrow> drain_notes option \<Rightarrow> obj result" where
  "record_pass key now prior notes =
     (case (case get ''passes'' prior of
              JBool b \<Rightarrow> Inr (if b then 1 else 0) | v \<Rightarrow> read_passes v) of
        Inl e \<Rightarrow> Inl e
      | Inr passes \<Rightarrow>
     (case (case get ''first_unix'' prior of
              JBool b \<Rightarrow> Inr (Fin (if b then 1 else 0))
            | v \<Rightarrow> if is_number v then py_float v else Inr (Fin now)) of
        Inl e \<Rightarrow> Inl e
      | Inr first \<Rightarrow>
     (case ordinary_note_fields prior
             (case notes of Some (OrdinaryNotes n) \<Rightarrow> Some n | _ \<Rightarrow> None) of
        Inl e \<Rightarrow> Inl e
      | Inr ordinary \<Rightarrow>
     (case measurement_note_fields (measurement_episodes prior)
             (case notes of Some (MeasurementNotes h g n) \<Rightarrow> Some (h, g, n) | _ \<Rightarrow> None) of
        Inl e \<Rightarrow> Inl e
      | Inr measured \<Rightarrow>
          Inr (pass_head key passes first now @ ordinary @ measured @ kept_reservation prior)))))"

end
