(* ===== verification/Drain_Observe.thy ===== *)
theory Drain_Observe
  imports Drain_Policy Ledger_Census
begin

text \<open>
  One drain observation over a ledger (\<open>PoolQueue._observe_drain\<close>): the question is prepared from
  the sidecar the last pass left, the free tokens open it, every holder that is in the way is
  reduced in turn and the verdict is completed; \<open>record_pass\<close> keeps its clocks for the next
  pass. The theorems say when a row may hold the rows behind it back, and that the passes of one
  episode, in any number, end by the deadline the first of them recorded.
\<close>

section \<open>One observation\<close>

text \<open>What is read of a holder: its declared bound, and the CPUs it sits on.\<close>

record holder_reads =
  hr_bound :: "name \<Rightarrow> obj result"
  hr_cpus :: "name \<Rightarrow> int list result"

definition as_ints :: "(string, nat) dict \<Rightarrow> (string, int) dict" where
  "as_ints d = map (\<lambda>(k, n). (k, int n)) d"

definition token_counts_of :: "pending_drain \<Rightarrow> name \<Rightarrow> ledger \<Rightarrow> (string, int) dict" where
  "token_counts_of p k l =
     (let tokens = as_ints (holder_tokens k l) in
      map (\<lambda>(kind, _). (kind, dict_get tokens kind 0))
        (filter (\<lambda>(kind, _). dict_get tokens kind 0 \<noteq> 0) (pn_short p)))"

fun observe_holders ::
  "holder_reads \<Rightarrow> string \<Rightarrow> ledger \<Rightarrow> pending_drain \<Rightarrow> name list \<Rightarrow> drain_outcome" where
  "observe_holders r mode l p [] = finish_drain p"
| "observe_holders r mode l p (k # ks) =
     (let counts = (if mode = ''tokens'' then token_counts_of p k l else []);
          take = (case hr_bound r k of
                    Inl e \<Rightarrow> failed_drain p e
                  | Inr bound \<Rightarrow>
                      (case add_holder p k bound counts of
                         Inl out \<Rightarrow> out
                       | Inr p' \<Rightarrow> observe_holders r mode l p' ks)) in
      if mode = ''gpu'' \<and> \<not> holds_gpu k l then observe_holders r mode l p ks
      else if mode = ''held_cpus'' then
        (case hr_cpus r k of
           Inl e \<Rightarrow> failed_drain p e
         | Inr cpus \<Rightarrow>
             if set (pn_wanted_cpus p) \<inter> set cpus = {} then observe_holders r mode l p ks else take)
      else if mode = ''tokens'' \<and> counts = [] then observe_holders r mode l p ks
      else take)"

definition observe_drain ::
  "holder_reads \<Rightarrow> io \<Rightarrow> ledger \<Rightarrow> drain_question \<Rightarrow> obj \<Rightarrow> rat \<Rightarrow> string \<Rightarrow> obj option \<Rightarrow>
   drain_outcome result" where
  "observe_drain r io l q prior now host gpu_sample =
     (case prepare_drain q prior now host of
        Inl e \<Rightarrow> Inl e
      | Inr prepared \<Rightarrow>
          (case begin_drain prepared (as_ints (available io l)) gpu_sample of
             Inl out \<Rightarrow> Inr out
           | Inr p \<Rightarrow> Inr (observe_holders r (dq_mode q) l p (held_keys l))))"

section \<open>When a row may hold others back\<close>

definition withholds :: "drain_outcome \<Rightarrow> bool" where
  "withholds out = (case out of DrainAssessment v _ \<Rightarrow> v_withhold v | DrainFailure _ _ \<Rightarrow> False)"

lemma close_unmeasured_withhold: "v_withhold (close_unmeasured p) \<Longrightarrow> v_withhold (pn_verdict p)"
  by (auto simp: close_unmeasured_def Let_def split: if_splits option.splits)

lemma close_unmeasured_eligible [simp]:
  "v_eligible (close_unmeasured p) = v_eligible (pn_verdict p)"
  by (auto simp: close_unmeasured_def Let_def split: option.splits)

lemma complete_withholds: "withholds (complete p) \<Longrightarrow> v_withhold (pn_verdict p)"
  by (auto simp: withholds_def complete_def dest: close_unmeasured_withhold)

lemma failed_drain_open [simp]: "\<not> withholds (failed_drain p e)"
  by (auto simp: failed_drain_def judge_def withholds_def complete_def
      dest: close_unmeasured_withhold)

lemma judge_fields [simp]:
  "pn_prepared (judge f p) = pn_prepared p" "pn_until (judge f p) = pn_until p"
  "pn_unmeasured_until (judge f p) = pn_unmeasured_until p" "pn_notes (judge f p) = pn_notes p"
  "pn_verdict (judge f p) = f (pn_verdict p)" "pn_bounds (judge f p) = pn_bounds p"
  "pn_draining (judge f p) = pn_draining p" "pn_in_way (judge f p) = pn_in_way p"
  "pn_epoch (judge f p) = pn_epoch p" "pn_short (judge f p) = pn_short p"
  by (simp_all add: judge_def)

lemma put_note_fields [simp]:
  "pn_prepared (put_note k v p) = pn_prepared p" "pn_until (put_note k v p) = pn_until p"
  "pn_unmeasured_until (put_note k v p) = pn_unmeasured_until p"
  "pn_verdict (put_note k v p) = pn_verdict p" "pn_bounds (put_note k v p) = pn_bounds p"
  "pn_draining (put_note k v p) = pn_draining p" "pn_in_way (put_note k v p) = pn_in_way p"
  "pn_epoch (put_note k v p) = pn_epoch p" "pn_short (put_note k v p) = pn_short p"
  "pn_notes (put_note k v p) = AList.update k v (pn_notes p)"
  by (simp_all add: put_note_def)

lemma initial_fields [simp]:
  "pn_prepared (initial q) = q" "\<not> v_withhold (pn_verdict (initial q))" "pn_until (initial q) = None"
  "pn_unmeasured_until (initial q) = None" "pn_notes (initial q) = []"
  by (simp_all add: initial_def)

text \<open>What every pending assessment carries: an eligible row, no foreign load, live deadlines.\<close>

definition open_deadlines :: "pending_drain \<Rightarrow> bool" where
  "open_deadlines p \<longleftrightarrow>
     \<not> v_withhold (pn_verdict p) \<and>
     (pd_wait (pn_prepared p) \<longrightarrow>
        stamp (pn_prepared p) ''measurement_until_unix'' = Inr (pn_until p) \<and>
        (\<forall>u. pn_until p = Some u \<longrightarrow> pd_now (pn_prepared p) < u))"

lemma open_unmeasured_fields:
  "open_unmeasured p = (p', b) \<Longrightarrow>
   pn_prepared p' = pn_prepared p \<and> pn_verdict p' = pn_verdict p \<and> pn_until p' = pn_until p"
  by (auto simp: open_unmeasured_def Let_def split: if_splits sum.splits option.splits)

lemma open_wait_fields:
  "open_wait p = Inr p' \<Longrightarrow> pn_prepared p' = pn_prepared p \<and>
     v_withhold (pn_verdict p') = v_withhold (pn_verdict p) \<and>
     v_eligible (pn_verdict p') = v_eligible (pn_verdict p)"
  by (auto simp: open_wait_def Let_def split: if_splits prod.splits bool.splits
      dest!: open_unmeasured_fields)

lemma open_wait_open: "open_wait p = Inl out \<Longrightarrow> \<not> withholds out"
  by (auto simp: open_wait_def Let_def split: if_splits prod.splits bool.splits)

lemma open_holders_fields:
  "open_holders p = Inr p' \<Longrightarrow> pn_prepared p' = pn_prepared p \<and> pn_until p' = pn_until p \<and>
     pn_unmeasured_until p' = pn_unmeasured_until p \<and>
     v_withhold (pn_verdict p') = v_withhold (pn_verdict p) \<and>
     v_eligible (pn_verdict p') = v_eligible (pn_verdict p) \<and> pn_notes p' = pn_notes p"
  by (auto simp: open_holders_def Let_def split: if_splits option.splits)

lemma open_holders_open: "open_holders p = Inl out \<Longrightarrow> \<not> withholds out"
  by (auto simp: open_holders_def Let_def split: if_splits option.splits)

lemma open_clocks_fields:
  assumes "open_clocks p = Inr p'" "\<not> v_withhold (pn_verdict p)"
  shows "pn_prepared p' = pn_prepared p \<and> open_deadlines p' \<and>
    pn_unmeasured_until p' = pn_unmeasured_until p \<and>
    v_eligible (pn_verdict p') = v_eligible (pn_verdict p) \<and> pn_notes p' = pn_notes p"
  using assms
  by (auto simp: open_clocks_def Let_def open_deadlines_def split: if_splits sum.splits option.splits
      dest!: open_holders_fields)

lemma open_clocks_open: "open_clocks p = Inl out \<Longrightarrow> \<not> v_withhold (pn_verdict p) \<Longrightarrow> \<not> withholds out"
  by (auto simp: open_clocks_def Let_def split: if_splits sum.splits option.splits
      dest: open_holders_open complete_withholds)

lemma judge_foreign_fields:
  assumes "judge_foreign g p = Inr p'" "\<not> v_withhold (pn_verdict p)"
  shows "pn_prepared p' = pn_prepared p \<and> open_deadlines p' \<and> \<not> gr_foreign g \<and>
    pn_unmeasured_until p' = pn_unmeasured_until p \<and>
    v_eligible (pn_verdict p') = v_eligible (pn_verdict p)"
  using assms
  by (auto simp: judge_foreign_def Let_def withhold_ceiling_s_def
      split: if_splits sum.splits option.splits dest!: open_clocks_fields)

lemma judge_foreign_open:
  "judge_foreign g p = Inl out \<Longrightarrow> \<not> v_withhold (pn_verdict p) \<Longrightarrow> \<not> withholds out"
  by (auto simp: judge_foreign_def Let_def split: if_splits sum.splits option.splits
      dest: open_clocks_open complete_withholds)

text \<open>The deadline an unmeasured baseline stands under: the recorded one, or a new one.\<close>

definition unmeasured_deadline :: "prepared_drain \<Rightarrow> rat option" where
  "unmeasured_deadline prepared =
     (if has_key ''unmeasured_until_unix'' (pd_clocks prepared)
      then (case stamp prepared ''unmeasured_until_unix'' of Inr u \<Rightarrow> u | Inl _ \<Rightarrow> None)
      else Some (pd_now prepared + unmeasured_ceiling_s))"

lemma open_wait_unmeasured:
  "open_wait p = Inr p' \<Longrightarrow> pd_wait (pn_prepared p) \<Longrightarrow> dq_unmeasured (pd_question (pn_prepared p)) \<Longrightarrow>
   pn_unmeasured_until p' = unmeasured_deadline (pn_prepared p)"
  by (auto simp: open_wait_def open_unmeasured_def unmeasured_deadline_def Let_def
      split: if_splits sum.splits option.splits)

lemma open_short_fields [simp]:
  "pn_prepared (open_short prepared avail) = prepared"
  "\<not> v_withhold (pn_verdict (open_short prepared avail))"
  "pn_notes (open_short prepared avail) = []"
  by (auto simp: open_short_def Let_def initial_def)

lemma begin_drain_pending:
  assumes "begin_drain prepared avail sample = Inr p"
  shows "pn_prepared p = prepared \<and> open_deadlines p \<and> v_eligible (pn_verdict p) \<and>
    (\<exists>g. read_gpu prepared sample = Inr g \<and> \<not> gr_foreign g) \<and>
    (pd_wait prepared \<and> dq_unmeasured (pd_question prepared) \<longrightarrow>
       pn_unmeasured_until p = unmeasured_deadline prepared)"
proof -
  obtain g p1 p2 where g: "read_gpu prepared sample = Inr g"
    and p1: "p1 = judge (\<lambda>v. v\<lparr>v_eligible := True,
        v_gpu_first := Some (gpu_first prepared avail g)\<rparr>) (open_short prepared avail)"
    and p2: "open_wait p1 = Inr p2"
    and p: "judge_foreign g (if gr_foreign g then put_note ''foreign_unix'' (Some (pd_now prepared)) p2
              else p2) = Inr p"
    using assms
    by (simp add: begin_drain_def Let_def split: sum.splits if_splits)
  note wait = open_wait_fields [OF p2]
  have "pn_prepared p = prepared \<and> open_deadlines p \<and> \<not> gr_foreign g \<and>
      pn_unmeasured_until p = pn_unmeasured_until p2 \<and> v_eligible (pn_verdict p)"
    using judge_foreign_fields [OF p] wait p1 by auto
  moreover have "pd_wait prepared \<and> dq_unmeasured (pd_question prepared) \<longrightarrow>
      pn_unmeasured_until p2 = unmeasured_deadline prepared"
    using open_wait_unmeasured [OF p2] p1 by simp
  ultimately show ?thesis using g by auto
qed

lemma begin_drain_open:
  assumes "begin_drain prepared avail sample = Inl out"
  shows "\<not> withholds out"
  using assms
  by (auto simp: begin_drain_def Let_def split: sum.splits if_splits
      dest!: open_wait_fields complete_withholds dest: open_wait_open judge_foreign_open)

definition same_stance :: "pending_drain \<Rightarrow> pending_drain \<Rightarrow> bool" where
  "same_stance p p' \<longleftrightarrow>
     pn_prepared p' = pn_prepared p \<and> pn_verdict p' = pn_verdict p \<and> pn_until p' = pn_until p \<and>
     pn_unmeasured_until p' = pn_unmeasured_until p \<and> pn_notes p' = pn_notes p"

lemma same_stance_trans: "same_stance p p' \<Longrightarrow> same_stance p' p'' \<Longrightarrow> same_stance p p''"
  by (simp add: same_stance_def)

lemma add_holder_stance: "add_holder p k b c = Inr p' \<Longrightarrow> same_stance p p'"
  by (auto simp: add_holder_def Let_def same_stance_def split: sum.splits if_splits)

lemma add_holder_open: "add_holder p k b c = Inl out \<Longrightarrow> \<not> withholds out"
  by (auto simp: add_holder_def Let_def split: sum.splits if_splits)

definition ends_as :: "pending_drain \<Rightarrow> drain_outcome \<Rightarrow> bool" where
  "ends_as p out \<longleftrightarrow> (\<exists>p'. out = finish_drain p' \<and> same_stance p p') \<or> \<not> withholds out"

lemma ends_as_failed [simp]: "ends_as p (failed_drain p' e)"
  by (simp add: ends_as_def)

lemma ends_as_stance: "ends_as p' out \<Longrightarrow> same_stance p p' \<Longrightarrow> ends_as p out"
  using same_stance_trans by (auto simp: ends_as_def)

lemma ends_as_if: "ends_as p a \<Longrightarrow> ends_as p b \<Longrightarrow> ends_as p (if c then a else b)"
  by simp

lemma observe_holders_ends: "ends_as p (observe_holders r mode l p ks)"
proof (induction ks arbitrary: p)
  case Nil
  then show ?case by (auto simp: same_stance_def ends_as_def)
next
  case (Cons k ks)
  have add: "ends_as p (case add_holder p k bound counts of
      Inl out \<Rightarrow> out | Inr p' \<Rightarrow> observe_holders r mode l p' ks)" for bound counts
  proof (cases "add_holder p k bound counts")
    case (Inl out)
    then show ?thesis using add_holder_open [OF Inl] by (simp add: ends_as_def)
  next
    case (Inr p')
    then show ?thesis using ends_as_stance [OF Cons.IH add_holder_stance [OF Inr]] by simp
  qed
  have reduce: "ends_as p (case hr_bound r k of
      Inl e \<Rightarrow> failed_drain p e
    | Inr bound \<Rightarrow> (case add_holder p k bound counts of
        Inl out \<Rightarrow> out | Inr p' \<Rightarrow> observe_holders r mode l p' ks))" for counts
    using add by (cases "hr_bound r k") simp_all
  show ?case
    unfolding observe_holders.simps Let_def
    by (cases "hr_cpus r k"; simp only: sum.case; intro ends_as_if Cons.IH reduce ends_as_failed)
qed

text \<open>What a verdict that withholds was given for.\<close>

definition justified :: "prepared_drain \<Rightarrow> verdict \<Rightarrow> bool" where
  "justified prepared v \<longleftrightarrow>
     v_eligible v \<and>
     v_why v \<in> {Some ''draining_for_measurement'', Some ''holder_tail'', Some ''in_flight'',
                 Some ''drains_soon''} \<and>
     (v_why v = Some ''in_flight'' \<longrightarrow> within_ceiling (pd_age prepared)) \<and>
     (v_why v = Some ''drains_soon'' \<and> v_refills v \<noteq> Some [] \<longrightarrow>
        (\<exists>a. v_episode_age v = Some a \<and> a \<le> withhold_ceiling_s)) \<and>
     (pd_wait prepared \<and> dq_unmeasured (pd_question prepared) \<longrightarrow>
        (\<exists>d. unmeasured_deadline prepared = Some d \<and> pd_now prepared < d))"

lemma close_unmeasured_deadline:
  assumes "v_withhold (close_unmeasured p)" "pd_wait (pn_prepared p)"
    "dq_unmeasured (pd_question (pn_prepared p))"
  shows "\<exists>d. pn_unmeasured_until p = Some d \<and> pd_now (pn_prepared p) < d"
  using assms by (auto simp: close_unmeasured_def Let_def split: if_splits option.splits)

lemma close_unmeasured_kept:
  assumes "v_withhold (close_unmeasured p)"
  shows "v_why (close_unmeasured p) = v_why (pn_verdict p)"
    "v_episode_age (close_unmeasured p) = v_episode_age (pn_verdict p)"
    "v_refills (close_unmeasured p) = v_refills (pn_verdict p)"
  using assms by (auto simp: close_unmeasured_def Let_def split: if_splits option.splits)

lemma refill_keys_empty: "refill_keys bs = Inr [] \<longleftrightarrow> bs = []"
  by (cases bs) (auto split: sum.splits)

lemma complete_justified:
  assumes "complete p = DrainAssessment v ns" "v_withhold v"
    "pn_prepared p = prepared" "v_eligible (pn_verdict p)"
    "v_why (pn_verdict p) \<in> {Some ''draining_for_measurement'', Some ''holder_tail'',
       Some ''in_flight'', Some ''drains_soon''}"
    "v_why (pn_verdict p) = Some ''in_flight'' \<longrightarrow> within_ceiling (pd_age prepared)"
    "v_why (pn_verdict p) = Some ''drains_soon'' \<and> v_refills (pn_verdict p) \<noteq> Some [] \<longrightarrow>
       (\<exists>a. v_episode_age (pn_verdict p) = Some a \<and> a \<le> withhold_ceiling_s)"
    "pd_wait prepared \<and> dq_unmeasured (pd_question prepared) \<longrightarrow>
       pn_unmeasured_until p = unmeasured_deadline prepared"
  shows "justified prepared v"
proof -
  have v: "v = close_unmeasured p" using assms(1) by (simp add: complete_def)
  have w: "v_withhold (close_unmeasured p)" using assms(2) v by simp
  show ?thesis
    using assms(3-8) close_unmeasured_kept [OF w] close_unmeasured_deadline [OF w]
    unfolding v justified_def by auto
qed

lemma complete_open: "complete p = DrainAssessment v ns \<Longrightarrow> \<not> v_withhold (pn_verdict p) \<Longrightarrow> \<not> v_withhold v"
  using complete_withholds [of p] by (auto simp: withholds_def)

lemma failed_not: "failed_drain p e = DrainAssessment v ns \<Longrightarrow> \<not> v_withhold v"
  using failed_drain_open [of p e] by (simp add: withholds_def)

text \<open>A pending assessment that nothing speaks against yet.\<close>

definition sound_pending :: "pending_drain \<Rightarrow> bool" where
  "sound_pending p \<longleftrightarrow>
     \<not> v_withhold (pn_verdict p) \<and> v_eligible (pn_verdict p) \<and>
     (pd_wait (pn_prepared p) \<and> dq_unmeasured (pd_question (pn_prepared p)) \<longrightarrow>
        pn_unmeasured_until p = unmeasured_deadline (pn_prepared p))"

lemma sound_pending_note [simp]: "sound_pending (put_note k v p) = sound_pending p"
  by (simp add: sound_pending_def)

lemma complete_judge_justified:
  assumes "complete (judge f p) = DrainAssessment v ns" "v_withhold v" "sound_pending p"
    "v_eligible (f (pn_verdict p)) = v_eligible (pn_verdict p)"
    "v_withhold (f (pn_verdict p)) \<Longrightarrow>
       v_why (f (pn_verdict p)) \<in> {Some ''draining_for_measurement'', Some ''holder_tail'',
         Some ''in_flight'', Some ''drains_soon''} \<and>
       (v_why (f (pn_verdict p)) = Some ''in_flight'' \<longrightarrow> within_ceiling (pd_age (pn_prepared p))) \<and>
       (v_why (f (pn_verdict p)) = Some ''drains_soon'' \<and> v_refills (f (pn_verdict p)) \<noteq> Some [] \<longrightarrow>
         (\<exists>a. v_episode_age (f (pn_verdict p)) = Some a \<and> a \<le> withhold_ceiling_s))"
  shows "justified (pn_prepared p) v"
proof -
  have on: "v_withhold (f (pn_verdict p))"
    using assms(1,2) complete_open by force
  show ?thesis
    by (rule complete_justified [OF assms(1,2)])
      (use assms(3,4) assms(5) [OF on] in \<open>auto simp: sound_pending_def\<close>)
qed

lemma finish_measurement_justified:
  assumes "finish_measurement p = DrainAssessment v ns" "v_withhold v" "sound_pending p"
  shows "justified (pn_prepared p) v"
proof (cases "measurement_clock p")
  case (Inl e)
  then show ?thesis using assms(1,2) failed_not by (auto simp: finish_measurement_def)
next
  case (Inr clock)
  obtain until epoch where clock: "clock = (until, epoch)" by (cases clock)
  define p1 where "p1 = put_note ''measurement_until_unix'' (Some until) (put_note ''epoch_unix'' epoch p)"
  have form: "complete (judge (measurement_verdict p until epoch) p1) = DrainAssessment v ns"
    using assms(1) Inr clock by (simp add: finish_measurement_def p1_def)
  have "justified (pn_prepared p1) v"
    by (rule complete_judge_justified [OF form assms(2)])
      (use assms(3) in \<open>auto simp: p1_def measurement_verdict_def Let_def split: if_splits\<close>)
  then show ?thesis by (simp add: p1_def)
qed

lemma finish_empty_justified:
  assumes "finish_empty p = DrainAssessment v ns" "v_withhold v" "sound_pending p"
  shows "justified (pn_prepared p) v"
proof -
  consider (tail) "complete (judge (\<lambda>v. v\<lparr>v_withhold := True, v_why := Some ''holder_tail''\<rparr>) p)
      = DrainAssessment v ns"
    | (flight) soon where "complete (judge (\<lambda>v. v\<lparr>v_withhold := soon,
           v_why := Some (if soon then ''in_flight'' else ''unknown_past_ceiling'')\<rparr>) p)
      = DrainAssessment v ns" "soon = within_ceiling (pd_age (pn_prepared p))"
    | (load) p' where "complete (judge (\<lambda>v. v\<lparr>v_why := Some ''foreign_load''\<rparr>) p') = DrainAssessment v ns"
        "\<not> v_withhold (pn_verdict p')"
    | (failed) e where "failed_drain p e = DrainAssessment v ns"
    using assms(1,3)
    by (auto simp: finish_empty_def Let_def sound_pending_def split: sum.splits if_splits)
  then show ?thesis
  proof cases
    case tail
    show ?thesis by (rule complete_judge_justified [OF tail assms(2,3)]) auto
  next
    case flight
    show ?thesis
      by (rule complete_judge_justified [OF flight(1) assms(2,3)])
        (use flight(2) in \<open>auto split: if_splits\<close>)
  next
    case load
    then show ?thesis using complete_open [OF load(1)] assms(2) by simp
  next
    case failed
    then show ?thesis using failed_not assms(2) by blast
  qed
qed

lemma refill_clock_live:
  "refill_clock now epoch0 expired0 refilled = (epoch, None) \<Longrightarrow> refilled \<Longrightarrow>
   epoch = epoch0 \<and> now - epoch \<le> withhold_ceiling_s"
  by (auto simp: refill_clock_def split: if_splits)

lemma close_refills_justified:
  assumes "close_refills p epoch expired keys = DrainAssessment v ns" "v_withhold v" "sound_pending p"
    "expired = None \<Longrightarrow> keys \<noteq> [] \<Longrightarrow> pd_now (pn_prepared p) - epoch \<le> withhold_ceiling_s"
  shows "justified (pn_prepared p) v"
proof -
  define p1 where "p1 = judge (\<lambda>v. v\<lparr>v_episode_age := Some (pd_now (pn_prepared p) - epoch),
         v_refills := Some keys\<rparr>) p"
  have sound: "sound_pending p1" using assms(3) by (simp add: p1_def sound_pending_def)
  have live: "expired = None"
    using assms(1-3) complete_open
    by (force simp: close_refills_def Let_def sound_pending_def split: if_splits)
  then have form: "complete (judge (\<lambda>v. v\<lparr>v_withhold := True, v_why := Some ''drains_soon''\<rparr>) p1)
      = DrainAssessment v ns"
    using assms(1) by (simp add: close_refills_def p1_def)
  have "justified (pn_prepared p1) v"
    by (rule complete_judge_justified [OF form assms(2) sound])
      (use assms(4) live in \<open>auto simp: p1_def\<close>)
  then show ?thesis by (simp add: p1_def)
qed

lemma finish_refills_justified:
  assumes "finish_refills p = DrainAssessment v ns" "v_withhold v" "sound_pending p"
  shows "justified (pn_prepared p) v"
proof -
  obtain epoch0 expired0 refills where r: "refill_reading p = Inr (epoch0, expired0, refills)"
    using assms(1,2) failed_not by (auto simp: finish_refills_def split: sum.splits)
  obtain epoch expired where clock:
    "refill_clock (pd_now (pn_prepared p)) epoch0 expired0 (refills \<noteq> []) = (epoch, expired)"
    by (cases "refill_clock (pd_now (pn_prepared p)) epoch0 expired0 (refills \<noteq> [])")
  define p1 where "p1 = put_note ''expired_unix'' expired (put_note ''epoch_unix'' (Some epoch) p)"
  obtain keys where keys: "refill_keys refills = Inr keys"
    and form: "close_refills p1 epoch expired keys = DrainAssessment v ns"
    using assms(1,2) failed_not by (auto simp: finish_refills_def r clock p1_def Let_def split: sum.splits)
  have "justified (pn_prepared p1) v"
  proof (rule close_refills_justified [OF form assms(2)])
    show "sound_pending p1" using assms(3) by (simp add: p1_def)
    assume "expired = None" "keys \<noteq> []"
    then show "pd_now (pn_prepared p1) - epoch \<le> withhold_ceiling_s"
      using refill_clock_live clock keys refill_keys_empty [of refills] by (auto simp: p1_def)
  qed
  then show ?thesis by (simp add: p1_def)
qed

lemma finish_blocked_justified:
  assumes "finish_blocked p = DrainAssessment v ns" "v_withhold v" "sound_pending p"
  shows "justified (pn_prepared p) v"
proof (cases "drain_fits p")
  case True
  then show ?thesis using assms finish_refills_justified by (simp add: finish_blocked_def)
next
  case False
  then show ?thesis
    using assms complete_open by (force simp: finish_blocked_def sound_pending_def)
qed

lemma finish_drain_justified:
  assumes "finish_drain p = DrainAssessment v ns" "v_withhold v" "sound_pending p"
  shows "justified (pn_prepared p) v"
proof -
  define p0 where "p0 = judge (\<lambda>v. v\<lparr>v_holders := Some (pn_in_way p)\<rparr>) p"
  define p1 where "p1 = (if pn_draining p0 \<noteq> [] \<or> pn_in_way p0 \<noteq> []
    then put_note ''blocked_unix'' (Some (pd_now (pn_prepared p))) p0 else p0)"
  have sound: "sound_pending p1" using assms(3) by (simp add: p1_def p0_def sound_pending_def)
  have same: "pn_prepared p1 = pn_prepared p" by (simp add: p1_def p0_def)
  have "finish_measurement p1 = DrainAssessment v ns \<or> finish_empty p1 = DrainAssessment v ns \<or>
      finish_blocked p1 = DrainAssessment v ns"
    using assms(1) by (auto simp: finish_drain_def Let_def p0_def p1_def split: if_splits)
  then show ?thesis
    using finish_measurement_justified finish_empty_justified finish_blocked_justified
      assms(2) sound same by metis
qed

lemma read_gpu_foreign:
  assumes "read_gpu prepared sample = Inr g" "\<not> gr_foreign g"
  shows "\<not> dq_foreign (pd_question prepared) \<and>
    (dict_get (dq_need (pd_question prepared)) ''gpu'' 0 \<noteq> 0 \<longrightarrow>
       (\<forall>s. sample = Some s \<longrightarrow> sample_foreign s \<noteq> Foreign_Present))"
  using assms
  by (auto simp: read_gpu_def Let_def split: option.splits if_splits foreign_processes.splits sum.splits)

lemma prepare_drain_question:
  "prepare_drain q prior now host = Inr prepared \<Longrightarrow>
   pd_question prepared = q \<and> pd_now prepared = now \<and> pd_host prepared = host \<and>
   pd_wait prepared = (dq_measurement q \<and> (dq_mode q = ''exclusive'' \<or> dq_mode q = ''tokens'')) \<and>
   (pd_wait prepared \<longrightarrow> pd_clocks prepared = episode_clocks prior host (dq_generation q))"
  by (auto simp: prepare_drain_def Let_def split: sum.splits)


section \<open>An episode over many passes\<close>

record pass_input =
  pi_reads :: holder_reads
  pi_io :: io
  pi_ledger :: ledger
  pi_question :: drain_question
  pi_now :: rat
  pi_host :: string
  pi_sample :: "obj option"
  pi_counted :: bool
  pi_counted_at :: rat

definition outcome_notes :: "drain_outcome \<Rightarrow> drain_notes option" where
  "outcome_notes out = (case out of DrainAssessment _ n \<Rightarrow> n | DrainFailure _ n \<Rightarrow> n)"

text \<open>One pass over a refused row: the observation, and the sidecar when the pass is counted.\<close>

definition run_pass :: "string \<Rightarrow> pass_input \<Rightarrow> obj \<Rightarrow> (drain_outcome \<times> obj) result" where
  "run_pass key x prior =
     (case observe_drain (pi_reads x) (pi_io x) (pi_ledger x) (pi_question x) prior (pi_now x)
        (pi_host x) (pi_sample x) of
        Inl e \<Rightarrow> Inl e
      | Inr out \<Rightarrow>
          if pi_counted x then
            (case record_pass key (pi_counted_at x) prior (outcome_notes out) of
               Inl e \<Rightarrow> Inl e
             | Inr prior' \<Rightarrow> Inr (out, prior'))
          else Inr (out, prior))"

fun run_passes :: "string \<Rightarrow> pass_input list \<Rightarrow> obj \<Rightarrow> obj result" where
  "run_passes key [] prior = Inr prior"
| "run_passes key (x # xs) prior =
     (case run_pass key x prior of
        Inl e \<Rightarrow> Inl e
      | Inr (_, prior') \<Rightarrow> run_passes key xs prior')"

definition recorded_until :: "obj \<Rightarrow> string \<Rightarrow> string option \<Rightarrow> rat option result" where
  "recorded_until prior host gen =
     stamp_value (get ''measurement_until_unix'' (episode_clocks prior host gen))"

definition noted :: "drain_outcome \<Rightarrow> clock_notes" where
  "noted out = (case outcome_notes out of
       None \<Rightarrow> [] | Some (OrdinaryNotes n) \<Rightarrow> n | Some (MeasurementNotes _ _ n) \<Rightarrow> n)"

lemma noted_complete [simp]: "noted (complete p) = pn_notes p"
  by (simp add: noted_def outcome_notes_def complete_def final_notes_def)

lemma noted_failed [simp]: "noted (failed_drain p e) = pn_notes p"
  by (simp add: failed_drain_def) (simp add: noted_def outcome_notes_def final_notes_def)

text \<open>Notes that leave the deadline of a measurement wait alone.\<close>

abbreviation keeps_until :: "clock_notes \<Rightarrow> bool" where
  "keeps_until n \<equiv> map_of n ''measurement_until_unix'' = None"

lemma keeps_until_put [simp]:
  "k \<noteq> ''measurement_until_unix'' \<Longrightarrow>
   keeps_until (AList.update k v n) = keeps_until n"
  by (simp add: update_conv')

lemma open_unmeasured_keeps:
  "open_unmeasured p = (p', b) \<Longrightarrow> keeps_until (pn_notes p) \<Longrightarrow> keeps_until (pn_notes p')"
  by (auto simp: open_unmeasured_def Let_def split: if_splits sum.splits option.splits)

lemma open_wait_keeps:
  "open_wait p = Inr p' \<Longrightarrow> keeps_until (pn_notes p) \<Longrightarrow> keeps_until (pn_notes p')"
  "open_wait p = Inl out \<Longrightarrow> keeps_until (pn_notes p) \<Longrightarrow> keeps_until (noted out)"
  by (auto simp: open_wait_def Let_def split: if_splits prod.splits bool.splits
      dest!: open_unmeasured_keeps)

lemma open_holders_keeps:
  "open_holders p = Inl out \<Longrightarrow> keeps_until (pn_notes p) \<Longrightarrow> keeps_until (noted out)"
  by (auto simp: open_holders_def Let_def split: if_splits option.splits)

lemma open_clocks_keeps:
  "open_clocks p = Inr p' \<Longrightarrow> keeps_until (pn_notes p) \<Longrightarrow> keeps_until (pn_notes p')"
  "open_clocks p = Inl out \<Longrightarrow> keeps_until (pn_notes p) \<Longrightarrow> keeps_until (noted out)"
  by (auto simp: open_clocks_def Let_def split: if_splits sum.splits option.splits
      dest!: open_holders_fields open_holders_keeps)

lemma judge_foreign_keeps:
  "judge_foreign g p = Inr p' \<Longrightarrow> keeps_until (pn_notes p) \<Longrightarrow> keeps_until (pn_notes p')"
  "judge_foreign g p = Inl out \<Longrightarrow> keeps_until (pn_notes p) \<Longrightarrow> keeps_until (noted out)"
  by (auto simp: judge_foreign_def Let_def split: if_splits sum.splits option.splits
      dest!: open_clocks_keeps)

lemma begin_drain_keeps:
  "begin_drain prepared avail sample = Inr p \<Longrightarrow> keeps_until (pn_notes p)"
  "begin_drain prepared avail sample = Inl out \<Longrightarrow> keeps_until (noted out)"
  by (auto simp: begin_drain_def Let_def split: if_splits sum.splits
      dest!: open_wait_keeps judge_foreign_keeps)

text \<open>The notes of a whole observation: the deadline is left alone or written as it was read.\<close>

definition repeats_until :: "rat \<Rightarrow> clock_notes \<Rightarrow> bool" where
  "repeats_until u n \<longleftrightarrow> map_of n ''measurement_until_unix'' \<in> {None, Some (Some u)}"

lemma finish_measurement_repeats:
  "keeps_until (pn_notes p) \<Longrightarrow> pn_until p = Some u \<Longrightarrow> repeats_until u (noted (finish_measurement p))"
  by (auto simp: finish_measurement_def measurement_clock_def repeats_until_def update_conv'
      split: sum.splits)

lemma finish_rest_keeps:
  "keeps_until (pn_notes p) \<Longrightarrow> keeps_until (noted (finish_empty p))"
  "keeps_until (pn_notes p) \<Longrightarrow> keeps_until (noted (finish_blocked p))"
  by (auto simp: finish_empty_def finish_blocked_def finish_refills_def close_refills_def Let_def
      split: sum.splits prod.splits)

lemma finish_drain_repeats:
  assumes "keeps_until (pn_notes p)" "pd_wait (pn_prepared p) \<Longrightarrow> pn_until p = Some u"
  shows "repeats_until u (noted (finish_drain p))"
proof -
  define p0 where "p0 = judge (\<lambda>v. v\<lparr>v_holders := Some (pn_in_way p)\<rparr>) p"
  define p1 where "p1 = (if pn_draining p0 \<noteq> [] \<or> pn_in_way p0 \<noteq> []
    then put_note ''blocked_unix'' (Some (pd_now (pn_prepared p))) p0 else p0)"
  have p1: "keeps_until (pn_notes p1)" "pn_until p1 = pn_until p"
    using assms(1) by (simp_all add: p1_def p0_def)
  have "finish_drain p = finish_empty p1 \<or> finish_drain p = finish_blocked p1 \<or>
      pd_wait (pn_prepared p) \<and> finish_drain p = finish_measurement p1"
    by (auto simp: finish_drain_def Let_def p0_def p1_def)
  then show ?thesis
    using finish_measurement_repeats [OF p1(1)] finish_rest_keeps [OF p1(1)] p1(2) assms(2)
    by (auto simp: repeats_until_def)
qed

lemma add_holder_keeps:
  "add_holder p k b c = Inl out \<Longrightarrow> noted out = pn_notes p"
  by (auto simp: add_holder_def Let_def split: sum.splits if_splits)

lemma observe_holders_repeats:
  assumes "keeps_until (pn_notes p)" "pd_wait (pn_prepared p) \<Longrightarrow> pn_until p = Some u"
  shows "repeats_until u (noted (observe_holders r mode l p ks))"
  using assms
proof (induction ks arbitrary: p)
  case Nil
  then show ?case by (simp add: finish_drain_repeats)
next
  case (Cons k ks)
  have add: "repeats_until u (noted (case add_holder p k bound counts of
      Inl out \<Rightarrow> out | Inr p' \<Rightarrow> observe_holders r mode l p' ks))" for bound counts
  proof (cases "add_holder p k bound counts")
    case (Inl out)
    then show ?thesis using add_holder_keeps [OF Inl] Cons.prems(1) by (simp add: repeats_until_def)
  next
    case (Inr p')
    have "repeats_until u (noted (observe_holders r mode l p' ks))"
      by (rule Cons.IH) (use add_holder_stance [OF Inr] Cons.prems in \<open>simp_all add: same_stance_def\<close>)
    with Inr show ?thesis by simp
  qed
  have failed: "repeats_until u (noted (failed_drain p e))" for e
    using Cons.prems(1) by (simp add: repeats_until_def)
  have reduce: "repeats_until u (noted (case hr_bound r k of
      Inl e \<Rightarrow> failed_drain p e
    | Inr bound \<Rightarrow> (case add_holder p k bound counts of
        Inl out \<Rightarrow> out | Inr p' \<Rightarrow> observe_holders r mode l p' ks)))" for counts
    using add failed by (cases "hr_bound r k") simp_all
  note skip = Cons.IH [OF Cons.prems]
  have pick: "repeats_until u (noted a) \<Longrightarrow> repeats_until u (noted b) \<Longrightarrow>
      repeats_until u (noted (if c then a else b))" for a b c by simp
  show ?case
    unfolding observe_holders.simps Let_def
    by (cases "hr_cpus r k"; simp only: sum.case; intro pick skip reduce failed)
qed

lemma observe_drain_repeats:
  assumes "observe_drain r io l q prior now host sample = Inr out"
    "recorded_until prior host (dq_generation q) = Inr (Some u)"
  shows "repeats_until u (noted out)"
proof -
  obtain prepared where prepared: "prepare_drain q prior now host = Inr prepared"
    using assms(1) by (auto simp: observe_drain_def split: sum.splits)
  show ?thesis
  proof (cases "begin_drain prepared (as_ints (available io l)) sample")
    case (Inl out')
    then show ?thesis
      using assms(1) prepared begin_drain_keeps(2) [OF Inl]
      by (simp add: observe_drain_def repeats_until_def)
  next
    case (Inr p)
    have "pd_wait (pn_prepared p) \<Longrightarrow> pn_until p = Some u"
      using begin_drain_pending [OF Inr] prepare_drain_question [OF prepared] assms(2)
      by (auto simp: open_deadlines_def stamp_def recorded_until_def)
    then show ?thesis
      using assms(1) prepared Inr
        observe_holders_repeats [OF begin_drain_keeps(1) [OF Inr], of u r "dq_mode q" l "held_keys l"]
      by (simp add: observe_drain_def)
  qed
qed

subsection \<open>What the sidecar reads back\<close>

lemma note_fields_keys: "note_fields n prior ks = Inr d \<Longrightarrow> x \<in> set d \<Longrightarrow> fst x \<in> set ks"
  by (induction ks arbitrary: d) (auto split: sum.splits option.splits)

lemma note_fields_none: "note_fields n prior ks = Inr d \<Longrightarrow> k \<notin> set ks \<Longrightarrow> map_of d k = None"
  by (auto simp: map_of_eq_None_iff dest: note_fields_keys)

lemma note_fields_keep:
  assumes "note_fields n prior ks = Inr d" "k \<in> set ks"
    "(case map_of n k of Some v \<Rightarrow> Inr v | None \<Rightarrow> stamp_value (get k prior)) = Inr (Some u)"
  shows "map_of d k = Some (JFloat (Fin u))"
  using assms
proof (induction ks arbitrary: d)
  case Nil
  then show ?case by simp
next
  case (Cons a ks)
  obtain v rest where v: "(case map_of n a of Some v \<Rightarrow> Inr v | None \<Rightarrow> stamp_value (get a prior)) = Inr v"
    and rest: "note_fields n prior ks = Inr rest"
    and d: "d = (case v of None \<Rightarrow> rest | Some q \<Rightarrow> (a, JFloat (Fin q)) # rest)"
    using Cons.prems(1) by (auto split: sum.splits)
  show ?case
  proof (cases "k = a")
    case True
    then have "v = Some u" using v Cons.prems(3) unfolding True by simp
    then show ?thesis using d True by simp
  next
    case False
    then show ?thesis using Cons.IH [OF rest] Cons.prems(2,3) d by (cases v) auto
  qed
qed

lemma stamp_value_finite [simp]: "stamp_value (JFloat (Fin q)) = Inr (Some q)"
  by (simp add: stamp_value_def)

lemma get_append_map: "get k (d @ e) = (case map_of d k of Some v \<Rightarrow> v | None \<Rightarrow> get k e)"
  by (auto simp: get_def dict_get_def map_add_def split: option.splits)

lemma record_pass_drains:
  assumes "record_pass key now prior notes = Inr prior'"
  obtains measured where
    "measurement_note_fields (measurement_episodes prior)
       (case notes of Some (MeasurementNotes h g n) \<Rightarrow> Some (h, g, n) | _ \<Rightarrow> None) = Inr measured"
    "get ''measurement_drains'' prior' = get ''measurement_drains'' measured"
proof -
  obtain passes first ordinary measured where
    m: "measurement_note_fields (measurement_episodes prior)
       (case notes of Some (MeasurementNotes h g n) \<Rightarrow> Some (h, g, n) | _ \<Rightarrow> None) = Inr measured"
    and ord: "ordinary_note_fields prior
       (case notes of Some (OrdinaryNotes n) \<Rightarrow> Some n | _ \<Rightarrow> None) = Inr ordinary"
    and prior': "prior' = pass_head key passes first now @ ordinary @ measured @ kept_reservation prior"
    using assms unfolding record_pass_def by (auto split: sum.split_asm)
  have "map_of ordinary ''measurement_drains'' = None"
    by (rule note_fields_none [OF ord [unfolded ordinary_note_fields_def]])
      (simp add: drain_note_fields_def)
  moreover have "map_of (pass_head key passes first now) ''measurement_drains'' = None"
    by (simp add: pass_head_def)
  ultimately have "get ''measurement_drains'' prior' = get ''measurement_drains'' (measured @ kept_reservation prior)"
    by (simp add: prior' get_append_map)
  also have "\<dots> = get ''measurement_drains'' measured"
    by (simp add: get_append_map kept_reservation_def) (simp add: get_def dict_get_def split: option.splits)
  finally show ?thesis using that m by blast
qed

lemma record_pass_until:
  assumes "record_pass key now prior notes = Inr prior'"
    "recorded_until prior host gen = Inr (Some u)"
    "\<And>g n. notes = Some (MeasurementNotes host g n) \<Longrightarrow> g = gen \<and> repeats_until u n"
  shows "recorded_until prior' host gen = Inr (Some u)"
proof -
  obtain episodes where episodes: "get ''measurement_drains'' prior = JObj episodes"
    using assms(2)
    by (cases "get ''measurement_drains'' prior")
      (auto simp: recorded_until_def episode_clocks_def stamp_value_def get_def dict_get_def)
  then have same: "measurement_episodes prior = episodes" by (simp add: measurement_episodes_def)
  obtain measured where m: "measurement_note_fields episodes
       (case notes of Some (MeasurementNotes h g n) \<Rightarrow> Some (h, g, n) | _ \<Rightarrow> None) = Inr measured"
    and drains: "get ''measurement_drains'' prior' = get ''measurement_drains'' measured"
    using record_pass_drains [OF assms(1)] unfolding same .
  have some: "episodes \<noteq> []"
    using assms(2) episodes
    by (auto simp: recorded_until_def episode_clocks_def stamp_value_def get_def dict_get_def)
  show ?thesis
  proof (cases "\<exists>h g n. notes = Some (MeasurementNotes h g n)")
    case False
    then have "measured = [(''measurement_drains'', JObj episodes)]"
      using m some
      by (auto simp: measurement_note_fields_def split: option.splits drain_notes.splits)
    then show ?thesis
      using drains assms(2) episodes
      by (simp add: recorded_until_def episode_clocks_def get_def dict_get_def)
  next
    case True
    then obtain h g n where staged: "notes = Some (MeasurementNotes h g n)" by blast
    define previous where "previous = (case get h episodes of
        JObj e \<Rightarrow> if get ''generation'' e = optional_str g then e else [] | _ \<Rightarrow> [])"
    obtain entries where entries: "note_fields n previous (drain_note_fields @ [''measurement_until_unix'']) = Inr entries"
      and new: "measured = [(''measurement_drains'', JObj (put h
          (JObj ((''generation'', optional_str g) # entries @ unmeasured_field n previous)) episodes))]"
      using m by (auto simp: staged measurement_note_fields_def previous_def Let_def split: sum.splits)
    have drains': "get ''measurement_drains'' prior' = JObj (put h
          (JObj ((''generation'', optional_str g) # entries @ unmeasured_field n previous)) episodes)"
      unfolding drains new by (simp add: get_def dict_get_def)
    show ?thesis
    proof (cases "h = host")
      case False
      then have "episode_clocks prior' host gen = episode_clocks prior host gen"
        by (simp add: episode_clocks_def drains' episodes)
      then show ?thesis using assms(2) by (simp add: recorded_until_def)
    next
      case True
      then have g: "g = gen" and rep: "repeats_until u n" using assms(3) staged by auto
      have prev: "previous = episode_clocks prior host gen"
        unfolding previous_def episode_clocks_def episodes True g by simp
      have "(case map_of n ''measurement_until_unix'' of Some v \<Rightarrow> Inr v
          | None \<Rightarrow> stamp_value (get ''measurement_until_unix'' previous)) = Inr (Some u)"
        using rep assms(2) by (auto simp: repeats_until_def prev recorded_until_def split: option.splits)
      then have "map_of entries ''measurement_until_unix'' = Some (JFloat (Fin u))"
        by (intro note_fields_keep [OF entries]) simp_all
      moreover have "episode_clocks prior' host gen =
          (''generation'', optional_str g) # entries @ unmeasured_field n previous"
        by (simp add: episode_clocks_def drains' True g) (simp add: get_def dict_get_def)
      ultimately show ?thesis
        by (simp add: recorded_until_def get_def dict_get_def map_add_def)
    qed
  qed
qed

lemma outcome_notes_shape:
  "outcome_notes (complete p) = final_notes p" "outcome_notes (failed_drain p e) = final_notes p"
  by (simp_all add: outcome_notes_def complete_def failed_drain_def judge_def final_notes_def)

text \<open>The notes of an observation are filed under its own host and generation.\<close>

definition own_notes :: "prepared_drain \<Rightarrow> drain_outcome \<Rightarrow> bool" where
  "own_notes prepared out \<longleftrightarrow>
     (\<forall>h g n. outcome_notes out = Some (MeasurementNotes h g n) \<longrightarrow>
        h = pd_host prepared \<and> g = dq_generation (pd_question prepared))"

lemma own_notes_ends [simp]:
  "pn_prepared p = prepared \<Longrightarrow> own_notes prepared (complete p)"
  "pn_prepared p = prepared \<Longrightarrow> own_notes prepared (failed_drain p e)"
  by (auto simp: own_notes_def outcome_notes_shape final_notes_def split: if_splits)

lemma finish_drain_own: "pn_prepared p = prepared \<Longrightarrow> own_notes prepared (finish_drain p)"
  by (auto simp: finish_drain_def finish_measurement_def finish_empty_def finish_blocked_def
      finish_refills_def close_refills_def Let_def split: sum.splits prod.splits)

lemma open_wait_own: "open_wait p = Inl out \<Longrightarrow> own_notes (pn_prepared p) out"
  by (auto simp: open_wait_def Let_def split: if_splits prod.splits bool.splits
      dest!: open_unmeasured_fields)

lemma open_holders_own: "open_holders p = Inl out \<Longrightarrow> own_notes (pn_prepared p) out"
  by (auto simp: open_holders_def Let_def split: if_splits option.splits)

lemma open_clocks_own: "open_clocks p = Inl out \<Longrightarrow> own_notes (pn_prepared p) out"
  by (auto simp: open_clocks_def Let_def split: if_splits sum.splits option.splits
      dest!: open_holders_own)

lemma judge_foreign_own: "judge_foreign g p = Inl out \<Longrightarrow> own_notes (pn_prepared p) out"
  by (auto simp: judge_foreign_def Let_def split: if_splits sum.splits option.splits
      dest!: open_clocks_own)

lemma begin_drain_own: "begin_drain prepared avail sample = Inl out \<Longrightarrow> own_notes prepared out"
  by (auto simp: begin_drain_def Let_def split: if_splits sum.splits
      dest!: open_wait_own open_wait_fields judge_foreign_own)

lemma add_holder_own: "add_holder p k b c = Inl out \<Longrightarrow> own_notes (pn_prepared p) out"
  by (auto simp: add_holder_def Let_def split: sum.splits if_splits)

lemma observe_holders_own:
  "pn_prepared p = prepared \<Longrightarrow> own_notes prepared (observe_holders r mode l p ks)"
proof (induction ks arbitrary: p)
  case Nil
  then show ?case by (simp add: finish_drain_own)
next
  case (Cons k ks)
  have reduce: "own_notes prepared (case hr_bound r k of
      Inl e \<Rightarrow> failed_drain p e
    | Inr bound \<Rightarrow> (case add_holder p k bound counts of
        Inl out \<Rightarrow> out | Inr p' \<Rightarrow> observe_holders r mode l p' ks))" for counts
    using Cons.IH Cons.prems add_holder_own add_holder_stance
    by (fastforce simp: same_stance_def split: sum.splits)
  note skip = Cons.IH [OF Cons.prems]
  have pick: "own_notes prepared a \<Longrightarrow> own_notes prepared b \<Longrightarrow>
      own_notes prepared (if c then a else b)" for a b c by simp
  show ?case
    unfolding observe_holders.simps Let_def
    by (cases "hr_cpus r k"; simp only: sum.case;
        intro pick skip reduce own_notes_ends(2) [OF Cons.prems])
qed

lemma observe_drain_own:
  assumes "observe_drain r io l q prior now host sample = Inr out"
    "outcome_notes out = Some (MeasurementNotes h g n)"
  shows "h = host \<and> g = dq_generation q"
proof -
  obtain prepared where prepared: "prepare_drain q prior now host = Inr prepared"
    using assms(1) by (auto simp: observe_drain_def split: sum.splits)
  have "own_notes prepared out"
    using assms(1) prepared begin_drain_own begin_drain_pending observe_holders_own
    by (fastforce simp: observe_drain_def split: sum.splits)
  then show ?thesis
    using assms(2) prepare_drain_question [OF prepared] by (simp add: own_notes_def)
qed

lemma noted_measurement:
  "outcome_notes out = Some (MeasurementNotes h g n) \<Longrightarrow> noted out = n"
  by (simp add: noted_def)

lemma run_pass_until:
  assumes "run_pass key x prior = Inr (out, prior')"
    "recorded_until prior host gen = Inr (Some u)"
    "pi_host x = host \<Longrightarrow> dq_generation (pi_question x) = gen"
  shows "recorded_until prior' host gen = Inr (Some u)"
proof -
  have obs: "observe_drain (pi_reads x) (pi_io x) (pi_ledger x) (pi_question x) prior (pi_now x)
      (pi_host x) (pi_sample x) = Inr out"
    using assms(1) by (auto simp: run_pass_def split: sum.splits if_splits)
  show ?thesis
  proof (cases "pi_counted x")
    case False
    then show ?thesis using assms(1,2) by (auto simp: run_pass_def split: sum.splits)
  next
    case True
    then have rec: "record_pass key (pi_counted_at x) prior (outcome_notes out) = Inr prior'"
      using assms(1) obs by (auto simp: run_pass_def split: sum.splits)
    show ?thesis
    proof (rule record_pass_until [OF rec assms(2)])
      fix g n
      assume n: "outcome_notes out = Some (MeasurementNotes host g n)"
      then have own: "host = pi_host x" "g = dq_generation (pi_question x)"
        using observe_drain_own [OF obs n] by simp_all
      then have g: "g = gen" using assms(3) by simp
      have "repeats_until u (noted out)"
        by (rule observe_drain_repeats [OF obs]) (use assms(2) own g in simp)
      then show "g = gen \<and> repeats_until u n" using g noted_measurement [OF n] by simp
    qed
  qed
qed

text \<open>
  C31: A measurement's drain ends by its recorded deadline. Once a pass has recorded a deadline
  for a host and a generation, then after any number of further passes over the row, on any hosts, under
  any ledgers, samples and clocks, the sidecar still holds exactly that deadline, and no pass of that
  measurement at or after it holds the rows behind back. Later passes cannot extend it.
\<close>

theorem measurement_episode_bounded:
  assumes "recorded_until prior host gen = Inr (Some u)"
    and "run_passes key xs prior = Inr prior'"
    and "\<forall>x \<in> set xs. pi_host x = host \<longrightarrow> dq_generation (pi_question x) = gen"
    and "dq_measurement q" "dq_mode q \<in> {''exclusive'', ''tokens''}" "dq_generation q = gen" "u \<le> now"
    and "observe_drain r io l q prior' now host sample = Inr out"
  shows "recorded_until prior' host gen = Inr (Some u) \<and> \<not> withholds out"
proof -
  have kept: "recorded_until prior' host gen = Inr (Some u)"
    using assms(1-3)
  proof (induction xs arbitrary: prior)
    case Nil
    then show ?case by simp
  next
    case (Cons x xs)
    then show ?case
      by (auto split: sum.splits prod.splits dest: run_pass_until)
  qed
  obtain prepared where prepared: "prepare_drain q prior' now host = Inr prepared"
    using assms(8) by (auto simp: observe_drain_def split: sum.splits)
  note facts = prepare_drain_question [OF prepared]
  have "begin_drain prepared (as_ints (available io l)) sample = Inl out"
  proof (cases "begin_drain prepared (as_ints (available io l)) sample")
    case (Inl out')
    then show ?thesis using assms(8) prepared by (simp add: observe_drain_def)
  next
    case (Inr p)
    have "pd_now prepared < u"
      using begin_drain_pending [OF Inr] facts kept assms(4-6)
      by (auto simp: open_deadlines_def stamp_def recorded_until_def)
    then show ?thesis using facts assms(7) by simp
  qed
  then show ?thesis using kept begin_drain_open by blast
qed

definition sample_question :: "string \<Rightarrow> bool \<Rightarrow> drain_question" where
  "sample_question mode measurement = \<lparr>dq_key = ''k'', dq_need = [], dq_mode = mode,
     dq_adaptive = False, dq_foreign = False, dq_held_cpus = None, dq_cpu_tiers = False,
     dq_measurement = measurement, dq_generation = Some (replicate 64 (CHR ''a'')),
     dq_foreign_clear = False, dq_unmeasured = False\<rparr>"

definition sample_holders :: holder_reads where
  "sample_holders = \<lparr>hr_bound = (\<lambda>_. Inl ValueError), hr_cpus = (\<lambda>_. Inr [])\<rparr>"

lemma sample_observed:
  "\<exists>v ns. observe_drain sample_holders no_fault (fresh_ledger False) (sample_question ''gpu'' False)
     [(''passes'', JInt 2)] 50 ''h'' None = Inr (DrainAssessment v ns) \<and> v_withhold v"
  by (simp add: observe_drain_def prepare_drain_def sample_question_def get_def dict_get_def
      read_passes_def read_age_def begin_drain_def read_gpu_def open_short_def eligible_row_def
      starvation_floor_def open_wait_def judge_foreign_def stamp_def stamp_value_def open_clocks_def
      open_holders_def held_keys_def fresh_ledger_def holder_keys_def finish_drain_def
      finish_empty_def within_ceiling_def withhold_ceiling_s_def complete_def close_unmeasured_def
      judge_def initial_def Let_def)


definition sample_sidecar :: obj where
  "sample_sidecar = [(''measurement_drains'', JObj [(''h'', JObj [(''generation'',
     JStr (replicate 64 (CHR ''a''))), (''measurement_until_unix'', JFloat (Fin 100))])])]"

theorem measurement_episode_bounded_witness:
  "\<exists>out. observe_drain sample_holders no_fault (fresh_ledger False) (sample_question ''exclusive'' True)
     sample_sidecar 200 ''h'' None = Inr out \<and> \<not> withholds out"
proof -
  have "\<exists>out. observe_drain sample_holders no_fault (fresh_ledger False) (sample_question ''exclusive'' True)
     sample_sidecar 200 ''h'' None = Inr out"
    by (simp add: observe_drain_def prepare_drain_def sample_question_def sample_sidecar_def get_def
        dict_get_def read_passes_def read_age_def Let_def split: sum.splits)
  then obtain out where out: "observe_drain sample_holders no_fault (fresh_ledger False)
     (sample_question ''exclusive'' True) sample_sidecar 200 ''h'' None = Inr out" by blast
  have "recorded_until sample_sidecar ''h'' (Some (replicate 64 (CHR ''a''))) = Inr (Some 100) \<and> \<not> withholds out"
    by (rule measurement_episode_bounded [where xs = "[]", OF _ _ _ _ _ _ _ out])
      (simp_all add: recorded_until_def episode_clocks_def sample_sidecar_def get_def dict_get_def
        optional_str_def sample_question_def)
  with out show ?thesis by blast
qed

end
