(* ===== verification/Candidate_Policy.thy ===== *)
theory Candidate_Policy
  imports Drain_Policy
begin

text \<open>
  The refusals of one claim scan and the order they impose on the rows behind
  (\<open>candidate_policy.py\<close>): why a candidate is denied, which rows a denial holds back, which
  room is kept for a refused GPU row, and whether admitting a later row would take it. The scan
  order is a value; every refusal returns the order to continue with. The evidence a denial
  carries is kept where the code reads it again.
\<close>

section \<open>Denials before any token is taken\<close>

definition residency_refusal_states :: "string list" where
  "residency_refusal_states = [''lead_not_resident'', ''lead_unpinned'', ''map_not_composed'',
     ''map_stale'', ''map_unreadable'', ''plan_unreadable'', ''ram_epoch_stale'',
     ''prelaunch_undeclared'', ''map_incomplete'']"

definition residency_lead_unfinished :: "string list" where
  "residency_lead_unfinished = [''absent'', ''ready'', ''claimed'']"

definition lead_ended :: "json \<Rightarrow> bool" where
  "lead_ended entry =
     (case entry of
        JObj e \<Rightarrow> get ''status'' e \<noteq> JNull \<and> get ''status'' e \<notin> JStr ` set residency_lead_unfinished
      | _ \<Rightarrow> False)"

definition residency_denial :: "obj \<Rightarrow> string option result" where
  "residency_denial verdict =
     (case item ''state'' verdict of
        Inl e \<Rightarrow> Inl e
      | Inr (JStr state) \<Rightarrow>
          Inr (if state \<notin> set residency_refusal_states then None
               else if state \<in> {''lead_not_resident'', ''lead_unpinned''} \<and>
                    (case get ''pending'' verdict of
                       JArr pending \<Rightarrow> pending \<noteq> [] \<and> list_all lead_ended pending
                     | _ \<Rightarrow> False)
               then Some ''residency_lead_terminal''
               else Some (''residency_'' @ state))
      | Inr _ \<Rightarrow> Inr None)"

definition admission_denial :: "(string, int) dict \<Rightarrow> bool \<Rightarrow> string option" where
  "admission_denial host_demand capacity_present =
     (if \<not> capacity_present then Some ''admission_capacity_required''
      else if host_demand = [] then Some ''admission_demand_required''
      else None)"

definition never_fits :: "(string, int) dict \<Rightarrow> (string, int) dict \<Rightarrow> bool" where
  "never_fits reservation_demand total_tokens =
     list_ex (\<lambda>(kind, need). dict_get total_tokens kind 0 < need) reservation_demand"

definition funded_remainder ::
  "(string, int) dict \<Rightarrow> int list \<Rightarrow> int \<Rightarrow> (string, int) dict" where
  "funded_remainder host_demand funded_cpus funded_mem_gb =
     (let covered = [(''cpu'', int (length funded_cpus)), (''mem_gb'', funded_mem_gb)] in
      map (\<lambda>(kind, need). (kind, need - dict_get covered kind 0))
        (filter (\<lambda>(kind, need). need - dict_get covered kind 0 > 0) host_demand))"

definition unfunded_measurement_blocker :: "string option \<Rightarrow> string option \<Rightarrow> bool \<Rightarrow> bool" where
  "unfunded_measurement_blocker blocker funded_by funded \<longleftrightarrow>
     blocker \<noteq> None \<and> \<not> (funded \<and> funded_by = blocker)"

section \<open>The scan order\<close>

record kept_room =
  kr_action_key :: string
  kr_room :: "(string, int) dict"
  kr_reason :: "string option"
  kr_binds_all :: bool

record scan_order =
  so_withheld_for :: "string option"
  so_withheld_kinds :: "string set option"
  so_measurement_withholds :: "string set"
  so_carried_withholds :: "string set"
  so_rooms :: "kept_room list"

definition empty_order :: scan_order where
  "empty_order = \<lparr>so_withheld_for = None, so_withheld_kinds = None, so_measurement_withholds = {},
     so_carried_withholds = {}, so_rooms = []\<rparr>"

definition withhold_kinds :: "string \<Rightarrow> string set option" where
  "withhold_kinds mode = (if mode = ''gpu'' then Some {''gpu''} else None)"

definition whole_box_held :: "scan_order \<Rightarrow> bool" where
  "whole_box_held so \<longleftrightarrow> so_withheld_for so \<noteq> None \<and> so_withheld_kinds so = None"

definition row_held_back :: "scan_order \<Rightarrow> bool \<Rightarrow> int option \<Rightarrow> int \<Rightarrow> bool" where
  "row_held_back so takes_kind reserving_priority withheld_priority \<longleftrightarrow>
     so_withheld_for so \<noteq> None \<and> (so_withheld_kinds so = None \<or> takes_kind) \<and>
     \<not> (case reserving_priority of None \<Rightarrow> False | Some pr \<Rightarrow> withheld_priority \<le> pr)"

definition busy_room_needed :: "scan_order \<Rightarrow> string \<Rightarrow> bool \<Rightarrow> string set \<Rightarrow> bool \<Rightarrow> bool" where
  "busy_room_needed so key carried gpu_first_keys has_ledger \<longleftrightarrow>
     has_ledger \<and> (key \<in> gpu_first_keys \<or> \<not> carried \<and> \<not> whole_box_held so)"

definition withhold :: "string \<Rightarrow> string set option \<Rightarrow> bool \<Rightarrow> scan_order \<Rightarrow> scan_order" where
  "withhold key kinds measurement so =
     (let (owner, scope) =
        (if whole_box_held so then (so_withheld_for so, so_withheld_kinds so)
         else if so_withheld_for so = None \<or> kinds = None then (Some key, kinds)
         else (so_withheld_for so, Some (the (so_withheld_kinds so) \<union> the kinds))) in
      so\<lparr>so_withheld_for := owner, so_withheld_kinds := scope,
         so_measurement_withholds :=
           (if measurement then insert key (so_measurement_withholds so)
            else so_measurement_withholds so)\<rparr>)"

text \<open>\<open>carry\<close>: the episode of an earlier pass, by its mode and whether it has a deadline.\<close>

definition carry :: "string \<Rightarrow> (string \<times> bool) option \<Rightarrow> scan_order \<Rightarrow> scan_order" where
  "carry key episode so =
     (case episode of
        None \<Rightarrow> so
      | Some (mode, has_deadline) \<Rightarrow>
          (let so1 = withhold key (withhold_kinds mode) False so in
           if has_deadline
           then so1\<lparr>so_carried_withholds := insert key (so_carried_withholds so1)\<rparr> else so1))"

definition keep :: "kept_room \<Rightarrow> scan_order \<Rightarrow> scan_order" where
  "keep room so = so\<lparr>so_rooms := so_rooms so @ [room]\<rparr>"

definition held_back_unfunded :: "scan_order \<Rightarrow> bool \<Rightarrow> bool \<Rightarrow> bool" where
  "held_back_unfunded so held_back serves_incumbent \<longleftrightarrow>
     held_back \<and> \<not> (serves_incumbent \<and>
       (case so_withheld_for so of None \<Rightarrow> False | Some k \<Rightarrow> k \<in> so_measurement_withholds so))"

text \<open>\<open>room_fits\<close> and \<open>room_taken\<close>: whether a demand would take a room that fits now.\<close>

definition room_fits :: "(string, int) dict \<Rightarrow> (string, int) dict \<Rightarrow> bool" where
  "room_fits avail room = list_all (\<lambda>(kind, need). dict_get avail kind 0 \<ge> need) room"

record room_conflict =
  rc_gpu_row :: string
  rc_room :: "(string, int) dict"
  rc_kept_for :: "string option"
  rc_available :: "(string, int) dict"
  rc_demand :: "(string, int) dict"

fun room_taken ::
  "(string, int) dict \<Rightarrow> kept_room list \<Rightarrow> (string, int) dict \<Rightarrow> room_conflict option" where
  "room_taken avail [] demand = None"
| "room_taken avail (kept # rooms) demand =
     (if \<not> room_fits avail (kr_room kept) then room_taken avail rooms demand
      else if list_all (\<lambda>(kind, need). dict_get avail kind 0 - dict_get demand kind 0 \<ge> need) (kr_room kept)
      then room_taken avail rooms demand
      else Some \<lparr>rc_gpu_row = take 12 (kr_action_key kept), rc_room = kr_room kept,
             rc_kept_for = kr_reason kept, rc_available = avail, rc_demand = demand\<rparr>)"

text \<open>\<open>int(need)\<close> of a reservation read from a record; text counts when it is a plain decimal.\<close>

definition py_int :: "json \<Rightarrow> int result" where
  "py_int v =
     (case v of
        JBool b \<Rightarrow> Inr (if b then 1 else 0)
      | JInt n \<Rightarrow> Inr n
      | JFloat (Fin q) \<Rightarrow> Inr (if 0 \<le> q then \<lfloor>q\<rfloor> else \<lceil>q\<rceil>)
      | JFloat NaN \<Rightarrow> Inl ValueError
      | JFloat _ \<Rightarrow> Inl OverflowError
      | JStr s \<Rightarrow> (case py_nat s of None \<Rightarrow> Inl ValueError | Some n \<Rightarrow> Inr (int n))
      | _ \<Rightarrow> Inl TypeError)"

fun read_room :: "obj \<Rightarrow> (string, int) dict result" where
  "read_room [] = Inr []"
| "read_room ((kind, v) # rest) =
     (case py_int v of
        Inl e \<Rightarrow> Inl e
      | Inr n \<Rightarrow> (case read_room rest of Inl e \<Rightarrow> Inl e | Inr room \<Rightarrow> Inr ((kind, n) # room)))"

datatype room_evidence =
    No_Room
  | Room_Fit_At_Refusal
  | Room_Kept "(string, int) dict"

definition keep_refused_room ::
  "string \<Rightarrow> obj \<Rightarrow> string \<Rightarrow> (string, int) dict option \<Rightarrow> scan_order \<Rightarrow>
   (scan_order \<times> room_evidence) result" where
  "keep_refused_room key reservation reason free so =
     (case free of
        None \<Rightarrow> Inr (so, No_Room)
      | Some avail \<Rightarrow>
          (case read_room reservation of
             Inl e \<Rightarrow> if e = TypeError \<or> e = ValueError then Inr (so, No_Room) else Inl e
           | Inr room \<Rightarrow>
               Inr (if dict_get room ''gpu'' 0 = 0 then (so, No_Room)
                    else if room_fits avail room then (so, Room_Fit_At_Refusal)
                    else (keep \<lparr>kr_action_key = key, kr_room = room, kr_reason = Some reason,
                                kr_binds_all = True\<rparr> so, Room_Kept room))))"

section \<open>Counted refusals\<close>

definition starved_suffix :: "verdict \<Rightarrow> string" where
  "starved_suffix v =
     (if v_why v \<in> {Some ''unknown_past_ceiling'', Some ''refilled_past_ceiling''}
      then ''_past_ceiling'' else ''_starved'')"

record withhold_after =
  wa_key :: string
  wa_kinds :: "string set option"

text \<open>\<open>WithholdAfterDenial.apply\<close>: \<open>identity\<close> is the row's identity pair, when it has one.\<close>

definition apply_withhold ::
  "withhold_after \<Rightarrow> bool option \<Rightarrow> bool \<Rightarrow> scan_order \<Rightarrow> scan_order" where
  "apply_withhold w identity measurement_suspended so =
     (if measurement_suspended \<and> identity = Some True then so
      else withhold (wa_key w) (wa_kinds w) (identity = Some True) so)"

datatype evidence =
    Decision obj
  | Drain_Resolves bool
  | Withhold_Verdict verdict
  | Withheld_Kinds "string list"
  | Withheld_For "string option"
  | Starved "string option" "obj list option"
  | Room room_evidence
  | Conflict room_conflict

record candidate_denial =
  cd_reason :: string
  cd_evidence :: "evidence list"
  cd_order :: scan_order
  cd_withhold_after :: "withhold_after option"

record count_adaptive =
  ca_reason :: string
  ca_evidence :: "evidence list"
  ca_decision :: "obj option"
  ca_verdict :: "verdict option"

datatype adaptive_refusal =
    Count_Adaptive count_adaptive
  | Uncounted candidate_denial
  | Silent

definition measurement_refusal_verdict :: "obj option \<Rightarrow> verdict option \<Rightarrow> verdict option" where
  "measurement_refusal_verdict decision verdict =
     (case (verdict, decision) of
        (Some v, Some d) \<Rightarrow>
          if (v_withhold v \<or> v_eligible v \<and> v_why v = Some ''holder_does_not_drain_soon'') \<and>
             get ''reason'' d = JStr ''measurement_holder'' \<and> truthy (get ''isolated_by'' d)
          then Some (v\<lparr>v_withhold := False, v_why := Some ''measurement_admits_only_its_dependents''\<rparr>)
          else verdict
      | _ \<Rightarrow> verdict)"

definition prepare_adaptive_refusal ::
  "string option \<Rightarrow> obj option \<Rightarrow> verdict option \<Rightarrow> scan_order \<Rightarrow> string option \<Rightarrow>
   room_conflict option \<Rightarrow> adaptive_refusal" where
  "prepare_adaptive_refusal source decision verdict so dependent_owner conflict =
     (let v = measurement_refusal_verdict decision verdict;
          reason = (case source of None \<Rightarrow> ''adaptive_refused'' | Some s \<Rightarrow> if s = [] then ''adaptive_refused'' else s);
          base = [Decision (case decision of None \<Rightarrow> [] | Some d \<Rightarrow> d)] in
      if source = Some ''deferred_behind_withholding'' then
        (if dependent_owner \<noteq> None then
           Uncounted \<lparr>cd_reason = reason,
             cd_evidence = base @ [Withheld_For (so_withheld_for so)] @
               (case so_withheld_kinds so of None \<Rightarrow> []
                | Some ks \<Rightarrow> [Withheld_Kinds (sorted_list_of_set ks)]),
             cd_order = so, cd_withhold_after = None\<rparr>
         else Silent)
      else if source = Some ''deferred_for_ready_gpu_row'' then
        Uncounted \<lparr>cd_reason = reason,
          cd_evidence = base @ (case conflict of None \<Rightarrow> [] | Some c \<Rightarrow> [Conflict c]),
          cd_order = so, cd_withhold_after = None\<rparr>
      else Count_Adaptive \<lparr>ca_reason = reason, ca_evidence = base, ca_decision = decision,
             ca_verdict = v\<rparr>)"

definition drain_would_resolve :: "string option \<Rightarrow> bool \<Rightarrow> verdict option \<Rightarrow> bool" where
  "drain_would_resolve mode foreign verdict \<longleftrightarrow>
     mode \<noteq> None \<and> \<not> foreign \<and>
     (case verdict of None \<Rightarrow> True | Some v \<Rightarrow> v_drain_resolves v \<noteq> Some False)"

definition keep_if ::
  "bool \<Rightarrow> string \<Rightarrow> obj \<Rightarrow> string \<Rightarrow> (string, int) dict option \<Rightarrow> scan_order \<Rightarrow>
   (scan_order \<times> evidence list) result" where
  "keep_if wanted key reservation reason free so =
     (if wanted then
        (case keep_refused_room key reservation reason free so of
           Inl e \<Rightarrow> Inl e
         | Inr (so1, room) \<Rightarrow> Inr (so1, [Room room]))
      else Inr (so, []))"

definition named_reason :: "obj option \<Rightarrow> bool" where
  "named_reason decision =
     (case decision of None \<Rightarrow> False
      | Some d \<Rightarrow> (case get ''reason'' d of JStr s \<Rightarrow> s \<noteq> [] | _ \<Rightarrow> False))"

definition counted_adaptive_refusal ::
  "count_adaptive \<Rightarrow> string \<Rightarrow> scan_order \<Rightarrow> (string, int) dict \<Rightarrow> obj \<Rightarrow> string option \<Rightarrow> bool \<Rightarrow>
   (string, int) dict option \<Rightarrow> candidate_denial result" where
  "counted_adaptive_refusal prefix key so demand reservation mode foreign free =
     (let verdict = ca_verdict prefix;
          resolves = drain_would_resolve mode foreign verdict;
          base = ca_evidence prefix @
            (if dict_get demand ''gpu'' 0 \<noteq> 0 \<and> named_reason (ca_decision prefix)
             then [Drain_Resolves resolves] else []);
          deny = (\<lambda>reason ev after.
            case keep_if resolves key reservation reason free so of
              Inl e \<Rightarrow> Inl e
            | Inr (so1, room) \<Rightarrow>
                Inr \<lparr>cd_reason = reason, cd_evidence = ev @ room, cd_order = so1,
                  cd_withhold_after = after\<rparr>) in
      case verdict of
        None \<Rightarrow> deny (ca_reason prefix) base None
      | Some v \<Rightarrow>
          if \<not> v_eligible v then deny (ca_reason prefix) base None
          else if v_withhold v then
            (let kinds = withhold_kinds (v_mode v) in
             deny (ca_reason prefix @ ''_withholding'')
               (base @ [Withhold_Verdict v] @
                (case kinds of None \<Rightarrow> [] | Some ks \<Rightarrow> [Withheld_Kinds (sorted_list_of_set ks)]))
               (Some \<lparr>wa_key = key, wa_kinds = kinds\<rparr>))
          else deny (ca_reason prefix @ starved_suffix v)
                 (base @ [Withhold_Verdict v, Starved (v_why v) (v_holders v)]) None)"

definition counted_token_refusal ::
  "evidence list \<Rightarrow> verdict \<Rightarrow> string \<Rightarrow> scan_order \<Rightarrow> bool \<Rightarrow> obj \<Rightarrow> (string, int) dict option \<Rightarrow>
   candidate_denial result" where
  "counted_token_refusal ev v key so eligible asked free =
     (let withholding = eligible \<and> v_withhold v;
          reason = ''reservation_unavailable'' @
            (if withholding then ''_withholding'' else if eligible then starved_suffix v else []);
          ev1 = ev @ (if eligible \<and> \<not> v_withhold v then [Starved (v_why v) (v_holders v)] else []) in
      case keep_refused_room key asked reason free so of
        Inl e \<Rightarrow> Inl e
      | Inr (so1, room) \<Rightarrow>
          Inr \<lparr>cd_reason = reason, cd_evidence = ev1 @ [Room room], cd_order = so1,
            cd_withhold_after =
              (if withholding then Some \<lparr>wa_key = key, wa_kinds = None\<rparr> else None)\<rparr>)"

section \<open>A row before and after placement\<close>

record row_opening =
  ro_held_back :: bool
  ro_producer :: bool

definition deny_behind :: "scan_order \<Rightarrow> candidate_denial" where
  "deny_behind so = \<lparr>cd_reason = ''deferred_behind_withheld_row'',
     cd_evidence = [Withheld_For (so_withheld_for so)] @
       (case so_withheld_kinds so of None \<Rightarrow> [] | Some ks \<Rightarrow> [Withheld_Kinds (sorted_list_of_set ks)]),
     cd_order = so, cd_withhold_after = None\<rparr>"

definition plain_denial :: "string \<Rightarrow> scan_order \<Rightarrow> candidate_denial" where
  "plain_denial reason so = \<lparr>cd_reason = reason, cd_evidence = [], cd_order = so,
     cd_withhold_after = None\<rparr>"

definition row_before_placement ::
  "scan_order \<Rightarrow> bool \<Rightarrow> bool \<Rightarrow> candidate_denial + row_opening" where
  "row_before_placement so held_back producer =
     (if held_back \<and> so_withheld_kinds so = None \<and> \<not> producer then Inl (deny_behind so)
      else Inr \<lparr>ro_held_back = held_back, ro_producer = producer\<rparr>)"

definition row_after_scope :: "scan_order \<Rightarrow> row_opening \<Rightarrow> candidate_denial + row_opening" where
  "row_after_scope so opening =
     (if ro_held_back opening \<and> \<not> ro_producer opening then Inl (deny_behind so) else Inr opening)"

datatype row_step =
    Row_Denied candidate_denial
  | Row_Probe_Gpu_Scope
  | Row_Opened row_opening

definition step_of :: "candidate_denial + row_opening \<Rightarrow> row_step" where
  "step_of r = (case r of Inl d \<Rightarrow> Row_Denied d | Inr opening \<Rightarrow> Row_Opened opening)"

text \<open>\<open>tagged\<close> is whether the row's tags name this host, \<open>needs_gpu\<close> whether it asks for a GPU.\<close>

definition row_after_placement ::
  "row_opening \<Rightarrow> scan_order \<Rightarrow> string \<Rightarrow> string set \<Rightarrow> bool \<Rightarrow> bool \<Rightarrow> bool \<Rightarrow> bool \<Rightarrow> row_step" where
  "row_after_placement opening so key released matches ready_gpu tagged needs_gpu =
     (if key \<noteq> [] \<and> key \<notin> released \<and> \<not> matches then Row_Denied (plain_denial ''placement_mismatch'' so)
      else if ready_gpu \<and> key \<notin> released \<and> \<not> tagged \<and> \<not> needs_gpu then Row_Probe_Gpu_Scope
      else step_of (row_after_scope so opening))"

definition row_after_gpu_scope ::
  "row_opening \<Rightarrow> scan_order \<Rightarrow> bool \<Rightarrow> bool \<Rightarrow> candidate_denial + row_opening" where
  "row_after_gpu_scope opening so takes_gpu class_scoped =
     (if \<not> takes_gpu \<and> \<not> class_scoped then Inl (plain_denial ''deferred_for_ready_gpu'' so)
      else row_after_scope so opening)"

definition busy_denial ::
  "scan_order \<Rightarrow> bool \<Rightarrow> (string \<times> (string, int) dict) option \<Rightarrow> candidate_denial" where
  "busy_denial so carried room =
     (case room of
        None \<Rightarrow> plain_denial ''transition_busy'' so
      | Some (key, needs) \<Rightarrow>
          (let kept = \<lparr>kr_action_key = key, kr_room = needs, kr_reason = Some ''transition_busy'',
                 kr_binds_all = (\<not> carried \<and> \<not> whole_box_held so)\<rparr> in
           (plain_denial ''transition_busy'' (keep kept so))\<lparr>cd_evidence := [Room (Room_Kept needs)]\<rparr>))"

section \<open>Unified memory\<close>

definition unified_memory_denial ::
  "memory_evidence option \<Rightarrow> (string, int) dict \<Rightarrow> (string, int) dict \<Rightarrow> int \<Rightarrow> string option" where
  "unified_memory_denial ev held_tokens demand margin_gb =
     (case ev of
        None \<Rightarrow> None
      | Some e \<Rightarrow>
          (let requested = dict_get demand ''mem_gb'' 0; committed = dict_get held_tokens ''mem_gb'' 0 in
           if requested \<le> 0 then None
           else if ev_unknown e then Some ''unified_gpu_memory_unknown''
           else if committed + requested > ceiling_gib margin_gb e then Some ''unified_gpu_memory_budget''
           else None))"

definition unified_memory_preemption_demand ::
  "memory_evidence option \<Rightarrow> (string, int) dict \<Rightarrow> (string, int) dict \<Rightarrow> int \<Rightarrow>
   (string, int) dict option" where
  "unified_memory_preemption_demand ev demand capacity_tokens margin_gb =
     (case ev of
        None \<Rightarrow> Some demand
      | Some e \<Rightarrow>
          if ev_unknown e \<or> (dict_get demand ''gpu'' 0 > 0 \<and> ev_residency e = Foreign_Present) then None
          else
            (let ceiling = ceiling_gib margin_gb e; mem = dict_get demand ''mem_gb'' 0 in
             if mem > ceiling then None
             else Some (AList.update ''mem_gb''
                    (mem + max 0 (dict_get capacity_tokens ''mem_gb'' 0 - ceiling)) demand)))"

section \<open>Tiers and moved claims\<close>

definition tier_wanted :: "(string, (string, int) dict) dict \<Rightarrow> int" where
  "tier_wanted demand = sum_list (map (\<lambda>(_, needs). sum_list (map snd needs)) demand)"

text \<open>\<open>tier_completeness\<close>, with the funded kinds and the borrowed counts of each tier.\<close>

definition tier_incomplete ::
  "(string, (string, int) dict) dict \<Rightarrow> (string, (string, int) dict) dict \<Rightarrow> (string, int) dict \<Rightarrow>
   int \<Rightarrow> int \<Rightarrow> bool" where
  "tier_incomplete demand funded borrowed waived filed \<longleftrightarrow>
     filed + tier_wanted funded + sum_list (map snd borrowed) + waived < tier_wanted demand"

datatype moved_claim_position = Class_Refused | Backfill_Refused | Backfill_Binding | Placement

definition moved_claim_position :: "bool option \<Rightarrow> json \<Rightarrow> bool \<Rightarrow> moved_claim_position" where
  "moved_claim_position class_eligible priority backfill =
     (if class_eligible = Some False then Class_Refused
      else if backfill then
        (if \<not> py_eq priority (JInt (- 10)) then Backfill_Refused else Backfill_Binding)
      else Placement)"

section \<open>The order only tightens\<close>

text \<open>The steps a scan takes on its order.\<close>

inductive order_step :: "scan_order \<Rightarrow> scan_order \<Rightarrow> bool" where
  step_withhold: "order_step so (withhold key kinds measurement so)"
| step_carry: "order_step so (carry key episode so)"
| step_keep: "order_step so (keep room so)"
| step_denial: "order_step so (apply_withhold w identity suspended so)"

text \<open>A row that takes the kinds \<open>row_kinds\<close> is held back by an order.\<close>

definition holds_back :: "scan_order \<Rightarrow> string set \<Rightarrow> bool" where
  "holds_back so row_kinds \<longleftrightarrow>
     row_held_back so (case so_withheld_kinds so of None \<Rightarrow> False | Some ks \<Rightarrow> ks \<inter> row_kinds \<noteq> {}) None 0"

text \<open>What no later step of the scan takes back.\<close>

definition tightens :: "scan_order \<Rightarrow> scan_order \<Rightarrow> bool" where
  "tightens so so' \<longleftrightarrow>
     (\<forall>K. holds_back so K \<longrightarrow> holds_back so' K) \<and>
     (whole_box_held so \<longrightarrow> whole_box_held so' \<and> so_withheld_for so' = so_withheld_for so) \<and>
     (\<exists>more. so_rooms so' = so_rooms so @ more) \<and>
     so_measurement_withholds so \<subseteq> so_measurement_withholds so'"

lemma tightens_refl: "tightens so so"
  by (simp add: tightens_def)

lemma tightens_trans: "tightens a b \<Longrightarrow> tightens b c \<Longrightarrow> tightens a c"
  unfolding tightens_def by (metis append_assoc subset_trans)

lemma withhold_tightens: "tightens so (withhold key kinds measurement so)"
  by (cases "so_withheld_for so"; cases "so_withheld_kinds so"; cases kinds)
    (auto simp: tightens_def withhold_def whole_box_held_def holds_back_def row_held_back_def)

lemma keep_tightens: "tightens so (keep room so)"
  by (auto simp: tightens_def keep_def whole_box_held_def holds_back_def row_held_back_def)

lemma carried_update_tightens: "tightens so (so\<lparr>so_carried_withholds := s\<rparr>)"
  by (auto simp: tightens_def whole_box_held_def holds_back_def row_held_back_def)

lemma carry_tightens: "tightens so (carry key episode so)"
  using tightens_trans [OF withhold_tightens carried_update_tightens] withhold_tightens
  by (auto simp: carry_def Let_def tightens_refl split: option.splits)

lemma order_step_tightens: "order_step so so' \<Longrightarrow> tightens so so'"
  by (induction rule: order_step.induct)
    (auto simp: withhold_tightens carry_tightens keep_tightens apply_withhold_def tightens_refl)

text \<open>
  Nothing later in a scan loosens what an earlier refusal imposed. Over any sequence of
  withholds, carried episodes, kept rooms and denials, a row that was held back stays held back, a
  whole box held for a row stays held for that same row, and every room that was kept is still kept.
\<close>

theorem scan_order_only_tightens:
  assumes "order_step\<^sup>*\<^sup>* so so'"
  shows "(\<forall>K. holds_back so K \<longrightarrow> holds_back so' K) \<and>
    (whole_box_held so \<longrightarrow> whole_box_held so' \<and> so_withheld_for so' = so_withheld_for so) \<and>
    (\<exists>more. so_rooms so' = so_rooms so @ more)"
proof -
  from assms have "tightens so so'"
  proof (induction rule: rtranclp_induct)
    case base
    show ?case by (rule tightens_refl)
  next
    case (step b c)
    then show ?case using tightens_trans order_step_tightens by blast
  qed
  then show ?thesis by (simp add: tightens_def)
qed

theorem scan_order_only_tightens_witness:
  "holds_back (withhold ''b'' None False (withhold ''a'' (Some {''gpu''}) False empty_order)) {''gpu''}"
proof -
  have "order_step (withhold ''a'' (Some {''gpu''}) False empty_order)
      (withhold ''b'' None False (withhold ''a'' (Some {''gpu''}) False empty_order))"
    by (rule step_withhold)
  then have "order_step\<^sup>*\<^sup>* (withhold ''a'' (Some {''gpu''}) False empty_order)
      (withhold ''b'' None False (withhold ''a'' (Some {''gpu''}) False empty_order))"
    by (rule r_into_rtranclp)
  moreover have "holds_back (withhold ''a'' (Some {''gpu''}) False empty_order) {''gpu''}"
    by (simp add: holds_back_def row_held_back_def withhold_def whole_box_held_def empty_order_def)
  ultimately show ?thesis using scan_order_only_tightens by blast
qed

section \<open>Kept rooms\<close>

lemma room_taken_none:
  "room_taken avail rooms demand = None \<longleftrightarrow>
     (\<forall>kept \<in> set rooms. room_fits avail (kr_room kept) \<longrightarrow>
        (\<forall>(kind, need) \<in> set (kr_room kept).
           need \<le> dict_get avail kind 0 - dict_get demand kind 0))"
  by (induction rooms) (auto simp: list_all_iff)

lemma room_taken_some:
  "room_taken avail rooms demand = Some c \<Longrightarrow>
   \<exists>kept \<in> set rooms. rc_room c = kr_room kept \<and> room_fits avail (kr_room kept) \<and>
     (\<exists>(kind, need) \<in> set (kr_room kept). dict_get avail kind 0 - dict_get demand kind 0 < need)"
  by (induction rooms) (auto simp: list_all_iff not_le split: if_splits, blast+)

section \<open>A refusal that counts\<close>

lemma keep_refused_room_shape:
  assumes "keep_refused_room key reservation reason free so = Inr (so', ev)"
  shows "so' = so \<or>
    (\<exists>avail room. free = Some avail \<and> read_room reservation = Inr room \<and>
       dict_get room ''gpu'' 0 \<noteq> 0 \<and> \<not> room_fits avail room \<and>
       so' = keep \<lparr>kr_action_key = key, kr_room = room, kr_reason = Some reason, kr_binds_all = True\<rparr> so)"
  using assms
  by (auto simp: keep_refused_room_def split: option.splits sum.splits if_splits)

lemma keep_if_shape:
  assumes "keep_if wanted key reservation reason free so = Inr (so', ev)"
  shows "so' = so \<or> wanted \<and>
    (\<exists>avail room. free = Some avail \<and> read_room reservation = Inr room \<and>
       dict_get room ''gpu'' 0 \<noteq> 0 \<and> \<not> room_fits avail room \<and>
       so' = keep \<lparr>kr_action_key = key, kr_room = room, kr_reason = Some reason, kr_binds_all = True\<rparr> so)"
  using assms keep_refused_room_shape
  by (fastforce simp: keep_if_def split: if_splits sum.splits prod.splits)

text \<open>
  A counted refusal holds later rows back exactly when its verdict is eligible and
  withholds, and it keeps a room only for a GPU row whose refusal draining would resolve, with no
  foreign load, and only when that room does not fit already. It never touches who is held back now.
\<close>

theorem counted_adaptive_refusal_disciplined:
  assumes "counted_adaptive_refusal prefix key so demand reservation mode foreign free = Inr d"
  shows "(cd_withhold_after d \<noteq> None \<longleftrightarrow>
      (\<exists>v. ca_verdict prefix = Some v \<and> v_eligible v \<and> v_withhold v)) \<and>
    (cd_order d = so \<or>
      (mode \<noteq> None \<and> \<not> foreign \<and>
       (\<exists>avail room. free = Some avail \<and> read_room reservation = Inr room \<and>
          dict_get room ''gpu'' 0 \<noteq> 0 \<and> \<not> room_fits avail room \<and>
          cd_order d = keep \<lparr>kr_action_key = key, kr_room = room, kr_reason = Some (cd_reason d),
            kr_binds_all = True\<rparr> so)))"
proof -
  obtain reason ev after so1 room where
    kept: "keep_if (drain_would_resolve mode foreign (ca_verdict prefix)) key reservation reason free so
      = Inr (so1, room)"
    and d: "d = \<lparr>cd_reason = reason, cd_evidence = ev @ room, cd_order = so1, cd_withhold_after = after\<rparr>"
    and after: "after \<noteq> None \<longleftrightarrow> (\<exists>v. ca_verdict prefix = Some v \<and> v_eligible v \<and> v_withhold v)"
    using assms
    by (auto simp: counted_adaptive_refusal_def Let_def split: option.splits if_splits sum.splits)
  show ?thesis
    using keep_if_shape [OF kept] after by (auto simp: d drain_would_resolve_def)
qed

theorem counted_adaptive_refusal_disciplined_witness:
  "\<exists>d. counted_adaptive_refusal \<lparr>ca_reason = ''r'', ca_evidence = [], ca_decision = None, ca_verdict = None\<rparr>
      ''k'' empty_order [] [(''gpu'', JInt 1)] (Some ''gpu'') False (Some []) = Inr d \<and>
    cd_withhold_after d = None"
proof -
  let ?c = "counted_adaptive_refusal \<lparr>ca_reason = ''r'', ca_evidence = [], ca_decision = None, ca_verdict = None\<rparr>
      ''k'' empty_order [] [(''gpu'', JInt 1)] (Some ''gpu'') False (Some [])"
  have "\<exists>d. ?c = Inr d"
    by (simp add: counted_adaptive_refusal_def keep_if_def keep_refused_room_def py_int_def dict_get_def
        Let_def split: prod.splits)
  then show ?thesis
    using counted_adaptive_refusal_disciplined by fastforce
qed

section \<open>Memory of the host\<close>

text \<open>
  C32: A memory grant fits the machine. When a row that asks for memory is not denied on a
  sample of the shared memory, everything committed, the new request and the operating margin, in GiB,
  plus the memory others use, are within the host's memory, and the residency of foreign work is known.
\<close>

theorem unified_memory_fits_host:
  assumes "unified_memory_denial (Some e) held_tokens demand margin = None"
    "0 < dict_get demand ''mem_gb'' 0" "0 \<le> dict_get held_tokens ''mem_gb'' 0"
  shows "of_int (dict_get held_tokens ''mem_gb'' 0 + dict_get demand ''mem_gb'' 0 + margin) * 1024 ^ 3
      + external_bytes e \<le> ev_host_total e \<and> ev_residency e \<noteq> Foreign_Unknown"
proof -
  have known: "\<not> ev_unknown e" and
    need: "dict_get held_tokens ''mem_gb'' 0 + dict_get demand ''mem_gb'' 0 \<le> ceiling_gib margin e"
    using assms(1,2) by (auto simp: unified_memory_denial_def Let_def split: if_splits)
  from assms(2,3) need show ?thesis
    using ceiling_fits [of "dict_get held_tokens ''mem_gb'' 0 + dict_get demand ''mem_gb'' 0" margin e] known
    by (simp add: ev_unknown_def)
qed

theorem unified_memory_fits_host_witness:
  "ev_residency \<lparr>ev_sample_id = ''s'', ev_sampled_unix = 1, ev_host_total = 8 * 1024 ^ 3,
     ev_host_available = 8 * 1024 ^ 3, ev_resident = 0, ev_foreign = 0, ev_residency = Foreign_Clear\<rparr>
   \<noteq> Foreign_Unknown"
  by (rule unified_memory_fits_host [where held_tokens = "[]" and demand = "[(''mem_gb'', 2)]" and margin = 1,
        THEN conjunct2])
    (simp_all add: unified_memory_denial_def dict_get_def ev_unknown_def ceiling_gib_def external_bytes_def)

end
