(* ===== verification/Gang_Records.thy ===== *)
theory Gang_Records
  imports Json
begin

text \<open>
  The records a gang leaves in \<open>gangs/\<close> (\<open>_gang.py\<close>, \<open>gang_wait.timeout\<close>): the declaration a
  member row carries, the immutable group record that names every member, and the files beside it.
  A file holds a JSON document; reading, linking and replacing one may fail, which is an argument.
  The theorems say that a group record is written once, that what is written is read back, and what a
  reader may rely on.
\<close>

section \<open>Declarations\<close>

definition max_members :: int where
  "max_members = 16"

definition is_hex :: "json \<Rightarrow> nat \<Rightarrow> bool" where
  "is_hex v n =
     (case v of
        JStr s \<Rightarrow> length s = n \<and> list_all (\<lambda>c. c \<in> set ''0123456789abcdef'') s
      | _ \<Rightarrow> False)"

record declared_gang =
  de_group :: string
  de_size :: int
  de_index :: int

fun text_field :: "json \<Rightarrow> string option" where
  "text_field (JStr s) = Some s"
| "text_field _ = None"

fun int_field :: "json \<Rightarrow> int option" where
  "int_field (JInt n) = Some n"
| "int_field _ = None"

definition declares_keys :: "obj \<Rightarrow> bool" where
  "declares_keys d \<longleftrightarrow> set (map fst d) = {''group'', ''size'', ''index''}"

definition gang_declaration :: "json \<Rightarrow> declared_gang option result" where
  "gang_declaration v =
     (case v of
        JNull \<Rightarrow> Inr None
      | JObj d \<Rightarrow>
          (case (text_field (get ''group'' d), int_field (get ''size'' d), int_field (get ''index'' d)) of
             (Some g, Some n, Some i) \<Rightarrow>
               if declares_keys d \<and> is_hex (JStr g) 32 \<and>
                  2 \<le> n \<and> n \<le> max_members \<and> 0 \<le> i \<and> i < n
               then Inr (Some \<lparr>de_group = g, de_size = n, de_index = i\<rparr>)
               else Inl GangContractError
           | _ \<Rightarrow> Inl GangContractError)
      | _ \<Rightarrow> Inl GangContractError)"

definition is_finite_number :: "json \<Rightarrow> bool" where
  "is_finite_number v \<longleftrightarrow>
     is_number v \<and> (case py_float v of Inr f \<Rightarrow> finite_float f | Inl _ \<Rightarrow> False)"

text \<open>\<open>gang_wait.timeout\<close>; \<open>math.isfinite\<close> raises on an integer too large to convert.\<close>

definition wait_timeout :: "json \<Rightarrow> rat option result" where
  "wait_timeout v =
     (if v = JNull then Inr None
      else if \<not> is_number v then Inl GangContractError
      else case py_float v of
        Inl e \<Rightarrow> Inl e
      | Inr (Fin q) \<Rightarrow> if 0 < q then Inr (Some q) else Inl GangContractError
      | Inr _ \<Rightarrow> Inl GangContractError)"

section \<open>Files\<close>

datatype gang_path =
    Group_Path string
  | Elect_Path string int
  | Ready_Path string int
  | Teardown_Path string
  | Terminal_Path string string
  | Started_Path string

type_synonym gang_files = "gang_path \<rightharpoonup> json"

text \<open>
  What the file system refuses: a read, the link of a new file, the removal of its temporary name
  (after which the new file stands although the call raises), or the replacement of a file.
\<close>

record gang_io =
  gi_read :: "gang_path \<Rightarrow> bool"
  gi_link :: "gang_path \<Rightarrow> bool"
  gi_unlink :: "gang_path \<Rightarrow> bool"
  gi_write :: "gang_path \<Rightarrow> bool"

definition gang_read :: "gang_io \<Rightarrow> gang_path \<Rightarrow> gang_files \<Rightarrow> obj option result" where
  "gang_read io p fs =
     (if gi_read io p then Inl GangContractError
      else case fs p of
        None \<Rightarrow> Inr None
      | Some (JObj d) \<Rightarrow> Inr (Some d)
      | Some _ \<Rightarrow> Inl GangContractError)"

definition link_new :: "gang_io \<Rightarrow> gang_path \<Rightarrow> obj \<Rightarrow> gang_files \<Rightarrow> bool result \<times> gang_files" where
  "link_new io p d fs =
     (if gi_link io p then (Inl (OSError EIO), fs)
      else let fs' = (if fs p = None then fs(p \<mapsto> JObj d) else fs) in
        if gi_unlink io p then (Inl (OSError EIO), fs') else (Inr (fs p = None), fs'))"

definition write_json_atomic ::
  "gang_io \<Rightarrow> gang_path \<Rightarrow> obj \<Rightarrow> gang_files \<Rightarrow> unit result \<times> gang_files" where
  "write_json_atomic io p d fs =
     (if gi_write io p then (Inl (OSError EIO), fs) else (Inr (), fs(p \<mapsto> JObj d)))"

section \<open>The group record\<close>

definition group_schema :: string where
  "group_schema = ''prismabuild.gang_group.v1''"

record gang_member =
  gm_index :: int
  gm_key :: string
  gm_published :: json
  gm_priority :: int

text \<open>A group record: the fields its readers use, and the whole document for comparison.\<close>

record gang_record =
  gr_group :: string
  gr_size :: int
  gr_skew :: json
  gr_members :: "gang_member list"
  gr_priority :: int
  gr_wait :: "rat option"
  gr_document :: obj

definition encode_member :: "gang_member \<Rightarrow> json" where
  "encode_member m =
     JObj [(''index'', JInt (gm_index m)), (''action_key'', JStr (gm_key m)),
       (''published_unix'', gm_published m), (''priority'', JInt (gm_priority m))]"

fun int_of :: "json \<Rightarrow> int" where
  "int_of (JInt n) = n"
| "int_of _ = 0"

fun text_of :: "json \<Rightarrow> string" where
  "text_of (JStr s) = s"
| "text_of _ = []"

fun decode_member :: "json \<Rightarrow> gang_member" where
  "decode_member (JObj d) =
     \<lparr>gm_index = int_of (get ''index'' d), gm_key = text_of (get ''action_key'' d),
      gm_published = get ''published_unix'' d, gm_priority = int_of (get ''priority'' d)\<rparr>"
| "decode_member _ = \<lparr>gm_index = 0, gm_key = [], gm_published = JNull, gm_priority = 0\<rparr>"

fun is_int :: "json \<Rightarrow> bool" where
  "is_int (JInt _) = True"
| "is_int _ = False"

fun valid_member :: "int \<Rightarrow> json \<Rightarrow> bool" where
  "valid_member i (JObj d) \<longleftrightarrow>
     get ''index'' d = JInt i \<and> is_hex (get ''action_key'' d) 64 \<and>
     is_finite_number (get ''published_unix'' d) \<and> is_int (get ''priority'' d)"
| "valid_member i _ \<longleftrightarrow> False"

text \<open>\<open>0 < v <= 3600\<close> on a finite number, compared exactly.\<close>

definition skew_in_range :: "json \<Rightarrow> bool" where
  "skew_in_range v \<longleftrightarrow>
     (case numeric v of Some (Fin q) \<Rightarrow> 0 < q \<and> q \<le> 3600 | _ \<Rightarrow> False)"

definition valid_group :: "string \<Rightarrow> obj \<Rightarrow> bool" where
  "valid_group g d \<longleftrightarrow>
     get ''schema'' d = JStr group_schema \<and> get ''group'' d = JStr g \<and>
     (case get ''members'' d of
        JArr ms \<Rightarrow>
          get ''size'' d = JInt (int (length ms)) \<and> 2 \<le> int (length ms) \<and> int (length ms) \<le> max_members \<and>
          (\<forall>i < length ms. valid_member (int i) (ms ! i))
      | _ \<Rightarrow> False) \<and>
     is_finite_number (get ''skew_s'' d) \<and> skew_in_range (get ''skew_s'' d) \<and>
     is_int (get ''priority'' d)"

definition view_group :: "obj \<Rightarrow> rat option \<Rightarrow> gang_record" where
  "view_group d wait =
     \<lparr>gr_group = text_of (get ''group'' d), gr_size = int_of (get ''size'' d),
      gr_skew = get ''skew_s'' d,
      gr_members = (case get ''members'' d of JArr ms \<Rightarrow> map decode_member ms | _ \<Rightarrow> []),
      gr_priority = int_of (get ''priority'' d), gr_wait = wait, gr_document = d\<rparr>"

definition read_group :: "gang_io \<Rightarrow> string \<Rightarrow> gang_files \<Rightarrow> gang_record option result" where
  "read_group io g fs =
     (case gang_read io (Group_Path g) fs of
        Inl e \<Rightarrow> Inl e
      | Inr None \<Rightarrow> Inr None
      | Inr (Some d) \<Rightarrow>
          if \<not> valid_group g d then Inl GangContractError
          else case wait_timeout (get ''queue_wait_timeout_s'' d) of
            Inl e \<Rightarrow> Inl e
          | Inr w \<Rightarrow> Inr (Some (view_group d w)))"

text \<open>A published row, as \<open>publish_group\<close> is given it.\<close>

record member_row =
  mr_key :: string
  mr_published :: pyfloat
  mr_priority :: int
  mr_gang :: json

definition row_entry :: "string \<Rightarrow> int \<Rightarrow> member_row \<Rightarrow> gang_member result" where
  "row_entry g n row =
     (case gang_declaration (mr_gang row) of
        Inl e \<Rightarrow> Inl e
      | Inr None \<Rightarrow> Inl GangContractError
      | Inr (Some d) \<Rightarrow>
          if de_group d \<noteq> g \<or> de_size d \<noteq> n then Inl GangContractError
          else Inr \<lparr>gm_index = de_index d, gm_key = mr_key row,
                 gm_published = JFloat (mr_published row), gm_priority = mr_priority row\<rparr>)"

fun row_entries :: "string \<Rightarrow> int \<Rightarrow> member_row list \<Rightarrow> gang_member list result" where
  "row_entries g n [] = Inr []"
| "row_entries g n (row # rows) =
     (case row_entry g n row of
        Inl e \<Rightarrow> Inl e
      | Inr m \<Rightarrow> (case row_entries g n rows of Inl e \<Rightarrow> Inl e | Inr ms \<Rightarrow> Inr (m # ms)))"

definition group_document :: "string \<Rightarrow> pyfloat \<Rightarrow> gang_member list \<Rightarrow> rat option \<Rightarrow> obj" where
  "group_document g skew ms wait =
     [(''schema'', JStr group_schema), (''group'', JStr g), (''size'', JInt (int (length ms))),
      (''skew_s'', JFloat skew), (''members'', JArr (map encode_member ms)),
      (''priority'', JInt (Max (set (map gm_priority ms))))] @
     (case wait of None \<Rightarrow> [] | Some w \<Rightarrow> [(''queue_wait_timeout_s'', JFloat (Fin w))])"

text \<open>\<open>isinstance(skew_s, (int, float)) and ... 0 < skew_s <= 3600\<close>, then \<open>float(skew_s)\<close>.\<close>

definition checked_skew :: "json \<Rightarrow> pyfloat result" where
  "checked_skew v =
     (if \<not> is_number v then Inl GangContractError
      else case py_float v of
        Inl e \<Rightarrow> Inl e
      | Inr f \<Rightarrow> if finite_float f \<and> skew_in_range v then Inr f else Inl GangContractError)"

text \<open>The record every member agrees on, or why there is none; \<open>max\<close> of no priorities raises.\<close>

definition built_group ::
  "string \<Rightarrow> member_row list \<Rightarrow> json \<Rightarrow> json \<Rightarrow> gang_record result" where
  "built_group g rows skew_s queue_wait =
     (if \<not> is_hex (JStr g) 32 then Inl GangContractError
      else case checked_skew skew_s of
        Inl e \<Rightarrow> Inl e
      | Inr skew \<Rightarrow>
          (case wait_timeout queue_wait of
             Inl e \<Rightarrow> Inl e
           | Inr wait \<Rightarrow>
               (case row_entries g (int (length rows)) rows of
                  Inl e \<Rightarrow> Inl e
                | Inr es \<Rightarrow>
                    let ms = sort_key gm_index es in
                    if map gm_index ms \<noteq> map int [0..<length rows] then Inl GangContractError
                    else if ms = [] then Inl ValueError
                    else Inr (view_group (group_document g skew ms wait) wait))))"

text \<open>
  Whether a READY row is still the publication an entry names. \<open>ready_row\<close> is what the queue's
  reader answers for a key.
\<close>

definition unchanged_member ::
  "(string \<Rightarrow> obj option result) \<Rightarrow> string \<Rightarrow> int \<Rightarrow> gang_member \<Rightarrow> unit result" where
  "unchanged_member ready_row g n m =
     (case ready_row (gm_key m) of
        Inl e \<Rightarrow> Inl e
      | Inr None \<Rightarrow> Inl GangContractError
      | Inr (Some current) \<Rightarrow>
          if get ''action_key'' current \<noteq> JStr (gm_key m) \<or>
             \<not> py_eq (get ''published_unix'' current) (gm_published m) then Inl GangContractError
          else case gang_declaration (get ''gang'' current) of
            Inl e \<Rightarrow> Inl e
          | Inr d \<Rightarrow>
              if d \<noteq> Some \<lparr>de_group = g, de_size = n, de_index = gm_index m\<rparr>
              then Inl GangContractError else Inr ())"

fun unchanged_members ::
  "(string \<Rightarrow> obj option result) \<Rightarrow> string \<Rightarrow> int \<Rightarrow> gang_member list \<Rightarrow> unit result" where
  "unchanged_members ready_row g n [] = Inr ()"
| "unchanged_members ready_row g n (m # ms) =
     (case unchanged_member ready_row g n m of
        Inl e \<Rightarrow> Inl e | Inr _ \<Rightarrow> unchanged_members ready_row g n ms)"

definition agreed :: "gang_record \<Rightarrow> gang_record option result \<Rightarrow> gang_record result" where
  "agreed r standing =
     (case standing of
        Inl e \<Rightarrow> Inl e
      | Inr None \<Rightarrow> Inl GangContractError
      | Inr (Some s) \<Rightarrow>
          if py_eq (JObj (gr_document s)) (JObj (gr_document r)) then Inr r else Inl GangContractError)"

definition link_group :: "gang_io \<Rightarrow> string \<Rightarrow> gang_record \<Rightarrow> gang_files \<Rightarrow> gang_record result \<times> gang_files" where
  "link_group io g r fs =
     (case link_new io (Group_Path g) (gr_document r) fs of
        (Inl e, fs') \<Rightarrow> (Inl e, fs')
      | (Inr True, fs') \<Rightarrow> (Inr r, fs')
      | (Inr False, fs') \<Rightarrow> (agreed r (read_group io g fs'), fs'))"

text \<open>
  \<open>publish_group\<close>: other publishers run meanwhile, so the files are those of its first read
  (\<open>fs0\<close>), of the read under the members' locks (\<open>fs1\<close>) and of the link (\<open>fs\<close>). \<open>busy\<close> says
  which member's transition lock another process holds.
\<close>

definition publish_group ::
  "gang_io \<Rightarrow> (string \<Rightarrow> bool) \<Rightarrow> (string \<Rightarrow> obj option result) \<Rightarrow> string \<Rightarrow> member_row list
     \<Rightarrow> json \<Rightarrow> json \<Rightarrow> gang_files \<Rightarrow> gang_files \<Rightarrow> gang_files \<Rightarrow> gang_record result \<times> gang_files" where
  "publish_group io busy ready_row g rows skew_s queue_wait fs0 fs1 fs =
     (case built_group g rows skew_s queue_wait of
        Inl e \<Rightarrow> (Inl e, fs)
      | Inr r \<Rightarrow>
          (case read_group io g fs0 of
             Inl e \<Rightarrow> (Inl e, fs)
           | Inr (Some s) \<Rightarrow> (agreed r (Inr (Some s)), fs)
           | Inr None \<Rightarrow>
               if list_ex (busy \<circ> gm_key) (gr_members r) then (Inl GangContractError, fs)
               else case read_group io g fs1 of
                 Inl e \<Rightarrow> (Inl e, fs)
               | Inr (Some s) \<Rightarrow> (agreed r (Inr (Some s)), fs)
               | Inr None \<Rightarrow>
                   (case unchanged_members ready_row g (gr_size r) (gr_members r) of
                      Inl e \<Rightarrow> (Inl e, fs)
                    | Inr _ \<Rightarrow>
link_group io g r fs)))"

text \<open>
  \<open>member\<close>: this row's entry in its group record. A declared index past the record's members is
  Python's \<open>IndexError\<close>.
\<close>

definition gang_entry ::
  "(string \<Rightarrow> pyfloat option) \<Rightarrow> gang_record \<Rightarrow> obj \<Rightarrow> declared_gang \<Rightarrow> gang_member result" where
  "gang_entry txt r row d =
     (if int (length (gr_members r)) \<le> de_index d then Inl IndexError
      else let m = gr_members r ! nat (de_index d) in
        case item ''action_key'' row of
          Inl e \<Rightarrow> Inl e
        | Inr key \<Rightarrow>
            if key \<noteq> JStr (gm_key m) then Inl GangContractError
            else case float_of txt (gm_published m) of
              Inl e \<Rightarrow> Inl e
            | Inr a \<Rightarrow>
                (case item ''published_unix'' row of
                   Inl e \<Rightarrow> Inl e
                 | Inr stamp \<Rightarrow>
                     (case float_of txt stamp of
                        Inl e \<Rightarrow> Inl e
                      | Inr b \<Rightarrow> if float_eq a b then Inr m else Inl GangContractError)))"

section \<open>What is written is read back\<close>

lemma gang_declaration_some:
  "gang_declaration v = Inr (Some d) \<Longrightarrow>
   is_hex (JStr (de_group d)) 32 \<and> 2 \<le> de_size d \<and> de_size d \<le> max_members \<and>
   0 \<le> de_index d \<and> de_index d < de_size d"
  by (cases v) (auto simp: gang_declaration_def split: option.splits if_splits)

declare get_Cons [simp] get_Nil [simp]

lemma decode_encode_member [simp]: "decode_member (encode_member m) = m"
  by (simp add: encode_member_def)

lemma valid_encoded_member:
  "valid_member i (encode_member m) \<longleftrightarrow>
     gm_index m = i \<and> is_hex (JStr (gm_key m)) 64 \<and> is_finite_number (gm_published m)"
  by (simp add: encode_member_def)

lemma get_group_document:
  "get ''schema'' (group_document g skew ms wait) = JStr group_schema"
  "get ''group'' (group_document g skew ms wait) = JStr g"
  "get ''size'' (group_document g skew ms wait) = JInt (int (length ms))"
  "get ''skew_s'' (group_document g skew ms wait) = JFloat skew"
  "get ''members'' (group_document g skew ms wait) = JArr (map encode_member ms)"
  "get ''priority'' (group_document g skew ms wait) = JInt (Max (set (map gm_priority ms)))"
  "get ''queue_wait_timeout_s'' (group_document g skew ms wait) =
     (case wait of None \<Rightarrow> JNull | Some w \<Rightarrow> JFloat (Fin w))"
  by (simp_all add: group_document_def split: option.splits)

lemma read_group_any_reader:
  "\<not> gi_read io p \<Longrightarrow> \<not> gi_read io' p \<Longrightarrow> p = Group_Path g \<Longrightarrow> fs p = fs' p \<Longrightarrow>
   read_group io g fs = read_group io' g fs'"
  by (simp add: read_group_def gang_read_def)

lemma read_group_some_readable:
  "read_group io g fs = Inr (Some s) \<Longrightarrow> \<not> gi_read io (Group_Path g) \<and> fs (Group_Path g) = Some (JObj (gr_document s))"
  by (auto simp: read_group_def gang_read_def view_group_def split: if_splits option.splits json.splits sum.splits)

text \<open>What \<open>row_entries\<close> keeps of the rows.\<close>

lemma row_entry_fields:
  "row_entry g n row = Inr m \<Longrightarrow>
   gm_key m = mr_key row \<and> gm_published m = JFloat (mr_published row) \<and> gm_priority m = mr_priority row"
  by (auto simp: row_entry_def split: sum.splits option.splits if_splits)

lemma row_entries_all:
  "row_entries g n rows = Inr ms \<Longrightarrow> list_all2 (\<lambda>row m. row_entry g n row = Inr m) rows ms"
  by (induction rows arbitrary: ms) (auto split: sum.splits)

lemma checked_skew_range:
  "checked_skew v = Inr f \<Longrightarrow> \<exists>q. f = Fin q"
  by (cases f) (auto simp: checked_skew_def split: if_splits sum.splits)

lemma built_group_elim:
  assumes "built_group g rows skew_s queue_wait = Inr r"
  obtains skew wait es ms where
    "checked_skew skew_s = Inr skew" "wait_timeout queue_wait = Inr wait"
    "list_all2 (\<lambda>row m. row_entry g (int (length rows)) row = Inr m) rows es" "mset ms = mset es"
    "map gm_index ms = map int [0..<length rows]" "ms \<noteq> []"
    "r = view_group (group_document g skew ms wait) wait"
proof -
  from assms obtain skew wait es where b: "checked_skew skew_s = Inr skew" "wait_timeout queue_wait = Inr wait"
    "row_entries g (int (length rows)) rows = Inr es"
    "map gm_index (sort_key gm_index es) = map int [0..<length rows]" "sort_key gm_index es \<noteq> []"
    "r = view_group (group_document g skew (sort_key gm_index es) wait) wait"
    by (auto simp: built_group_def Let_def split: if_splits sum.splits)
  then show ?thesis
    by (intro that [of skew wait es "sort_key gm_index es"]) (auto dest!: row_entries_all)
qed

lemma checked_skew_valid:
  assumes "checked_skew v = Inr f"
  shows "skew_in_range (JFloat f) \<and> is_finite_number (JFloat f)"
proof -
  from assms have f: "is_number v" "py_float v = Inr f" "finite_float f" "skew_in_range v"
    by (auto simp: checked_skew_def split: if_splits sum.splits)
  have "skew_in_range (JFloat f)"
  proof (cases v)
    case (JInt n)
    with f(4) have "0 < n" "n \<le> 3600" by (simp_all add: skew_in_range_def)
    then have "float_of_int n = Some (Fin (of_int n))" by (intro float_of_int_small) simp
    with f JInt show ?thesis by (simp add: skew_in_range_def)
  next
    case (JFloat x)
    with f show ?thesis by simp
  qed (use f in auto)
  with f(3) show ?thesis by (simp add: is_finite_number_def)
qed

lemma wait_timeout_written:
  "wait_timeout v = Inr w \<Longrightarrow> wait_timeout (case w of None \<Rightarrow> JNull | Some q \<Rightarrow> JFloat (Fin q)) = Inr w"
  by (auto simp: wait_timeout_def split: if_splits sum.splits pyfloat.splits)

lemma built_group_size: 
  assumes "built_group g rows skew_s queue_wait = Inr r"
  shows "2 \<le> length rows \<and> int (length rows) \<le> max_members"
proof -
  from assms obtain es ms where es: "list_all2 (\<lambda>row m. row_entry g (int (length rows)) row = Inr m) rows es"
    "mset ms = mset es" "ms \<noteq> []" by (rule built_group_elim)
  then have "rows \<noteq> []" by auto
  with es(1) obtain m where "row_entry g (int (length rows)) (hd rows) = Inr m" by (cases rows; cases es) auto
  then obtain d where "gang_declaration (mr_gang (hd rows)) = Inr (Some d)" "de_size d = int (length rows)"
    by (auto simp: row_entry_def split: sum.splits option.splits if_splits)
  then show ?thesis using gang_declaration_some [of "mr_gang (hd rows)" d] by simp
qed

definition sound_row :: "member_row \<Rightarrow> bool" where
  "sound_row row \<longleftrightarrow> is_hex (JStr (mr_key row)) 64 \<and> finite_float (mr_published row)"

lemma built_group_valid:
  assumes "built_group g rows skew_s queue_wait = Inr r" "\<forall>row \<in> set rows. sound_row row"
  shows "valid_group g (gr_document r)
    \<and> wait_timeout (get ''queue_wait_timeout_s'' (gr_document r)) = Inr (gr_wait r)
    \<and> r = view_group (gr_document r) (gr_wait r)"
proof -
  from assms(1) obtain skew wait es ms where b:
    "checked_skew skew_s = Inr skew" "wait_timeout queue_wait = Inr wait"
    "list_all2 (\<lambda>row m. row_entry g (int (length rows)) row = Inr m) rows es" "mset ms = mset es"
    "map gm_index ms = map int [0..<length rows]" "ms \<noteq> []"
    "r = view_group (group_document g skew ms wait) wait"
    by (rule built_group_elim)
  have len: "length ms = length rows" using b(3,4) by (metis list_all2_lengthD mset_eq_length)
  have "is_hex (JStr (gm_key m)) 64 \<and> is_finite_number (gm_published m)" if "m \<in> set ms" for m
  proof -
    from that b(4) have "m \<in> set es" by (metis set_mset_mset)
    with b(3) obtain row where "row \<in> set rows" "row_entry g (int (length rows)) row = Inr m"
      using list_all2_in_right [OF b(3)] by blast
    with assms(2) show ?thesis
      by (auto simp: sound_row_def is_finite_number_def dest!: row_entry_fields)
  qed
  moreover have "gm_index (ms ! i) = int i" if "i < length ms" for i
    using arg_cong [OF b(5), of "\<lambda>xs. xs ! i"] that len by simp
  ultimately have "\<forall>i < length ms. valid_member (int i) (map encode_member ms ! i)"
    unfolding valid_encoded_member [abs_def] by (simp add: valid_encoded_member)
  then have "valid_group g (group_document g skew ms wait)"
    using built_group_size [OF assms(1)] checked_skew_valid [OF b(1)] len
    by (simp add: valid_group_def get_group_document)
  moreover have "gr_document r = group_document g skew ms wait" "gr_wait r = wait"
    using b(7) by (simp_all add: view_group_def)
  ultimately show ?thesis
    using wait_timeout_written [OF b(2)] b(7) by (simp add: get_group_document)
qed

lemma agreed_Inr:
  "agreed r standing = Inr r' \<longleftrightarrow>
     r' = r \<and> (\<exists>s. standing = Inr (Some s) \<and> py_eq (JObj (gr_document s)) (JObj (gr_document r)))"
  by (auto simp: agreed_def split: sum.splits option.splits)

lemma link_group_Inr:
  assumes "link_group io g r fs = (Inr r', fs')"
  shows "r' = r \<and> (fs (Group_Path g) = None \<and> fs' = fs(Group_Path g \<mapsto> JObj (gr_document r)) \<or>
    fs' = fs \<and> (\<exists>s. read_group io g fs = Inr (Some s) \<and> py_eq (JObj (gr_document s)) (JObj (gr_document r))))"
proof (cases "fs (Group_Path g) = None")
  case True
  with assms show ?thesis by (auto simp: link_group_def link_new_def Let_def split: if_splits)
next
  case False
  with assms show ?thesis by (auto simp: link_group_def link_new_def Let_def agreed_Inr split: if_splits)
qed

lemma publish_group_Inr:
  assumes "publish_group io busy ready_row g rows skew_s queue_wait fs0 fs1 fs = (Inr r, fs')"
  shows "built_group g rows skew_s queue_wait = Inr r \<and>
    (fs (Group_Path g) = None \<and> fs' = fs(Group_Path g \<mapsto> JObj (gr_document r)) \<or>
     fs' = fs \<and> (\<exists>q \<in> {fs0, fs1, fs}. \<exists>s. read_group io g q = Inr (Some s) \<and>
       py_eq (JObj (gr_document s)) (JObj (gr_document r))))"
proof (cases "built_group g rows skew_s queue_wait")
  case (Inr b)
  note built = this
  show ?thesis
  proof (cases "read_group io g fs0")
    case (Inr s0)
    show ?thesis
    proof (cases s0)
      case None
      with assms built Inr have l: "(case read_group io g fs1 of
          Inl e \<Rightarrow> (Inl e, fs) | Inr (Some s) \<Rightarrow> (agreed b (Inr (Some s)), fs)
        | Inr None \<Rightarrow> (case unchanged_members ready_row g (gr_size b) (gr_members b) of
            Inl e \<Rightarrow> (Inl e, fs) | Inr _ \<Rightarrow> link_group io g b fs)) = (Inr r, fs')"
        by (simp add: publish_group_def split: if_splits)
      show ?thesis
      proof (cases "\<exists>s. read_group io g fs1 = Inr (Some s)")
        case True
        with l built show ?thesis by (auto simp: agreed_Inr)
      next
        case False
        with l have "link_group io g b fs = (Inr r, fs')"
          by (auto split: sum.splits option.splits)
        from link_group_Inr [OF this] built show ?thesis by auto
      qed
    qed (use assms built Inr in \<open>auto simp: publish_group_def agreed_Inr\<close>)
  qed (use assms built in \<open>simp add: publish_group_def\<close>)
qed (use assms in \<open>simp add: publish_group_def\<close>)

text \<open>
  A gang group record is written once and reads back whole. When \<open>publish_group\<close> returns, with the
  member rows as the queue publishes them, every later reader that can read the file finds the group:
  its members are the published rows, each at its own index, every index from 0 taken once. If no
  record stood before, what is read is the record returned; otherwise it is the standing record,
  equal to it field by field.
\<close>

theorem publish_group_reads_back:
  assumes "publish_group io busy ready_row g rows skew_s queue_wait fs0 fs1 fs = (Inr r, fs')"
    and "\<forall>row \<in> set rows. sound_row row"
    and "\<forall>q \<in> {fs0, fs1}. q (Group_Path g) \<noteq> None \<longrightarrow> fs (Group_Path g) = q (Group_Path g)"
    and "\<not> gi_read io' (Group_Path g)"
  shows "\<exists>s. read_group io' g fs' = Inr (Some s) \<and>
    (if fs (Group_Path g) = None then s = r
     else py_eq (JObj (gr_document s)) (JObj (gr_document r))) \<and>
    length (gr_members r) = length rows \<and>
    (\<forall>i < length rows. gm_index (gr_members r ! i) = int i) \<and>
    mset (map (\<lambda>m. (gm_key m, gm_published m)) (gr_members r)) =
      mset (map (\<lambda>row. (mr_key row, JFloat (mr_published row))) rows)"
proof -
  have built: "built_group g rows skew_s queue_wait = Inr r"
    using publish_group_Inr [OF assms(1)] by blast
  from built obtain skew wait es ms where b:
    "list_all2 (\<lambda>row m. row_entry g (int (length rows)) row = Inr m) rows es" "mset ms = mset es"
    "map gm_index ms = map int [0..<length rows]"
    "r = view_group (group_document g skew ms wait) wait"
    by (rule built_group_elim)
  have ms: "gr_members r = ms"
    using b(4) by (simp add: view_group_def get_group_document comp_def)
  have "map (\<lambda>m. (gm_key m, gm_published m)) es = map (\<lambda>row. (mr_key row, JFloat (mr_published row))) rows"
    using b(1) by (induction rule: list_all2_induct) (auto dest!: row_entry_fields)
  then have rows: "mset (map (\<lambda>m. (gm_key m, gm_published m)) ms) =
      mset (map (\<lambda>row. (mr_key row, JFloat (mr_published row))) rows)"
    using b(2) by (metis mset_map)
  have len: "length ms = length rows" using b(3) by (metis length_map length_upt diff_zero)
  have idx: "\<forall>i < length rows. gm_index (ms ! i) = int i"
    using b(3) len by (metis add_0 length_upt nth_map nth_upt diff_zero)
  have "\<exists>s. read_group io' g fs' = Inr (Some s) \<and>
    (if fs (Group_Path g) = None then s = r else py_eq (JObj (gr_document s)) (JObj (gr_document r)))"
  proof (cases "fs (Group_Path g) = None \<and> fs' = fs(Group_Path g \<mapsto> JObj (gr_document r))")
    case True
    then show ?thesis
      using built_group_valid [OF built assms(2)] assms(4)
      by (auto simp: read_group_def gang_read_def)
  next
    case False
    with publish_group_Inr [OF assms(1)] obtain q s where stood: "fs' = fs" "q \<in> {fs0, fs1, fs}"
      "read_group io g q = Inr (Some s)" "py_eq (JObj (gr_document s)) (JObj (gr_document r))"
      by blast
    from read_group_some_readable [OF stood(3)] have q: "\<not> gi_read io (Group_Path g)" "q (Group_Path g) \<noteq> None"
      by auto
    then have "q (Group_Path g) = fs (Group_Path g)" using stood(2) assms(3) by auto
    with stood q assms(4) show ?thesis
      using read_group_any_reader [of io "Group_Path g" io' g q fs] by auto
  qed
  with ms rows len idx show ?thesis by simp
qed

section \<open>A published group\<close>

definition no_gang_fault :: gang_io where
  "no_gang_fault = \<lparr>gi_read = \<lambda>_. False, gi_link = \<lambda>_. False, gi_unlink = \<lambda>_. False, gi_write = \<lambda>_. False\<rparr>"

definition sample_group :: string where
  "sample_group = replicate 32 (CHR ''c'')"

definition sample_key :: "int \<Rightarrow> string" where
  "sample_key i = replicate 64 (if i = 0 then CHR ''a'' else CHR ''b'')"

definition sample_declaration :: "int \<Rightarrow> json" where
  "sample_declaration i = JObj [(''group'', JStr sample_group), (''size'', JInt 2), (''index'', JInt i)]"

definition sample_member :: "int \<Rightarrow> gang_member" where
  "sample_member i = \<lparr>gm_index = i, gm_key = sample_key i, gm_published = JFloat (Fin 1), gm_priority = 0\<rparr>"

definition sample_gang_row :: "int \<Rightarrow> member_row" where
  "sample_gang_row i = \<lparr>mr_key = sample_key i, mr_published = Fin 1, mr_priority = 0, mr_gang = sample_declaration i\<rparr>"

definition sample_item :: "int \<Rightarrow> obj" where
  "sample_item i = [(''action_key'', JStr (sample_key i)), (''published_unix'', JFloat (Fin 1)), (''gang'', sample_declaration i)]"

definition sample_ready :: "string \<Rightarrow> obj option result" where
  "sample_ready key = Inr (Some (sample_item (if key = sample_key 0 then 0 else 1)))"

definition sample_document :: obj where
  "sample_document = group_document sample_group (Fin 120) [sample_member 0, sample_member 1] (Some 600)"

definition sample_gang :: gang_record where
  "sample_gang = view_group sample_document (Some 600)"

lemma sample_hex [simp]: "is_hex (JStr sample_group) 32" "is_hex (JStr (sample_key i)) 64"
  by (simp_all add: is_hex_def sample_group_def sample_key_def list_all_iff)

lemma sample_keys_differ [simp]: "sample_key 1 \<noteq> sample_key 0" "sample_key 0 \<noteq> sample_key 1"
  by (simp_all add: sample_key_def)

lemma sample_declared [simp]:
  "i = 0 \<or> i = 1 \<Longrightarrow>
   gang_declaration (sample_declaration i) = Inr (Some \<lparr>de_group = sample_group, de_size = 2, de_index = i\<rparr>)"
  by (auto simp: gang_declaration_def sample_declaration_def declares_keys_def max_members_def)

lemma sample_gang_fields [simp]:
  "gr_group sample_gang = sample_group" "gr_size sample_gang = 2" "gr_wait sample_gang = Some 600"
  "gr_members sample_gang = [sample_member 0, sample_member 1]" "gr_document sample_gang = sample_document"
  "gr_priority sample_gang = 0"
  by (simp_all add: sample_gang_def view_group_def sample_document_def get_group_document sample_member_def)

lemma sample_built: "built_group sample_group [sample_gang_row 1, sample_gang_row 0] (JInt 120) (JInt 600) = Inr sample_gang"
proof -
  have "float_of_int 120 = Some (Fin 120)" "float_of_int 600 = Some (Fin 600)"
    using float_of_int_small [of 120] float_of_int_small [of 600] by simp_all
  then show ?thesis
    by (simp add: built_group_def checked_skew_def skew_in_range_def wait_timeout_def row_entry_def sample_gang_row_def
        sample_gang_def sample_document_def sample_member_def)
qed

lemma sample_unchanged: "unchanged_members sample_ready sample_group 2 [sample_member 0, sample_member 1] = Inr ()"
  by (simp add: unchanged_member_def sample_ready_def sample_item_def sample_member_def py_eq_numeric)

lemma sample_published:
  "publish_group no_gang_fault (\<lambda>_. False) sample_ready sample_group [sample_gang_row 1, sample_gang_row 0] (JInt 120) (JInt 600)
     Map.empty Map.empty Map.empty = (Inr sample_gang, [Group_Path sample_group \<mapsto> JObj sample_document])"
  by (simp add: publish_group_def sample_built read_group_def gang_read_def no_gang_fault_def
      sample_unchanged [simplified] link_group_def link_new_def)

theorem publish_group_reads_back_witness:
  "\<exists>s. read_group no_gang_fault sample_group [Group_Path sample_group \<mapsto> JObj sample_document] = Inr (Some s) \<and>
     s = sample_gang \<and> length (gr_members sample_gang) = 2"
proof -
  have "\<forall>row \<in> set [sample_gang_row 1, sample_gang_row 0]. sound_row row"
    by (simp add: sound_row_def sample_gang_row_def)
  from publish_group_reads_back [OF sample_published this, of no_gang_fault] show ?thesis
    by (auto simp: no_gang_fault_def)
qed

lemma sample_read: "read_group no_gang_fault sample_group (fs(Group_Path sample_group \<mapsto> JObj sample_document)) = Inr (Some sample_gang)"
proof -
  have "\<forall>row \<in> set [sample_gang_row 1, sample_gang_row 0]. sound_row row" by (simp add: sound_row_def sample_gang_row_def)
  from built_group_valid [OF sample_built this] show ?thesis
    by (simp add: read_group_def gang_read_def no_gang_fault_def)
qed

end
