(* ===== verification/Gang.thy ===== *)
theory Gang
  imports Gang_Records "HOL-Library.Product_Lexorder"
begin

text \<open>
  How the members of a gang are admitted together (\<open>_gang.py\<close>, \<open>gang_wait.py\<close>, and the gang parts of
  \<open>PoolQueue\<close>): a host is elected once for each member, a member that could start marks itself ready
  and holds nothing, and it commits only beside a complete set; a teardown ends the whole gang once;
  a terminal reading must stand before it does. The files are those of \<open>Gang_Records\<close>; what the queue
  answers about rows, ledgers and loans enters as the answers. Times are exact rationals. The deadlines
  the code reports to its wait scheduler (\<open>claim_wait.unix_deadline\<close>) decide nothing and are left out.
\<close>

section \<open>Elections\<close>

definition elect_schema :: string where
  "elect_schema = ''prismabuild.gang_election.v1''"

definition valid_election :: "string \<Rightarrow> int \<Rightarrow> obj \<Rightarrow> bool" where
  "valid_election g i d \<longleftrightarrow>
     get ''schema'' d = JStr elect_schema \<and> get ''group'' d = JStr g \<and> get ''index'' d = JInt i \<and>
     (\<exists>h. get ''host'' d = JStr h \<and> h \<noteq> []) \<and> is_hex (get ''action_key'' d) 64 \<and>
     is_finite_number (get ''epoch_unix'' d) \<and> is_int (get ''priority'' d)"

fun elections_from :: "gang_io \<Rightarrow> string \<Rightarrow> int list \<Rightarrow> gang_files \<Rightarrow> (int, obj) dict result" where
  "elections_from io g [] fs = Inr []"
| "elections_from io g (i # is) fs =
     (case gang_read io (Elect_Path g i) fs of
        Inl e \<Rightarrow> Inl e
      | Inr None \<Rightarrow> elections_from io g is fs
      | Inr (Some d) \<Rightarrow>
          if \<not> valid_election g i d then Inl GangContractError
          else (case elections_from io g is fs of Inl e \<Rightarrow> Inl e | Inr rest \<Rightarrow> Inr ((i, d) # rest)))"

definition elections :: "gang_io \<Rightarrow> string \<Rightarrow> int \<Rightarrow> gang_files \<Rightarrow> (int, obj) dict result" where
  "elections io g n fs = elections_from io g [0..n - 1] fs"

definition election_document :: "gang_record \<Rightarrow> gang_member \<Rightarrow> string \<Rightarrow> rat \<Rightarrow> obj" where
  "election_document r m host now =
     [(''schema'', JStr elect_schema), (''group'', JStr (gr_group r)), (''index'', JInt (gm_index m)),
      (''action_key'', JStr (gm_key m)), (''host'', JStr host), (''priority'', JInt (gr_priority r)),
      (''epoch_unix'', JFloat (Fin now))]"

definition elect_gang_member ::
  "gang_io \<Rightarrow> gang_record \<Rightarrow> gang_member \<Rightarrow> string \<Rightarrow> rat \<Rightarrow> gang_files \<Rightarrow> obj result \<times> gang_files" where
  "elect_gang_member io r m host now fs =
     (case link_new io (Elect_Path (gr_group r) (gm_index m)) (election_document r m host now) fs of
        (Inl e, fs') \<Rightarrow> (Inl e, fs')
      | (Inr True, fs') \<Rightarrow> (Inr (election_document r m host now), fs')
      | (Inr False, fs') \<Rightarrow>
          (case elections io (gr_group r) (gr_size r) fs' of
             Inl e \<Rightarrow> (Inl e, fs')
           | Inr found \<Rightarrow>
               (case map_of found (gm_index m) of
                  None \<Rightarrow> (Inl GangContractError, fs')
                | Some d \<Rightarrow> (Inr d, fs'))))"

text \<open>One row of the admission census: a live gang's election with the gang's rank.\<close>

type_synonym gang_rank = "int \<times> rat \<times> string"

record census_election =
  ce_group :: string
  ce_index :: int
  ce_key :: string
  ce_host :: string
  ce_rank :: gang_rank

text \<open>\<open>float(member["published_unix"])\<close> of a record \<open>read_group\<close> has checked.\<close>

definition published_stamp :: "json \<Rightarrow> rat" where
  "published_stamp v = (case py_float v of Inr (Fin q) \<Rightarrow> q | _ \<Rightarrow> 0)"

definition rank :: "gang_record \<Rightarrow> gang_rank" where
  "rank r = (- gr_priority r, Min (set (map (published_stamp \<circ> gm_published) (gr_members r))), gr_group r)"

datatype position =
    Ranked_Behind census_election
  | Election_Position "census_election option" bool bool

text \<open>\<open>sorted(ahead, key=rank)[0]\<close>: the first of the least rank.\<close>

fun first_ranked :: "census_election \<Rightarrow> census_election list \<Rightarrow> census_election" where
  "first_ranked a [] = a"
| "first_ranked a (b # bs) = first_ranked (if ce_rank b < ce_rank a then b else a) bs"

definition election_position ::
  "census_election list \<Rightarrow> gang_record \<Rightarrow> declared_gang \<Rightarrow> string \<Rightarrow> position" where
  "election_position census r d host =
     (let standing = fold (\<lambda>e. AList.update (ce_index e) e) (filter (\<lambda>e. ce_group e = de_group d) census) [];
          mine = map_of standing (de_index d);
          sibling_here = list_ex (\<lambda>(i, e). i \<noteq> de_index d \<and> ce_host e = host) standing;
          ours = insert host (ce_host ` snd ` set standing);
          ahead = filter (\<lambda>e. ce_group e \<noteq> de_group d \<and> ce_host e \<in> ours \<and> ce_rank e < rank r) census in
      case ahead of
        a # as \<Rightarrow> Ranked_Behind (first_ranked a as)
      | [] \<Rightarrow> Election_Position mine sibling_here (mine = None \<and> \<not> sibling_here))"

text \<open>\<open>mine\<close> is the host its election names, if it has one.\<close>

definition elected_elsewhere :: "json option \<Rightarrow> string \<Rightarrow> bool" where
  "elected_elsewhere mine host = (case mine of None \<Rightarrow> True | Some h \<Rightarrow> h \<noteq> JStr host)"

section \<open>Readiness\<close>

definition ready_schema :: string where
  "ready_schema = ''prismabuild.gang_ready.v1''"

definition ready_fresh_s :: rat where
  "ready_fresh_s = 30"

definition mark_ready ::
  "gang_io \<Rightarrow> gang_record \<Rightarrow> gang_member \<Rightarrow> string \<Rightarrow> rat \<Rightarrow> gang_files \<Rightarrow> unit result \<times> gang_files" where
  "mark_ready io r m host now fs =
     write_json_atomic io (Ready_Path (gr_group r) (gm_index m))
       [(''schema'', JStr ready_schema), (''group'', JStr (gr_group r)), (''index'', JInt (gm_index m)),
        (''action_key'', JStr (gm_key m)), (''host'', JStr host), (''ready_unix'', JFloat (Fin now))] fs"

text \<open>
  What the queue answers: the CLAIMED record of a key, whether a bounded loan of a member's host is
  still out (\<open>gang_loans.pending\<close>), the keys a host's ledger holds, and the rows of a key in the order
  \<open>gang_member_slots\<close> reads them.
\<close>

datatype queue_state = Q_Claimed | Q_Done | Q_Failed | Q_Withdrawn | Q_Ready

record gang_view =
  gv_claimed :: "string \<Rightarrow> obj option result"
  gv_pending :: "int \<Rightarrow> bool result"
  gv_held :: "string \<Rightarrow> string list"
  gv_slots :: "string \<Rightarrow> (queue_state \<times> obj option result) list"

definition backfill_matches :: "obj \<Rightarrow> obj \<Rightarrow> bool" where
  "backfill_matches holder election \<longleftrightarrow>
     py_eq (get ''priority'' holder) (JInt (-10)) \<and>
     (case get ''gang_backfill'' holder of
        JArr marks \<Rightarrow>
          list_ex (\<lambda>mark. case mark of
              JObj d \<Rightarrow> list_all (\<lambda>k. py_eq (get k d) (get k election)) [''group'', ''index'', ''action_key'', ''host'']
            | _ \<Rightarrow> False) marks
      | _ \<Rightarrow> False)"

fun backfill_among ::
  "gang_view \<Rightarrow> obj \<Rightarrow> string list \<Rightarrow> (string, obj) dict result" where
  "backfill_among v election [] = Inr []"
| "backfill_among v election (key # keys) =
     (case gv_claimed v key of
        Inl e \<Rightarrow> Inl e
      | Inr holder \<Rightarrow>
          (case backfill_among v election keys of
             Inl e \<Rightarrow> Inl e
           | Inr found \<Rightarrow>
               (case holder of
                  None \<Rightarrow> Inr found
                | Some h \<Rightarrow>
                    if py_eq (get ''claimed_host'' h) (get ''host'' election) \<and> backfill_matches h election
                    then Inr ((key, h) # found) else Inr found)))"

definition backfill_holders :: "gang_view \<Rightarrow> obj \<Rightarrow> (string, obj) dict result" where
  "backfill_holders v election = backfill_among v election (gv_held v (text_of (get ''host'' election)))"

datatype sibling_state = S_Claimed | S_Ready | S_Backfill | S_Waiting

text \<open>Whether a CLAIMED record is this member's own publication.\<close>

definition claims_member ::
  "(string \<Rightarrow> pyfloat option) \<Rightarrow> gang_member \<Rightarrow> obj option \<Rightarrow> bool result" where
  "claims_member txt m claimed =
     (case claimed of
        None \<Rightarrow> Inr False
      | Some c \<Rightarrow>
          if get ''action_key'' c \<noteq> JStr (gm_key m) then Inr False
          else case (if has_key ''published_unix'' c then float_of txt (get ''published_unix'' c) else Inr NaN) of
            Inl e \<Rightarrow> Inl e
          | Inr a \<Rightarrow> (case float_of txt (gm_published m) of Inl e \<Rightarrow> Inl e | Inr b \<Rightarrow> Inr (float_eq a b)))"

text \<open>\<open>isinstance(v, (int, float))\<close>, which a boolean is too.\<close>

definition is_numeric :: "json \<Rightarrow> bool" where
  "is_numeric v \<longleftrightarrow> numeric v \<noteq> None"

definition fresh_ready :: "rat \<Rightarrow> gang_member \<Rightarrow> obj option \<Rightarrow> bool result" where
  "fresh_ready now m mark =
     (case mark of
        None \<Rightarrow> Inr False
      | Some d \<Rightarrow>
          if get ''schema'' d \<noteq> JStr ready_schema \<or> get ''action_key'' d \<noteq> JStr (gm_key m) \<or>
             \<not> is_numeric (get ''ready_unix'' d) then Inr False
          else case py_float (get ''ready_unix'' d) of
            Inl e \<Rightarrow> Inl e
          | Inr (Fin t) \<Rightarrow> Inr (0 \<le> now - t \<and> now - t \<le> ready_fresh_s)
          | Inr _ \<Rightarrow> Inr False)"

text \<open>A sibling that is not claimed: its ready mark, unless a loan of its host is still out.\<close>

definition ready_sibling ::
  "gang_io \<Rightarrow> gang_view \<Rightarrow> gang_record \<Rightarrow> rat \<Rightarrow> bool \<Rightarrow> gang_files \<Rightarrow> gang_member
     \<Rightarrow> (sibling_state \<times> json) result" where
  "ready_sibling io v r now loan fs m =
     (case (if loan then Inr None else gang_read io (Ready_Path (gr_group r) (gm_index m)) fs) of
        Inl e \<Rightarrow> Inl e
      | Inr mark \<Rightarrow>
          (case fresh_ready now m mark of
             Inl e \<Rightarrow> Inl e
           | Inr True \<Rightarrow> Inr (S_Ready, get ''host'' (the mark))
           | Inr False \<Rightarrow> Inr (S_Waiting, JNull)))"

definition reclaimable_sibling ::
  "gang_io \<Rightarrow> gang_view \<Rightarrow> gang_record \<Rightarrow> gang_files \<Rightarrow> gang_member \<Rightarrow> (sibling_state \<times> json) result" where
  "reclaimable_sibling io v r fs m =
     (case elections io (gr_group r) (gr_size r) fs of
        Inl e \<Rightarrow> Inl e
      | Inr found \<Rightarrow>
          (case map_of found (gm_index m) of
             None \<Rightarrow> Inr (S_Waiting, JNull)
           | Some election \<Rightarrow>
               (case backfill_holders v election of
                  Inl e \<Rightarrow> Inl e
                | Inr [] \<Rightarrow> Inr (S_Waiting, JNull)
                | Inr _ \<Rightarrow> Inr (S_Backfill, get ''host'' election))))"

definition sibling_standing ::
  "(string \<Rightarrow> pyfloat option) \<Rightarrow> gang_io \<Rightarrow> gang_view \<Rightarrow> gang_record \<Rightarrow> rat \<Rightarrow> bool \<Rightarrow> gang_files
     \<Rightarrow> gang_member \<Rightarrow> (sibling_state \<times> json) result" where
  "sibling_standing txt io v r now reclaimable fs m =
     (case gv_claimed v (gm_key m) of
        Inl e \<Rightarrow> Inl e
      | Inr claimed \<Rightarrow>
          (case claims_member txt m claimed of
             Inl e \<Rightarrow> Inl e
           | Inr True \<Rightarrow> Inr (S_Claimed, get ''claimed_host'' (the claimed))
           | Inr False \<Rightarrow>
               (case gv_pending v (gm_index m) of
                  Inl e \<Rightarrow> Inl e
                | Inr loan \<Rightarrow>
                    (case ready_sibling io v r now loan fs m of
                       Inl e \<Rightarrow> Inl e
                     | Inr (S_Waiting, h) \<Rightarrow>
                         if reclaimable \<and> \<not> loan then reclaimable_sibling io v r fs m
                         else Inr (S_Waiting, h)
                     | Inr ready \<Rightarrow> Inr ready))))"

record waiting_sibling =
  ws_index :: int
  ws_key :: string
  ws_state :: sibling_state
  ws_host :: json

fun readiness_of ::
  "(gang_member \<Rightarrow> (sibling_state \<times> json) result) \<Rightarrow> gang_member list \<Rightarrow> string set
     \<Rightarrow> waiting_sibling list result" where
  "readiness_of standing [] hosts = Inr []"
| "readiness_of standing (m # ms) hosts =
     (case standing m of
        Inl e \<Rightarrow> Inl e
      | Inr (state, host) \<Rightarrow>
          (case (if state = S_Waiting then None else text_field host) of
             Some h \<Rightarrow>
               if h \<notin> hosts then readiness_of standing ms (insert h hosts)
               else (case readiness_of standing ms hosts of
                       Inl e \<Rightarrow> Inl e
                     | Inr ws \<Rightarrow> Inr (\<lparr>ws_index = gm_index m, ws_key = take 12 (gm_key m),
                                        ws_state = state, ws_host = host\<rparr> # ws))
           | None \<Rightarrow>
               (case readiness_of standing ms hosts of
                  Inl e \<Rightarrow> Inl e
                | Inr ws \<Rightarrow> Inr (\<lparr>ws_index = gm_index m, ws_key = take 12 (gm_key m),
                                   ws_state = state, ws_host = host\<rparr> # ws))))"

text \<open>The siblings still waited for; the answer \<open>complete\<close> is that there are none.\<close>

definition sibling_readiness ::
  "(string \<Rightarrow> pyfloat option) \<Rightarrow> gang_io \<Rightarrow> gang_view \<Rightarrow> gang_record \<Rightarrow> gang_member \<Rightarrow> string
     \<Rightarrow> rat \<Rightarrow> bool \<Rightarrow> gang_files \<Rightarrow> waiting_sibling list result" where
  "sibling_readiness txt io v r m host now reclaimable fs =
     readiness_of (sibling_standing txt io v r now reclaimable fs)
       (filter (\<lambda>other. gm_index other \<noteq> gm_index m) (gr_members r)) {host}"

section \<open>Teardown\<close>

definition teardown_schema :: string where
  "teardown_schema = ''prismabuild.gang_teardown.v1''"

fun is_text :: "json \<Rightarrow> bool" where
  "is_text (JStr _) = True"
| "is_text _ = False"

text \<open>\<open>if record and ...\<close>: an empty document is not checked, and is a teardown.\<close>

definition teardown :: "gang_io \<Rightarrow> string \<Rightarrow> gang_files \<Rightarrow> obj option result" where
  "teardown io g fs =
     (case gang_read io (Teardown_Path g) fs of
        Inl e \<Rightarrow> Inl e
      | Inr None \<Rightarrow> Inr None
      | Inr (Some d) \<Rightarrow>
          if d \<noteq> [] \<and>
             (get ''schema'' d \<noteq> JStr teardown_schema \<or> get ''group'' d \<noteq> JStr g \<or>
              \<not> is_text (get ''reason'' d) \<or> \<not> is_text (get ''by'' d) \<or>
              \<not> is_finite_number (get ''torn_down_unix'' d))
          then Inl GangContractError
          else Inr (Some d))"

definition tear_down ::
  "gang_io \<Rightarrow> string \<Rightarrow> string \<Rightarrow> string \<Rightarrow> rat \<Rightarrow> gang_files \<Rightarrow> bool result \<times> gang_files" where
  "tear_down io g reason author now fs =
     link_new io (Teardown_Path g)
       [(''schema'', JStr teardown_schema), (''group'', JStr g), (''reason'', JStr reason),
        (''by'', JStr author), (''torn_down_unix'', JFloat (Fin now))] fs"

section \<open>Terminal readings\<close>

definition terminal_schema :: string where
  "terminal_schema = ''prismabuild.gang_terminal_mark.v1''"

definition terminal_confirm_s :: rat where
  "terminal_confirm_s = 120"

definition terminal_mark :: "string \<Rightarrow> string \<Rightarrow> string \<Rightarrow> rat \<Rightarrow> obj" where
  "terminal_mark g key signature now =
     [(''schema'', JStr terminal_schema), (''group'', JStr g), (''member'', JStr key),
      (''signature'', JStr signature), (''first_seen_unix'', JFloat (Fin now))]"

text \<open>
  \<open>now - float(stamp)\<close> for a mark that names this signature, when that is not negative: the stamp's
  conversion may overflow, and a stamp of \<open>-inf\<close> makes an infinite age.
\<close>

definition standing_age :: "string \<Rightarrow> rat \<Rightarrow> obj option \<Rightarrow> pyfloat option result" where
  "standing_age signature now mark =
     (case mark of
        None \<Rightarrow> Inr None
      | Some d \<Rightarrow>
          if signature = [] \<or> get ''schema'' d \<noteq> JStr terminal_schema \<or>
             get ''signature'' d \<noteq> JStr signature \<or> \<not> is_number (get ''first_seen_unix'' d) then Inr None
          else case py_float (get ''first_seen_unix'' d) of
            Inl e \<Rightarrow> Inl e
          | Inr (Fin t) \<Rightarrow> Inr (if 0 \<le> now - t then Some (Fin (now - t)) else None)
          | Inr NegInf \<Rightarrow> Inr (Some PosInf)
          | Inr _ \<Rightarrow> Inr None)"

text \<open>An unreadable mark counts as none.\<close>

definition note_terminal ::
  "gang_io \<Rightarrow> string \<Rightarrow> string \<Rightarrow> string \<Rightarrow> rat \<Rightarrow> rat \<Rightarrow> gang_files \<Rightarrow> bool result \<times> gang_files" where
  "note_terminal io g key signature now confirm_s fs =
     (let mark = (case gang_read io (Terminal_Path g key) fs of Inl _ \<Rightarrow> None | Inr m \<Rightarrow> m) in
      case standing_age signature now mark of
        Inl e \<Rightarrow> (Inl e, fs)
      | Inr (Some age) \<Rightarrow> (Inr (\<not> float_less age (Fin confirm_s)), fs)
      | Inr None \<Rightarrow>
          (case write_json_atomic io (Terminal_Path g key) (terminal_mark g key signature now) fs of
             (Inl e, fs') \<Rightarrow> (Inl e, fs')
           | (Inr _, fs') \<Rightarrow> (Inr False, fs')))"

text \<open>
  \<open>listed\<close> is whether the group's directory is listed under \<open>gangs/\<close>; \<open>removes\<close> whether the unlink
  succeeds. The second read is the proof that no mark survives.
\<close>

definition clear_terminal ::
  "gang_io \<Rightarrow> bool result \<Rightarrow> bool \<Rightarrow> string \<Rightarrow> string \<Rightarrow> gang_files \<Rightarrow> bool \<times> gang_files" where
  "clear_terminal io listed removes g key fs =
     (case listed of
        Inl _ \<Rightarrow> (False, fs)
      | Inr False \<Rightarrow> (True, fs)
      | Inr True \<Rightarrow>
          if \<not> removes then (False, fs)
          else let fs' = fs(Terminal_Path g key := None) in
            (gang_read io (Terminal_Path g key) fs' = Inr None, fs'))"

section \<open>Member states\<close>

fun slot_state :: "gang_member \<Rightarrow> (queue_state \<times> obj option result) list \<Rightarrow> queue_state option result" where
  "slot_state m [] = Inr None"
| "slot_state m ((state, seen) # slots) =
     (case seen of
        Inl e \<Rightarrow> Inl e
      | Inr None \<Rightarrow> slot_state m slots
      | Inr (Some row) \<Rightarrow>
          if get ''action_key'' row = JStr (gm_key m) \<and> is_finite_number (get ''published_unix'' row) \<and>
             py_eq (get ''published_unix'' row) (gm_published m)
          then Inr (Some state) else slot_state m slots)"

fun member_states :: "gang_view \<Rightarrow> gang_member list \<Rightarrow> (int, queue_state option) dict result" where
  "member_states v [] = Inr []"
| "member_states v (m # ms) =
     (case slot_state m (gv_slots v (gm_key m)) of
        Inl e \<Rightarrow> Inl e
      | Inr state \<Rightarrow>
          (case member_states v ms of Inl e \<Rightarrow> Inl e | Inr rest \<Rightarrow> Inr ((gm_index m, state) # rest)))"

definition sibling_states ::
  "gang_view \<Rightarrow> gang_record \<Rightarrow> gang_member \<Rightarrow> (int, queue_state option) dict result" where
  "sibling_states v r m =
     (case member_states v (gr_members r) of
        Inl e \<Rightarrow> Inl e
      | Inr states \<Rightarrow> Inr (filter (\<lambda>(i, _). i \<noteq> gm_index m) states))"

definition unsuccessful :: "queue_state option \<Rightarrow> bool" where
  "unsuccessful state \<longleftrightarrow> state = Some Q_Failed \<or> state = Some Q_Withdrawn"

section \<open>Ending a gang\<close>

text \<open>\<open>except (GangContractError, OSError, PrismaBuildError)\<close>.\<close>

fun contract_error :: "error \<Rightarrow> bool" where
  "contract_error GangContractError = True"
| "contract_error PoolContractError = True"
| "contract_error (OSError _) = True"
| "contract_error _ = False"

text \<open>\<open>PoolQueue._gang_teardown_mark\<close>: file the teardown of the row's gang; every contract or storage error is a \<open>False\<close>.\<close>

definition gang_teardown_mark ::
  "gang_io \<Rightarrow> json \<Rightarrow> string \<Rightarrow> string \<Rightarrow> rat \<Rightarrow> gang_files \<Rightarrow> bool result \<times> gang_files" where
  "gang_teardown_mark io gang reason author now fs =
     (let caught = (\<lambda>e. if contract_error e then Inr False else Inl e) in
      case gang_declaration gang of
        Inl e \<Rightarrow> (caught e, fs)
      | Inr None \<Rightarrow> (Inr False, fs)
      | Inr (Some d) \<Rightarrow>
          (case read_group io (de_group d) fs of
             Inl e \<Rightarrow> (caught e, fs)
           | Inr None \<Rightarrow> (Inr False, fs)
           | Inr (Some r) \<Rightarrow>
               (case tear_down io (gr_group r) reason author now fs of
                  (Inl e, fs') \<Rightarrow> (caught e, fs')
                | (Inr filed, fs') \<Rightarrow> (Inr filed, fs'))))"

text \<open>\<open>gang_wait.started\<close>.\<close>

definition started_document :: "gang_record \<Rightarrow> rat \<Rightarrow> obj" where
  "started_document r now =
     [(''schema'', JStr ''prismabuild.gang_started.v1''), (''group'', JStr (gr_group r)),
      (''started_unix'', JFloat (Fin now))]"

definition started :: "gang_io \<Rightarrow> gang_record \<Rightarrow> rat \<Rightarrow> gang_files \<Rightarrow> unit result \<times> gang_files" where
  "started io r now fs =
     (if gr_wait r = None then (Inr (), fs)
      else case link_new io (Started_Path (gr_group r)) (started_document r now) fs of
        (Inl e, fs') \<Rightarrow> (Inl e, fs')
      | (Inr _, fs') \<Rightarrow> (Inr (), fs'))"

text \<open>
  \<open>gang_wait.cancel_expired\<close>: under every member's lock, the rows of a gang that has not started, or
  the reason to leave it alone. \<open>Started_Late\<close> is a claim found although no started mark stands, which
  files the mark.
\<close>

datatype unstarted = Rows "obj list" | Leave | Started_Late

fun original_rows ::
  "(string \<Rightarrow> pyfloat option) \<Rightarrow> gang_view \<Rightarrow> (string \<Rightarrow> obj option result) \<Rightarrow> gang_record
     \<Rightarrow> gang_member list \<Rightarrow> unstarted result" where
  "original_rows txt v ready_row r [] = Inr (Rows [])"
| "original_rows txt v ready_row r (m # ms) =
     (case gv_claimed v (gm_key m) of
        Inl e \<Rightarrow> Inl e
      | Inr (Some _) \<Rightarrow> Inr Started_Late
      | Inr None \<Rightarrow>
          (case ready_row (gm_key m) of
             Inl e \<Rightarrow> Inl e
           | Inr None \<Rightarrow> Inr Leave
           | Inr (Some row) \<Rightarrow>
               if \<not> py_eq (get ''published_unix'' row) (gm_published m) then Inr Leave
               else case gang_declaration (get ''gang'' row) of
                 Inl e \<Rightarrow> Inl e
               | Inr d \<Rightarrow>
                   if d \<noteq> Some \<lparr>de_group = gr_group r, de_size = gr_size r, de_index = gm_index m\<rparr> then Inr Leave
                   else case gang_entry txt r row (the d) of
                     Inl e \<Rightarrow> Inl e
                   | Inr _ \<Rightarrow>
                       (case original_rows txt v ready_row r ms of
                          Inr (Rows rows) \<Rightarrow> Inr (Rows (row # rows))
                        | answer \<Rightarrow> answer)))"

definition wait_deadline :: "gang_record \<Rightarrow> rat \<Rightarrow> rat" where
  "wait_deadline r wait = Max (set (map (published_stamp \<circ> gm_published) (gr_members r))) + wait"

text \<open>The rows to withdraw are the second part of the answer; \<open>covered\<close> rows have a withdrawal already.\<close>

definition cancel_expired ::
  "(string \<Rightarrow> pyfloat option) \<Rightarrow> gang_io \<Rightarrow> (string \<Rightarrow> bool) \<Rightarrow> gang_view \<Rightarrow> (string \<Rightarrow> obj option result)
     \<Rightarrow> (obj \<Rightarrow> bool) \<Rightarrow> gang_record \<Rightarrow> rat \<Rightarrow> gang_files \<Rightarrow> (bool \<times> obj list) result \<times> gang_files" where
  "cancel_expired txt io busy v ready_row covered r now fs =
     (case gr_wait r of
        None \<Rightarrow> (Inr (False, []), fs)
      | Some wait \<Rightarrow>
          if list_ex (busy \<circ> gm_key) (gr_members r) then (Inr (False, []), fs)
          else case gang_read io (Started_Path (gr_group r)) fs of
            Inl e \<Rightarrow> (Inl e, fs)
          | Inr (Some _) \<Rightarrow> (Inr (False, []), fs)
          | Inr None \<Rightarrow>
              (case original_rows txt v ready_row r (gr_members r) of
                 Inl e \<Rightarrow> (Inl e, fs)
               | Inr Leave \<Rightarrow> (Inr (False, []), fs)
               | Inr Started_Late \<Rightarrow>
                   (case started io r now fs of
                      (Inl e, fs') \<Rightarrow> (Inl e, fs') | (Inr _, fs') \<Rightarrow> (Inr (False, []), fs'))
               | Inr (Rows rows) \<Rightarrow>
                   if now < wait_deadline r wait then (Inr (False, []), fs)
                   else (case tear_down io (gr_group r) ''submitter queue-wait deadline expired''
                                (''gang-wait:'' @ gr_group r) now fs of
                           (Inl e, fs') \<Rightarrow> (Inl e, fs')
                         | (Inr _, fs') \<Rightarrow> (Inr (True, filter (\<lambda>row. \<not> covered row) rows), fs'))))"

section \<open>The start barrier\<close>

text \<open>
  \<open>PoolQueue._gang_start_barrier\<close>, the loop after its set-up: one look of a claimed member at its gang.
  The clock is read after the sibling states; \<open>lk_files\<close> are the files as the look finds them.
\<close>

record look =
  lk_io :: gang_io
  lk_view :: gang_view
  lk_files :: gang_files
  lk_withdrawn :: bool
  lk_wall :: rat
  lk_clock :: rat

datatype barrier = Launch | Ends string string | Again

definition barrier_look ::
  "json \<Rightarrow> gang_record \<Rightarrow> gang_member \<Rightarrow> rat \<Rightarrow> look \<Rightarrow> barrier result \<times> gang_files" where
  "barrier_look gang r m deadline lk =
     (let fs = lk_files lk; mark = (\<lambda>reason. snd (gang_teardown_mark (lk_io lk) gang reason (gm_key m) (lk_wall lk) fs)) in
      if lk_withdrawn lk then (Inr (Ends ''withdrawn'' ''gang_torn_down''), fs)
      else case teardown (lk_io lk) (gr_group r) fs of
        Inl e \<Rightarrow> (Inl e, fs)
      | Inr (Some _) \<Rightarrow> (Inr (Ends ''failed'' ''gang_torn_down''), fs)
      | Inr None \<Rightarrow>
          (case sibling_states (lk_view lk) r m of
             Inl e \<Rightarrow> (Inl e, fs)
           | Inr states \<Rightarrow>
               if list_ex (unsuccessful \<circ> snd) states then (Inr Again, mark ''sibling ended before start'')
               else if list_all (\<lambda>(_, s). s = Some Q_Claimed \<or> s = Some Q_Done) states then (Inr Launch, fs)
               else if deadline - lk_clock lk \<le> 0
               then (Inr (Ends ''failed'' ''gang_start_skew_exceeded''), mark ''start skew exceeded'')
               else (Inr Again, fs)))"

fun start_barrier ::
  "json \<Rightarrow> gang_record \<Rightarrow> gang_member \<Rightarrow> rat \<Rightarrow> look list \<Rightarrow> barrier result" where
  "start_barrier gang r m deadline [] = Inr Again"
| "start_barrier gang r m deadline (lk # looks) =
     (case fst (barrier_look gang r m deadline lk) of
        Inr Again \<Rightarrow> start_barrier gang r m deadline looks
      | answer \<Rightarrow> answer)"

section \<open>Backfill\<close>

definition backfill_reclaiming :: "gang_io \<Rightarrow> gang_record \<Rightarrow> gang_files \<Rightarrow> bool result" where
  "backfill_reclaiming io r fs =
     (case elections io (gr_group r) (gr_size r) fs of
        Inl e \<Rightarrow> Inl e
      | Inr found \<Rightarrow> Inr (list_ex (\<lambda>(_, d). get ''backfill_reclaiming'' d = JBool True) found))"

text \<open>\<open>acquired\<close> is whether the member's transition lock was free.\<close>

definition begin_backfill_reclaim ::
  "gang_io \<Rightarrow> bool \<Rightarrow> string \<Rightarrow> int \<Rightarrow> gang_files \<Rightarrow> bool result \<times> gang_files" where
  "begin_backfill_reclaim io acquired g i fs =
     (if \<not> acquired then (Inr False, fs)
      else case gang_read io (Elect_Path g i) fs of
        Inl e \<Rightarrow> (Inl e, fs)
      | Inr None \<Rightarrow> (Inr False, fs)
      | Inr (Some standing) \<Rightarrow>
          (case write_json_atomic io (Elect_Path g i) (put ''backfill_reclaiming'' (JBool True) standing) fs of
             (Inl e, fs') \<Rightarrow> (Inl e, fs')
           | (Inr _, fs') \<Rightarrow> (Inr True, fs')))"

text \<open>\<open>{**a, **b}\<close>.\<close>

definition merge_obj :: "obj \<Rightarrow> obj \<Rightarrow> obj" where
  "merge_obj a b = fold (\<lambda>(k, v). put k v) b a"

definition merged_timing :: "obj \<Rightarrow> obj \<Rightarrow> obj result" where
  "merged_timing prior timing =
     (case item ''requested_unix'' prior of
        Inl e \<Rightarrow> Inl e
      | Inr asked \<Rightarrow>
          let merged = put ''requested_unix'' asked (merge_obj prior timing);
              returned = get ''tokens_returned_unix'' prior in
          Inr (if returned = JNull then merged else put ''tokens_returned_unix'' returned merged))"

fun note_timing :: "obj \<Rightarrow> obj list \<Rightarrow> obj list result" where
  "note_timing timing [] = Inr [timing]"
| "note_timing timing (prior # priors) =
     (if py_eq (get ''holder'' prior) (get ''holder'' timing) \<and>
         py_eq (get ''published_unix'' prior) (get ''published_unix'' timing)
      then (case merged_timing prior timing of Inl e \<Rightarrow> Inl e | Inr d \<Rightarrow> Inr (d # priors))
      else (case note_timing timing priors of Inl e \<Rightarrow> Inl e | Inr ds \<Rightarrow> Inr (prior # ds)))"

text \<open>
  The observations of an election, as only these functions write them: a list of objects. The timing is
  the caller's own record and has a holder and a publication.
\<close>

fun objects :: "json \<Rightarrow> obj list" where
  "objects (JArr xs) = concat (map (\<lambda>x. case x of JObj d \<Rightarrow> [d] | _ \<Rightarrow> []) xs)"
| "objects _ = []"

definition note_backfill_preemption ::
  "gang_io \<Rightarrow> bool \<Rightarrow> obj \<Rightarrow> string \<Rightarrow> int \<Rightarrow> obj \<Rightarrow> gang_files \<Rightarrow> bool result \<times> gang_files" where
  "note_backfill_preemption io acquired election g i timing fs =
     (if \<not> acquired then (Inr False, fs)
      else case gang_read io (Elect_Path g i) fs of
        Inl e \<Rightarrow> (Inl e, fs)
      | Inr None \<Rightarrow> (Inr False, fs)
      | Inr (Some standing) \<Rightarrow>
          if list_ex (\<lambda>k. \<not> py_eq (get k standing) (get k election)) [''group'', ''index'', ''action_key'', ''host'']
          then (Inr False, fs)
          else case note_timing timing (objects (get ''backfill_preemptions'' standing)) of
            Inl e \<Rightarrow> (Inl e, fs)
          | Inr ds \<Rightarrow>
              (case write_json_atomic io (Elect_Path g i)
                      (put ''backfill_preemptions'' (JArr (map JObj ds)) standing) fs of
                 (Inl e, fs') \<Rightarrow> (Inl e, fs')
               | (Inr _, fs') \<Rightarrow> (Inr True, fs')))"

text \<open>The fresh ready mark of the elected host itself.\<close>

definition ready_here :: "rat \<Rightarrow> gang_member \<Rightarrow> obj \<Rightarrow> obj option \<Rightarrow> bool result" where
  "ready_here now m election mark =
     (case mark of
        None \<Rightarrow> Inr False
      | Some d \<Rightarrow>
          if get ''schema'' d \<noteq> JStr ready_schema \<or> get ''action_key'' d \<noteq> JStr (gm_key m) \<or>
             \<not> py_eq (get ''host'' d) (get ''host'' election) \<or> \<not> is_number (get ''ready_unix'' d) then Inr False
          else case py_float (get ''ready_unix'' d) of
            Inl e \<Rightarrow> Inl e
          | Inr (Fin t) \<Rightarrow> Inr (0 \<le> now - t \<and> now - t \<le> ready_fresh_s)
          | Inr _ \<Rightarrow> Inr False)"

definition backfill_allowed ::
  "(string \<Rightarrow> pyfloat option) \<Rightarrow> gang_io \<Rightarrow> gang_view \<Rightarrow> obj \<Rightarrow> rat \<Rightarrow> gang_files \<Rightarrow> bool result" where
  "backfill_allowed txt io v election now fs =
     (case read_group io (text_of (get ''group'' election)) fs of
        Inl e \<Rightarrow> Inl e
      | Inr None \<Rightarrow> Inr False
      | Inr (Some r) \<Rightarrow>
          (case teardown io (gr_group r) fs of
             Inl e \<Rightarrow> Inl e
           | Inr (Some _) \<Rightarrow> Inr False
           | Inr None \<Rightarrow>
               (case backfill_reclaiming io r fs of
                  Inl e \<Rightarrow> Inl e
                | Inr True \<Rightarrow> Inr False
                | Inr False \<Rightarrow>
                    let i = int_of (get ''index'' election) in
                    if int (length (gr_members r)) \<le> i then Inl IndexError
                    else let m = gr_members r ! nat i in
                      if get ''action_key'' election \<noteq> JStr (gm_key m) then Inr False
                      else case gang_read io (Ready_Path (gr_group r) (gm_index m)) fs of
                        Inl e \<Rightarrow> Inl e
                      | Inr mark \<Rightarrow>
                          (case ready_here now m election mark of
                             Inl e \<Rightarrow> Inl e
                           | Inr False \<Rightarrow> Inr False
                           | Inr True \<Rightarrow>
                               (case sibling_readiness txt io v r m (text_of (get ''host'' election)) now True fs of
                                  Inl e \<Rightarrow> Inl e
                                | Inr ws \<Rightarrow> Inr (ws \<noteq> []))))))"

section \<open>A gang of two\<close>

definition sample_files :: gang_files where
  "sample_files = [Group_Path sample_group \<mapsto> JObj sample_document]"

definition sample_view :: "queue_state \<Rightarrow> gang_view" where
  "sample_view state = \<lparr>gv_claimed = \<lambda>_. Inr None, gv_pending = \<lambda>_. Inr False, gv_held = \<lambda>_. [],
     gv_slots = \<lambda>key. [(state, Inr (Some (sample_item (if key = sample_key 0 then 0 else 1))))]\<rparr>"

lemma sample_members [simp]: "gm_index (sample_member i) = i" "gm_key (sample_member i) = sample_key i"
  "gm_published (sample_member i) = JFloat (Fin 1)"
  by (simp_all add: sample_member_def)

lemma sample_sibling: "sibling_states (sample_view state) sample_gang (sample_member 0) = Inr [(1, Some state)]"
  by (simp add: sibling_states_def sample_view_def sample_item_def is_finite_number_def py_eq_numeric)

end
