(* ===== verification/Gang_Life.thy ===== *)
theory Gang_Life
  imports Gang
begin

text \<open>
  What holds of a gang from its publication to its end: which decisions stand, that members commit together
  and gangs do not hold each other up, how long a terminal reading must stand, when the start barrier and
  the queue-wait deadline end a gang.
\<close>

section \<open>What stands once filed\<close>

text \<open>
  What every operation leaves standing: a group record, a teardown and a started mark are never replaced;
  an election keeps all of its fields but the two that backfill writes, and a reclamation, once begun, is
  never taken back.
\<close>

definition backfill_fields :: "string set" where
  "backfill_fields = {''backfill_reclaiming'', ''backfill_preemptions''}"

definition same_election :: "json option \<Rightarrow> json option \<Rightarrow> bool" where
  "same_election a b =
     (case a of
        None \<Rightarrow> True
      | Some (JObj d) \<Rightarrow>
          (\<exists>d'. b = Some (JObj d') \<and> (\<forall>k. k \<notin> backfill_fields \<longrightarrow> get k d' = get k d) \<and>
             (get ''backfill_reclaiming'' d = JBool True \<longrightarrow> get ''backfill_reclaiming'' d' = JBool True))
      | Some v \<Rightarrow> b = Some v)"

definition stands :: "gang_files \<Rightarrow> gang_files \<Rightarrow> bool" where
  "stands fs fs' \<longleftrightarrow>
     (\<forall>g. \<forall>p \<in> {Group_Path g, Teardown_Path g, Started_Path g}. fs p \<noteq> None \<longrightarrow> fs' p = fs p) \<and>
     (\<forall>g i. same_election (fs (Elect_Path g i)) (fs' (Elect_Path g i)))"

lemma same_election_refl [simp]: "same_election a a"
  by (auto simp: same_election_def split: option.splits json.splits)

lemma same_election_None [simp]: "same_election None b"
  by (simp add: same_election_def)

lemma same_election_trans: "same_election a b \<Longrightarrow> same_election b c \<Longrightarrow> same_election a c"
proof (cases a)
  case (Some v)
  assume "same_election a b" "same_election b c"
  with Some show ?thesis by (cases v) (auto simp: same_election_def)
qed simp

lemma stands_refl [simp]: "stands fs fs"
  by (simp add: stands_def)

lemma stands_trans: "stands fs fs1 \<Longrightarrow> stands fs1 fs2 \<Longrightarrow> stands fs fs2"
  unfolding stands_def by (metis same_election_trans)

lemma stands_new: "fs p = None \<Longrightarrow> stands fs (fs(p \<mapsto> v))"
  by (auto simp: stands_def)

lemma stands_other:
  "(\<And>g. p \<noteq> Group_Path g \<and> p \<noteq> Teardown_Path g \<and> p \<noteq> Started_Path g) \<Longrightarrow> (\<And>g i. p \<noteq> Elect_Path g i) \<Longrightarrow>
   stands fs (fs(p := v))"
  by (auto simp: stands_def)

lemma stands_election:
  assumes "fs (Elect_Path g i) = Some (JObj d)"
    "\<And>k. k \<notin> backfill_fields \<Longrightarrow> get k d' = get k d"
    "get ''backfill_reclaiming'' d = JBool True \<Longrightarrow> get ''backfill_reclaiming'' d' = JBool True"
  shows "stands fs (fs(Elect_Path g i \<mapsto> JObj d'))"
proof -
  have "same_election (Some (JObj d)) (Some (JObj d'))" using assms(2,3) by (simp add: same_election_def)
  then show ?thesis using assms(1) by (simp add: stands_def)
qed

lemma link_new_stands: "link_new io p d fs = (x, fs') \<Longrightarrow> stands fs fs'"
  by (auto simp: link_new_def Let_def stands_new split: if_splits)

lemma link_new_result: "link_new io p d fs = (Inr x, fs') \<Longrightarrow> fs' p \<noteq> None \<and> (x \<longleftrightarrow> fs p = None)"
  by (auto simp: link_new_def Let_def split: if_splits)

text \<open>The contract the operations share, and what a client may conclude from it.\<close>

locale keeps_gang =
  fixes f :: "gang_files \<Rightarrow> 'a \<times> gang_files"
  assumes keeps: "f fs = (x, fs') \<Longrightarrow> stands fs fs'"
begin

lemma keeps_snd: "stands fs (snd (f fs))"
  using keeps [of fs "fst (f fs)" "snd (f fs)"] by simp

lemma group_kept: "fs (Group_Path g) \<noteq> None \<Longrightarrow> read_group io g (snd (f fs)) = read_group io g fs"
  using keeps_snd [of fs] by (simp add: stands_def read_group_def gang_read_def)

lemma teardown_kept: "fs (Teardown_Path g) \<noteq> None \<Longrightarrow> teardown io g (snd (f fs)) = teardown io g fs"
  using keeps_snd [of fs] by (simp add: stands_def teardown_def gang_read_def)

end

interpretation linking: keeps_gang "link_new io p d" for io p d
  by unfold_locales (rule link_new_stands)

interpretation electing: keeps_gang "elect_gang_member io r m host now" for io r m host now
  by unfold_locales
    (auto simp: elect_gang_member_def dest: link_new_stands split: prod.splits sum.splits bool.splits option.splits)

interpretation marking: keeps_gang "mark_ready io r m host now" for io r m host now
  by unfold_locales (auto simp: mark_ready_def write_json_atomic_def intro: stands_other split: if_splits)

interpretation tearing: keeps_gang "tear_down io g reason author now" for io g reason author now
  by unfold_locales (auto simp: tear_down_def dest: link_new_stands)

interpretation noting: keeps_gang "note_terminal io g key signature now confirm_s" for io g key signature now confirm_s
  by unfold_locales
    (auto simp: note_terminal_def Let_def write_json_atomic_def intro: stands_other
      split: sum.splits option.splits if_splits)

interpretation clearing: keeps_gang "clear_terminal io listed removes g key" for io listed removes g key
  by unfold_locales
    (auto simp: clear_terminal_def Let_def intro: stands_other split: sum.splits bool.splits if_splits)

interpretation teardown_marking: keeps_gang "gang_teardown_mark io gang reason author now" for io gang reason author now
  by unfold_locales
    (auto simp: gang_teardown_mark_def Let_def dest: tearing.keeps split: prod.splits sum.splits option.splits)

interpretation starting: keeps_gang "started io r now" for io r now
  by unfold_locales (auto simp: started_def dest: link_new_stands split: if_splits prod.splits sum.splits)

interpretation cancelling: keeps_gang "cancel_expired rd io busy v ready_row covered r now"
  for rd io busy v ready_row covered r now
  by unfold_locales
    (auto simp: cancel_expired_def dest: tearing.keeps starting.keeps
      split: prod.splits sum.splits option.splits if_splits unstarted.splits)

interpretation reclaiming: keeps_gang "begin_backfill_reclaim io acquired g i" for io acquired g i
  by unfold_locales
    (auto simp: begin_backfill_reclaim_def write_json_atomic_def gang_read_def backfill_fields_def
      intro!: stands_election split: if_splits sum.splits option.splits json.splits)

interpretation preempting: keeps_gang "note_backfill_preemption io acquired election g i timing"
  for io acquired election g i timing
  by unfold_locales
    (auto simp: note_backfill_preemption_def write_json_atomic_def gang_read_def backfill_fields_def
      intro!: stands_election split: if_splits sum.splits option.splits json.splits)

interpretation publishing: keeps_gang "publish_group io busy ready_row g rows skew_s queue_wait fs0 fs1"
  for io busy ready_row g rows skew_s queue_wait fs0 fs1
  by unfold_locales
    (auto simp: publish_group_def link_group_def dest: link_new_stands
      split: prod.splits sum.splits option.splits if_splits bool.splits)

section \<open>The gang as a state machine\<close>

text \<open>
  One step is one operation of any process, on any gang, with any file-system faults. A sweep that prunes
  a gang removes its files once every member has an exact ending; the life of a gang is what comes before.
\<close>

inductive gang_step :: "gang_files \<Rightarrow> gang_files \<Rightarrow> bool" where
  publish: "publish_group io busy ready_row g rows skew_s queue_wait fs0 fs1 fs = (x, fs') \<Longrightarrow> gang_step fs fs'"
| elect: "elect_gang_member io r m host now fs = (y, fs') \<Longrightarrow> gang_step fs fs'"
| ready: "mark_ready io r m host now fs = (u, fs') \<Longrightarrow> gang_step fs fs'"
| tear: "tear_down io g reason author now fs = (b, fs') \<Longrightarrow> gang_step fs fs'"
| mark: "gang_teardown_mark io gang reason author now fs = (b, fs') \<Longrightarrow> gang_step fs fs'"
| note_end: "note_terminal io g key signature now confirm_s fs = (b, fs') \<Longrightarrow> gang_step fs fs'"
| clear: "clear_terminal io listed removes g key fs = (c, fs') \<Longrightarrow> gang_step fs fs'"
| start: "started io r now fs = (u, fs') \<Longrightarrow> gang_step fs fs'"
| cancel: "cancel_expired txt io busy v ready_row covered r now fs = (w, fs') \<Longrightarrow> gang_step fs fs'"
| reclaim: "begin_backfill_reclaim io acquired g i fs = (b, fs') \<Longrightarrow> gang_step fs fs'"
| preempt: "note_backfill_preemption io acquired election g i timing fs = (b, fs') \<Longrightarrow> gang_step fs fs'"

lemmas gang_keeps = publishing.keeps electing.keeps marking.keeps tearing.keeps teardown_marking.keeps
  noting.keeps clearing.keeps starting.keeps cancelling.keeps reclaiming.keeps preempting.keeps

lemma gang_step_stands: "gang_step fs fs' \<Longrightarrow> stands fs fs'"
  by (induction rule: gang_step.induct) (erule gang_keeps)+

lemma gang_steps_stand: "gang_step\<^sup>*\<^sup>* fs fs' \<Longrightarrow> stands fs fs'"
  by (induction rule: rtranclp_induct) (auto intro: stands_trans gang_step_stands)

lemma elections_from_lookup:
  "elections_from io g is fs = Inr found \<Longrightarrow> map_of found i = Some d \<Longrightarrow> fs (Elect_Path g i) = Some (JObj d)"
  by (induction "is" arbitrary: found)
    (auto simp: gang_read_def split: sum.splits option.splits if_splits json.splits)

lemma elect_again:
  assumes "elect_gang_member io r m host now fs = (Inr e, fs')" "fs (Elect_Path (gr_group r) (gm_index m)) = Some (JObj d)"
  shows "e = d"
proof -
  have "fs' = fs" "\<exists>found. elections io (gr_group r) (gr_size r) fs' = Inr found \<and> map_of found (gm_index m) = Some e"
    using assms by (auto simp: elect_gang_member_def link_new_def Let_def split: if_splits sum.splits option.splits)
  then show ?thesis using assms(2) elections_from_lookup unfolding elections_def by fastforce
qed


section \<open>Committing together\<close>

lemma readiness_complete:
  "readiness_of standing ms hosts = Inr [] \<Longrightarrow>
   \<exists>hs. list_all2 (\<lambda>m h. \<exists>state. standing m = Inr (state, JStr h) \<and> state \<noteq> S_Waiting) ms hs \<and>
     distinct hs \<and> set hs \<inter> hosts = {}"
proof (induction ms arbitrary: hosts)
  case (Cons m ms)
  then obtain state host h where s: "standing m = Inr (state, host)" "state \<noteq> S_Waiting" "text_field host = Some h"
    "h \<notin> hosts" "readiness_of standing ms (insert h hosts) = Inr []"
    by (auto split: sum.splits if_splits option.splits)
  then have "host = JStr h" by (cases host) auto
  from Cons.IH [OF s(5)] obtain hs where "list_all2 (\<lambda>m h. \<exists>state. standing m = Inr (state, JStr h) \<and> state \<noteq> S_Waiting) ms hs"
    "distinct hs" "set hs \<inter> insert h hosts = {}" by blast
  with s \<open>host = JStr h\<close> show ?case by (intro exI [of _ "h # hs"]) auto
qed simp

text \<open>A sibling that counts, when nothing is being reclaimed: claimed under its own publication, or ready.\<close>

definition claimed_at :: "(string \<Rightarrow> pyfloat option) \<Rightarrow> gang_view \<Rightarrow> gang_member \<Rightarrow> string \<Rightarrow> bool" where
  "claimed_at txt v m h \<longleftrightarrow>
     (\<exists>c. gv_claimed v (gm_key m) = Inr (Some c) \<and> claims_member txt m (Some c) = Inr True \<and>
          get ''claimed_host'' c = JStr h)"

definition ready_at :: "gang_io \<Rightarrow> gang_view \<Rightarrow> gang_record \<Rightarrow> rat \<Rightarrow> gang_files \<Rightarrow> gang_member \<Rightarrow> string \<Rightarrow> bool" where
  "ready_at io v r now fs m h \<longleftrightarrow> gv_pending v (gm_index m) = Inr False \<and>
     (\<exists>d t. fs (Ready_Path (gr_group r) (gm_index m)) = Some (JObj d) \<and> get ''action_key'' d = JStr (gm_key m) \<and>
        get ''host'' d = JStr h \<and> py_float (get ''ready_unix'' d) = Inr (Fin t) \<and>
        t \<le> now \<and> now - t \<le> ready_fresh_s)"

lemma fresh_ready_True:
  "fresh_ready now m mark = Inr True \<Longrightarrow>
   \<exists>d t. mark = Some d \<and> get ''action_key'' d = JStr (gm_key m) \<and>
     py_float (get ''ready_unix'' d) = Inr (Fin t) \<and> t \<le> now \<and> now - t \<le> ready_fresh_s"
  by (auto simp: fresh_ready_def split: option.splits if_splits sum.splits pyfloat.splits)

lemma claims_member_True: "claims_member txt m claimed = Inr True \<Longrightarrow> \<exists>c. claimed = Some c"
  by (auto simp: claims_member_def split: option.splits)

lemma ready_sibling_ready:
  assumes "ready_sibling io v r now loan fs m = Inr (state, JStr h)" "state \<noteq> S_Waiting"
  shows "\<not> loan \<and> (\<exists>d t. fs (Ready_Path (gr_group r) (gm_index m)) = Some (JObj d) \<and> get ''action_key'' d = JStr (gm_key m) \<and>
        get ''host'' d = JStr h \<and> py_float (get ''ready_unix'' d) = Inr (Fin t) \<and> t \<le> now \<and> now - t \<le> ready_fresh_s)"
proof -
  from assms obtain mark where mark:
    "(if loan then Inr None else gang_read io (Ready_Path (gr_group r) (gm_index m)) fs) = Inr mark"
    "fresh_ready now m mark = Inr True" "get ''host'' (the mark) = JStr h"
    by (auto simp: ready_sibling_def split: sum.splits bool.splits)
  from fresh_ready_True [OF mark(2)] mark(3) obtain d t where d: "mark = Some d" "get ''action_key'' d = JStr (gm_key m)"
    "get ''host'' d = JStr h" "py_float (get ''ready_unix'' d) = Inr (Fin t)" "t \<le> now" "now - t \<le> ready_fresh_s"
    by auto
  moreover have "\<not> loan" using mark(1) d(1) by (auto split: if_splits)
  moreover from this mark(1) d(1) have "fs (Ready_Path (gr_group r) (gm_index m)) = Some (JObj d)"
    by (auto simp: gang_read_def split: if_splits option.splits json.splits)
  ultimately show ?thesis by blast
qed

lemma sibling_counts:
  assumes "sibling_standing txt io v r now False fs m = Inr (state, JStr h)" "state \<noteq> S_Waiting"
  shows "claimed_at txt v m h \<or> ready_at io v r now fs m h"
proof -
  from assms(1) obtain claimed where claimed: "gv_claimed v (gm_key m) = Inr claimed"
    by (auto simp: sibling_standing_def split: sum.splits)
  then obtain own where own: "claims_member txt m claimed = Inr own"
    using assms(1) by (auto simp: sibling_standing_def split: sum.splits)
  show ?thesis
  proof (cases own)
    case True
    with own have "\<exists>c. claimed = Some c" by (auto dest: claims_member_True)
    with True own claimed assms(1) show ?thesis by (auto simp: sibling_standing_def claimed_at_def)
  next
    case False
    with own claimed assms(1) obtain loan where loan: "gv_pending v (gm_index m) = Inr loan"
      by (auto simp: sibling_standing_def split: sum.splits)
    then have "ready_sibling io v r now loan fs m = Inr (state, JStr h)"
      using False own claimed assms by (auto simp: sibling_standing_def split: sum.splits sibling_state.splits)
    from ready_sibling_ready [OF this assms(2)] loan show ?thesis by (auto simp: ready_at_def)
  qed
qed

text \<open>
  C35: A gang commits whole. When \<open>sibling_readiness\<close> finds nobody missing (the answer on which a member's
  claim is committed), there is a list of hosts, all different and different from the member's own, one
  for each sibling, and on its host each sibling either holds a claim of its own exact publication or has
  marked itself ready in the last 30 seconds with no loan of that host outstanding.
\<close>

theorem gang_commits_whole:
  assumes "sibling_readiness txt io v r m host now False fs = Inr []"
  shows "\<exists>hs. distinct (host # hs) \<and>
    list_all2 (\<lambda>other h. claimed_at txt v other h \<or> ready_at io v r now fs other h)
      (filter (\<lambda>other. gm_index other \<noteq> gm_index m) (gr_members r)) hs"
proof -
  from readiness_complete [OF assms [unfolded sibling_readiness_def]]
  obtain hs where hs: "list_all2 (\<lambda>m h. \<exists>state. sibling_standing txt io v r now False fs m = Inr (state, JStr h) \<and> state \<noteq> S_Waiting)
      (filter (\<lambda>other. gm_index other \<noteq> gm_index m) (gr_members r)) hs" "distinct hs" "set hs \<inter> {host} = {}"
    by blast
  have "list_all2 (\<lambda>other h. claimed_at txt v other h \<or> ready_at io v r now fs other h)
      (filter (\<lambda>other. gm_index other \<noteq> gm_index m) (gr_members r)) hs"
    using hs(1) by (rule list_all2_mono) (auto dest: sibling_counts)
  with hs(2,3) show ?thesis by auto
qed

section \<open>Two gangs on one host\<close>

lemma fold_update_distinct:
  "distinct (map ce_index es) \<Longrightarrow> set (map ce_index es) \<inter> fst ` set d = {} \<Longrightarrow>
   fold (\<lambda>e. AList.update (ce_index e) e) es d = d @ map (\<lambda>e. (ce_index e, e)) es"
proof (induction es arbitrary: d)
  case (Cons e es)
  have "AList.update (ce_index e) e d = d @ [(ce_index e, e)]" if "ce_index e \<notin> fst ` set d"
    using that by (induction d) auto
  with Cons.prems have "AList.update (ce_index e) e d = d @ [(ce_index e, e)]" by auto
  with Cons show ?case by auto
qed simp

definition elected_on :: "census_election list \<Rightarrow> string \<Rightarrow> string \<Rightarrow> string set" where
  "elected_on census g host = insert host (ce_host ` {e \<in> set census. ce_group e = g})"

text \<open>The census of an admission: at most one election for each member, each carrying its gang's rank.\<close>

definition sound_census :: "census_election list \<Rightarrow> gang_record list \<Rightarrow> bool" where
  "sound_census census rs \<longleftrightarrow>
     (\<forall>r \<in> set rs. distinct (map ce_index (filter (\<lambda>e. ce_group e = gr_group r) census)) \<and>
        (\<forall>e \<in> set census. ce_group e = gr_group r \<longrightarrow> ce_rank e = rank r))"

lemma position_behind:
  assumes "distinct (map ce_index (filter (\<lambda>e. ce_group e = de_group d) census))"
  shows "(\<exists>e. election_position census r d host = Ranked_Behind e) \<longleftrightarrow>
    (\<exists>e \<in> set census. ce_group e \<noteq> de_group d \<and> ce_host e \<in> elected_on census (de_group d) host \<and> ce_rank e < rank r)"
proof -
  let ?es = "filter (\<lambda>e. ce_group e = de_group d) census"
  have "fold (\<lambda>e. AList.update (ce_index e) e) ?es [] = map (\<lambda>e. (ce_index e, e)) ?es"
    using fold_update_distinct [OF assms, of "[]"] by simp
  then have ours: "insert host (ce_host ` snd ` set (fold (\<lambda>e. AList.update (ce_index e) e) ?es [])) =
      elected_on census (de_group d) host"
    by (simp add: elected_on_def image_image)
  let ?ahead = "filter (\<lambda>e. ce_group e \<noteq> de_group d \<and> ce_host e \<in> elected_on census (de_group d) host \<and>
    ce_rank e < rank r) census"
  have "(\<exists>e. election_position census r d host = Ranked_Behind e) \<longleftrightarrow> ?ahead \<noteq> []"
    unfolding election_position_def Let_def ours by (cases ?ahead) auto
  then show ?thesis by (auto simp: filter_empty_conv)
qed

text \<open>
  C36: Two gangs never hold each other up. If each of two different gangs has an election on a host the
  other one stands on or is about to take, at least one of them is ranked behind and gives way; and a gang
  that no other gang of the census outranks is never the one that gives way.
\<close>

theorem gangs_never_wait_on_each_other:
  assumes "sound_census census [r1, r2]" "gr_group r1 \<noteq> gr_group r2"
    and "de_group d1 = gr_group r1" "de_group d2 = gr_group r2"
    and "\<exists>e \<in> set census. ce_group e = gr_group r2 \<and> ce_host e \<in> elected_on census (gr_group r1) h1"
    and "\<exists>e \<in> set census. ce_group e = gr_group r1 \<and> ce_host e \<in> elected_on census (gr_group r2) h2"
  shows "((\<exists>e. election_position census r1 d1 h1 = Ranked_Behind e) \<or>
      (\<exists>e. election_position census r2 d2 h2 = Ranked_Behind e)) \<and>
    ((\<forall>e \<in> set census. rank r1 \<le> ce_rank e) \<longrightarrow>
      (\<exists>mine here needs. election_position census r1 d1 h1 = Election_Position mine here needs))"
proof -
  have ranks: "rank r1 < rank r2 \<or> rank r2 < rank r1"
    using assms(2) by (auto simp: rank_def less_prod_def)
  have d: "distinct (map ce_index (filter (\<lambda>e. ce_group e = de_group d1) census))"
    "distinct (map ce_index (filter (\<lambda>e. ce_group e = de_group d2) census))"
    using assms(1,3,4) by (simp_all add: sound_census_def)
  have of: "\<forall>e \<in> set census. (ce_group e = gr_group r1 \<longrightarrow> ce_rank e = rank r1) \<and> (ce_group e = gr_group r2 \<longrightarrow> ce_rank e = rank r2)"
    using assms(1) by (auto simp: sound_census_def)
  have "(\<exists>e. election_position census r1 d1 h1 = Ranked_Behind e) \<or> (\<exists>e. election_position census r2 d2 h2 = Ranked_Behind e)"
    unfolding position_behind [OF d(1)] position_behind [OF d(2)]
    using ranks assms(2-6) of by metis
  moreover have "\<exists>mine here needs. election_position census r1 d1 h1 = Election_Position mine here needs"
    if "\<forall>e \<in> set census. rank r1 \<le> ce_rank e"
  proof -
    have "\<not> (\<exists>e. election_position census r1 d1 h1 = Ranked_Behind e)"
      unfolding position_behind [OF d(1)] using that by (auto simp: not_less)
    then show ?thesis by (cases "election_position census r1 d1 h1") auto
  qed
  ultimately show ?thesis by blast
qed

section \<open>A terminal reading must stand\<close>

text \<open>
  The readings of one member's terminal mark, in order: a reading with its signature and time, or a clear
  with its answer. A listing that does not show the group's directory is true, and whatever else happens
  to the gang's files leaves the mark alone (its one writer holds the member's row lock).
\<close>

datatype reading = Reading string rat | Cleared bool

inductive terminal_run :: "string \<Rightarrow> string \<Rightarrow> rat \<Rightarrow> reading list \<Rightarrow> gang_files \<Rightarrow> bool" for g key confirm_s where
  start: "fs (Terminal_Path g key) = None \<Longrightarrow> terminal_run g key confirm_s [] fs"
| reads: "terminal_run g key confirm_s ops fs \<Longrightarrow> note_terminal io g key signature now confirm_s fs = (Inr b, fs') \<Longrightarrow>
    terminal_run g key confirm_s (ops @ [Reading signature now]) fs'"
| clears: "terminal_run g key confirm_s ops fs \<Longrightarrow> clear_terminal io listed removes g key fs = (b, fs') \<Longrightarrow>
    (listed = Inr False \<Longrightarrow> fs (Terminal_Path g key) = None) \<Longrightarrow>
    terminal_run g key confirm_s (ops @ [Cleared b]) fs'"
| other: "terminal_run g key confirm_s ops fs \<Longrightarrow> fs' (Terminal_Path g key) = fs (Terminal_Path g key) \<Longrightarrow>
    terminal_run g key confirm_s ops fs'"

definition unbroken :: "string \<Rightarrow> reading \<Rightarrow> bool" where
  "unbroken s op \<longleftrightarrow> op = Cleared False \<or> (\<exists>t. op = Reading s t)"

definition mark_since :: "string \<Rightarrow> string \<Rightarrow> reading list \<Rightarrow> json option \<Rightarrow> bool" where
  "mark_since g key ops doc \<longleftrightarrow> doc = None \<or>
     (\<exists>s t pre post. doc = Some (JObj (terminal_mark g key s t)) \<and> ops = pre @ Reading s t # post \<and>
        list_all (unbroken s) post)"

lemma get_terminal_mark [simp]:
  "get ''schema'' (terminal_mark g key s t) = JStr terminal_schema"
  "get ''signature'' (terminal_mark g key s t) = JStr s"
  "get ''first_seen_unix'' (terminal_mark g key s t) = JFloat (Fin t)"
  by (simp_all add: terminal_mark_def)

lemma standing_age_mark:
  "standing_age s' now (Some (terminal_mark g key s t)) =
     Inr (if s' \<noteq> [] \<and> s = s' \<and> t \<le> now then Some (Fin (now - t)) else None)"
  by (auto simp: standing_age_def)

lemma mark_since_rewritten: "mark_since g key (ops @ [Reading s t]) (Some (JObj (terminal_mark g key s t)))"
  unfolding mark_since_def by (intro disjI2 exI [of _ s] exI [of _ t] exI [of _ ops] exI [of _ "[]"]) simp

lemma mark_since_extended:
  assumes "mark_since g key ops doc" "\<And>s t. doc = Some (JObj (terminal_mark g key s t)) \<Longrightarrow> unbroken s op"
  shows "mark_since g key (ops @ [op]) doc"
proof (cases "doc = None")
  case False
  with assms(1) obtain s t pre post where "doc = Some (JObj (terminal_mark g key s t))"
    "ops = pre @ Reading s t # post" "list_all (unbroken s) post" by (auto simp: mark_since_def)
  with assms(2) show ?thesis
    unfolding mark_since_def by (intro disjI2 exI [of _ s] exI [of _ t] exI [of _ pre] exI [of _ "post @ [op]"]) simp
qed (simp add: mark_since_def)

text \<open>What a reading finds: the standing mark, or nothing when it is absent or unreadable.\<close>

lemma note_terminal_cases:
  assumes "note_terminal io g key s now confirm_s fs = (Inr b, fs')" "mark_since g key ops (fs (Terminal_Path g key))"
  obtains (kept) t where "fs' = fs" "fs (Terminal_Path g key) = Some (JObj (terminal_mark g key s t))"
      "s \<noteq> []" "b \<longleftrightarrow> confirm_s \<le> now - t"
  | (rewritten) "fs' = fs(Terminal_Path g key \<mapsto> JObj (terminal_mark g key s now))" "\<not> b"
proof -
  define mark where "mark = (case gang_read io (Terminal_Path g key) fs of Inl _ \<Rightarrow> None | Inr m \<Rightarrow> m)"
  have note_eq: "(case standing_age s now mark of Inl e \<Rightarrow> (Inl e, fs)
      | Inr (Some age) \<Rightarrow> (Inr (\<not> float_less age (Fin confirm_s)), fs)
      | Inr None \<Rightarrow> (case write_json_atomic io (Terminal_Path g key) (terminal_mark g key s now) fs of
             (Inl e, fs') \<Rightarrow> (Inl e, fs') | (Inr _, fs') \<Rightarrow> (Inr False, fs'))) = (Inr b, fs')"
    using assms(1) by (simp add: note_terminal_def mark_def)
  have "mark = None \<or> (\<exists>s' t. mark = Some (terminal_mark g key s' t) \<and>
      fs (Terminal_Path g key) = Some (JObj (terminal_mark g key s' t)))"
    using assms(2) by (auto simp: mark_def gang_read_def mark_since_def) blast
  then show ?thesis
  proof (elim disjE exE conjE)
    assume "mark = None"
    with note_eq show ?thesis
      by (intro rewritten) (auto simp: standing_age_def write_json_atomic_def split: if_splits)
  next
    fix s' t assume m: "mark = Some (terminal_mark g key s' t)" "fs (Terminal_Path g key) = Some (JObj (terminal_mark g key s' t))"
    show ?thesis
    proof (cases "s \<noteq> [] \<and> s' = s \<and> t \<le> now")
      case True
      with note_eq m show ?thesis by (intro kept [of t]) (auto simp: standing_age_mark)
    next
      case False
      with note_eq m show ?thesis
        by (intro rewritten) (auto simp: standing_age_mark write_json_atomic_def split: if_splits)
    qed
  qed
qed

lemma terminal_run_mark: "terminal_run g key confirm_s ops fs \<Longrightarrow> mark_since g key ops (fs (Terminal_Path g key))"
proof (induction rule: terminal_run.induct)
  case (reads ops fs io signature now b fs')
  from reads.hyps(2) reads.IH show ?case
  proof (cases rule: note_terminal_cases)
    case (kept t)
    with reads.IH show ?thesis by (auto intro!: mark_since_extended simp: unbroken_def terminal_mark_def)
  next
    case rewritten
    then show ?thesis by (simp add: mark_since_rewritten)
  qed
next
  case (clears ops fs io listed removes b fs')
  show ?case
  proof (cases "fs' (Terminal_Path g key) = None")
    case False
    with clears.hyps(2,3) have "b = False \<and> fs' = fs"
      by (auto simp: clear_terminal_def Let_def split: sum.splits bool.splits if_splits)
    with clears.IH show ?thesis by (auto intro!: mark_since_extended simp: unbroken_def)
  qed (simp add: mark_since_def)
qed (auto simp: mark_since_def)

text \<open>
  One reading never ends a gang. When \<open>note_terminal\<close> confirms a signature, that same signature was
  read at least the confirmation window earlier, and between the two no reading of this member's mark
  showed another signature or an uncertain one, and no clear succeeded.
\<close>

theorem terminal_confirmed_after_window:
  assumes "terminal_run g key confirm_s ops fs"
    and "note_terminal io g key s now confirm_s fs = (Inr True, fs')"
  shows "s \<noteq> [] \<and> (\<exists>pre t post. ops = pre @ Reading s t # post \<and> confirm_s \<le> now - t \<and>
    (\<forall>op \<in> set post. op \<noteq> Cleared True \<and> (\<forall>s' t'. op = Reading s' t' \<longrightarrow> s' = s)))"
proof -
  have since: "mark_since g key ops (fs (Terminal_Path g key))" using assms(1) by (rule terminal_run_mark)
  from assms(2) since show ?thesis
  proof (cases rule: note_terminal_cases)
    case (kept t)
    from since kept(2) obtain pre post where "ops = pre @ Reading s t # post" "list_all (unbroken s) post"
      by (auto simp: mark_since_def terminal_mark_def)
    with kept(3,4) show ?thesis by (fastforce simp: list_all_iff unbroken_def)
  qed simp
qed

section \<open>The start barrier ends\<close>

lemma barrier_again:
  assumes "fst (barrier_look gang r m deadline lk) = Inr Again"
  shows "teardown (lk_io lk) (gr_group r) (lk_files lk) = Inr None \<and> \<not> lk_withdrawn lk \<and>
    (lk_clock lk < deadline \<or>
     snd (barrier_look gang r m deadline lk) =
       snd (gang_teardown_mark (lk_io lk) gang ''sibling ended before start'' (gm_key m) (lk_wall lk) (lk_files lk)))"
  using assms by (auto simp: barrier_look_def Let_def split: if_splits sum.splits option.splits)

lemma teardown_None: "teardown io g fs = Inr None \<Longrightarrow> fs (Teardown_Path g) = None"
  by (auto simp: teardown_def gang_read_def split: if_splits sum.splits option.splits json.splits)

lemma start_barrier_again:
  "start_barrier gang r m deadline looks = Inr Again \<longleftrightarrow>
     (\<forall>lk \<in> set looks. fst (barrier_look gang r m deadline lk) = Inr Again)"
  by (induction looks) (auto split: sum.splits barrier.splits)

text \<open>Storage that takes a teardown: when a look files one, the file is there afterwards.\<close>

definition files_teardowns :: "json \<Rightarrow> gang_record \<Rightarrow> gang_member \<Rightarrow> look \<Rightarrow> bool" where
  "files_teardowns gang r m lk \<longleftrightarrow>
     snd (gang_teardown_mark (lk_io lk) gang ''sibling ended before start'' (gm_key m) (lk_wall lk) (lk_files lk))
       (Teardown_Path (gr_group r)) \<noteq> None"

text \<open>
  C37: A claimed member does not wait past the start skew. As long as the pool's storage takes the teardown
  and nothing removes it, of all the looks of a barrier that is still waiting every one but the last was
  before the deadline: the look after the first one past the deadline, at the latest, launches the member,
  ends it or reports an unreadable record.
\<close>

theorem start_barrier_bounded:
  assumes "start_barrier gang r m deadline looks = Inr Again"
    and "\<forall>lk \<in> set looks. files_teardowns gang r m lk"
    and "successively (\<lambda>a b. stands (snd (barrier_look gang r m deadline a)) (lk_files b)) looks"
    and "Suc i < length looks"
  shows "lk_clock (looks ! i) < deadline"
proof (rule ccontr)
  assume late: "\<not> ?thesis"
  let ?a = "looks ! i" and ?b = "looks ! Suc i"
  have again: "fst (barrier_look gang r m deadline ?a) = Inr Again" "fst (barrier_look gang r m deadline ?b) = Inr Again"
    using assms(1,4) by (simp_all add: start_barrier_again)
  from barrier_again [OF again(1)] late have "snd (barrier_look gang r m deadline ?a) (Teardown_Path (gr_group r)) \<noteq> None"
    using assms(2,4) by (auto simp: files_teardowns_def)
  moreover have "stands (snd (barrier_look gang r m deadline ?a)) (lk_files ?b)"
    using assms(3,4) by (simp add: successively_conv_nth)
  ultimately have "lk_files ?b (Teardown_Path (gr_group r)) \<noteq> None" by (auto simp: stands_def)
  with barrier_again [OF again(2)] show False by (auto dest: teardown_None)
qed

text \<open>
  Where storage refuses the teardown, nothing bounds the barrier. While a sibling of the member has
  failed or been withdrawn, no teardown stands and none can be filed, every look goes round again, however
  far the clock is past the deadline: the branch for an ended sibling neither compares the deadline nor
  sleeps.
\<close>

theorem start_barrier_ignores_deadline:
  assumes "\<forall>lk \<in> set looks. \<not> lk_withdrawn lk \<and> \<not> gi_read (lk_io lk) (Teardown_Path (gr_group r)) \<and>
      gi_link (lk_io lk) (Teardown_Path (gr_group r)) \<and> lk_files lk (Teardown_Path (gr_group r)) = None \<and>
      (\<exists>states. sibling_states (lk_view lk) r m = Inr states \<and> list_ex (unsuccessful \<circ> snd) states)"
  shows "start_barrier gang r m deadline looks = Inr Again"
proof -
  have "fst (barrier_look gang r m deadline lk) = Inr Again" if "lk \<in> set looks" for lk
    using bspec [OF assms that] by (auto simp: barrier_look_def teardown_def gang_read_def Let_def)
  then show ?thesis by (simp add: start_barrier_again)
qed

section \<open>The queue-wait deadline\<close>

definition unstarted_member ::
  "gang_view \<Rightarrow> (string \<Rightarrow> obj option result) \<Rightarrow> gang_record \<Rightarrow> gang_member \<Rightarrow> obj \<Rightarrow> bool" where
  "unstarted_member v ready_row r m row \<longleftrightarrow>
     gv_claimed v (gm_key m) = Inr None \<and> ready_row (gm_key m) = Inr (Some row) \<and>
     py_eq (get ''published_unix'' row) (gm_published m) \<and>
     gang_declaration (get ''gang'' row) =
       Inr (Some \<lparr>de_group = gr_group r, de_size = gr_size r, de_index = gm_index m\<rparr>)"

lemma original_rows_all:
  "original_rows txt v ready_row r ms = Inr (Rows rows) \<Longrightarrow> list_all2 (unstarted_member v ready_row r) ms rows"
proof (induction ms arbitrary: rows)
  case (Cons m ms)
  then obtain row rest where "gv_claimed v (gm_key m) = Inr None" "ready_row (gm_key m) = Inr (Some row)"
    "py_eq (get ''published_unix'' row) (gm_published m)"
    "gang_declaration (get ''gang'' row) =
       Inr (Some \<lparr>de_group = gr_group r, de_size = gr_size r, de_index = gm_index m\<rparr>)"
    "original_rows txt v ready_row r ms = Inr (Rows rest)" "rows = row # rest"
    by (auto split: sum.splits option.splits if_splits unstarted.splits)
  with Cons.IH show ?case by (simp add: unstarted_member_def)
qed simp

text \<open>
  C38: A submitter's deadline ends only the original gang, wholly unstarted. When \<open>cancel_expired\<close> says it
  cancelled, the group has a deadline and it has passed, no lock of a member was held, no started mark
  stands, every member is unclaimed and its READY row is the very publication the group record names; the
  teardown is on file, and the rows to withdraw are those rows, less the ones already withdrawn.
\<close>

theorem cancel_expired_only_unstarted:
  assumes "cancel_expired txt io busy v ready_row covered r now fs = (Inr (True, withdrawn), fs')"
  shows "(\<exists>wait. gr_wait r = Some wait \<and> wait_deadline r wait \<le> now) \<and>
    (\<forall>m \<in> set (gr_members r). \<not> busy (gm_key m)) \<and>
    fs (Started_Path (gr_group r)) = None \<and> fs' (Teardown_Path (gr_group r)) \<noteq> None \<and>
    (\<exists>rows. list_all2 (unstarted_member v ready_row r) (gr_members r) rows \<and>
      withdrawn = filter (\<lambda>row. \<not> covered row) rows)"
proof -
  from assms obtain wait rows b where c: "gr_wait r = Some wait" "\<not> list_ex (busy \<circ> gm_key) (gr_members r)"
    "gang_read io (Started_Path (gr_group r)) fs = Inr None"
    "original_rows txt v ready_row r (gr_members r) = Inr (Rows rows)" "\<not> now < wait_deadline r wait"
    "withdrawn = filter (\<lambda>row. \<not> covered row) rows"
    "tear_down io (gr_group r) ''submitter queue-wait deadline expired'' (''gang-wait:'' @ gr_group r) now fs = (Inr b, fs')"
    by (auto simp: cancel_expired_def split: option.splits if_splits sum.splits prod.splits unstarted.splits)
  have "fs (Started_Path (gr_group r)) = None"
    using c(3) by (auto simp: gang_read_def split: if_splits option.splits json.splits)
  moreover have "fs' (Teardown_Path (gr_group r)) \<noteq> None"
    using c(7) unfolding tear_down_def by (auto dest: link_new_result)
  moreover have "\<forall>m \<in> set (gr_members r). \<not> busy (gm_key m)" using c(2) by (auto simp: list_ex_iff)
  ultimately show ?thesis using c(1,5,6) original_rows_all [OF c(4)] by (auto simp: not_less)
qed

section \<open>Instances\<close>


theorem gang_commits_whole_witness:
  "\<exists>hs. distinct (''h1'' # hs) \<and>
     list_all2 (\<lambda>other h. claimed_at (\<lambda>_. None) (sample_view Q_Ready) other h \<or>
         ready_at no_gang_fault (sample_view Q_Ready) sample_gang 20
           (snd (mark_ready no_gang_fault sample_gang (sample_member 1) ''h2'' 10 sample_files)) other h)
       [sample_member 1] hs"
proof -
  let ?fs = "snd (mark_ready no_gang_fault sample_gang (sample_member 1) ''h2'' 10 sample_files)"
  have "sibling_standing (\<lambda>_. None) no_gang_fault (sample_view Q_Ready) sample_gang 20 False ?fs (sample_member 1)
      = Inr (S_Ready, JStr ''h2'')"
    by (simp add: sibling_standing_def claims_member_def ready_sibling_def mark_ready_def write_json_atomic_def
        gang_read_def no_gang_fault_def sample_view_def fresh_ready_def is_numeric_def ready_fresh_s_def)
  then have "sibling_readiness (\<lambda>_. None) no_gang_fault (sample_view Q_Ready) sample_gang (sample_member 0) ''h1'' 20 False ?fs = Inr []"
    by (simp add: sibling_readiness_def)
  from gang_commits_whole [OF this] show ?thesis by simp
qed

definition other_gang :: gang_record where
  "other_gang = sample_gang\<lparr>gr_group := ''other''\<rparr>"

definition seat :: "gang_record \<Rightarrow> census_election" where
  "seat r = \<lparr>ce_group = gr_group r, ce_index = 0, ce_key = [], ce_host = ''h'', ce_rank = rank r\<rparr>"

lemma other_group: "gr_group sample_gang \<noteq> gr_group other_gang"
proof -
  have "length sample_group \<noteq> length ''other''" by (simp add: sample_group_def)
  then have "sample_group \<noteq> ''other''" by metis
  then show ?thesis by (simp add: other_gang_def)
qed

theorem gangs_never_wait_on_each_other_witness:
  "(\<exists>e. election_position [seat sample_gang, seat other_gang] sample_gang
      \<lparr>de_group = gr_group sample_gang, de_size = 2, de_index = 1\<rparr> ''h'' = Ranked_Behind e) \<or>
   (\<exists>e. election_position [seat sample_gang, seat other_gang] other_gang
      \<lparr>de_group = gr_group other_gang, de_size = 2, de_index = 1\<rparr> ''h'' = Ranked_Behind e)"
proof -
  have sound: "sound_census [seat sample_gang, seat other_gang] [sample_gang, other_gang]"
    using other_group by (auto simp: sound_census_def seat_def)
  have seats: "\<exists>e \<in> set [seat sample_gang, seat other_gang]. ce_group e = gr_group r \<and>
      ce_host e \<in> elected_on [seat sample_gang, seat other_gang] g ''h''" if "r = sample_gang \<or> r = other_gang" for r g
    using that by (auto simp: seat_def elected_on_def)
  show ?thesis
    by (rule gangs_never_wait_on_each_other [OF sound other_group _ _ seats seats, THEN conjunct1]) simp_all
qed

theorem terminal_confirmed_after_window_witness:
  "\<exists>pre t post. [Reading ''s'' 0] = pre @ Reading ''s'' t # post \<and> terminal_confirm_s \<le> 120 - t"
proof -
  let ?fs = "[Terminal_Path sample_group ''k'' \<mapsto> JObj (terminal_mark sample_group ''k'' ''s'' 0)]"
  have "terminal_run sample_group ''k'' terminal_confirm_s [] Map.empty" by (rule terminal_run.start) simp
  then have "terminal_run sample_group ''k'' terminal_confirm_s ([] @ [Reading ''s'' 0]) ?fs"
    by (rule terminal_run.reads [where io = no_gang_fault and b = False])
      (simp add: note_terminal_def gang_read_def no_gang_fault_def standing_age_def write_json_atomic_def)
  moreover have "note_terminal no_gang_fault sample_group ''k'' ''s'' 120 terminal_confirm_s ?fs = (Inr True, ?fs)"
    by (simp add: note_terminal_def gang_read_def no_gang_fault_def standing_age_mark terminal_confirm_s_def)
  ultimately have "''s'' \<noteq> [] \<and> (\<exists>pre t post. [] @ [Reading ''s'' 0] = pre @ Reading ''s'' t # post \<and> terminal_confirm_s \<le> 120 - t \<and>
    (\<forall>op \<in> set post. op \<noteq> Cleared True \<and> (\<forall>s' t'. op = Reading s' t' \<longrightarrow> s' = ''s'')))"
    by (rule terminal_confirmed_after_window)
  then show ?thesis by auto
qed

definition sample_look :: "gang_io \<Rightarrow> queue_state \<Rightarrow> rat \<Rightarrow> look" where
  "sample_look io state clock = \<lparr>lk_io = io, lk_view = sample_view state, lk_files = sample_files,
     lk_withdrawn = False, lk_wall = clock, lk_clock = clock\<rparr>"

lemma sample_no_teardown:
  "\<not> gi_read io (Teardown_Path sample_group) \<Longrightarrow> teardown io sample_group sample_files = Inr None"
  by (simp add: teardown_def gang_read_def sample_files_def)

lemma sample_waits:
  "clock < 120 \<Longrightarrow>
   barrier_look (sample_declaration 0) sample_gang (sample_member 0) 120 (sample_look no_gang_fault Q_Ready clock) =
     (Inr Again, sample_files)"
  by (simp add: barrier_look_def sample_look_def sample_no_teardown no_gang_fault_def sample_sibling unsuccessful_def)

theorem start_barrier_bounded_witness:
  "lk_clock ([sample_look no_gang_fault Q_Ready 1, sample_look no_gang_fault Q_Ready 2] ! 0) < 120"
proof -
  let ?looks = "[sample_look no_gang_fault Q_Ready 1, sample_look no_gang_fault Q_Ready 2]"
  have "start_barrier (sample_declaration 0) sample_gang (sample_member 0) 120 ?looks = Inr Again"
    by (simp add: sample_waits)
  moreover have "\<forall>lk \<in> set ?looks. files_teardowns (sample_declaration 0) sample_gang (sample_member 0) lk"
    by (simp add: files_teardowns_def sample_look_def gang_teardown_mark_def sample_files_def sample_read
        tear_down_def link_new_def no_gang_fault_def [symmetric]) (simp add: no_gang_fault_def)
  moreover have "successively (\<lambda>a b. stands (snd (barrier_look (sample_declaration 0) sample_gang (sample_member 0) 120 a)) (lk_files b)) ?looks"
    by (simp add: sample_waits) (simp add: sample_look_def)
  ultimately show ?thesis by (rule start_barrier_bounded) simp
qed

definition full_disk :: gang_io where
  "full_disk = no_gang_fault\<lparr>gi_link := \<lambda>_. True\<rparr>"

theorem start_barrier_ignores_deadline_witness:
  "start_barrier (sample_declaration 0) sample_gang (sample_member 0) 120
     [sample_look full_disk Q_Failed 500, sample_look full_disk Q_Failed 100000] = Inr Again"
  by (rule start_barrier_ignores_deadline)
    (simp add: sample_look_def full_disk_def no_gang_fault_def sample_files_def sample_sibling unsuccessful_def)

theorem cancel_expired_only_unstarted_witness:
  "\<exists>rows. list_all2 (unstarted_member (sample_view Q_Ready) sample_ready sample_gang) [sample_member 0, sample_member 1] rows"
proof -
  have entry: "gang_entry (\<lambda>_. None) sample_gang (sample_item i) \<lparr>de_group = sample_group, de_size = 2, de_index = i\<rparr> =
      Inr (sample_member i)" if "i = 0 \<or> i = 1" for i
    using that by (auto simp: gang_entry_def sample_item_def item_def float_of_def)
  have item: "get ''published_unix'' (sample_item i) = JFloat (Fin 1)" "get ''gang'' (sample_item i) = sample_declaration i" for i
    by (simp_all add: sample_item_def)
  have rows: "original_rows (\<lambda>_. None) (sample_view Q_Ready) sample_ready sample_gang [sample_member 0, sample_member 1] =
      Inr (Rows [sample_item 0, sample_item 1])"
    by (simp add: sample_view_def sample_ready_def item py_eq_numeric entry)
  have "gang_read no_gang_fault (Started_Path sample_group) sample_files = Inr None"
    by (simp add: gang_read_def no_gang_fault_def sample_files_def)
  moreover have "wait_deadline sample_gang 600 = 601" by (simp add: wait_deadline_def published_stamp_def)
  moreover obtain fs' where "tear_down no_gang_fault sample_group ''submitter queue-wait deadline expired''
      (''gang-wait:'' @ sample_group) 700 sample_files = (Inr True, fs')"
    by (simp add: tear_down_def link_new_def no_gang_fault_def sample_files_def)
  ultimately have "cancel_expired (\<lambda>_. None) no_gang_fault (\<lambda>_. False) (sample_view Q_Ready) sample_ready (\<lambda>_. False) sample_gang 700
      sample_files = (Inr (True, [sample_item 0, sample_item 1]), fs')"
    using rows by (simp add: cancel_expired_def)
  from cancel_expired_only_unstarted [OF this] show ?thesis by auto
qed

end
