(* ===== verification/Gang_Claim.thy ===== *)
theory Gang_Claim
  imports Gang
begin

text \<open>
  The gang checks of one claim (\<open>PoolQueue._prepare_claim_gang\<close>, \<open>_gang.sealed\<close>): the sealed declaration,
  the group record, the member's entry, ended siblings and the teardown, with the handler around them.
\<close>

section \<open>The gang at a claim\<close>

text \<open>
  \<open>PoolQueue._prepare_claim_gang\<close>. \<open>request\<close> is \<open>params.gang\<close> of the sealed request, \<open>backfill\<close> the
  denial of \<open>_preempt_gang_backfill\<close>, each with the error its reading raised. The handler turns the errors
  it names into a denial; every other error escapes.
\<close>

datatype prepared =
    No_Gang
  | Refused string
  | In_Gang gang_record gang_member

fun claim_error :: "error \<Rightarrow> bool" where
  "claim_error KeyError = True"
| "claim_error TypeError = True"
| "claim_error ValueError = True"
| "claim_error e = contract_error e"

definition sealed :: "json result \<Rightarrow> json \<Rightarrow> declared_gang option result" where
  "sealed request gang =
     (case gang_declaration gang of
        Inl e \<Rightarrow> Inl e
      | Inr row \<Rightarrow>
          (case request of
             Inl e \<Rightarrow> Inl e
           | Inr params \<Rightarrow>
               (case gang_declaration params of
                  Inl e \<Rightarrow> Inl e
                | Inr d \<Rightarrow> if d = row then Inr d else Inl GangContractError)))"

text \<open>An ended sibling files the teardown first; then any teardown refuses the claim.\<close>

definition claim_member ::
  "gang_io \<Rightarrow> gang_view \<Rightarrow> json \<Rightarrow> string option result \<Rightarrow> rat \<Rightarrow> gang_record \<Rightarrow> gang_member
     \<Rightarrow> gang_files \<Rightarrow> prepared result \<times> gang_files" where
  "claim_member io v gang backfill now r m fs =
     (case sibling_states v r m of
        Inl e \<Rightarrow> (Inl e, fs)
      | Inr states \<Rightarrow>
          (case (if list_ex (unsuccessful \<circ> snd) states
                 then gang_teardown_mark io gang ''sibling ended before start'' (gm_key m) now fs
                 else (Inr False, fs)) of
             (Inl e, fs') \<Rightarrow> (Inl e, fs')
           | (Inr _, fs') \<Rightarrow>
               (case teardown io (gr_group r) fs' of
                  Inl e \<Rightarrow> (Inl e, fs')
                | Inr (Some _) \<Rightarrow> (Inr (Refused ''gang_torn_down''), fs')
                | Inr None \<Rightarrow>
                    (case backfill of
                       Inl e \<Rightarrow> (Inl e, fs')
                     | Inr (Some reason) \<Rightarrow> (Inr (Refused reason), fs')
                     | Inr None \<Rightarrow> (Inr (In_Gang r m), fs')))))"

definition prepare_raw ::
  "(string \<Rightarrow> pyfloat option) \<Rightarrow> gang_io \<Rightarrow> gang_view \<Rightarrow> json result \<Rightarrow> string option result \<Rightarrow> obj \<Rightarrow> rat
     \<Rightarrow> gang_files \<Rightarrow> prepared result \<times> gang_files" where
  "prepare_raw txt io v request backfill row now fs =
     (case sealed request (get ''gang'' row) of
        Inl e \<Rightarrow> (Inl e, fs)
      | Inr None \<Rightarrow> (Inr No_Gang, fs)
      | Inr (Some d) \<Rightarrow>
          (case read_group io (de_group d) fs of
             Inl e \<Rightarrow> (Inl e, fs)
           | Inr None \<Rightarrow> (Inr (Refused ''gang_group_incomplete''), fs)
           | Inr (Some r) \<Rightarrow>
               (case gang_entry txt r row d of
                  Inl e \<Rightarrow> (Inl e, fs)
                | Inr m \<Rightarrow> claim_member io v (get ''gang'' row) backfill now r m fs)))"

definition prepare_claim_gang ::
  "(string \<Rightarrow> pyfloat option) \<Rightarrow> gang_io \<Rightarrow> gang_view \<Rightarrow> json result \<Rightarrow> string option result \<Rightarrow> obj \<Rightarrow> rat
     \<Rightarrow> gang_files \<Rightarrow> prepared result \<times> gang_files" where
  "prepare_claim_gang txt io v request backfill row now fs =
     (if get ''gang'' row = JNull then (Inr No_Gang, fs)
      else case prepare_raw txt io v request backfill row now fs of
        (Inl e, fs') \<Rightarrow> (if claim_error e then Inr (Refused ''gang_contract_invalid'') else Inl e, fs')
      | answer \<Rightarrow> answer)"

lemma gang_declaration_error: "gang_declaration v = Inl e \<Longrightarrow> e = GangContractError"
  by (cases v) (auto simp: gang_declaration_def split: option.splits if_splits)

lemma py_float_error: "py_float v = Inl e \<Longrightarrow> e \<in> {OverflowError, ValueError, TypeError}"
  by (cases v) (auto split: option.splits)

lemma float_of_error: "float_of txt v = Inl e \<Longrightarrow> e \<in> {OverflowError, ValueError, TypeError}"
  by (auto simp: float_of_def dest: py_float_error split: json.splits option.splits)

lemma item_error: "item k d = Inl e \<Longrightarrow> e = KeyError"
  by (auto simp: item_def split: option.splits)

lemma gang_entry_error:
  "gang_entry txt r row d = Inl e \<Longrightarrow>
   e = IndexError \<and> int (length (gr_members r)) \<le> de_index d \<or>
   e \<in> {KeyError, GangContractError, OverflowError, ValueError, TypeError}"
  by (auto simp: gang_entry_def Let_def dest: item_error float_of_error split: if_splits sum.splits)

lemma wait_timeout_error: "wait_timeout v = Inl e \<Longrightarrow> e \<in> {GangContractError, OverflowError, ValueError, TypeError}"
  by (auto simp: wait_timeout_def dest: py_float_error split: if_splits sum.splits pyfloat.splits)

lemma gang_read_error: "gang_read io p fs = Inl e \<Longrightarrow> e = GangContractError"
  by (auto simp: gang_read_def split: if_splits option.splits json.splits)

lemma read_group_error:
  "read_group io g fs = Inl e \<Longrightarrow> e \<in> {GangContractError, OverflowError, ValueError, TypeError}"
  by (auto simp: read_group_def dest: gang_read_error wait_timeout_error split: sum.splits option.splits if_splits)

lemma link_new_error: "link_new io p d fs = (Inl e, fs') \<Longrightarrow> e = OSError EIO"
  by (auto simp: link_new_def Let_def split: if_splits)

lemma gang_teardown_mark_error:
  "gang_teardown_mark io gang reason author now fs = (Inl e, fs') \<Longrightarrow> e \<noteq> IndexError"
  by (auto simp: gang_teardown_mark_def tear_down_def Let_def
      dest: gang_declaration_error read_group_error link_new_error
      split: sum.splits option.splits prod.splits if_splits)

lemma teardown_error: "teardown io g fs = Inl e \<Longrightarrow> e = GangContractError"
  by (auto simp: teardown_def dest: gang_read_error split: sum.splits option.splits if_splits)

lemma slot_state_error: "slot_state m slots = Inl e \<Longrightarrow> \<exists>s. (s, Inl e) \<in> set slots"
  by (induction slots) (auto split: sum.splits option.splits if_splits)

lemma member_states_error:
  "member_states v ms = Inl e \<Longrightarrow> \<exists>m \<in> set ms. \<exists>s. (s, Inl e) \<in> set (gv_slots v (gm_key m))"
  by (induction ms) (auto dest: slot_state_error split: sum.splits)

definition reads_no_index :: "gang_view \<Rightarrow> bool" where
  "reads_no_index v \<longleftrightarrow> (\<forall>key s. (s, Inl IndexError) \<notin> set (gv_slots v key))"

lemma sibling_states_error: "reads_no_index v \<Longrightarrow> sibling_states v r m \<noteq> Inl IndexError"
  by (auto simp: sibling_states_def reads_no_index_def dest: member_states_error split: sum.splits)

lemma claim_member_error:
  assumes "reads_no_index v" "backfill \<noteq> Inl IndexError"
  shows "fst (claim_member io v gang backfill now r m fs) \<noteq> Inl IndexError"
proof (cases "sibling_states v r m")
  case (Inl e)
  then show ?thesis using sibling_states_error [OF assms(1), of r m] by (simp add: claim_member_def)
next
  case (Inr states)
  obtain x fs' where t: "(if list_ex (unsuccessful \<circ> snd) states
    then gang_teardown_mark io gang ''sibling ended before start'' (gm_key m) now fs else (Inr False, fs)) = (x, fs')"
    by (rule prod.exhaust)
  then have x: "x \<noteq> Inl IndexError" by (auto dest: gang_teardown_mark_error split: if_splits)
  have torn: "teardown io (gr_group r) fs' \<noteq> Inl IndexError" by (auto dest: teardown_error)
  show ?thesis
    unfolding claim_member_def Inr sum.case t prod.case
    using x torn assms(2) by (auto split: sum.splits option.splits)
qed

text \<open>
  C39: The claim pass lets one row's mistake out. Whatever its gang's files hold, \<open>_prepare_claim_gang\<close>
  raises \<open>IndexError\<close>, which its handler does not name, exactly when the row's sealed declaration names a
  standing group and an index past that group's members: such a row, whose declared size is not the
  group's, ends the scan it is met in instead of being refused as \<open>gang_contract_invalid\<close>.
\<close>

theorem prepare_claim_gang_index_error:
  assumes "reads_no_index v" "request \<noteq> Inl IndexError" "backfill \<noteq> Inl IndexError"
  shows "fst (prepare_claim_gang txt io v request backfill row now fs) = Inl IndexError \<longleftrightarrow>
    (\<exists>d r. sealed request (get ''gang'' row) = Inr (Some d) \<and> read_group io (de_group d) fs = Inr (Some r) \<and>
       int (length (gr_members r)) \<le> de_index d)"
    (is "?raises \<longleftrightarrow> ?past")
proof
  assume ?past
  then obtain d r where "sealed request (get ''gang'' row) = Inr (Some d)" "read_group io (de_group d) fs = Inr (Some r)"
    "gang_entry txt r row d = Inl IndexError" by (auto simp: gang_entry_def)
  moreover from this have "get ''gang'' row \<noteq> JNull"
    by (auto simp: sealed_def gang_declaration_def split: sum.splits if_splits)
  ultimately show ?raises by (simp add: prepare_claim_gang_def prepare_raw_def)
next
  assume ?raises
  then have raw: "fst (prepare_raw txt io v request backfill row now fs) = Inl IndexError"
    by (auto simp: prepare_claim_gang_def split: if_splits prod.splits sum.splits)
  have "sealed request (get ''gang'' row) \<noteq> Inl IndexError"
    using assms(2) by (auto simp: sealed_def dest: gang_declaration_error split: sum.splits)
  with raw obtain d where d: "sealed request (get ''gang'' row) = Inr (Some d)"
    by (auto simp: prepare_raw_def split: sum.splits option.splits)
  with raw obtain r where r: "read_group io (de_group d) fs = Inr (Some r)"
    by (auto simp: prepare_raw_def dest: read_group_error split: sum.splits option.splits)
  with raw d have "gang_entry txt r row d = Inl IndexError"
    using claim_member_error [OF assms(1,3)] by (auto simp: prepare_raw_def split: sum.splits)
  with d r show ?past using gang_entry_error [of "txt" r row d IndexError] by auto
qed

definition stray_declaration :: json where
  "stray_declaration = JObj [(''group'', JStr sample_group), (''size'', JInt 3), (''index'', JInt 2)]"

theorem prepare_claim_gang_index_error_witness:
  "fst (prepare_claim_gang (\<lambda>_. None) no_gang_fault (sample_view Q_Ready) (Inr stray_declaration) (Inr None)
     [(''action_key'', JStr (sample_key 1)), (''published_unix'', JFloat (Fin 1)), (''gang'', stray_declaration)] 5
     sample_files) = Inl IndexError"
proof -
  have "reads_no_index (sample_view Q_Ready)" by (simp add: reads_no_index_def sample_view_def)
  moreover have "gang_declaration stray_declaration = Inr (Some \<lparr>de_group = sample_group, de_size = 3, de_index = 2\<rparr>)"
    by (auto simp: stray_declaration_def gang_declaration_def declares_keys_def max_members_def)
  moreover have "read_group no_gang_fault sample_group sample_files = Inr (Some sample_gang)"
    by (simp add: sample_files_def sample_read)
  ultimately show ?thesis
    by (subst prepare_claim_gang_index_error) (auto simp: sealed_def)
qed

end
