(* ===== verification/Max_Flow.thy ===== *)
theory Max_Flow
  imports Prelude
begin

text \<open>
  The maximum-flow loop of \<open>window_credit.joint_need_gib\<close>: breadth-first search for an augmenting path in
  the residual network, the bottleneck along the parent links, and the augmentation, until the sink is not
  reached. The residual network is the code's list of dictionaries, in insertion order; a loop over
  parent links or over augmentations that did not end would be \<open>None\<close>. The theorems show that it ends and that the
  flow it returns is the value of a flow and of a cut.
\<close>

section \<open>The residual network\<close>

type_synonym residual = "(nat, int) dict list"

definition links :: "residual \<Rightarrow> nat \<Rightarrow> (nat, int) dict" where
  "links res u = (if u < length res then res ! u else [])"

definition room :: "residual \<Rightarrow> nat \<Rightarrow> nat \<Rightarrow> int" where
  "room res u v = dict_get (links res u) v 0"

text \<open>\<open>residual[tail][head] += cap\<close>, on a node of the network.\<close>

definition add_room :: "nat \<Rightarrow> nat \<Rightarrow> int \<Rightarrow> residual \<Rightarrow> residual" where
  "add_room tail head cap res = res[tail := AList.update head (room res tail head + cap) (links res tail)]"

section \<open>Searching\<close>

type_synonym parents = "(nat, nat) dict"

fun visit :: "nat \<Rightarrow> (nat, int) dict \<Rightarrow> parents \<Rightarrow> nat list \<Rightarrow> parents \<times> nat list" where
  "visit tail [] parent frontier = (parent, frontier)"
| "visit tail ((head, cap) # es) parent frontier =
     (if 0 < cap \<and> map_of parent head = None
      then visit tail es (parent @ [(head, tail)]) (frontier @ [head])
      else visit tail es parent frontier)"

definition unseen :: "residual \<Rightarrow> parents \<Rightarrow> nat set" where
  "unseen res parent = fst ` \<Union> (set ` set res) - fst ` set parent"

lemma finite_unseen [simp]: "finite (unseen res parent)"
  by (auto simp: unseen_def)

lemma visit_new:
  assumes "visit tail es parent frontier = (parent', frontier')" "distinct (map fst es)"
  shows "\<exists>new. parent' = parent @ map (\<lambda>h. (h, tail)) new \<and> frontier' = frontier @ new \<and> distinct new \<and>
    set new = {h. (\<exists>cap > 0. (h, cap) \<in> set es) \<and> h \<notin> fst ` set parent}"
  using assms
proof (induction es arbitrary: parent frontier)
  case (Cons e es)
  obtain head cap where e: "e = (head, cap)" by (rule prod.exhaust)
  show ?case
  proof (cases "0 < cap \<and> map_of parent head = None")
    case True
    with Cons.prems e have "visit tail es (parent @ [(head, tail)]) (frontier @ [head]) = (parent', frontier')" by simp
    from Cons.IH [OF this] Cons.prems(2) obtain new where new:
      "parent' = (parent @ [(head, tail)]) @ map (\<lambda>h. (h, tail)) new" "frontier' = (frontier @ [head]) @ new"
      "distinct new" "set new = {h. (\<exists>cap > 0. (h, cap) \<in> set es) \<and> h \<notin> fst ` set (parent @ [(head, tail)])}"
      by auto
    with True e Cons.prems(2) show ?thesis
      by (intro exI [of _ "head # new"]) (auto simp: map_of_eq_None_iff)
  next
    case False
    with Cons.prems e have "visit tail es parent frontier = (parent', frontier')" by auto
    from Cons.IH [OF this] Cons.prems(2) obtain new where new:
      "parent' = parent @ map (\<lambda>h. (h, tail)) new" "frontier' = frontier @ new" "distinct new"
      "set new = {h. (\<exists>cap > 0. (h, cap) \<in> set es) \<and> h \<notin> fst ` set parent}"
      by auto
    moreover have "set new = {h. (\<exists>cap > 0. (h, cap) \<in> set (e # es)) \<and> h \<notin> fst ` set parent}"
      using False e new(4) by (auto simp: map_of_eq_None_iff)
    ultimately show ?thesis by blast
  qed
qed simp

text \<open>What one visit adds is unseen, so every round of the search sees more or waits for less.\<close>

lemma visit_grows:
  assumes "visit tail es parent frontier = (parent', frontier')" "set es \<subseteq> \<Union> (set ` set res)"
  shows "unseen res parent' \<subset> unseen res parent \<or>
    unseen res parent' = unseen res parent \<and> frontier' = frontier"
  using assms
proof (induction tail es parent frontier rule: visit.induct)
  case (2 tail head cap es parent frontier)
  show ?case
  proof (cases "0 < cap \<and> map_of parent head = None")
    case True
    with 2 have "unseen res parent' \<subseteq> unseen res (parent @ [(head, tail)])" by auto
    moreover have "head \<in> unseen res parent" "head \<notin> unseen res (parent @ [(head, tail)])"
      using True "2.prems"(2) by (auto simp: unseen_def map_of_eq_None_iff intro!: rev_image_eqI [of "(head, cap)"])
    moreover have "unseen res (parent @ [(head, tail)]) \<subseteq> unseen res parent" by (auto simp: unseen_def)
    ultimately show ?thesis by blast
  next
    case False
    with 2 show ?thesis by auto
  qed
qed simp

lemma links_within: "set (links res u) \<subseteq> \<Union> (set ` set res)"
  by (auto simp: links_def intro!: bexI [of _ "res ! u"])

function search :: "residual \<Rightarrow> parents \<Rightarrow> nat list \<Rightarrow> parents" where
  "search res parent [] = parent"
| "search res parent (tail # frontier) =
     (if map_of parent 1 \<noteq> None then parent
      else case visit tail (links res tail) parent frontier of
        (parent', frontier') \<Rightarrow> search res parent' frontier')"
  by pat_completeness auto
termination
proof (relation "measures [\<lambda>(res, parent, _). card (unseen res parent), \<lambda>(_, _, frontier). length frontier]", goal_cases)
  case (2 res parent tail frontier parent' frontier')
  from 2(2) have "visit tail (links res tail) parent frontier = (parent', frontier')" by simp
  from visit_grows [OF this links_within] show ?case by (auto intro: psubset_card_mono)
qed simp

section \<open>Augmenting\<close>

partial_function (option) bottleneck :: "residual \<Rightarrow> parents \<Rightarrow> int \<Rightarrow> nat \<Rightarrow> int option" where
  "bottleneck res parent push head =
     (if head = 0 then Some push
      else case map_of parent head of
        None \<Rightarrow> None
      | Some tail \<Rightarrow> bottleneck res parent (min push (room res tail head)) tail)"

partial_function (option) augment :: "parents \<Rightarrow> int \<Rightarrow> nat \<Rightarrow> residual \<Rightarrow> residual option" where
  "augment parent push head res =
     (if head = 0 then Some res
      else case map_of parent head of
        None \<Rightarrow> None
      | Some tail \<Rightarrow> augment parent push tail (add_room head tail push (add_room tail head (- push) res)))"

partial_function (option) max_flow :: "int \<Rightarrow> int \<Rightarrow> residual \<Rightarrow> int option" where
  "max_flow unbounded flow res =
     (let parent = search res [(0, 0)] [0] in
      if map_of parent 1 = None then Some flow
      else Option.bind (bottleneck res parent unbounded 1) (\<lambda>push.
        Option.bind (augment parent push 1 res) (\<lambda>res'. max_flow unbounded (flow + push) res')))"

declare bottleneck.simps [code] augment.simps [code] max_flow.simps [code]

section \<open>The search finds a path or a cut\<close>

definition network_ok :: "nat \<Rightarrow> residual \<Rightarrow> bool" where
  "network_ok N res \<longleftrightarrow> length res = N \<and> (\<forall>d \<in> set res. distinct (map fst d) \<and> (\<forall>h \<in> fst ` set d. h < N))"

lemma links_ok: "network_ok N res \<Longrightarrow> distinct (map fst (links res u)) \<and> (\<forall>h \<in> fst ` set (links res u). h < N)"
proof (cases "u < length res")
  case True
  then have "res ! u \<in> set res" by simp
  then show "network_ok N res \<Longrightarrow> ?thesis" using True by (fastforce simp: network_ok_def links_def)
qed (simp add: links_def)

lemma room_links:
  assumes "network_ok N res"
  shows "(\<exists>cap > 0. (h, cap) \<in> set (links res u)) \<longleftrightarrow> 0 < room res u h"
proof -
  have "(h, cap) \<in> set (links res u) \<longleftrightarrow> map_of (links res u) h = Some cap" for cap
    using links_ok [OF assms, of u] by (simp add: map_of_eq_Some_iff)
  then show ?thesis by (auto simp: room_def dict_get_def split: option.splits)
qed

lemma room_pos_bound: "network_ok N res \<Longrightarrow> 0 < room res u v \<Longrightarrow> u < N \<and> v < N"
proof -
  assume ok: "network_ok N res" and pos: "0 < room res u v"
  then obtain cap where "(v, cap) \<in> set (links res u)" using room_links [OF ok] by blast
  then have "v \<in> fst ` set (links res u)" "u < length res" by (auto simp: links_def intro: rev_image_eqI split: if_splits)
  then show ?thesis using links_ok [OF ok, of u] ok by (auto simp: network_ok_def)
qed

inductive tree :: "residual \<Rightarrow> parents \<Rightarrow> bool" for res where
  root: "tree res [(0, 0)]"
| grow: "tree res p \<Longrightarrow> t \<in> fst ` set p \<Longrightarrow> h \<notin> fst ` set p \<Longrightarrow> 0 < room res t h \<Longrightarrow> tree res (p @ [(h, t)])"

lemma tree_root: "tree res p \<Longrightarrow> 0 \<in> fst ` set p"
  by (induction rule: tree.induct) auto

lemma tree_visit:
  assumes "tree res p" "t \<in> fst ` set p" "distinct new" "\<forall>h \<in> set new. h \<notin> fst ` set p \<and> 0 < room res t h"
  shows "tree res (p @ map (\<lambda>h. (h, t)) new)"
  using assms(3,4)
proof (induction new rule: rev_induct)
  case (snoc h new)
  then have "tree res ((p @ map (\<lambda>h. (h, t)) new) @ [(h, t)])"
    using assms(2) by (intro tree.grow) auto
  then show ?case by simp
qed (simp add: assms(1))

definition closed_but :: "residual \<Rightarrow> parents \<Rightarrow> nat list \<Rightarrow> bool" where
  "closed_but res p frontier \<longleftrightarrow> set frontier \<subseteq> fst ` set p \<and>
     (\<forall>u \<in> fst ` set p. u \<in> set frontier \<or> (\<forall>h. 0 < room res u h \<longrightarrow> h \<in> fst ` set p))"

lemma search_ok:
  assumes "network_ok N res" "tree res p" "closed_but res p frontier"
  shows "tree res (search res p frontier) \<and>
    (map_of (search res p frontier) 1 = None \<longrightarrow> closed_but res (search res p frontier) [])"
  using assms
proof (induction res p frontier rule: search.induct)
  case (2 res p t frontier)
  show ?case
  proof (cases "map_of p 1 \<noteq> None")
    case False
    obtain p' f' where v: "visit t (links res t) p frontier = (p', f')" by (rule prod.exhaust)
    from visit_new [OF v] links_ok [OF "2.prems"(1)] room_links [OF "2.prems"(1)] obtain new where
      new: "p' = p @ map (\<lambda>h. (h, t)) new" "f' = frontier @ new" "distinct new"
        "set new = {h. 0 < room res t h \<and> h \<notin> fst ` set p}" by auto
    have dom: "fst ` set p' = fst ` set p \<union> set new" using new(1) by force
    have t: "t \<in> fst ` set p" using "2.prems"(3) by (auto simp: closed_but_def)
    have "tree res p'" unfolding new(1) using "2.prems"(2) t new(3,4) by (intro tree_visit) auto
    moreover have "closed_but res p' f'"
      using "2.prems"(3) unfolding closed_but_def dom new(2) using new(4) by fastforce
    ultimately show ?thesis using "2.IH" [OF False v [symmetric]] False "2.prems"(1) v by simp
  qed (use 2 in auto)
qed simp

declare search.simps [simp del]

section \<open>Along the path\<close>

inductive leads :: "parents \<Rightarrow> nat \<Rightarrow> (nat \<times> nat) list \<Rightarrow> bool" for p where
  stop: "leads p 0 []"
| go: "map_of p h = Some t \<Longrightarrow> h \<noteq> 0 \<Longrightarrow> leads p t es \<Longrightarrow> leads p h ((t, h) # es)"

lemma leads_mono: "leads p h es \<Longrightarrow> leads (p @ q) h es"
  by (induction rule: leads.induct) (auto intro: leads.intros simp: map_add_Some_iff)

lemma tree_leads:
  "tree res p \<Longrightarrow> h \<in> fst ` set p \<Longrightarrow>
   \<exists>es. leads p h es \<and> distinct (map snd es) \<and> set (map snd es) \<subseteq> fst ` set p \<and> (\<forall>(t, h) \<in> set es. 0 < room res t h)"
proof (induction arbitrary: h rule: tree.induct)
  case root
  then show ?case by (intro exI [of _ "[]"]) (auto intro: leads.stop)
next
  case (grow p t h')
  show ?case
  proof (cases "h \<in> fst ` set p")
    case True
    from grow.IH [OF this] show ?thesis by (fastforce intro: leads_mono)
  next
    case False
    with grow.prems have h: "h = h'" by auto
    from grow.IH [OF grow.hyps(2)] obtain es where es: "leads p t es" "distinct (map snd es)"
      "set (map snd es) \<subseteq> fst ` set p" "\<forall>(t, h) \<in> set es. 0 < room res t h" by blast
    have "h \<noteq> 0" using False tree_root [OF grow.hyps(1)] by metis
    moreover have "map_of (p @ [(h, t)]) h = Some t"
      using False by (simp add: map_of_eq_None_iff map_add_Some_iff)
    ultimately have "leads (p @ [(h, t)]) h ((t, h) # es)" using es(1) by (intro leads.go leads_mono)
    then show ?thesis using es grow.hyps(4) False h by (intro exI [of _ "(t, h) # es"]) auto
  qed
qed

lemma bottleneck_leads:
  "leads p h es \<Longrightarrow> \<exists>b. bottleneck res p push h = Some b \<and> b \<le> push \<and> (\<forall>(t, h) \<in> set es. b \<le> room res t h) \<and>
     (0 < push \<longrightarrow> (\<forall>(t, h) \<in> set es. 0 < room res t h) \<longrightarrow> 0 < b)"
proof (induction arbitrary: push rule: leads.induct)
  case stop
  then show ?case by (subst bottleneck.simps) simp
next
  case (go h t es)
  from go.IH [of "min push (room res t h)"] go.hyps show ?case by (subst bottleneck.simps) auto
qed

lemma room_add_room:
  assumes "t < length res"
  shows "room (add_room t h c res) u v = room res u v + (if u = t \<and> v = h then c else 0)"
proof (cases "u = t")
  case True
  with assms show ?thesis by (simp add: room_def add_room_def links_def dict_get_def update_conv')
next
  case False
  then show ?thesis by (simp add: room_def add_room_def links_def)
qed

lemma network_ok_add_room:
  assumes "network_ok N res" "t < N" "h < N"
  shows "network_ok N (add_room t h c res)"
proof -
  let ?d = "AList.update h (room res t h + c) (links res t)"
  have "distinct (map fst ?d)" using links_ok [OF assms(1), of t] by (simp add: distinct_update)
  moreover have "\<forall>x \<in> fst ` set ?d. x < N" using links_ok [OF assms(1), of t] assms(3) by (auto simp: dom_update)
  ultimately show ?thesis
    using assms(1) set_update_subset_insert [of res t ?d] by (auto simp: network_ok_def add_room_def)
qed

lemma count_edge: "int (count_list ((t, h) # es) (u, v)) = int (count_list es (u, v)) + (if u = t \<and> v = h then 1 else 0)"
  by auto

lemma sum_at: "(h :: nat) < N \<Longrightarrow> (\<Sum>v<N. if P \<and> v = h then 1 else 0) = (if P then 1 else (0 :: int))"
  by (cases P) simp_all

lemma augment_leads:
  assumes "leads p h es" "network_ok N res" "\<forall>(t, h) \<in> set es. t < N \<and> h < N"
  shows "\<exists>res'. augment p push h res = Some res' \<and> network_ok N res' \<and>
    (\<forall>u v. room res' u v = room res u v - push * int (count_list es (u, v)) + push * int (count_list es (v, u)))"
  using assms
proof (induction arbitrary: res rule: leads.induct)
  case stop
  then show ?case by (subst augment.simps) simp
next
  case (go h t es)
  let ?r = "add_room h t push (add_room t h (- push) res)"
  have len: "length res = N" "length (add_room t h (- push) res) = N"
    using go.prems(1) by (simp_all add: network_ok_def add_room_def)
  have ok: "network_ok N ?r" using go.prems by (simp add: network_ok_add_room)
  have r: "room ?r u v = room res u v - (if u = t \<and> v = h then push else 0) + (if u = h \<and> v = t then push else 0)" for u v
    using go.prems(2) len by (auto simp: room_add_room)
  from go.IH [OF ok] go.prems(2) obtain res' where "augment p push t ?r = Some res'" "network_ok N res'"
    "\<forall>u v. room res' u v = room ?r u v - push * int (count_list es (u, v)) + push * int (count_list es (v, u))"
    by auto
  moreover have "augment p push h res = augment p push t ?r" using go.hyps by (subst augment.simps) simp
  moreover have "room ?r u v - push * int (count_list es (u, v)) + push * int (count_list es (v, u)) =
      room res u v - push * int (count_list ((t, h) # es) (u, v)) + push * int (count_list ((t, h) # es) (v, u))" for u v
    unfolding r count_edge distrib_left by (auto simp only: if_True if_False mult_1_right mult_zero_right split: if_split)
  ultimately show ?case by simp
qed

lemma leads_degrees:
  "leads p h es \<Longrightarrow>
   int (count_list (map fst es) u) - int (count_list (map snd es) u) = of_bool (u = 0) - of_bool (u = h)"
  by (induction rule: leads.induct) (auto split: if_splits)

lemma sum_count_out: "\<forall>(t, h) \<in> set (es :: (nat \<times> nat) list). h < N \<Longrightarrow> (\<Sum>v<N. int (count_list es (u, v))) = int (count_list (map fst es) u)"
proof (induction es)
  case (Cons e es)
  obtain t h where e: "e = (t, h)" by (rule prod.exhaust)
  with Cons.prems have "h < N" by simp
  then show ?case using Cons unfolding e count_edge sum.distrib by (simp add: sum_at)
qed simp

lemma sum_count_in: "\<forall>(t, h) \<in> set (es :: (nat \<times> nat) list). t < N \<Longrightarrow> (\<Sum>v<N. int (count_list es (v, u))) = int (count_list (map snd es) u)"
proof (induction es)
  case (Cons e es)
  obtain t h where e: "e = (t, h)" by (rule prod.exhaust)
  with Cons.prems have "t < N" by simp
  then show ?case using Cons unfolding e count_edge sum.distrib by (simp add: sum_at conj_commute [of "_ = t"])
qed simp

section \<open>The loop ends with a flow and a cut of its value\<close>

text \<open>
  A flow network: its nodes are \<open>0\<close> (the source), \<open>1\<close> (the sink) up to \<open>N\<close>, and \<open>c\<close> is what each edge can carry.
\<close>

definition flow_state :: "nat \<Rightarrow> (nat \<Rightarrow> nat \<Rightarrow> int) \<Rightarrow> int \<Rightarrow> residual \<Rightarrow> bool" where
  "flow_state N c flow res \<longleftrightarrow> network_ok N res \<and> (\<forall>u v. 0 \<le> room res u v) \<and>
     (\<forall>u v. room res u v + room res v u = c u v + c v u) \<and>
     (\<forall>u<N. (\<Sum>v<N. room res u v) = (\<Sum>v<N. c u v) - flow * (of_bool (u = 0) - of_bool (u = 1)))"

lemma augmented_state:
  assumes "flow_state N c flow res" "leads p 1 es" "distinct (map snd es)" "\<forall>(t, h) \<in> set es. push \<le> room res t h \<and> 0 < room res t h"
    "0 < push" and res': "network_ok N res'"
    "\<forall>u v. room res' u v = room res u v - push * int (count_list es (u, v)) + push * int (count_list es (v, u))"
  shows "flow_state N c (flow + push) res'"
proof -
  have ok: "network_ok N res" using assms(1) by (simp add: flow_state_def)
  have nodes: "\<forall>(t, h) \<in> set es. t < N" "\<forall>(t, h) \<in> set es. h < N"
    using assms(4) room_pos_bound [OF ok] by fastforce+
  have one: "count_list es e \<le> 1" for e
  proof -
    have "distinct es" using assms(3) by (simp add: distinct_map)
    then show ?thesis by (induction es) (auto simp: count_list_0_iff)
  qed
  have nonneg: "0 \<le> room res' u v" for u v
  proof (cases "(u, v) \<in> set es")
    case True
    with one [of "(u, v)"] have "count_list es (u, v) = 1" by (metis count_list_0_iff le_antisym less_one linorder_not_less)
    with True assms(4,5) res'(2) show ?thesis by auto
  next
    case False
    then have "count_list es (u, v) = 0" by (simp add: count_list_0_iff)
    moreover have "0 \<le> room res u v" using assms(1) by (simp add: flow_state_def)
    ultimately show ?thesis using res'(2) assms(5) by simp
  qed
  have "(\<Sum>v<N. room res' u v) = (\<Sum>v<N. c u v) - (flow + push) * (of_bool (u = 0) - of_bool (u = 1))" if "u < N" for u
  proof -
    have "(\<Sum>v<N. room res' u v) = (\<Sum>v<N. room res u v) - push * (int (count_list (map fst es) u) - int (count_list (map snd es) u))"
      using res'(2) sum_count_out [OF nodes(2), of u] sum_count_in [OF nodes(1), of u]
      by (simp add: sum.distrib sum_subtractf right_diff_distrib flip: sum_distrib_left)
    also have "\<dots> = (\<Sum>v<N. c u v) - (flow + push) * (of_bool (u = 0) - of_bool (u = 1))"
      using assms(1) that unfolding leads_degrees [OF assms(2), of u] distrib_right by (simp add: flow_state_def)
    finally show ?thesis .
  qed
  moreover have "room res' u v + room res' v u = c u v + c v u" for u v
    using assms(1) res'(2) by (simp add: flow_state_def)
  ultimately show ?thesis using res'(1) nonneg by (simp add: flow_state_def)
qed

locale network =
  fixes N :: nat and c :: "nat \<Rightarrow> nat \<Rightarrow> int"
  assumes nodes: "1 < N"
begin

lemma flow_bounded: "flow_state N c flow res \<Longrightarrow> flow \<le> (\<Sum>v<N. c 0 v)"
proof -
  assume st: "flow_state N c flow res"
  then have "(\<Sum>v<N. room res 0 v) = (\<Sum>v<N. c 0 v) - flow" using nodes by (simp add: flow_state_def)
  moreover have "0 \<le> (\<Sum>v<N. room res 0 v)" using st by (intro sum_nonneg) (simp add: flow_state_def)
  ultimately show ?thesis by simp
qed

lemma max_flow_ends:
  "flow_state N c flow res \<Longrightarrow> 0 < unbounded \<Longrightarrow>
   \<exists>n res' S. max_flow unbounded flow res = Some n \<and> flow_state N c n res' \<and> 0 \<in> S \<and> 1 \<notin> S \<and> S \<subseteq> {..<N} \<and>
     (\<forall>u \<in> S. \<forall>v. v \<notin> S \<longrightarrow> room res' u v = 0)"
proof (induction "nat ((\<Sum>v<N. c 0 v) - flow)" arbitrary: flow res rule: less_induct)
  case less
  note st = less.prems(1)
  let ?p = "search res [(0, 0)] [0]"
  have ok: "network_ok N res" using st by (simp add: flow_state_def)
  have found: "tree res ?p" "map_of ?p 1 = None \<longrightarrow> closed_but res ?p []"
    using search_ok [OF ok tree.root, of "[0]"] by (simp_all add: closed_but_def)
  show ?case
  proof (cases "map_of ?p 1 = None")
    case True
    let ?S = "fst ` set ?p"
    have "max_flow unbounded flow res = Some flow" using True by (subst max_flow.simps) simp
    moreover have "0 \<in> ?S" using tree_root [OF found(1)] .
    moreover have "1 \<notin> ?S" using True by (simp add: map_of_eq_None_iff)
    moreover have "?S \<subseteq> {..<N}"
      using found(1) by (induction rule: tree.induct) (use nodes room_pos_bound [OF ok] in auto)
    moreover have "\<forall>u \<in> ?S. \<forall>v. v \<notin> ?S \<longrightarrow> room res u v = 0"
    proof (intro ballI allI impI)
      fix u v assume "u \<in> ?S" "v \<notin> ?S"
      with found(2) True have "\<not> 0 < room res u v" unfolding closed_but_def by auto
      moreover have "0 \<le> room res u v" using st by (simp add: flow_state_def)
      ultimately show "room res u v = 0" by simp
    qed
    ultimately show ?thesis using st by blast
  next
    case False
    then have "1 \<in> fst ` set ?p" by (simp add: map_of_eq_None_iff)
    from tree_leads [OF found(1) this] obtain es where es: "leads ?p 1 es" "distinct (map snd es)"
      "\<forall>(t, h) \<in> set es. 0 < room res t h" by blast
    from bottleneck_leads [OF es(1), of res unbounded] less.prems(2) es(3) obtain push where push:
      "bottleneck res ?p unbounded 1 = Some push" "\<forall>(t, h) \<in> set es. push \<le> room res t h" "0 < push" by auto
    have "\<forall>(t, h) \<in> set es. t < N \<and> h < N" using es(3) room_pos_bound [OF ok] by fastforce
    from augment_leads [OF es(1) ok this, of push] obtain res' where res': "augment ?p push 1 res = Some res'" "network_ok N res'"
      "\<forall>u v. room res' u v = room res u v - push * int (count_list es (u, v)) + push * int (count_list es (v, u))" by blast
    have st': "flow_state N c (flow + push) res'"
      using augmented_state [OF st es(1,2) _ push(3) res'(2,3)] push(2) es(3) by fastforce
    moreover have "nat ((\<Sum>v<N. c 0 v) - (flow + push)) < nat ((\<Sum>v<N. c 0 v) - flow)"
      using flow_bounded [OF st'] push(3) by simp
    moreover have "max_flow unbounded flow res = max_flow unbounded (flow + push) res'"
      using False push(1) res'(1) by (subst max_flow.simps) (auto simp: Let_def)
    ultimately show ?thesis using less.hyps less.prems(2) by simp
  qed
qed

lemma flow_is_cut:
  assumes "flow_state N c n res" "0 \<in> S" "1 \<notin> S" "S \<subseteq> {..<N}" "\<forall>u \<in> S. \<forall>v. v \<notin> S \<longrightarrow> room res u v = 0"
  shows "n = (\<Sum>u\<in>S. \<Sum>v\<in>{..<N} - S. c u v)"
proof -
  let ?d = "\<lambda>u v. c u v - room res u v"
  have fin: "finite S" using assms(4) finite_subset by blast
  have anti: "?d u v = - ?d v u" for u v
  proof -
    have "room res u v + room res v u = c u v + c v u" using assms(1) by (simp add: flow_state_def)
    then show ?thesis by simp
  qed
  have out: "(\<Sum>v<N. ?d u v) = n * (of_bool (u = 0) - of_bool (u = 1))" if "u < N" for u
    using assms(1) that by (simp add: flow_state_def sum_subtractf)
  have "n = (\<Sum>u\<in>S. n * (of_bool (u = 0) - of_bool (u = 1)))"
  proof -
    have "(\<Sum>u\<in>S. n * (of_bool (u = 0) - of_bool (u = 1))) = (\<Sum>u\<in>S. if u = 0 then n else 0)"
      using assms(3) by (intro sum.cong) auto
    then show ?thesis using assms(2) fin by simp
  qed
  also have "\<dots> = (\<Sum>u\<in>S. \<Sum>v<N. ?d u v)"
    using assms(4) by (intro sum.cong) (auto simp: out)
  also have "\<dots> = (\<Sum>u\<in>S. (\<Sum>v\<in>S. ?d u v) + (\<Sum>v\<in>{..<N} - S. ?d u v))"
    using assms(4) by (intro sum.cong refl) (simp add: sum.subset_diff [OF assms(4)] add.commute)
  also have "\<dots> = (\<Sum>u\<in>S. \<Sum>v\<in>S. ?d u v) + (\<Sum>u\<in>S. \<Sum>v\<in>{..<N} - S. ?d u v)" by (rule sum.distrib)
  also have "(\<Sum>u\<in>S. \<Sum>v\<in>S. ?d u v) = 0"
  proof -
    have "(\<Sum>u\<in>S. \<Sum>v\<in>S. ?d u v) = (\<Sum>v\<in>S. \<Sum>u\<in>S. ?d u v)" by (rule sum.swap)
    also have "\<dots> = (\<Sum>v\<in>S. \<Sum>u\<in>S. - ?d v u)" using anti by (intro sum.cong refl)
    also have "\<dots> = - (\<Sum>v\<in>S. \<Sum>u\<in>S. ?d v u)" unfolding sum_negf ..
    finally show ?thesis by simp
  qed
  also have "(\<Sum>u\<in>S. \<Sum>v\<in>{..<N} - S. ?d u v) = (\<Sum>u\<in>S. \<Sum>v\<in>{..<N} - S. c u v)"
    using assms(5) by (intro sum.cong) auto
  finally show ?thesis by simp
qed

end

end
