(* ===== verification/Joint_Need.thy ===== *)
theory Joint_Need
  imports Max_Flow
begin

text \<open>
  \<open>window_credit.joint_need_gib\<close>: the most tier space some windows can want at once when they share
  ranges. The code merges ranges with the same readers, builds a two-layer network and returns its maximum
  flow. The theorem is that the answer is the largest total any assignment of shared ranges to windows
  reaches, and that the loop ends.
\<close>

section \<open>Two layers\<close>

text \<open>
  Source \<open>0\<close>, sink \<open>1\<close>, then \<open>m\<close> windows, then \<open>g\<close> groups of ranges: a window carries at most its need, a
  group at most its size, and a window reaches a group through an edge of room \<open>U\<close>.
\<close>

definition net_cap :: "nat \<Rightarrow> nat \<Rightarrow> (nat \<Rightarrow> int) \<Rightarrow> (nat \<Rightarrow> int) \<Rightarrow> (nat \<Rightarrow> nat \<Rightarrow> bool) \<Rightarrow> int \<Rightarrow> nat \<Rightarrow> nat \<Rightarrow> int" where
  "net_cap m g need cap adj U u v =
     (if u = 0 \<and> 2 \<le> v \<and> v < 2 + m then need (v - 2)
      else if v = 1 \<and> 2 + m \<le> u \<and> u < 2 + m + g then cap (u - 2 - m)
      else if 2 \<le> u \<and> u < 2 + m \<and> 2 + m \<le> v \<and> v < 2 + m + g \<and> adj (u - 2) (v - 2 - m) then U
      else 0)"

lemma net_cap_simps [simp]:
  "k < m \<Longrightarrow> net_cap m g need cap adj U 0 (Suc (Suc k)) = need k"
  "j < g \<Longrightarrow> net_cap m g need cap adj U (Suc (Suc (m + j))) (Suc 0) = cap j"
  "k < m \<Longrightarrow> j < g \<Longrightarrow> net_cap m g need cap adj U (Suc (Suc k)) (Suc (Suc (m + j))) = (if adj k j then U else 0)"
  "net_cap m g need cap adj U u 0 = 0"
  "net_cap m g need cap adj U (Suc 0) v = 0"
  "net_cap m g need cap adj U 0 (Suc 0) = 0"
  "net_cap m g need cap adj U 0 (Suc (Suc (m + j))) = 0"
  "k < m \<Longrightarrow> net_cap m g need cap adj U (Suc (Suc k)) (Suc 0) = 0"
  "k < m \<Longrightarrow> k' < m \<Longrightarrow> net_cap m g need cap adj U (Suc (Suc k)) (Suc (Suc k')) = 0"
  "k < m \<Longrightarrow> net_cap m g need cap adj U (Suc (Suc (m + j))) (Suc (Suc k)) = 0"
  "net_cap m g need cap adj U (Suc (Suc (m + j))) (Suc (Suc (m + j'))) = 0"
  by (auto simp: net_cap_def)

lemma sum_layers: "(\<Sum>v<2 + m + g. f v) = f 0 + f 1 + (\<Sum>k<m. f (Suc (Suc k))) + (\<Sum>j<g. f (Suc (Suc (m + j))))"
  for f :: "nat \<Rightarrow> int"
proof -
  have "(\<Sum>v<a + b. f v) = (\<Sum>v<a. f v) + (\<Sum>v<b. f (a + v))" for a b
    by (induction b) auto
  from this [of "2 + m" g] this [of 2 m] show ?thesis by (simp add: lessThan_Suc numeral_2_eq_2)
qed

definition shares :: "nat \<Rightarrow> nat \<Rightarrow> (nat \<Rightarrow> int) \<Rightarrow> (nat \<Rightarrow> int) \<Rightarrow> (nat \<Rightarrow> nat \<Rightarrow> bool) \<Rightarrow> (nat \<Rightarrow> nat \<Rightarrow> int) \<Rightarrow> bool" where
  "shares m g need cap adj b \<longleftrightarrow>
     (\<forall>k<m. \<forall>j<g. 0 \<le> b k j \<and> (\<not> adj k j \<longrightarrow> b k j = 0)) \<and>
     (\<forall>k<m. (\<Sum>j<g. b k j) \<le> need k) \<and> (\<forall>j<g. (\<Sum>k<m. b k j) \<le> cap j)"

locale two_layer =
  fixes m g :: nat and need cap :: "nat \<Rightarrow> int" and adj :: "nat \<Rightarrow> nat \<Rightarrow> bool" and U :: int
  assumes needs_pos: "k < m \<Longrightarrow> 0 \<le> need k"
    and caps_pos: "j < g \<Longrightarrow> 0 \<le> cap j"
    and unbounded: "(\<Sum>k<m. need k) < U"
begin

lemma U_pos: "0 < U"
  using sum_nonneg [of "{..<m}" need] needs_pos unbounded by simp

lemma cap_nonneg: "0 \<le> net_cap m g need cap adj U u v"
  using U_pos needs_pos caps_pos by (auto simp: net_cap_def)

sublocale network "2 + m + g" "net_cap m g need cap adj U"
  by unfold_locales simp

lemma flow_shares:
  assumes st: "flow_state (2 + m + g) (net_cap m g need cap adj U) n res"
  shows "\<exists>b. shares m g need cap adj b \<and> (\<Sum>k<m. \<Sum>j<g. b k j) = n"
proof -
  let ?c = "net_cap m g need cap adj U" and ?W = "\<lambda>k. Suc (Suc k)" and ?G = "\<lambda>j. Suc (Suc (m + j))"
  let ?d = "\<lambda>u v. ?c u v - room res u v"
  define b where "b k j = ?d (?W k) (?G j)" for k j
  have pair: "room res u v + room res v u = ?c u v + ?c v u" and pos: "0 \<le> room res u v" for u v
    using st by (simp_all add: flow_state_def)
  have zero: "room res u v = 0" if "?c u v = 0" "?c v u = 0" for u v
    using pair [of u v] pos [of u v] pos [of v u] that by simp
  have rev: "?d v u = - ?d u v" for u v using pair [of u v] by simp
  have out: "(\<Sum>v<2 + m + g. ?d u v) = n * (of_bool (u = 0) - of_bool (u = 1))" if "u < 2 + m + g" for u
    using st that by (simp add: flow_state_def sum_subtractf)
  have window: "(\<Sum>j<g. b k j) = ?d 0 (?W k)" if "k < m" for k
  proof -
    have "(\<Sum>v<2 + m + g. ?d (?W k) v) = ?d (?W k) 0 + (\<Sum>j<g. b k j)"
      using that unfolding sum_layers b_def by (simp add: zero)
    with out [of "?W k"] that rev [of 0 "?W k"] show ?thesis by simp
  qed
  have grp: "(\<Sum>k<m. b k j) = ?d (?G j) 1" if "j < g" for j
  proof -
    have "(\<Sum>v<2 + m + g. ?d (?G j) v) = ?d (?G j) 1 + (\<Sum>k<m. ?d (?G j) (?W k))"
      using that unfolding sum_layers by (simp add: zero)
    moreover have "(\<Sum>k<m. ?d (?G j) (?W k)) = - (\<Sum>k<m. b k j)"
      unfolding b_def sum_negf [symmetric] by (intro sum.cong refl) (rule rev)
    ultimately show ?thesis using out [of "?G j"] that by simp
  qed
  have "0 \<le> b k j \<and> (\<not> adj k j \<longrightarrow> b k j = 0)" if "k < m" "j < g" for k j
    using that pos [of "?G j" "?W k"] rev [of "?W k" "?G j"] zero [of "?W k" "?G j"] by (simp add: b_def)
  moreover have "(\<Sum>j<g. b k j) \<le> need k" if "k < m" for k
    using window [OF that] that pos [of 0 "?W k"] by simp
  moreover have "(\<Sum>k<m. b k j) \<le> cap j" if "j < g" for j
    using grp [OF that] that pos [of "?G j" 1] by simp
  moreover have "(\<Sum>k<m. \<Sum>j<g. b k j) = n"
  proof -
    have "n = (\<Sum>v<2 + m + g. ?d 0 v)" using out [of 0] by simp
    also have "\<dots> = (\<Sum>k<m. ?d 0 (?W k))" unfolding sum_layers by (simp add: zero)
    also have "\<dots> = (\<Sum>k<m. \<Sum>j<g. b k j)" by (intro sum.cong refl) (simp add: window)
    finally show ?thesis by simp
  qed
  ultimately show ?thesis by (auto simp: shares_def intro!: exI [of _ b])
qed

lemma shares_below_cut:
  assumes st: "flow_state (2 + m + g) (net_cap m g need cap adj U) n res" and b: "shares m g need cap adj b"
    and S: "0 \<in> S" "1 \<notin> S" "S \<subseteq> {..<2 + m + g}" "\<forall>u \<in> S. \<forall>v. v \<notin> S \<longrightarrow> room res u v = 0"
  shows "(\<Sum>k<m. \<Sum>j<g. b k j) \<le> n"
proof -
  let ?c = "net_cap m g need cap adj U" and ?W = "\<lambda>k. Suc (Suc k)" and ?G = "\<lambda>j. Suc (Suc (m + j))"
  let ?V = "{..<2 + m + g}"
  let ?out = "{k. k < m \<and> ?W k \<notin> S}" and ?in = "{k. k < m \<and> ?W k \<in> S}" and ?gs = "{j. j < g \<and> ?G j \<in> S}"
  have fin: "finite S" using S(3) finite_subset by blast
  have n_cut: "n = (\<Sum>(u, v)\<in>S \<times> (?V - S). ?c u v)"
    using flow_is_cut [OF st S] by (simp add: sum.cartesian_product)
  have part: "(\<Sum>(u, v)\<in>P. ?c u v) \<le> n" if "P \<subseteq> S \<times> (?V - S)" for P
    unfolding n_cut using that fin by (intro sum_mono2) (auto simp: cap_nonneg)
  have closed: "?G j \<in> S" if "k < m" "j < g" "adj k j" "?W k \<in> S" for k j
  proof (rule ccontr)
    assume "?G j \<notin> S"
    then have "U \<le> n" using part [of "{(?W k, ?G j)}"] that by simp
    moreover have "n \<le> (\<Sum>k<m. need k)"
      using flow_bounded [OF st] unfolding sum_layers by simp
    ultimately show False using unbounded by simp
  qed
  have "(\<Sum>k<m. \<Sum>j<g. b k j) = (\<Sum>k\<in>?out. \<Sum>j<g. b k j) + (\<Sum>k\<in>?in. \<Sum>j<g. b k j)"
    by (subst sum.union_disjoint [symmetric]) (auto intro!: sum.cong)
  also have "(\<Sum>k\<in>?out. \<Sum>j<g. b k j) \<le> (\<Sum>k\<in>?out. need k)"
    using b by (intro sum_mono) (auto simp: shares_def)
  also have "(\<Sum>k\<in>?in. \<Sum>j<g. b k j) \<le> (\<Sum>j\<in>?gs. cap j)"
  proof -
    have "(\<Sum>j<g. b k j) = (\<Sum>j\<in>?gs. b k j)" if "k \<in> ?in" for k
      using that b closed by (intro sum.mono_neutral_right) (auto simp: shares_def)
    then have "(\<Sum>k\<in>?in. \<Sum>j<g. b k j) = (\<Sum>k\<in>?in. \<Sum>j\<in>?gs. b k j)" by (rule sum.cong [OF refl]) auto
    also have "\<dots> = (\<Sum>j\<in>?gs. \<Sum>k\<in>?in. b k j)" by (rule sum.swap)
    also have "\<dots> \<le> (\<Sum>j\<in>?gs. \<Sum>k<m. b k j)"
      using b by (intro sum_mono sum_mono2) (auto simp: shares_def)
    also have "\<dots> \<le> (\<Sum>j\<in>?gs. cap j)" using b by (intro sum_mono) (auto simp: shares_def)
    finally show ?thesis .
  qed
  also have "(\<Sum>k\<in>?out. need k) + (\<Sum>j\<in>?gs. cap j) \<le> n"
  proof -
    let ?P = "(\<lambda>k. (0, ?W k)) ` ?out" and ?Q = "(\<lambda>j. (?G j, 1)) ` ?gs"
    have "(\<Sum>(u, v)\<in>?P. ?c u v) = (\<Sum>k\<in>?out. need k)" by (subst sum.reindex) (auto simp: inj_on_def)
    moreover have "(\<Sum>(u, v)\<in>?Q. ?c u v) = (\<Sum>j\<in>?gs. cap j)" by (subst sum.reindex) (auto simp: inj_on_def)
    moreover have "(\<Sum>(u, v)\<in>?P \<union> ?Q. ?c u v) = (\<Sum>(u, v)\<in>?P. ?c u v) + (\<Sum>(u, v)\<in>?Q. ?c u v)"
      by (intro sum.union_disjoint) auto
    moreover have "(\<Sum>(u, v)\<in>?P \<union> ?Q. ?c u v) \<le> n" using S by (intro part) auto
    ultimately show ?thesis by linarith
  qed
  finally show ?thesis by simp
qed

lemma max_shares:
  assumes "flow_state (2 + m + g) (net_cap m g need cap adj U) 0 res"
  shows "\<exists>n. max_flow U 0 res = Some n \<and>
    (\<exists>b. shares m g need cap adj b \<and> (\<Sum>k<m. \<Sum>j<g. b k j) = n) \<and>
    (\<forall>b. shares m g need cap adj b \<longrightarrow> (\<Sum>k<m. \<Sum>j<g. b k j) \<le> n)"
proof -
  from max_flow_ends [OF assms U_pos] obtain n res' S where r: "max_flow U 0 res = Some n"
    "flow_state (2 + m + g) (net_cap m g need cap adj U) n res'" "0 \<in> S" "1 \<notin> S" "S \<subseteq> {..<2 + m + g}"
    "\<forall>u \<in> S. \<forall>v. v \<notin> S \<longrightarrow> room res' u v = 0" by blast
  from flow_shares [OF r(2)] shares_below_cut [OF r(2) _ r(3-6)] r(1) show ?thesis by blast
qed

end

section \<open>Building the network\<close>

definition window_keys :: "(string, int) dict \<Rightarrow> string list" where
  "window_keys needs = filter (\<lambda>key. 0 < dict_get needs key 0) (sort (map fst needs))"

definition read_by :: "string \<Rightarrow> string \<Rightarrow> (string, string list) dict \<Rightarrow> (string, string list) dict" where
  "read_by key item rd = AList.update item (List.insert key (dict_get rd item [])) rd"

definition readers_of :: "(string, string list) dict \<Rightarrow> string list \<Rightarrow> (string, string list) dict" where
  "readers_of reach keys = fold (\<lambda>key. fold (read_by key) (dict_get reach key [])) keys []"

definition merge_range ::
  "(string, int) dict \<Rightarrow> string \<times> string list \<Rightarrow> (string list, int) dict \<Rightarrow> (string list, int) dict" where
  "merge_range caps r groups =
     (let cap = max 0 (dict_get caps (fst r) 0); signature = sort (snd r) in
      if cap \<noteq> 0 then AList.update signature (dict_get groups signature 0 + cap) groups else groups)"

definition groups_of :: "(string, int) dict \<Rightarrow> (string, string list) dict \<Rightarrow> (string list, int) dict" where
  "groups_of caps rd = fold (merge_range caps) rd []"

text \<open>The dictionary \<open>node\<close>, and the edges in the order the code adds them.\<close>

definition node_of :: "string list \<Rightarrow> string \<Rightarrow> nat" where
  "node_of keys key = the (map_of (zip keys [2..<2 + length keys]) key)"

definition edges_of ::
  "(string, int) dict \<Rightarrow> string list \<Rightarrow> (string list, int) dict \<Rightarrow> int \<Rightarrow> (nat \<times> nat \<times> int) list" where
  "edges_of needs keys groups unbounded =
     map (\<lambda>key. (0, node_of keys key, dict_get needs key 0)) keys @
     concat (map (\<lambda>(offset, signature, cap). let grp = 2 + length keys + offset in
         (grp, 1, cap) # map (\<lambda>key. (node_of keys key, grp, unbounded)) signature)
       (List.enumerate 0 (sorted_items groups)))"

definition edge :: "nat \<times> nat \<times> int \<Rightarrow> residual \<Rightarrow> residual" where
  "edge e res = (case e of (tail, head, cap) \<Rightarrow> add_room head tail 0 (add_room tail head cap res))"

definition network_of ::
  "(string, int) dict \<Rightarrow> string list \<Rightarrow> (string list, int) dict \<Rightarrow> int \<Rightarrow> residual" where
  "network_of needs keys groups unbounded =
     fold edge (edges_of needs keys groups unbounded) (replicate (2 + length keys + length groups) [])"

text \<open>More than every need together.\<close>

definition unbounded_gib :: "(string, int) dict \<Rightarrow> int" where
  "unbounded_gib needs = sum_list (map (\<lambda>key. dict_get needs key 0) (window_keys needs)) + 1"

definition joint_need_gib ::
  "(string, int) dict \<Rightarrow> (string, string list) dict \<Rightarrow> (string, int) dict \<Rightarrow> int option" where
  "joint_need_gib needs reach caps =
     (let keys = window_keys needs; groups = groups_of caps (readers_of reach keys) in
      if groups = [] then Some 0
      else max_flow (unbounded_gib needs) 0 (network_of needs keys groups (unbounded_gib needs)))"

section \<open>The network the code builds\<close>

lemma window_keys_facts [simp]:
  assumes "distinct (map fst needs)"
  shows "sorted (window_keys needs)" "distinct (window_keys needs)"
    "set (window_keys needs) = {key \<in> fst ` set needs. 0 < dict_get needs key 0}"
  using assms by (auto simp: window_keys_def sorted_filter [where f = id, simplified] distinct_filter)

text \<open>The readers of a range, in the order of the windows.\<close>

definition signature_of :: "(string, string list) dict \<Rightarrow> string list \<Rightarrow> string \<Rightarrow> string list" where
  "signature_of reach keys item = filter (\<lambda>key. item \<in> set (dict_get reach key [])) keys"

lemma dict_get_update [simp]: "dict_get (AList.update k v d) k' v' = (if k' = k then v else dict_get d k' v')"
  by (simp add: dict_get_def update_conv')

lemma dict_get_Nil [simp]: "dict_get [] k v = v"
  by (simp add: dict_get_def)

lemma read_by_fold:
  "dict_get (fold (read_by key) items rd) item [] =
     (if item \<in> set items then List.insert key (dict_get rd item []) else dict_get rd item [])"
  "fst ` set (fold (read_by key) items rd) = fst ` set rd \<union> set items"
  "distinct (map fst rd) \<Longrightarrow> distinct (map fst (fold (read_by key) items rd))"
  by (induction items arbitrary: rd) (auto simp: read_by_def dom_update distinct_update List.insert_def)

lemma readers_fold:
  assumes "distinct (map fst rd)" "\<forall>item. distinct (dict_get rd item [])"
  shows "distinct (map fst (fold (\<lambda>key. fold (read_by key) (dict_get reach key [])) keys rd)) \<and>
    fst ` set (fold (\<lambda>key. fold (read_by key) (dict_get reach key [])) keys rd) =
      fst ` set rd \<union> (\<Union>key \<in> set keys. set (dict_get reach key [])) \<and>
    (\<forall>item. distinct (dict_get (fold (\<lambda>key. fold (read_by key) (dict_get reach key [])) keys rd) item []) \<and>
      set (dict_get (fold (\<lambda>key. fold (read_by key) (dict_get reach key [])) keys rd) item []) =
        set (dict_get rd item []) \<union> {key \<in> set keys. item \<in> set (dict_get reach key [])})"
  using assms
proof (induction keys arbitrary: rd)
  case (Cons key keys)
  let ?rd = "fold (read_by key) (dict_get reach key []) rd"
  have "distinct (map fst ?rd)" "\<forall>item. distinct (dict_get ?rd item [])"
    using Cons.prems by (simp_all add: read_by_fold)
  note * = Cons.IH [OF this]
  show ?case using * by (auto simp: read_by_fold)
qed simp

lemma readers_of_facts:
  "distinct (map fst (readers_of reach keys))"
  "fst ` set (readers_of reach keys) = (\<Union>key \<in> set keys. set (dict_get reach key []))"
  "distinct (dict_get (readers_of reach keys) item [])"
  "set (dict_get (readers_of reach keys) item []) = {key \<in> set keys. item \<in> set (dict_get reach key [])}"
  using readers_fold [of "[]" reach keys] by (simp_all add: readers_of_def)

lemma readers_signature:
  assumes "sorted keys" "distinct keys" "r \<in> set (readers_of reach keys)"
  shows "sort (snd r) = signature_of reach keys (fst r)"
proof -
  have "snd r = dict_get (readers_of reach keys) (fst r) []"
    using map_of_is_SomeI [OF readers_of_facts(1), of "fst r" "snd r" reach keys] assms(3) by (simp add: dict_get_def)
  with assms(1,2) show ?thesis
    by (intro sorted_distinct_set_unique)
      (auto simp: signature_of_def readers_of_facts sorted_filter [where f = id, simplified])
qed

lemma merge_range_fold:
  "dict_get (fold (merge_range caps) rs gs) s 0 =
     dict_get gs s 0 + (\<Sum>r\<leftarrow>rs. if sort (snd r) = s then max 0 (dict_get caps (fst r) 0) else 0)"
  "fst ` set (fold (merge_range caps) rs gs) =
     fst ` set gs \<union> {sort (snd r) | r. r \<in> set rs \<and> 0 < dict_get caps (fst r) 0}"
  "distinct (map fst gs) \<Longrightarrow> distinct (map fst (fold (merge_range caps) rs gs))"
proof -
  show "dict_get (fold (merge_range caps) rs gs) s 0 =
    dict_get gs s 0 + (\<Sum>r\<leftarrow>rs. if sort (snd r) = s then max 0 (dict_get caps (fst r) 0) else 0)"
    by (induction rs arbitrary: gs) (auto simp: merge_range_def Let_def)
  show "fst ` set (fold (merge_range caps) rs gs) =
    fst ` set gs \<union> {sort (snd r) | r. r \<in> set rs \<and> 0 < dict_get caps (fst r) 0}"
  proof (induction rs arbitrary: gs)
    case (Cons r rs)
    have "fst ` set (merge_range caps r gs) =
      fst ` set gs \<union> (if 0 < dict_get caps (fst r) 0 then {sort (snd r)} else {})"
      by (auto simp: merge_range_def Let_def dom_update)
    moreover obtain item ks where "r = (item, ks)" by (rule prod.exhaust)
    ultimately show ?case using Cons.IH by auto
  qed simp
  show "distinct (map fst gs) \<Longrightarrow> distinct (map fst (fold (merge_range caps) rs gs))"
    by (induction rs arbitrary: gs) (auto simp: merge_range_def Let_def distinct_update)
qed

definition ranges_of :: "(string, string list) dict \<Rightarrow> string list \<Rightarrow> string set" where
  "ranges_of reach keys = (\<Union>key \<in> set keys. set (dict_get reach key []))"

lemma finite_ranges [simp]: "finite (ranges_of reach keys)"
  by (simp add: ranges_of_def)

lemma groups_of_facts:
  fixes keys :: "string list" and caps :: "(string, int) dict" and reach :: "(string, string list) dict"
  assumes "sorted keys" "distinct keys"
  defines "G \<equiv> groups_of caps (readers_of reach keys)"
  shows "distinct (map fst G)"
    "fst ` set G = {signature_of reach keys i | i. i \<in> ranges_of reach keys \<and> 0 < dict_get caps i 0}"
    "dict_get G s 0 = (\<Sum>i \<in> {i \<in> ranges_of reach keys. signature_of reach keys i = s}. max 0 (dict_get caps i 0))"
proof -
  let ?rd = "readers_of reach keys"
  have sig: "\<forall>r \<in> set ?rd. sort (snd r) = signature_of reach keys (fst r)"
    using readers_signature [OF assms(1,2)] by blast
  show "distinct (map fst G)" by (simp add: G_def groups_of_def merge_range_fold)
  have "fst ` set G = {sort (snd r) | r. r \<in> set ?rd \<and> 0 < dict_get caps (fst r) 0}"
    by (simp add: G_def groups_of_def merge_range_fold)
  also have "\<dots> = (\<lambda>r. sort (snd r)) ` {r. r \<in> set ?rd \<and> 0 < dict_get caps (fst r) 0}"
    by (rule setcompr_eq_image)
  also have "\<dots> = (\<lambda>r. signature_of reach keys (fst r)) ` {r. r \<in> set ?rd \<and> 0 < dict_get caps (fst r) 0}"
    using sig by (intro image_cong) auto
  also have "\<dots> = signature_of reach keys ` {i. i \<in> fst ` set ?rd \<and> 0 < dict_get caps i 0}"
    unfolding image_image [symmetric, of "signature_of reach keys" fst] by (rule arg_cong) force
  finally show "fst ` set G = {signature_of reach keys i | i. i \<in> ranges_of reach keys \<and> 0 < dict_get caps i 0}"
    by (simp add: readers_of_facts ranges_of_def setcompr_eq_image)
  let ?f = "\<lambda>i. if signature_of reach keys i = s then max 0 (dict_get caps i 0) else 0"
  have "dict_get G s 0 = (\<Sum>r\<leftarrow>?rd. if sort (snd r) = s then max 0 (dict_get caps (fst r) 0) else 0)"
    by (simp add: G_def groups_of_def merge_range_fold)
  also have "\<dots> = (\<Sum>r\<leftarrow>?rd. ?f (fst r))" using sig by (simp cong: map_cong)
  also have "\<dots> = (\<Sum>i\<leftarrow>map fst ?rd. ?f i)" by (simp add: comp_def)
  also have "\<dots> = sum ?f (ranges_of reach keys)"
    using readers_of_facts(1) by (subst sum_list_distinct_conv_sum_set) (simp_all add: readers_of_facts ranges_of_def)
  finally show "dict_get G s 0 = (\<Sum>i \<in> {i \<in> ranges_of reach keys. signature_of reach keys i = s}. max 0 (dict_get caps i 0))"
    by (simp add: sum.If_cases Int_def)
qed

lemma group_signature:
  assumes "sorted keys" "distinct keys" "s \<in> fst ` set (groups_of caps (readers_of reach keys))"
  shows "set s \<subseteq> set keys" "distinct s"
  using assms by (auto simp: groups_of_facts signature_of_def)

lemma node_of_nth: "distinct keys \<Longrightarrow> k < length keys \<Longrightarrow> node_of keys (keys ! k) = Suc (Suc k)"
  by (simp add: node_of_def map_of_zip_nth del: upt_Suc)

lemma node_of_eq:
  assumes "distinct keys" "key \<in> set keys"
  shows "u = node_of keys key \<longleftrightarrow> 2 \<le> u \<and> u < 2 + length keys \<and> key = keys ! (u - 2)"
proof -
  from assms(2) obtain k where k: "k < length keys" "key = keys ! k" by (auto simp: in_set_conv_nth)
  then have "u = node_of keys key \<longleftrightarrow> u = k + 2" using assms(1) by (simp add: node_of_nth)
  also have "\<dots> \<longleftrightarrow> 2 \<le> u \<and> u - 2 = k" by auto
  also have "\<dots> \<longleftrightarrow> 2 \<le> u \<and> u < 2 + length keys \<and> key = keys ! (u - 2)"
    using k assms(1) by (auto simp: nth_eq_iff_index_eq)
  finally show ?thesis .
qed

lemma sum_nodes:
  assumes "distinct keys" "distinct ks" "set ks \<subseteq> set keys"
  shows "(\<Sum>key\<leftarrow>ks. if u = node_of keys key then f key else 0) =
    (if 2 \<le> u \<and> u < 2 + length keys \<and> keys ! (u - 2) \<in> set ks then f (keys ! (u - 2)) else (0::int))"
proof -
  have "(\<Sum>key\<leftarrow>ks. if u = node_of keys key then f key else 0) =
    (\<Sum>key \<in> set ks. if u = node_of keys key then f key else 0)"
    using assms(2) by (simp add: sum_list_distinct_conv_sum_set)
  also have "\<dots> = (\<Sum>key \<in> set ks. if 2 \<le> u \<and> u < 2 + length keys \<and> key = keys ! (u - 2) then f key else 0)"
    using assms node_of_eq [OF assms(1), of _ u] by (intro sum.cong [OF refl]) (simp add: subset_iff)
  also have "\<dots> = (if 2 \<le> u \<and> u < 2 + length keys \<and> keys ! (u - 2) \<in> set ks then f (keys ! (u - 2)) else 0)"
    by (cases "2 \<le> u \<and> u < 2 + length keys") (auto simp: sum.delta)
  finally show ?thesis .
qed

definition edge_room :: "nat \<Rightarrow> nat \<Rightarrow> nat \<times> nat \<times> int \<Rightarrow> int" where
  "edge_room u v e = (if u = fst e \<and> v = fst (snd e) then snd (snd e) else 0)"

lemma edges_network:
  assumes "network_ok N res" "\<forall>(t, h, c) \<in> set es. t < N \<and> h < N"
  shows "network_ok N (fold edge es res)"
    "room (fold edge es res) u v = room res u v + (\<Sum>e\<leftarrow>es. edge_room u v e)"
proof -
  have "network_ok N (fold edge es res) \<and>
    room (fold edge es res) u v = room res u v + (\<Sum>e\<leftarrow>es. edge_room u v e)"
    using assms
  proof (induction es arbitrary: res)
    case (Cons e es)
    obtain t h c where e: "e = (t, h, c)" by (cases e) auto
    have th: "t < length res" "h < length res" "t < N" "h < N"
      using Cons.prems e by (auto simp: network_ok_def)
    have len: "length (add_room t h c res) = length res" by (simp add: add_room_def)
    have "network_ok N (edge e res)"
      using Cons.prems(1) th by (simp add: e edge_def network_ok_add_room)
    moreover have "room (edge e res) u v = room res u v + edge_room u v e"
      using th len by (simp add: e edge_def edge_room_def room_add_room)
    ultimately show ?case using Cons.IH [of "edge e res"] Cons.prems(2) by simp
  qed simp
  then show "network_ok N (fold edge es res)"
    "room (fold edge es res) u v = room res u v + (\<Sum>e\<leftarrow>es. edge_room u v e)" by auto
qed

lemma empty_network [simp]: "network_ok N (replicate N [])" "room (replicate N []) u v = 0"
  by (auto simp: network_ok_def room_def links_def)

text \<open>
  The room of the network as built: the window at offset \<open>k\<close> of \<open>keys\<close>, the group at offset \<open>j\<close> of the
  sorted groups.
\<close>

definition window_need :: "(string, int) dict \<Rightarrow> string list \<Rightarrow> nat \<Rightarrow> int" where
  "window_need needs keys k = dict_get needs (keys ! k) 0"

definition group_cap :: "(string list, int) dict \<Rightarrow> nat \<Rightarrow> int" where
  "group_cap groups j = snd (sorted_items groups ! j)"

definition reads_group :: "string list \<Rightarrow> (string list, int) dict \<Rightarrow> nat \<Rightarrow> nat \<Rightarrow> bool" where
  "reads_group keys groups k j \<longleftrightarrow> keys ! k \<in> set (fst (sorted_items groups ! j))"

lemma length_sorted_items [simp]: "length (sorted_items d) = length d"
  by (simp add: sorted_items_def)

lemma sum_window_edges:
  assumes "distinct keys"
  shows "(\<Sum>key\<leftarrow>keys. edge_room u v (0, node_of keys key, dict_get needs key 0)) =
    (if u = 0 \<and> 2 \<le> v \<and> v < 2 + length keys then window_need needs keys (v - 2) else 0)"
proof -
  have "(\<Sum>key\<leftarrow>keys. edge_room u v (0, node_of keys key, dict_get needs key 0)) =
    (\<Sum>key\<leftarrow>keys. if v = node_of keys key then (if u = 0 then dict_get needs key 0 else 0) else 0)"
    by (intro arg_cong [of _ _ sum_list] map_cong) (auto simp: edge_room_def)
  also have "\<dots> = (if u = 0 \<and> 2 \<le> v \<and> v < 2 + length keys then window_need needs keys (v - 2) else 0)"
    using assms by (subst sum_nodes) (auto simp: window_need_def)
  finally show ?thesis .
qed

lemma sum_group_edges:
  assumes "distinct keys" "distinct s" "set s \<subseteq> set keys"
  shows "(\<Sum>key\<leftarrow>s. edge_room u v (node_of keys key, grp, U)) =
    (if v = grp \<and> 2 \<le> u \<and> u < 2 + length keys \<and> keys ! (u - 2) \<in> set s then U else 0)"
proof -
  have "(\<Sum>key\<leftarrow>s. edge_room u v (node_of keys key, grp, U)) =
    (\<Sum>key\<leftarrow>s. if u = node_of keys key then (if v = grp then U else 0) else 0)"
    by (intro arg_cong [of _ _ sum_list] map_cong) (auto simp: edge_room_def)
  also have "\<dots> = (if v = grp \<and> 2 \<le> u \<and> u < 2 + length keys \<and> keys ! (u - 2) \<in> set s then U else 0)"
    using assms by (subst sum_nodes) auto
  finally show ?thesis .
qed

lemma sum_list_concat_map: "sum_list (map f (concat (map g xs))) = (\<Sum>x\<leftarrow>xs. sum_list (map f (g x)))"
  by (induction xs) auto

lemma sum_list_enumerate: "(\<Sum>x\<leftarrow>List.enumerate n xs. f x) = (\<Sum>j<length xs. f (n + j, xs ! j))"
  for f :: "nat \<times> 'a \<Rightarrow> int"
proof -
  have "(\<Sum>x\<leftarrow>List.enumerate n xs. f x) = (\<Sum>j = 0..<length xs. f (List.enumerate n xs ! j))"
    by (simp add: sum_list_sum_nth)
  also have "\<dots> = (\<Sum>j<length xs. f (n + j, xs ! j))"
    by (intro sum.cong) (auto simp: nth_enumerate_eq)
  finally show ?thesis .
qed

lemma sum_offset:
  "(\<Sum>j<g. if u = 2 + m + j then (if P j then f j else 0) else (0::int)) =
   (if 2 + m \<le> u \<and> u < 2 + m + g \<and> P (u - 2 - m) then f (u - 2 - m) else 0)"
  for u m g :: nat
proof -
  have "(\<Sum>j<g. if u = 2 + m + j then (if P j then f j else 0) else (0::int)) =
    (\<Sum>j<g. if j = u - 2 - m then (if 2 + m \<le> u \<and> P j then f j else 0) else 0)"
    by (intro sum.cong [OF refl]) auto
  also have "\<dots> = (if 2 + m \<le> u \<and> u < 2 + m + g \<and> P (u - 2 - m) then f (u - 2 - m) else 0)"
    by (auto simp: sum.delta)
  finally show ?thesis .
qed

lemma sum_edges:
  assumes "distinct keys" "\<forall>s \<in> fst ` set groups. distinct s \<and> set s \<subseteq> set keys"
  shows "(\<Sum>e\<leftarrow>edges_of needs keys groups U. edge_room u v e) =
    net_cap (length keys) (length groups) (window_need needs keys) (group_cap groups) (reads_group keys groups) U u v"
    (is "?sum = net_cap ?m ?g _ _ _ _ _ _")
proof -
  let ?gs = "sorted_items groups" and ?G = "\<lambda>j. 2 + ?m + j"
  let ?step = "\<lambda>j s cap. edge_room u v (?G j, 1, cap) + (\<Sum>key\<leftarrow>s. edge_room u v (node_of keys key, ?G j, U))"
  have "?sum = (if u = 0 \<and> 2 \<le> v \<and> v < 2 + ?m then window_need needs keys (v - 2) else 0) +
    (\<Sum>x\<leftarrow>List.enumerate 0 ?gs. case x of (j, s, cap) \<Rightarrow> ?step j s cap)"
    using assms(1) by (simp add: edges_of_def sum_list_concat_map comp_def sum_window_edges Let_def case_prod_beta)
  also have "(\<Sum>x\<leftarrow>List.enumerate 0 ?gs. case x of (j, s, cap) \<Rightarrow> ?step j s cap) =
    (\<Sum>j<?g. ?step j (fst (?gs ! j)) (snd (?gs ! j)))"
    by (simp add: sum_list_enumerate case_prod_beta)
  also have "\<dots> = (\<Sum>j<?g. if u = ?G j then (if v = 1 then group_cap groups j else 0) else 0) +
    (\<Sum>j<?g. if v = ?G j then (if 2 \<le> u \<and> u < 2 + ?m \<and> reads_group keys groups (u - 2) j then U else 0) else 0)"
  proof -
    have "?step j (fst (?gs ! j)) (snd (?gs ! j)) =
      (if u = ?G j then (if v = 1 then group_cap groups j else 0) else 0) +
      (if v = ?G j then (if 2 \<le> u \<and> u < 2 + ?m \<and> reads_group keys groups (u - 2) j then U else 0) else 0)"
      if "j < ?g" for j
    proof -
      have "?gs ! j \<in> set groups" using that nth_mem [of j ?gs] by simp
      with assms(2) have "distinct (fst (?gs ! j))" "set (fst (?gs ! j)) \<subseteq> set keys" by auto
      from sum_group_edges [OF assms(1) this, of u v "?G j" U] show ?thesis
        by (auto simp: edge_room_def group_cap_def reads_group_def)
    qed
    then show ?thesis by (simp add: sum.distrib)
  qed
  also have "(\<Sum>j<?g. if u = ?G j then (if v = 1 then group_cap groups j else 0) else 0) =
    (if 2 + ?m \<le> u \<and> u < 2 + ?m + ?g \<and> v = 1 then group_cap groups (u - 2 - ?m) else 0)"
    by (rule sum_offset)
  also have "(\<Sum>j<?g. if v = ?G j then (if 2 \<le> u \<and> u < 2 + ?m \<and> reads_group keys groups (u - 2) j then U else 0) else 0) =
    (if 2 + ?m \<le> v \<and> v < 2 + ?m + ?g \<and> 2 \<le> u \<and> u < 2 + ?m \<and> reads_group keys groups (u - 2) (v - 2 - ?m) then U else 0)"
    by (rule sum_offset)
  finally show ?thesis by (auto simp: net_cap_def)
qed

lemma edges_in_network:
  assumes "distinct keys" "\<forall>s \<in> fst ` set groups. distinct s \<and> set s \<subseteq> set keys"
  shows "\<forall>(t, h, c) \<in> set (edges_of needs keys groups U). t < 2 + length keys + length groups \<and> h < 2 + length keys + length groups"
proof -
  have node: "node_of keys key < 2 + length keys + length groups" if "key \<in> set keys" for key
    using node_of_eq [OF assms(1) that, of "node_of keys key"] by simp
  have groups: "offset < length groups \<and> set s \<subseteq> set keys"
    if "(offset, s, cap) \<in> set (List.enumerate 0 (sorted_items groups))" for offset s cap
    using that assms(2) nth_mem [of offset "sorted_items groups"] by (force simp: in_set_enumerate_eq)
  show ?thesis
    using node by (fastforce simp: edges_of_def Let_def dest!: groups)
qed

lemma network_of_flow:
  assumes "distinct keys" "\<forall>s \<in> fst ` set groups. distinct s \<and> set s \<subseteq> set keys"
    and "\<forall>key \<in> set keys. 0 \<le> dict_get needs key 0" "\<forall>s \<in> set groups. 0 \<le> snd s" "0 \<le> U"
  shows "flow_state (2 + length keys + length groups)
    (net_cap (length keys) (length groups) (window_need needs keys) (group_cap groups) (reads_group keys groups) U)
    0 (network_of needs keys groups U)"
proof -
  let ?N = "2 + length keys + length groups"
  let ?c = "net_cap (length keys) (length groups) (window_need needs keys) (group_cap groups) (reads_group keys groups) U"
  note net = edges_network [OF empty_network(1) edges_in_network [OF assms(1,2)]]
  have room: "room (network_of needs keys groups U) u v = ?c u v" for u v
    unfolding network_of_def net(2) sum_edges [OF assms(1,2)] empty_network(2) by simp
  have "0 \<le> group_cap groups j" if "j < length groups" for j
    using assms(4) that nth_mem [of j "sorted_items groups"] by (simp add: group_cap_def)
  then have "0 \<le> ?c u v" for u v
    using assms(3,5) by (auto simp: net_cap_def window_need_def)
  with net(1) show ?thesis by (simp add: flow_state_def room) (simp add: network_of_def)
qed

section \<open>Shares by name\<close>

definition shares_on ::
  "'w set \<Rightarrow> 's set \<Rightarrow> ('w \<Rightarrow> int) \<Rightarrow> ('s \<Rightarrow> int) \<Rightarrow> ('w \<Rightarrow> 's \<Rightarrow> bool) \<Rightarrow> ('w \<Rightarrow> 's \<Rightarrow> int) \<Rightarrow> bool" where
  "shares_on W S need cap adj B \<longleftrightarrow>
     (\<forall>w \<in> W. \<forall>s \<in> S. 0 \<le> B w s \<and> (\<not> adj w s \<longrightarrow> B w s = 0)) \<and>
     (\<forall>w \<in> W. (\<Sum>s \<in> S. B w s) \<le> need w) \<and> (\<forall>s \<in> S. (\<Sum>w \<in> W. B w s) \<le> cap s)"

lemma shares_on_unread: "shares_on W S need cap adj B \<Longrightarrow> w \<in> W \<Longrightarrow> s \<in> S \<Longrightarrow> \<not> adj w s \<Longrightarrow> B w s = 0"
  by (auto simp: shares_on_def)

lemma sum_nth: "distinct xs \<Longrightarrow> (\<Sum>k<length xs. f (xs ! k)) = (\<Sum>x \<in> set xs. f x)" for f :: "'a \<Rightarrow> int"
  by (simp add: sum_list_distinct_conv_sum_set [symmetric] sum_list_sum_nth atLeast0LessThan)

lemma shares_by_name:
  assumes "distinct ws" "distinct ss"
  shows "shares_on (set ws) (set ss) need cap adj B \<longleftrightarrow>
    shares (length ws) (length ss) (\<lambda>k. need (ws ! k)) (\<lambda>j. cap (ss ! j)) (\<lambda>k j. adj (ws ! k) (ss ! j))
      (\<lambda>k j. B (ws ! k) (ss ! j))"
  using assms by (simp add: shares_on_def shares_def all_set_conv_all_nth sum_nth [of ss] sum_nth [of ws "\<lambda>w. B w s" for s])

lemma name_shares:
  assumes "distinct ws" "distinct ss"
  obtains B where "\<forall>k<length ws. \<forall>j<length ss. B (ws ! k) (ss ! j) = b k j"
proof
  let ?i = "\<lambda>xs. the_inv_into {..<length xs} ((!) xs)"
  have "?i ws (ws ! k) = k" if "k < length ws" for k
    using assms(1) that by (intro the_inv_into_f_f) (auto simp: inj_on_nth)
  moreover have "?i ss (ss ! j) = j" if "j < length ss" for j
    using assms(2) that by (intro the_inv_into_f_f) (auto simp: inj_on_nth)
  ultimately show "\<forall>k<length ws. \<forall>j<length ss. (\<lambda>w s. b (?i ws w) (?i ss s)) (ws ! k) (ss ! j) = b k j"
    by simp
qed

section \<open>Splitting a share over the ranges of a group\<close>

lemma take_amount:
  assumes "finite I" "\<forall>i \<in> I. 0 \<le> c i" "0 \<le> a" "a \<le> sum c I"
  shows "\<exists>x. (\<forall>i \<in> I. 0 \<le> x i \<and> x i \<le> c i) \<and> sum x I = (a::int)"
  using assms
proof (induction I arbitrary: a rule: finite_induct)
  case (insert i I)
  let ?t = "min a (c i)"
  have "0 \<le> a - ?t" "a - ?t \<le> sum c I" using insert sum_nonneg [of I c] by (auto simp: min_def)
  with insert.IH insert.prems(1) obtain x where x: "\<forall>i \<in> I. 0 \<le> x i \<and> x i \<le> c i" "sum x I = a - ?t"
    by (metis insertCI)
  let ?x = "x(i := ?t)"
  have "sum ?x I = sum x I" using insert.hyps by (intro sum.cong) auto
  then have "sum ?x (insert i I) = a" using insert.hyps x(2) by simp
  moreover have "\<forall>i' \<in> insert i I. 0 \<le> ?x i' \<and> ?x i' \<le> c i'" using x(1) insert.prems by auto
  ultimately show ?case by blast
qed simp

lemma spread:
  assumes "finite K" "finite I" "\<forall>i \<in> I. 0 \<le> c i" "\<forall>k \<in> K. 0 \<le> a k" "sum a K \<le> sum c I"
  shows "\<exists>x. (\<forall>k \<in> K. \<forall>i \<in> I. 0 \<le> x k i) \<and> (\<forall>k \<in> K. (\<Sum>i \<in> I. x k i) = a k) \<and>
    (\<forall>i \<in> I. (\<Sum>k \<in> K. x k i) \<le> (c i::int))"
  using assms(1,3-)
proof (induction K arbitrary: c rule: finite_induct)
  case (insert k K)
  have "0 \<le> sum a K" "sum a (insert k K) = a k + sum a K" using insert by (simp_all add: sum_nonneg)
  with insert.prems have "0 \<le> a k" "a k \<le> sum c I" by auto
  with take_amount [OF assms(2) insert.prems(1)] obtain y
    where y: "\<forall>i \<in> I. 0 \<le> y i \<and> y i \<le> c i" "sum y I = a k" by blast
  have "\<forall>i \<in> I. 0 \<le> c i - y i" "\<forall>k \<in> K. 0 \<le> a k" "sum a K \<le> (\<Sum>i \<in> I. c i - y i)"
    using y insert by (auto simp: sum_subtractf)
  from insert.IH [OF this] obtain x where x: "\<forall>k \<in> K. \<forall>i \<in> I. 0 \<le> x k i"
    "\<forall>k \<in> K. (\<Sum>i \<in> I. x k i) = a k" "\<forall>i \<in> I. (\<Sum>k \<in> K. x k i) \<le> c i - y i" by blast
  have "(\<Sum>k' \<in> K. (x(k := y)) k' i) = (\<Sum>k' \<in> K. x k' i)" for i
    using insert.hyps by (intro sum.cong) auto
  then have "\<forall>i \<in> I. (\<Sum>k' \<in> insert k K. (x(k := y)) k' i) \<le> c i"
    using insert.hyps x(3) by force
  moreover have "\<forall>k' \<in> insert k K. \<forall>i \<in> I. 0 \<le> (x(k := y)) k' i"
    "\<forall>k' \<in> insert k K. (\<Sum>i \<in> I. (x(k := y)) k' i) = a k'" using x(1,2) y by auto
  ultimately show ?case by blast
qed auto

section \<open>What the windows hold\<close>

text \<open>
  An assignment of GiB of ranges to the windows that account for them: a range held by several windows is
  one copy, so its GiB are shared out. Each window holds at most its need, of ranges it can reach, and
  each range is shared out at most once.
\<close>

definition holding ::
  "(string, int) dict \<Rightarrow> (string, string list) dict \<Rightarrow> (string, int) dict \<Rightarrow> (string \<Rightarrow> string \<Rightarrow> int) \<Rightarrow> bool" where
  "holding needs reach caps h \<longleftrightarrow>
     (\<forall>w i. 0 \<le> h w i) \<and> (\<forall>w i. i \<notin> set (dict_get reach w []) \<longrightarrow> h w i = 0) \<and>
     (\<forall>w \<in> fst ` set needs. (\<Sum>i \<in> set (dict_get reach w []). h w i) \<le> max 0 (dict_get needs w 0)) \<and>
     (\<forall>i. (\<Sum>w \<in> fst ` set needs. h w i) \<le> max 0 (dict_get caps i 0))"

definition held :: "(string, int) dict \<Rightarrow> (string, string list) dict \<Rightarrow> (string \<Rightarrow> string \<Rightarrow> int) \<Rightarrow> int" where
  "held needs reach h = (\<Sum>w \<in> fst ` set needs. \<Sum>i \<in> set (dict_get reach w []). h w i)"

abbreviation groups_for :: "(string, int) dict \<Rightarrow> (string, string list) dict \<Rightarrow> (string, int) dict \<Rightarrow> (string list, int) dict" where
  "groups_for needs reach caps \<equiv> groups_of caps (readers_of reach (window_keys needs))"

definition group_members :: "(string, int) dict \<Rightarrow> (string, string list) dict \<Rightarrow> (string, int) dict \<Rightarrow> string list \<Rightarrow> string set" where
  "group_members needs reach caps s =
     {i \<in> ranges_of reach (window_keys needs). 0 < dict_get caps i 0 \<and> signature_of reach (window_keys needs) i = s}"

lemma finite_group_members [simp]: "finite (group_members needs reach caps s)"
  by (simp add: group_members_def)

lemma group_members_facts:
  assumes "distinct (map fst needs)"
  shows "dict_get (groups_for needs reach caps) s 0 = (\<Sum>i \<in> group_members needs reach caps s. dict_get caps i 0)"
    "(\<Sum>s \<in> fst ` set (groups_for needs reach caps). \<Sum>i \<in> group_members needs reach caps s. f i) =
       (\<Sum>i \<in> {i \<in> ranges_of reach (window_keys needs). 0 < dict_get caps i 0}. f i)"
proof -
  let ?keys = "window_keys needs" and ?R = "ranges_of reach (window_keys needs)"
  note G = groups_of_facts [of ?keys caps reach]
  show "dict_get (groups_for needs reach caps) s 0 = (\<Sum>i \<in> group_members needs reach caps s. dict_get caps i 0)"
    using assms by (simp add: G group_members_def max_def) (rule sum.mono_neutral_cong_right, auto)
  let ?P = "{i \<in> ?R. 0 < dict_get caps i 0}" and ?S = "fst ` set (groups_for needs reach caps)"
  have "(\<Sum>s \<in> ?S. \<Sum>i \<in> {i \<in> ?P. signature_of reach ?keys i = s}. f i) = sum f ?P"
    using assms by (intro sum.group) (auto simp: G)
  then show "(\<Sum>s \<in> ?S. \<Sum>i \<in> group_members needs reach caps s. f i) = sum f ?P"
    by (simp add: group_members_def conj_assoc)
qed

lemma reach_sum:
  assumes "distinct (map fst needs)" "w \<in> set (window_keys needs)"
    and "\<And>i. i \<notin> set (dict_get reach w []) \<Longrightarrow> f i = 0" "\<And>i. dict_get caps i 0 \<le> 0 \<Longrightarrow> f i = 0"
  shows "(\<Sum>i \<in> set (dict_get reach w []). f i) =
    (\<Sum>s \<in> fst ` set (groups_for needs reach caps). \<Sum>i \<in> group_members needs reach caps s. f i)"
proof -
  have "set (dict_get reach w []) \<subseteq> ranges_of reach (window_keys needs)"
    using assms(2) by (auto simp: ranges_of_def)
  with assms(3,4) show ?thesis
    unfolding group_members_facts(2) [OF assms(1)]
    by (intro sum.mono_neutral_cong) (auto simp: not_less subset_iff)
qed

lemma unread_group:
  assumes "w \<in> set (window_keys needs)" "i \<in> group_members needs reach caps s"
  shows "i \<in> set (dict_get reach w []) \<longleftrightarrow> w \<in> set s"
  using assms by (auto simp: group_members_def signature_of_def)

lemma held_by_windows:
  assumes "distinct (map fst needs)" "\<And>w i. 0 \<le> h w i"
    and "\<And>w. w \<in> fst ` set needs \<Longrightarrow> (\<Sum>i \<in> set (dict_get reach w []). h w i) \<le> max 0 (dict_get needs w 0)"
  shows "held needs reach h = (\<Sum>w \<in> set (window_keys needs). \<Sum>i \<in> set (dict_get reach w []). h w i)"
proof -
  have "(\<Sum>i \<in> set (dict_get reach w []). h w i) = 0" if "w \<in> fst ` set needs" "\<not> 0 < dict_get needs w 0" for w
    using assms(3) [OF that(1)] that(2) sum_nonneg [of "set (dict_get reach w [])" "h w"] assms(2) by force
  then show ?thesis
    unfolding held_def using assms(1) by (intro sum.mono_neutral_right) auto
qed

abbreviation window_shares :: "(string, int) dict \<Rightarrow> (string, string list) dict \<Rightarrow> (string, int) dict \<Rightarrow> (string \<Rightarrow> string list \<Rightarrow> int) \<Rightarrow> bool" where
  "window_shares needs reach caps \<equiv>
     shares_on (set (window_keys needs)) (fst ` set (groups_for needs reach caps)) (\<lambda>w. dict_get needs w 0)
       (\<lambda>s. dict_get (groups_for needs reach caps) s 0) (\<lambda>w s. w \<in> set s)"

abbreviation shared_total :: "(string, int) dict \<Rightarrow> (string, string list) dict \<Rightarrow> (string, int) dict \<Rightarrow> (string \<Rightarrow> string list \<Rightarrow> int) \<Rightarrow> int" where
  "shared_total needs reach caps B \<equiv>
     (\<Sum>w \<in> set (window_keys needs). \<Sum>s \<in> fst ` set (groups_for needs reach caps). B w s)"

lemma shares_of_holding:
  assumes needs: "distinct (map fst needs)" and h: "holding needs reach caps h"
  shows "\<exists>B. window_shares needs reach caps B \<and> shared_total needs reach caps B = held needs reach h"
proof (intro exI conjI)
  let ?W = "fst ` set needs" and ?keys = "set (window_keys needs)"
  let ?B = "\<lambda>w s. \<Sum>i \<in> group_members needs reach caps s. h w i"
  have pos: "0 \<le> h w i" and unread: "i \<notin> set (dict_get reach w []) \<Longrightarrow> h w i = 0"
    and window: "w \<in> ?W \<Longrightarrow> (\<Sum>i \<in> set (dict_get reach w []). h w i) \<le> max 0 (dict_get needs w 0)"
    and range: "(\<Sum>w \<in> ?W. h w i) \<le> max 0 (dict_get caps i 0)" for w i
    using h by (auto simp: holding_def)
  have sub: "?keys \<subseteq> ?W" using needs by auto
  have keys: "(\<Sum>w \<in> ?keys. h w i) \<le> max 0 (dict_get caps i 0)" for i
    using sum_mono2 [OF _ sub, of "\<lambda>w. h w i"] pos range [of i] by force
  have empty: "h w i = 0" if "w \<in> ?keys" "dict_get caps i 0 \<le> 0" for w i
  proof -
    have "h w i \<le> (\<Sum>w \<in> ?keys. h w i)" using that pos by (intro member_le_sum) auto
    with that keys [of i] pos [of w i] show ?thesis by simp
  qed
  have reach: "(\<Sum>s \<in> fst ` set (groups_for needs reach caps). ?B w s) = (\<Sum>i \<in> set (dict_get reach w []). h w i)"
    if "w \<in> ?keys" for w
    using reach_sum [OF needs that, of reach "h w" caps] unread empty that by simp
  have "?B w s = 0" if "w \<in> ?keys" "w \<notin> set s" for w s
    using that by (intro sum.neutral) (auto simp: unread_group unread)
  moreover have "(\<Sum>w \<in> ?keys. ?B w s) \<le> dict_get (groups_for needs reach caps) s 0" for s
  proof -
    have "(\<Sum>w \<in> ?keys. ?B w s) = (\<Sum>i \<in> group_members needs reach caps s. \<Sum>w \<in> ?keys. h w i)" by (rule sum.swap)
    also have "\<dots> \<le> (\<Sum>i \<in> group_members needs reach caps s. dict_get caps i 0)"
    proof (intro sum_mono)
      fix i assume "i \<in> group_members needs reach caps s"
      then show "(\<Sum>w \<in> ?keys. h w i) \<le> dict_get caps i 0" using keys [of i] by (simp add: group_members_def)
    qed
    finally show ?thesis by (simp add: group_members_facts [OF needs])
  qed
  moreover have "(\<Sum>s \<in> fst ` set (groups_for needs reach caps). ?B w s) \<le> dict_get needs w 0" if "w \<in> ?keys" for w
    using window [of w] reach [OF that] that needs by auto
  ultimately show "window_shares needs reach caps ?B"
    using pos by (simp add: shares_on_def sum_nonneg)
  show "shared_total needs reach caps ?B = held needs reach h"
    using held_by_windows [OF needs pos window] reach by simp
qed

lemma holding_of_shares:
  assumes needs: "distinct (map fst needs)" and B: "window_shares needs reach caps B"
  shows "\<exists>h. holding needs reach caps h \<and> held needs reach h = shared_total needs reach caps B"
proof -
  let ?W = "fst ` set needs" and ?keys = "set (window_keys needs)" and ?S = "fst ` set (groups_for needs reach caps)"
  let ?M = "group_members needs reach caps" and ?sig = "signature_of reach (window_keys needs)"
  have "\<exists>x. (\<forall>w \<in> ?keys. \<forall>i \<in> ?M s. 0 \<le> x w i) \<and> (\<forall>w \<in> ?keys. (\<Sum>i \<in> ?M s. x w i) = B w s) \<and>
    (\<forall>i \<in> ?M s. (\<Sum>w \<in> ?keys. x w i) \<le> dict_get caps i 0)" if "s \<in> ?S" for s
    using B that group_members_facts(1) [OF needs, of caps reach s]
    by (intro spread) (auto simp: shares_on_def group_members_def)
  then have "\<exists>X. \<forall>s \<in> ?S. (\<forall>w \<in> ?keys. \<forall>i \<in> ?M s. 0 \<le> X s w i) \<and> (\<forall>w \<in> ?keys. (\<Sum>i \<in> ?M s. X s w i) = B w s) \<and>
    (\<forall>i \<in> ?M s. (\<Sum>w \<in> ?keys. X s w i) \<le> dict_get caps i 0)" by (intro bchoice ballI)
  then obtain X where X: "s \<in> ?S \<Longrightarrow> w \<in> ?keys \<Longrightarrow> i \<in> ?M s \<Longrightarrow> 0 \<le> X s w i"
    "s \<in> ?S \<Longrightarrow> w \<in> ?keys \<Longrightarrow> (\<Sum>i \<in> ?M s. X s w i) = B w s"
    "s \<in> ?S \<Longrightarrow> i \<in> ?M s \<Longrightarrow> (\<Sum>w \<in> ?keys. X s w i) \<le> dict_get caps i 0" for s w i by blast
  define h where "h w i = (if w \<in> ?keys \<and> i \<in> ?M (?sig i) then X (?sig i) w i else 0)" for w i
  have in_group: "?sig i \<in> ?S" if "i \<in> ?M s" for i s
    using that needs groups_of_facts(2) [of "window_keys needs" caps reach] by (auto simp: group_members_def)
  have same: "i \<in> ?M s \<Longrightarrow> ?sig i = s" for i s by (simp add: group_members_def)
  have B_sum: "(\<Sum>i \<in> ?M s. h w i) = B w s" if "w \<in> ?keys" "s \<in> ?S" for w s
  proof -
    have "(\<Sum>i \<in> ?M s. h w i) = (\<Sum>i \<in> ?M s. X s w i)" using that same by (intro sum.cong) (auto simp: h_def)
    with X(2) that show ?thesis by simp
  qed
  have pos: "0 \<le> h w i" for w i using X(1) in_group by (auto simp: h_def)
  have unread: "h w i = 0" if "i \<notin> set (dict_get reach w [])" for w i
  proof (cases "w \<in> ?keys \<and> i \<in> ?M (?sig i)")
    case True
    then have s: "?sig i \<in> ?S" "w \<notin> set (?sig i)" using in_group that unread_group [of w needs i reach caps "?sig i"] by auto
    then have "(\<Sum>i \<in> ?M (?sig i). h w i) = 0" using shares_on_unread [OF B] B_sum True by simp
    then show ?thesis using True pos by (simp add: sum_nonneg_eq_0_iff)
  qed (auto simp: h_def)
  have empty: "dict_get caps i 0 \<le> 0 \<Longrightarrow> h w i = 0" for w i by (simp add: h_def group_members_def)
  have reach: "(\<Sum>i \<in> set (dict_get reach w []). h w i) = (\<Sum>s \<in> ?S. B w s)" if "w \<in> ?keys" for w
    using reach_sum [OF needs that, of reach "h w" caps] unread empty B_sum that by simp
  have window: "(\<Sum>i \<in> set (dict_get reach w []). h w i) \<le> max 0 (dict_get needs w 0)" for w
    using reach [of w] B by (cases "w \<in> ?keys") (auto simp: shares_on_def h_def)
  have range: "(\<Sum>w \<in> ?W. h w i) \<le> max 0 (dict_get caps i 0)" for i
  proof (cases "i \<in> ?M (?sig i)")
    case True
    have "(\<Sum>w \<in> ?W. h w i) = (\<Sum>w \<in> ?keys. X (?sig i) w i)"
      using True needs by (intro sum.mono_neutral_cong_right) (auto simp: h_def)
    with X(3) [OF in_group [OF True] True] show ?thesis by simp
  qed (simp add: h_def)
  have "held needs reach h = shared_total needs reach caps B"
    using held_by_windows [OF needs pos window] reach by simp
  moreover have "holding needs reach caps h" using pos unread window range by (simp add: holding_def)
  ultimately show ?thesis by blast
qed

section \<open>The answer\<close>

lemma update_values: "e \<in> set (AList.update k v d) \<Longrightarrow> e = (k, v) \<or> e \<in> set d"
  by (induction d) (auto split: if_splits)

lemma group_caps_nonneg: "\<forall>s \<in> set gs. 0 \<le> snd s \<Longrightarrow> \<forall>s \<in> set (fold (merge_range caps) rs gs). 0 \<le> snd s"
proof (induction rs arbitrary: gs)
  case (Cons r rs)
  have "0 \<le> dict_get gs s 0" for s
    using Cons.prems by (auto simp: dict_get_def split: option.split dest!: map_of_SomeD)
  then have "\<forall>s \<in> set (merge_range caps r gs). 0 \<le> snd s"
    using Cons.prems by (auto simp: merge_range_def Let_def dest!: update_values)
  from Cons.IH [OF this] show ?case by simp
qed simp

lemma group_cap_nonneg: "j < length (groups_of caps rd) \<Longrightarrow> 0 \<le> group_cap (groups_of caps rd) j"
  using group_caps_nonneg [of "[]" caps rd] nth_mem [of j "sorted_items (groups_of caps rd)"]
  by (simp add: group_cap_def groups_of_def)

lemma window_needs_pos: "key \<in> set (window_keys needs) \<Longrightarrow> 0 < dict_get needs key 0"
  by (simp add: window_keys_def)

interpretation joint: two_layer "length (window_keys needs)" "length (groups_for needs reach caps)"
  "window_need needs (window_keys needs)" "group_cap (groups_for needs reach caps)"
  "reads_group (window_keys needs) (groups_for needs reach caps)" "unbounded_gib needs" for needs reach caps
proof
  show "0 \<le> window_need needs (window_keys needs) k" if "k < length (window_keys needs)" for k
    using window_needs_pos [of "window_keys needs ! k" needs] that by (simp add: window_need_def)
  show "(\<Sum>k<length (window_keys needs). window_need needs (window_keys needs) k) < unbounded_gib needs"
    by (simp add: unbounded_gib_def window_need_def sum_list_sum_nth atLeast0LessThan)
qed (rule group_cap_nonneg)

lemma groups_by_name:
  assumes "distinct (map fst needs)" "j < length (groups_for needs reach caps)"
  shows "dict_get (groups_for needs reach caps) (fst (sorted_items (groups_for needs reach caps) ! j)) 0 =
    group_cap (groups_for needs reach caps) j"
proof -
  let ?G = "groups_for needs reach caps"
  have "sorted_items ?G ! j \<in> set ?G" using assms(2) nth_mem [of j "sorted_items ?G"] by simp
  then have "map_of ?G (fst (sorted_items ?G ! j)) = Some (group_cap ?G j)"
    using groups_of_facts(1) [of "window_keys needs" caps reach] assms by (simp add: group_cap_def)
  then show ?thesis by (simp add: dict_get_def)
qed

lemma joint_flow:
  assumes "distinct (map fst needs)"
  shows "flow_state (2 + length (window_keys needs) + length (groups_for needs reach caps))
    (net_cap (length (window_keys needs)) (length (groups_for needs reach caps)) (window_need needs (window_keys needs))
      (group_cap (groups_for needs reach caps)) (reads_group (window_keys needs) (groups_for needs reach caps)) (unbounded_gib needs))
    0 (network_of needs (window_keys needs) (groups_for needs reach caps) (unbounded_gib needs))"
proof (rule network_of_flow)
  show "\<forall>s \<in> fst ` set (groups_for needs reach caps). distinct s \<and> set s \<subseteq> set (window_keys needs)"
    using group_signature [OF window_keys_facts(1,2) [OF assms]] by blast
  show "\<forall>s \<in> set (groups_for needs reach caps). 0 \<le> snd s"
    using group_caps_nonneg [of "[]"] by (simp add: groups_of_def)
  show "0 \<le> unbounded_gib needs" using joint.U_pos [of needs] by simp
qed (use assms in \<open>auto dest: window_needs_pos\<close>)

lemma network_shares:
  assumes needs: "distinct (map fst needs)"
  shows "\<exists>n. max_flow (unbounded_gib needs) 0
      (network_of needs (window_keys needs) (groups_for needs reach caps) (unbounded_gib needs)) = Some n \<and>
    (\<exists>B. window_shares needs reach caps B \<and> shared_total needs reach caps B = n) \<and>
    (\<forall>B. window_shares needs reach caps B \<longrightarrow> shared_total needs reach caps B \<le> n)"
proof -
  let ?keys = "window_keys needs" and ?G = "groups_for needs reach caps"
  let ?ss = "map fst (sorted_items ?G)" and ?m = "length (window_keys needs)" and ?g = "length (groups_for needs reach caps)"
  let ?shares = "shares ?m ?g (window_need needs ?keys) (group_cap ?G) (reads_group ?keys ?G)"
  have keys: "distinct ?keys" using needs by simp
  have ss: "distinct ?ss" "set ?ss = fst ` set ?G" "length ?ss = ?g"
    using groups_of_facts(1) [of ?keys caps reach] needs by simp_all
  from joint.max_shares [OF joint_flow [OF needs]]
  obtain n b where n: "max_flow (unbounded_gib needs) 0 (network_of needs ?keys ?G (unbounded_gib needs)) = Some n"
    "?shares b" "(\<Sum>k<?m. \<Sum>j<?g. b k j) = n" "\<And>b. ?shares b \<Longrightarrow> (\<Sum>k<?m. \<Sum>j<?g. b k j) \<le> n"
    by blast
  have named: "window_shares needs reach caps B \<longleftrightarrow> ?shares (\<lambda>k j. B (?keys ! k) (?ss ! j))" for B
    using shares_by_name [OF keys ss(1), of "\<lambda>w. dict_get needs w 0" "\<lambda>s. dict_get ?G s 0" "\<lambda>w s. w \<in> set s" B]
      groups_by_name [OF needs]
    unfolding ss(2) by (simp add: shares_def window_need_def reads_group_def)
  have named_total: "shared_total needs reach caps B = (\<Sum>k<?m. \<Sum>j<?g. B (?keys ! k) (?ss ! j))" for B
    using sum_nth [OF keys, of "\<lambda>w. \<Sum>s \<in> fst ` set ?G. B w s"] sum_nth [OF ss(1)] ss(2,3) by simp
  obtain B where B: "\<forall>k<?m. \<forall>j<?g. B (?keys ! k) (?ss ! j) = b k j"
    using name_shares [OF keys ss(1), of b] unfolding ss(3) .
  have "window_shares needs reach caps B" using n(2) B unfolding named by (simp add: shares_def)
  moreover have "shared_total needs reach caps B = n" using n(3) B unfolding named_total by simp
  ultimately show ?thesis using n(1,4) named named_total by metis
qed

text \<open>
  C25: \<open>joint_need_gib\<close> returns, and its answer is the most the windows can hold at once: some assignment of
  the GiB of the ranges to windows that reach them, within every need and every range, holds that much,
  and none holds more.
\<close>

theorem joint_need_gib_maximal:
  assumes "distinct (map fst needs)"
  shows "\<exists>n. joint_need_gib needs reach caps = Some n \<and>
    (\<exists>h. holding needs reach caps h \<and> held needs reach h = n) \<and>
    (\<forall>h. holding needs reach caps h \<longrightarrow> held needs reach h \<le> n)"
proof -
  have "\<exists>n. joint_need_gib needs reach caps = Some n \<and>
    (\<exists>B. window_shares needs reach caps B \<and> shared_total needs reach caps B = n) \<and>
    (\<forall>B. window_shares needs reach caps B \<longrightarrow> shared_total needs reach caps B \<le> n)"
  proof (cases "groups_for needs reach caps = []")
    case True
    then have "joint_need_gib needs reach caps = Some 0" by (simp add: joint_need_gib_def Let_def)
    moreover have "window_shares needs reach caps (\<lambda>_ _. 0)"
      using True by (auto simp: shares_on_def dest: window_needs_pos)
    ultimately show ?thesis using True by auto
  next
    case False
    with network_shares [OF assms, where reach = reach and caps = caps] show ?thesis by (simp add: joint_need_gib_def Let_def)
  qed
  with shares_of_holding [OF assms, where reach = reach and caps = caps] holding_of_shares [OF assms, where reach = reach and caps = caps] show ?thesis by metis
qed

definition sample_needs :: "(string, int) dict" where
  "sample_needs = [(''b'', 3), (''a'', 4), (''c'', 0)]"

definition sample_reach :: "(string, string list) dict" where
  "sample_reach = [(''a'', [''r1'', ''r2'']), (''b'', [''r2'', ''r3''])]"

definition sample_caps :: "(string, int) dict" where
  "sample_caps = [(''r1'', 1), (''r2'', 2), (''r3'', 2)]"

lemma sample_joint_need: "joint_need_gib sample_needs sample_reach sample_caps = Some 5"
  by code_simp

theorem joint_need_gib_maximal_witness:
  "distinct (map fst sample_needs) \<and>
   (\<exists>n. joint_need_gib sample_needs sample_reach sample_caps = Some n \<and>
     (\<exists>h. holding sample_needs sample_reach sample_caps h \<and> held sample_needs sample_reach h = n) \<and>
     (\<forall>h. holding sample_needs sample_reach sample_caps h \<longrightarrow> held sample_needs sample_reach h \<le> n))"
  using joint_need_gib_maximal [of sample_needs sample_reach sample_caps] by (simp add: sample_needs_def)

end
