(* ===== verification/Lifecycle_Facts.thy ===== *)
theory Lifecycle_Facts
  imports Endings
begin

text \<open>
  The pure half of a conclusion: which claim a record is (\<open>claim_identity.py\<close>), what a capture of an
  action's records says (\<open>classify_action\<close> of \<open>lifecycle.py\<close>), which destinations a transition may
  have, and the shape of a record that goes back to the queue.
\<close>

section \<open>Claim identity\<close>

definition claim_identity_fields :: "string list" where
  "claim_identity_fields = [''claimed_by'', ''claimed_unix'', ''published_unix'', ''attempts'']"

definition same_claim :: "obj \<Rightarrow> obj \<Rightarrow> bool" where
  "same_claim live snapshot \<longleftrightarrow> list_all (\<lambda>field. py_eq (get field live) (get field snapshot)) claim_identity_fields"

definition lease_fields :: "(string \<times> string) list" where
  "lease_fields = [(''claimed_by'', ''owner''), (''claimed_host'', ''host''),
     (''claimed_unix'', ''claimed_unix''), (''published_unix'', ''published_unix'')]"

definition lease_conflicts :: "obj \<Rightarrow> obj \<Rightarrow> string list" where
  "lease_conflicts claim lease =
     map fst (filter (\<lambda>(claim_field, lease_field).
       get claim_field claim \<noteq> JNull \<and> get lease_field lease \<noteq> JNull \<and>
       \<not> py_eq (get claim_field claim) (get lease_field lease)) lease_fields)"

definition check_lease_identity :: "obj \<Rightarrow> obj option \<Rightarrow> unit result" where
  "check_lease_identity claim lease =
     (case lease of
        None \<Rightarrow> Inr ()
      | Some l \<Rightarrow> if lease_conflicts claim l = [] then Inr () else Inl AmbiguousClaimHolder)"

section \<open>What a capture says\<close>

datatype capture = Not_Captured | Observed read_result

datatype claim_relation =
    Claim_Unobserved
  | Claim_Unknown
  | Claim_Absent
  | Claim_Held
  | Claim_Exact
  | Claim_Different

record record_fact =
  rf_kind :: string
  rf_record :: obj
  rf_path :: "string option"

record 'r action_capture =
  ac_publication :: capture
  ac_claim :: capture
  ac_lease :: capture
  ac_reservations :: "'r option"
  ac_terminals :: "observation list option"
  ac_artifacts :: "record_fact list"
  ac_expected_claim :: "obj option"

record 'r action_facts =
  af_records :: "record_fact list"
  af_claim :: claim_relation
  af_reservations :: "'r option"
  af_terminal :: "current option"
  af_unknown :: "string list"
  af_uncaptured :: "string list"

fun state_name :: "terminal_state \<Rightarrow> string" where
  "state_name Done = ''done''"
| "state_name Failed = ''failed''"
| "state_name Withdrawn = ''withdrawn''"

definition relation_to :: "capture \<Rightarrow> obj option \<Rightarrow> claim_relation" where
  "relation_to c expected =
     (case c of
        Not_Captured \<Rightarrow> Claim_Unobserved
      | Observed (Unknown _) \<Rightarrow> Claim_Unknown
      | Observed Absent \<Rightarrow> Claim_Absent
      | Observed (Present r) \<Rightarrow>
          (case expected of
             None \<Rightarrow> Claim_Held
           | Some e \<Rightarrow> if same_claim r e then Claim_Exact else Claim_Different))"

definition captured_kinds :: "'r action_capture \<Rightarrow> (string \<times> capture) list" where
  "captured_kinds c =
     [(''publication'', ac_publication c), (''claim'', ac_claim c), (''lease'', ac_lease c)]"

definition seen_records :: "(string \<times> capture) list \<Rightarrow> record_fact list" where
  "seen_records ks = concat (map (\<lambda>(kind, c). case c of
       Observed (Present r) \<Rightarrow> [\<lparr>rf_kind = kind, rf_record = r, rf_path = None\<rparr>] | _ \<Rightarrow> []) ks)"

definition seen_unknown :: "(string \<times> capture) list \<Rightarrow> string list" where
  "seen_unknown ks = map fst (filter (\<lambda>(_, c). case c of Observed (Unknown _) \<Rightarrow> True | _ \<Rightarrow> False) ks)"

definition seen_uncaptured :: "(string \<times> capture) list \<Rightarrow> string list" where
  "seen_uncaptured ks = map fst (filter (\<lambda>(_, c). c = Not_Captured) ks)"

definition terminal_records :: "observation list \<Rightarrow> record_fact list" where
  "terminal_records cs = concat (map (\<lambda>ob. case obs_result ob of
       Present r \<Rightarrow> [\<lparr>rf_kind = state_name (address_state ob), rf_record = r, rf_path = Some (address_path ob)\<rparr>]
     | _ \<Rightarrow> []) cs)"

definition classify_action :: "'r action_capture \<Rightarrow> 'r action_facts" where
  "classify_action c =
     (let ks = captured_kinds c;
          terminals = (case ac_terminals c of None \<Rightarrow> [] | Some cs \<Rightarrow> cs) in
      \<lparr>af_records = ac_artifacts c @ seen_records ks @ terminal_records terminals,
       af_claim = relation_to (ac_claim c) (ac_expected_claim c),
       af_reservations = ac_reservations c,
       af_terminal = map_option resolve_current (ac_terminals c),
       af_unknown = seen_unknown ks @ map (\<lambda>(s, _, _). state_name s) (unreadable_entries terminals),
       af_uncaptured = seen_uncaptured ks
         @ (if ac_terminals c = None then [''terminals''] else [])
         @ (if ac_reservations c = None then [''reservations''] else [])\<rparr>)"

definition for_generation :: "'r action_facts \<Rightarrow> json \<Rightarrow> record_fact list" where
  "for_generation facts gen = filter (\<lambda>f. py_eq (get ''published_unix'' (rf_record f)) gen) (af_records facts)"

section \<open>Transitions\<close>

datatype transition_kind =
    FINISH | EXPIRE | RELEASE_UNSTARTED | CANCEL | LATE | ADOPT_TERMINAL | RESTORE_TOMBSTONE
  | RETIRE_TOMBSTONE | QUARANTINE | DEFER | RETIRE_READY_CAPTURE | RESTORE_READY_CAPTURE
  | RETIRE_LEASE | RECLAIM_RESERVATION

fun legal_destinations :: "transition_kind \<Rightarrow> string list" where
  "legal_destinations FINISH = [''done'', ''failed'', ''ready'']"
| "legal_destinations EXPIRE = [''done'', ''failed'', ''ready'']"
| "legal_destinations RELEASE_UNSTARTED = [''ready'']"
| "legal_destinations CANCEL = [''withdrawn'']"
| "legal_destinations LATE = [''attempt'', ''evidence'']"
| "legal_destinations ADOPT_TERMINAL = [''existing'']"
| "legal_destinations RESTORE_TOMBSTONE = [''claimed'']"
| "legal_destinations RETIRE_TOMBSTONE = [''evidence'']"
| "legal_destinations QUARANTINE = [''failed'', ''existing'']"
| "legal_destinations DEFER = [''ready'']"
| "legal_destinations RETIRE_READY_CAPTURE = [''evidence'']"
| "legal_destinations RESTORE_READY_CAPTURE = [''ready'']"
| "legal_destinations RETIRE_LEASE = [''existing'']"
| "legal_destinations RECLAIM_RESERVATION = [''existing'']"

definition legal_destination :: "transition_kind \<Rightarrow> string \<Rightarrow> unit result" where
  "legal_destination t d = (if d \<in> set (legal_destinations t) then Inr () else Inl PoolContractError)"

section \<open>Back to the queue\<close>

text \<open>\<open>d.pop(k, None)\<close>.\<close>

definition drop_key :: "string \<Rightarrow> obj \<Rightarrow> obj" where
  "drop_key k d = filter (\<lambda>(l, _). l \<noteq> k) d"

lemma get_drop_key [simp]: "get k (drop_key l d) = (if k = l then JNull else get k d)"
  by (induction d) (auto simp: get_def dict_get_def drop_key_def)

lemma has_key_drop_key [simp]: "has_key k (drop_key l d) \<longleftrightarrow> k \<noteq> l \<and> has_key k d"
  by (induction d) (auto simp: has_key_def drop_key_def)

definition pool_item_schema :: string where
  "pool_item_schema = ''prismaquant.prismabuild.pool_item.v1''"

definition claim_scoped_fields :: "string list" where
  "claim_scoped_fields =
     [''cpu_guest'', ''gang_backfill'', ''gang_backfill_release'', ''gang_backfill_preemption'',
      ''claimed_by'', ''claimed_unix'', ''claimed_host'', ''reserved_on'', ''passes'', ''gpu_admission'',
      ''cpu_allocation'', ''tier_reservations'', ''tier_funding'', ''residency_verdict'',
      ''container_cleanup_pending'', ''container_cleanup_checked_unix'',
      ''container_cleanup_attempts'', ''container_cleanup_first_failed_unix'',
      ''stop_pending'', ''resource_scope'', ''resource_scope_cleanup'',
      ''finish_pending'', ''resource_scope_intent'', ''cleanup_obligation'', ''scratch_declaration_record'',
      ''scratch_lifetime_record'', ''local_scratch_io_placement'']"

definition shape_as_ready_item :: "json \<Rightarrow> string \<Rightarrow> obj \<Rightarrow> obj" where
  "shape_as_ready_item now action_key r =
     fold drop_key claim_scoped_fields
       (put ''requeued_unix'' now (put ''action_key'' (JStr action_key) (put ''schema'' (JStr pool_item_schema) r)))"

lemma get_fold_drop: "get k (fold drop_key ks d) = (if k \<in> set ks then JNull else get k d)"
  by (induction ks arbitrary: d) auto

lemma same_claim_fields:
  "same_claim a b \<longleftrightarrow> py_eq (get ''claimed_by'' a) (get ''claimed_by'' b) \<and>
     py_eq (get ''claimed_unix'' a) (get ''claimed_unix'' b) \<and>
     py_eq (get ''published_unix'' a) (get ''published_unix'' b) \<and>
     py_eq (get ''attempts'' a) (get ''attempts'' b)"
  by (simp add: same_claim_def claim_identity_fields_def)

lemma shape_keeps:
  "k \<notin> set claim_scoped_fields \<Longrightarrow> k \<noteq> ''requeued_unix'' \<Longrightarrow> k \<noteq> ''action_key'' \<Longrightarrow> k \<noteq> ''schema'' \<Longrightarrow>
   get k (shape_as_ready_item now key r) = get k r"
  by (simp add: shape_as_ready_item_def get_fold_drop)

lemma shape_published [simp]: "get ''published_unix'' (shape_as_ready_item now key r) = get ''published_unix'' r"
  by (rule shape_keeps) (simp_all add: claim_scoped_fields_def)

end
