(* ===== verification/Lifecycle_Commit.thy ===== *)
theory Lifecycle_Commit
  imports Lifecycle_Facts
begin

text \<open>
  The files of one action key and the commit of a conclusion (\<open>_commit_claim\<close> and
  \<open>_publish_claim_destination\<close> of \<open>lifecycle.py\<close>, \<open>_entomb_claim\<close> and \<open>_publish_requeued_claim\<close> of \<open>pool.py\<close>)
  as a sequence of file-system calls: \<open>advance\<close> performs the next one, \<open>commit_claim\<close> runs them to the end.
  Any call may fail; between two calls other processes may act, and a process may stop after any of them.
\<close>

section \<open>The files of a key\<close>

text \<open>
  A state directory has one slot per key. \<open>f_marks\<close> are the finish tombstones under \<open>claimed/\<close> by their unique
  names, \<open>f_evidence\<close> the records under \<open>withdrawn/superseded/\<close> with their kind, newest first (a path there is
  the number of records filed before it), \<open>f_publication_endings\<close> the
  immutable decisions that a publication was superseded, \<open>f_hosts\<close> the ledgers that hold committed tokens
  of the key and \<open>f_tier\<close> whether a tier ledger does.
\<close>

record action_files =
  f_ready :: "obj option"
  f_claimed :: "obj option"
  f_done :: "obj option"
  f_failed :: "obj option"
  f_withdrawn :: "obj option"
  f_lease :: "obj option"
  f_marks :: "(string, obj) dict"
  f_publication_endings :: "(rat, obj) dict"
  f_evidence :: "(string \<times> obj) list"
  f_hosts :: "string list"
  f_tier :: bool

definition no_files :: action_files where
  "no_files = \<lparr>f_ready = None, f_claimed = None, f_done = None, f_failed = None, f_withdrawn = None,
     f_lease = None, f_marks = [], f_publication_endings = [], f_evidence = [], f_hosts = [], f_tier = False\<rparr>"

definition drop_mark :: "string \<Rightarrow> action_files \<Rightarrow> action_files" where
  "drop_mark m s = s\<lparr>f_marks := filter (\<lambda>(n, _). n \<noteq> m) (f_marks s)\<rparr>"

definition file_superseded :: "string \<Rightarrow> obj \<Rightarrow> action_files \<Rightarrow> action_files" where
  "file_superseded kind r s = s\<lparr>f_evidence := (kind, r) # f_evidence s\<rparr>"

section \<open>Plans\<close>

text \<open>
  \<open>ClaimCommit\<close>, \<open>CancelledClaim\<close> and \<open>CancellationRelease\<close>. \<open>p_pins\<close> is the answer of
  \<open>pin_holds_tier_tokens\<close>, \<open>p_stopped\<close> the adopted outcome's \<open>output_retry_stopped\<close>, \<open>p_retains\<close> whether the
  census of output intents keeps the tier tokens, \<open>p_release_only\<close> tells a \<open>CancellationRelease\<close> apart.
\<close>

record plan =
  p_transition :: transition_kind
  p_record :: obj
  p_original :: obj
  p_holder :: "string option"
  p_disposition :: string
  p_pins :: bool
  p_stopped :: bool
  p_retains :: bool
  p_release_only :: bool

datatype home = Ready_Item | Done_Record | Failed_Record | Withdrawn_Record | Attempt_Record | Evidence_Record

definition terminal_disposition :: "plan \<Rightarrow> bool" where
  "terminal_disposition p \<longleftrightarrow> p_disposition p = ''done'' \<or> p_disposition p = ''failed''"

definition target_of :: "plan \<Rightarrow> string" where
  "target_of p =
     (if p_transition p = CANCEL then ''withdrawn''
      else if p_disposition p \<in> {''done'', ''failed'', ''withdrawn''} then p_disposition p else ''ready'')"

text \<open>What the caller is told when the claim was not its own to conclude.\<close>

definition skipped :: "plan \<Rightarrow> home option" where
  "skipped p =
     (if p_transition p = CANCEL then Some Withdrawn_Record
      else if p_transition p = FINISH then Some Attempt_Record else None)"

definition guarded_publication :: "plan \<Rightarrow> bool" where
  "guarded_publication p \<longleftrightarrow> p_transition p = FINISH \<or> p_transition p = EXPIRE \<and> terminal_disposition p"

definition keep_tier :: "plan \<Rightarrow> bool" where
  "keep_tier p =
     (if p_transition p = FINISH then p_pins p
      else if p_transition p = EXPIRE then p_stopped p \<and> p_pins p
      else False)"

definition release_host :: "string \<Rightarrow> plan \<Rightarrow> string option" where
  "release_host me p =
     (if p_transition p \<in> {EXPIRE, RELEASE_UNSTARTED} \<or> p_release_only p
      then Some (case p_holder p of Some h \<Rightarrow> h | None \<Rightarrow> me) else p_holder p)"

definition release_reservation :: "string option \<Rightarrow> bool \<Rightarrow> bool \<Rightarrow> action_files \<Rightarrow> action_files" where
  "release_reservation host keep retains s =
     s\<lparr>f_hosts := (case host of None \<Rightarrow> f_hosts s | Some h \<Rightarrow> filter (\<lambda>g. g \<noteq> h) (f_hosts s)),
       f_tier := (if keep \<or> retains then f_tier s else False)\<rparr>"

section \<open>Publishing the next home\<close>

text \<open>
  \<open>_successor_generation\<close>: \<open>usable\<close> is the verdict of \<open>_validated_ready_generation\<close> on the item's schema, fields
  and demand.
\<close>

definition successor_generation :: "(obj \<Rightarrow> bool) \<Rightarrow> obj \<Rightarrow> obj \<Rightarrow> pyfloat result" where
  "successor_generation usable original succ =
     (if \<not> is_number (get ''published_unix'' succ) then Inl PoolContractError
      else case py_float (get ''published_unix'' succ) of
        Inl e \<Rightarrow> Inl PoolContractError
      | Inr g \<Rightarrow>
          if \<not> finite_float g \<or> \<not> usable succ then Inl PoolContractError
          else case py_float (get ''published_unix'' original) of
            Inl e \<Rightarrow> Inl e
          | Inr g' \<Rightarrow> if float_less g g' then Inl PoolContractError else Inr g)"

definition publication_ending :: "action_files \<Rightarrow> json \<Rightarrow> obj option" where
  "publication_ending s gen = Option.bind (publication_generation gen) (map_of (f_publication_endings s))"

text \<open>
  What the file system does to a call: it succeeds, fails without effect, or, where a call files two records,
  fails after the first.
\<close>

datatype fault = Clean | Fails error | Fails_Late error

fun fails :: "fault \<Rightarrow> error option" where
  "fails Clean = None"
| "fails (Fails e) = Some e"
| "fails (Fails_Late e) = None"

fun fails_late :: "fault \<Rightarrow> error option" where
  "fails_late (Fails_Late e) = Some e"
| "fails_late _ = None"

definition drop_requeue :: "string \<Rightarrow> fault \<Rightarrow> obj \<Rightarrow> action_files \<Rightarrow> home result \<times> action_files" where
  "drop_requeue kind flt r s =
     (case fails_late flt of
        Some e \<Rightarrow> (Inl e, s)
      | None \<Rightarrow> (Inr Evidence_Record, file_superseded kind (put ''status'' (JStr ''dropped'') r) s))"

text \<open>\<open>_publish_requeued_claim\<close>: the link to \<open>ready\<close> never replaces a row that is there.\<close>

definition publish_requeued_claim ::
  "(obj \<Rightarrow> bool) \<Rightarrow> string \<Rightarrow> fault \<Rightarrow> obj \<Rightarrow> action_files \<Rightarrow> home result \<times> action_files" where
  "publish_requeued_claim usable kind flt r s =
     (case fails flt of
        Some e \<Rightarrow> (Inl e, s)
      | None \<Rightarrow>
          if publication_ending s (get ''published_unix'' r) \<noteq> None then drop_requeue kind flt r s
          else case f_ready s of
            None \<Rightarrow> (Inr Ready_Item, s\<lparr>f_ready := Some r\<rparr>)
          | Some succ \<Rightarrow>
              (case successor_generation usable r succ of
                 Inl e \<Rightarrow> (Inl e, s)
               | Inr g \<Rightarrow>
                   if py_eq (JFloat g) (get ''published_unix'' r) then (Inr Ready_Item, s)
                   else (case publication_generation (get ''published_unix'' r) of
                      None \<Rightarrow> (Inl PoolContractError, s)
                    | Some q \<Rightarrow>
                        drop_requeue kind flt r (s\<lparr>f_publication_endings := (q, succ) # f_publication_endings s\<rparr>))))"

definition requeue_kind :: "transition_kind \<Rightarrow> string" where
  "requeue_kind t =
     (if t = RELEASE_UNSTARTED then ''unstarted-requeue''
      else if t = DEFER then ''maintenance-deferred'' else ''retry-superseded'')"

text \<open>\<open>_archive_earlier_terminal\<close>: the other state's record of another generation, and its summary.\<close>

definition other_terminal :: "string \<Rightarrow> action_files \<Rightarrow> obj option" where
  "other_terminal disposition s = (if disposition = ''done'' then f_failed s else f_done s)"

definition terminal_summary :: "string \<Rightarrow> obj \<Rightarrow> json \<Rightarrow> obj" where
  "terminal_summary disposition prior path =
     (''state'', JStr (if disposition = ''done'' then ''failed'' else ''done'')) #
     concat (map (\<lambda>field. if has_key field prior then [(field, get field prior)] else [])
       [''status'', ''published_unix'', ''published_by'', ''finished_unix'', ''finished_host'', ''attempts'', ''attempt_history''])
     @ [(''superseded_path'', path)]"

definition archive_earlier_terminal :: "fault \<Rightarrow> plan \<Rightarrow> action_files \<Rightarrow> obj option \<times> action_files" where
  "archive_earlier_terminal flt p s =
     (case other_terminal (p_disposition p) s of
        None \<Rightarrow> (None, s)
      | Some prior \<Rightarrow>
          if flt \<noteq> Clean \<or> py_eq (get ''published_unix'' prior) (get ''published_unix'' (p_record p)) then (None, s)
          else (Some (terminal_summary (p_disposition p) prior (JInt (int (length (f_evidence s))))),
            file_superseded ((if p_disposition p = ''done'' then ''failed'' else ''done'') @ ''-terminal'')
              (put ''superseded_by_state'' (JStr (p_disposition p))
                (put ''superseded_by_published_unix'' (get ''published_unix'' (p_record p)) prior)) s))"

definition file_terminal :: "plan \<Rightarrow> obj \<Rightarrow> action_files \<Rightarrow> action_files" where
  "file_terminal p r s =
     (if p_disposition p = ''done'' then s\<lparr>f_done := Some r\<rparr> else s\<lparr>f_failed := Some r\<rparr>)"

definition retire_terminal :: "plan \<Rightarrow> action_files \<Rightarrow> action_files" where
  "retire_terminal p s =
     (if p_disposition p = ''done'' then s\<lparr>f_failed := None\<rparr> else s\<lparr>f_done := None\<rparr>)"

definition terminal_home :: "plan \<Rightarrow> home" where
  "terminal_home p = (if p_disposition p = ''done'' then Done_Record else Failed_Record)"

section \<open>The calls of a commit\<close>

text \<open>
  Where a committing process stands: the plan and the name of the mark it made. \<open>Ended\<close> carries what the
  caller gets, or the exception. The last three are the recovery sweep's (\<open>_sweep_finish_tombstones\<close>) on
  one mark, with its reading of what else the key has.
\<close>

datatype pc =
    Entomb plan
  | Judge plan string
  | Link_Back plan string
  | Put_Back plan string
  | Identify plan string
  | Unlease plan string
  | Return_Tokens plan string
  | Own plan string
  | Archive_Earlier plan string
  | Publish plan string "obj option"
  | Restore plan string
  | Restored string
  | Retire plan string
  | Unmark string home
  | Ended "home option result"

definition restores_on_error :: "plan \<Rightarrow> bool" where
  "restores_on_error p \<longleftrightarrow> p_transition p = EXPIRE \<or> p_transition p = RELEASE_UNSTARTED"

definition publish_failed :: "plan \<Rightarrow> string \<Rightarrow> error \<Rightarrow> pc" where
  "publish_failed p m e = (if restores_on_error p then Restore p m else Ended (Inl e))"

definition deferred_record :: "json \<Rightarrow> string \<Rightarrow> plan \<Rightarrow> obj" where
  "deferred_record now key p =
     (if p_transition p = DEFER
      then put ''maintenance_deferred_unix'' now (shape_as_ready_item now key (p_record p)) else p_record p)"

definition with_supersedes :: "obj option \<Rightarrow> obj \<Rightarrow> obj" where
  "with_supersedes retired r = (case retired of None \<Rightarrow> r | Some summary \<Rightarrow> put ''supersedes_terminal'' (JObj summary) r)"

definition publish_destination ::
  "(obj \<Rightarrow> bool) \<Rightarrow> json \<Rightarrow> string \<Rightarrow> fault \<Rightarrow> plan \<Rightarrow> string \<Rightarrow> obj option \<Rightarrow> action_files \<Rightarrow> pc \<times> action_files" where
  "publish_destination usable now key flt p m retired s =
     (if terminal_disposition p then
        (case fails flt of
           Some e \<Rightarrow> (publish_failed p m e, s)
         | None \<Rightarrow> (if retired = None then Unmark m (terminal_home p) else Retire p m,
             file_terminal p (with_supersedes retired (p_record p)) s))
      else case publish_requeued_claim usable (requeue_kind (p_transition p)) flt (deferred_record now key p) s of
        (Inl e, s') \<Rightarrow> (publish_failed p m e, s')
      | (Inr h, s') \<Rightarrow> (Unmark m h, s'))"

definition entomb ::
  "string \<Rightarrow> fault \<Rightarrow> plan \<Rightarrow> action_files \<Rightarrow> pc \<times> action_files" where
  "entomb name flt p s =
     (if legal_destination (p_transition p) (target_of p) \<noteq> Inr () then (Ended (Inl PoolContractError), s)
      else case f_claimed s of
        None \<Rightarrow> (Ended (Inr (skipped p)), s)
      | Some d \<Rightarrow>
          if fails flt \<noteq> None then (Ended (Inr (skipped p)), s)
          else (Judge p name, s\<lparr>f_claimed := None, f_marks := (name, d) # f_marks s\<rparr>))"

definition judge :: "fault \<Rightarrow> plan \<Rightarrow> string \<Rightarrow> action_files \<Rightarrow> pc" where
  "judge flt p m s =
     (case fails flt of
        Some e \<Rightarrow> Ended (Inl e)
      | None \<Rightarrow>
          (case map_of (f_marks s) m of
             Some d \<Rightarrow> if same_claim d (p_original p)
               then (if guarded_publication p then Identify p m else Unlease p m) else Link_Back p m
           | None \<Rightarrow> if guarded_publication p then Identify p m else Unlease p m))"

text \<open>\<open>os.link(tombstone, claimed)\<close>: never over a claim, never from a mark that is gone.\<close>

definition link_claimed :: "fault \<Rightarrow> string \<Rightarrow> pc \<Rightarrow> pc \<Rightarrow> action_files \<Rightarrow> pc \<times> action_files" where
  "link_claimed flt m linked refused s =
     (case (fails flt, f_claimed s, map_of (f_marks s) m) of
        (None, None, Some d) \<Rightarrow> (linked, s\<lparr>f_claimed := Some d\<rparr>)
      | _ \<Rightarrow> (refused, s))"

definition after_tokens :: "plan \<Rightarrow> string \<Rightarrow> pc" where
  "after_tokens p m =
     (if p_transition p = CANCEL then Unmark m Withdrawn_Record
      else if guarded_publication p then Own p m else Archive_Earlier p m)"

fun advance ::
  "(obj \<Rightarrow> bool) \<Rightarrow> string \<Rightarrow> json \<Rightarrow> string \<Rightarrow> string \<Rightarrow> fault \<Rightarrow> pc \<Rightarrow> action_files \<Rightarrow> pc \<times> action_files" where
  "advance usable me now key name flt (Entomb p) s = entomb name flt p s"
| "advance usable me now key name flt (Judge p m) s = (judge flt p m s, s)"
| "advance usable me now key name flt (Link_Back p m) s =
     link_claimed flt m (Put_Back p m) (Ended (Inr (skipped p))) s"
| "advance usable me now key name flt (Put_Back p m) s =
     (case fails flt of Some e \<Rightarrow> (Ended (Inl e), s) | None \<Rightarrow> (Ended (Inr (skipped p)), drop_mark m s))"
| "advance usable me now key name flt (Identify p m) s =
     (if fails flt \<noteq> None \<or> map_of (f_marks s) m = None then (Ended (Inr (skipped p)), s) else (Unlease p m, s))"
| "advance usable me now key name flt (Unlease p m) s =
     (case fails flt of Some e \<Rightarrow> (Ended (Inl e), s) | None \<Rightarrow> (Return_Tokens p m, s\<lparr>f_lease := None\<rparr>))"
| "advance usable me now key name flt (Return_Tokens p m) s =
     (case fails flt of
        Some e \<Rightarrow> (Ended (Inl e), s)
      | None \<Rightarrow> (after_tokens p m, release_reservation (release_host me p) (keep_tier p) (p_retains p) s))"
| "advance usable me now key name flt (Own p m) s =
     (if fails flt \<noteq> None \<or> map_of (f_marks s) m = None then (Ended (Inr (skipped p)), s) else (Archive_Earlier p m, s))"
| "advance usable me now key name flt (Archive_Earlier p m) s =
     (if p_transition p \<in> {FINISH, EXPIRE} \<and> terminal_disposition p
      then (case archive_earlier_terminal flt p s of (retired, s') \<Rightarrow> (Publish p m retired, s'))
      else (Publish p m None, s))"
| "advance usable me now key name flt (Publish p m retired) s = publish_destination usable now key flt p m retired s"
| "advance usable me now key name flt (Restore p m) s = link_claimed flt m (Restored m) (Ended (Inr None)) s"
| "advance usable me now key name flt (Restored m) s =
     (case fails flt of Some e \<Rightarrow> (Ended (Inl e), s) | None \<Rightarrow> (Ended (Inr None), drop_mark m s))"
| "advance usable me now key name flt (Retire p m) s =
     (case fails flt of Some e \<Rightarrow> (Ended (Inl e), s) | None \<Rightarrow> (Unmark m (terminal_home p), retire_terminal p s))"
| "advance usable me now key name flt (Unmark m h) s =
     (case fails flt of Some e \<Rightarrow> (Ended (Inl e), s) | None \<Rightarrow> (Ended (Inr (Some h)), drop_mark m s))"
| "advance usable me now key name flt (Ended r) s = (Ended r, s)"

text \<open>Every call brings the end nearer.\<close>

fun calls_left :: "pc \<Rightarrow> nat" where
  "calls_left (Entomb p) = 13"
| "calls_left (Judge p m) = 12"
| "calls_left (Link_Back p m) = 11"
| "calls_left (Put_Back p m) = 10"
| "calls_left (Identify p m) = 9"
| "calls_left (Unlease p m) = 8"
| "calls_left (Return_Tokens p m) = 7"
| "calls_left (Own p m) = 6"
| "calls_left (Archive_Earlier p m) = 5"
| "calls_left (Publish p m retired) = 4"
| "calls_left (Restore p m) = 3"
| "calls_left (Restored m) = 2"
| "calls_left (Retire p m) = 2"
| "calls_left (Unmark m h) = 1"
| "calls_left (Ended r) = 0"

lemmas call_defs = entomb_def judge_def link_claimed_def after_tokens_def publish_destination_def publish_failed_def

lemma advance_nearer:
  "calls_left c \<noteq> 0 \<Longrightarrow> calls_left (fst (advance usable me now key name flt c s)) < calls_left c"
  by (cases c) (auto simp: call_defs split: option.splits sum.splits prod.splits if_splits)

text \<open>One process alone: \<open>flt n\<close> is what happens to the call with \<open>n\<close> calls left.\<close>

function run ::
  "(obj \<Rightarrow> bool) \<Rightarrow> string \<Rightarrow> json \<Rightarrow> string \<Rightarrow> string \<Rightarrow> (nat \<Rightarrow> fault) \<Rightarrow> pc \<Rightarrow> action_files
   \<Rightarrow> home option result \<times> action_files" where
  "run usable me now key name flt c s =
     (case c of
        Ended r \<Rightarrow> (r, s)
      | _ \<Rightarrow> (case advance usable me now key name (flt (calls_left c)) c s of
          (c', s') \<Rightarrow> run usable me now key name flt c' s'))"
  by pat_completeness auto
termination
proof (relation "measure (\<lambda>(_, _, _, _, _, _, c, _). calls_left c)", goal_cases)
  case 1
  show ?case by simp
qed (use advance_nearer in \<open>metis (no_types, lifting) calls_left.simps fst_conv in_measure case_prod_conv zero_neq_numeral zero_neq_one\<close>)+

declare run.simps [simp del]

lemma run_Ended [simp]: "run usable me now key name flt (Ended r) s = (r, s)"
  by (simp add: run.simps)

lemma run_step:
  "calls_left c \<noteq> 0 \<Longrightarrow> run usable me now key name flt c s =
     (case advance usable me now key name (flt (calls_left c)) c s of (c', s') \<Rightarrow> run usable me now key name flt c' s')"
  by (subst run.simps) (simp split: pc.split)

definition commit_claim ::
  "(obj \<Rightarrow> bool) \<Rightarrow> string \<Rightarrow> json \<Rightarrow> string \<Rightarrow> string \<Rightarrow> (nat \<Rightarrow> fault) \<Rightarrow> plan \<Rightarrow> action_files
   \<Rightarrow> home option result \<times> action_files" where
  "commit_claim usable me now key name flt p s = run usable me now key name flt (Entomb p) s"

end
