(* ===== verification/Lifecycle_Sweep.thy ===== *)
theory Lifecycle_Sweep
  imports Lifecycle_Commit
begin

text \<open>
  The recovery of a conclusion whose process died with the claim moved aside
  (\<open>_sweep_finish_tombstones\<close> of \<open>lifecycle.py\<close>), on one finish mark: what else the key has decides whether the
  claim is put back, the mark is filed as evidence, or it is left for the next sweep. The sweep holds the
  key's transition lock; like a commit it is a sequence of calls.
\<close>

section \<open>Endings of the same generation\<close>

definition same_stamp :: "json \<Rightarrow> json \<Rightarrow> bool result" where
  "same_stamp mine theirs =
     (if numeric theirs = None then Inr False
      else case (py_float mine, py_float theirs) of
        (Inr a, Inr b) \<Rightarrow> Inr (float_eq a b)
      | (Inl e, _) \<Rightarrow> Inl e
      | (_, Inl e) \<Rightarrow> Inl e)"

fun covering :: "json \<Rightarrow> (string \<times> obj option) list \<Rightarrow> (string \<times> obj) option result" where
  "covering mine [] = Inr None"
| "covering mine ((state, None) # slots) = covering mine slots"
| "covering mine ((state, Some outcome) # slots) =
     (case same_stamp mine (get ''published_unix'' outcome) of
        Inl e \<Rightarrow> Inl e
      | Inr True \<Rightarrow> Inr (Some (state, outcome))
      | Inr False \<Rightarrow> covering mine slots)"

definition terminal_outcome_covers :: "obj option \<Rightarrow> action_files \<Rightarrow> (string \<times> obj) option result" where
  "terminal_outcome_covers r s =
     (case r of
        None \<Rightarrow> Inr None
      | Some d \<Rightarrow>
          if numeric (get ''published_unix'' d) = None then Inr None
          else covering (get ''published_unix'' d) [(''done'', f_done s), (''failed'', f_failed s)])"

section \<open>What the sweep decides\<close>

text \<open>
  The answers of the reads below: whether a withdrawal covers the record, whether the generation has archived
  outcomes, whether the record's attempt links verify, whether container cleanup is complete, whether the
  filed ending pins tier tokens, and the filed ending's verified attempt: whether they agree, and its disposition.
\<close>

datatype link_check = Links_Verified | Links_Broken | Links_Unavailable

record sweep_reads =
  sr_withdrawn :: "bool result"
  sr_archived :: "bool result"
  sr_links :: link_check
  sr_cleanup :: bool
  sr_pins :: bool
  sr_verified :: bool
  sr_disposition :: string

text \<open>
  \<open>File_Evidence\<close> carries the filed ending whose history is still to be retired and the newer publication to
  record.
\<close>

datatype sweep_verdict =
    Leave
  | Put_Back_Claim
  | File_Evidence "obj option" "obj option"

definition successor_of :: "(obj \<Rightarrow> bool) \<Rightarrow> sweep_reads \<Rightarrow> obj \<Rightarrow> obj \<Rightarrow> (bool \<times> obj option) result" where
  "successor_of usable rd r candidate =
     (case sr_archived rd of
        Inl e \<Rightarrow> Inl e
      | Inr True \<Rightarrow> Inr (True, None)
      | Inr False \<Rightarrow>
          (case (successor_generation usable r candidate, py_float (get ''published_unix'' r)) of
             (Inr g, Inr g') \<Rightarrow> Inr (False, if float_less g' g then Some candidate else None)
           | (Inl e, _) \<Rightarrow> Inl e
           | (_, Inl e) \<Rightarrow> Inl e))"

text \<open>Whether the generation has ended, and the newer publication that takes its place.\<close>

definition covered_by ::
  "(obj \<Rightarrow> bool) \<Rightarrow> sweep_reads \<Rightarrow> obj option \<Rightarrow> action_files \<Rightarrow> (bool \<times> obj option) result" where
  "covered_by usable rd r s =
     (case (terminal_outcome_covers r s, sr_withdrawn rd) of
        (Inl e, _) \<Rightarrow> Inl e
      | (Inr t, Inl e) \<Rightarrow> if t \<noteq> None then Inr (True, None) else Inl e
      | (Inr t, Inr w) \<Rightarrow>
          (case r of
             None \<Rightarrow> Inr (t \<noteq> None \<or> w, None)
           | Some d \<Rightarrow>
               let covered = t \<noteq> None \<or> w \<or> is_number (get ''published_unix'' d) \<and> publication_ending s (get ''published_unix'' d) \<noteq> None in
               case f_ready s of
                 Some candidate \<Rightarrow>
                   if is_number (get ''published_unix'' d) \<and> \<not> covered \<and> f_claimed s = None
                   then successor_of usable rd d candidate else Inr (covered, None)
               | None \<Rightarrow> Inr (covered, None)))"

definition ending_of :: "obj option \<Rightarrow> bool \<Rightarrow> action_files \<Rightarrow> obj option" where
  "ending_of r live s =
     (if live then None else case terminal_outcome_covers r s of Inr (Some (_, outcome)) \<Rightarrow> Some outcome | _ \<Rightarrow> None)"

definition survey :: "(obj \<Rightarrow> bool) \<Rightarrow> sweep_reads \<Rightarrow> string \<Rightarrow> action_files \<Rightarrow> sweep_verdict" where
  "survey usable rd m s =
     (let r = map_of (f_marks s) m; live = f_ready s \<noteq> None \<or> f_claimed s \<noteq> None in
      case covered_by usable rd r s of
        Inl e \<Rightarrow> Leave
      | Inr (covered, succ) \<Rightarrow>
          if r \<noteq> None \<and> \<not> live \<and> \<not> covered
          then (if has_key ''attempt_history'' (the r)
                then (case sr_links rd of
                   Links_Verified \<Rightarrow> Put_Back_Claim
                 | Links_Broken \<Rightarrow> File_Evidence (ending_of r live s) succ
                 | Links_Unavailable \<Rightarrow> Leave)
                else Put_Back_Claim)
          else File_Evidence (ending_of r live s) succ)"

section \<open>The calls of the sweep\<close>

text \<open>
  Retiring what the filed ending superseded (\<open>_retire_recorded_terminal\<close>): only the other state's record, of an
  earlier generation, whose archived copy, at the path the ending names, carries every field of it. \<open>None\<close> is a record retained.
\<close>

definition slot_of :: "string \<Rightarrow> action_files \<Rightarrow> obj option" where
  "slot_of state s = (if state = ''done'' then f_done s else if state = ''failed'' then f_failed s else None)"

definition empty_slot :: "string \<Rightarrow> action_files \<Rightarrow> action_files" where
  "empty_slot state s =
     (if state = ''done'' then s\<lparr>f_done := None\<rparr> else if state = ''failed'' then s\<lparr>f_failed := None\<rparr> else s)"

definition archive_matches :: "string \<Rightarrow> obj \<Rightarrow> obj \<Rightarrow> obj \<Rightarrow> obj \<Rightarrow> bool" where
  "archive_matches disposition outcome summary prior archived \<longleftrightarrow>
     get ''action_key'' archived = get ''action_key'' outcome \<and>
     py_eq (get ''superseded_by_published_unix'' archived) (get ''published_unix'' outcome) \<and>
     get ''superseded_by_state'' archived = JStr disposition \<and>
     (\<forall>field \<in> fst ` set prior. has_key field archived \<and> py_eq (get field archived) (get field prior)) \<and>
     (\<forall>field \<in> fst ` set summary. field \<noteq> ''state'' \<and> field \<noteq> ''superseded_path'' \<longrightarrow>
        py_eq (get field archived) (get field summary))"

definition archived_at :: "json \<Rightarrow> action_files \<Rightarrow> obj option" where
  "archived_at path s =
     (case path of
        JInt i \<Rightarrow> if 0 \<le> i \<and> nat i < length (f_evidence s) then Some (snd (rev (f_evidence s) ! nat i)) else None
      | _ \<Rightarrow> None)"

definition retire_recorded_terminal :: "bool \<Rightarrow> string \<Rightarrow> obj \<Rightarrow> action_files \<Rightarrow> action_files option" where
  "retire_recorded_terminal verified disposition outcome s =
     (case get ''supersedes_terminal'' outcome of
        JObj summary \<Rightarrow>
          (case get ''state'' summary of
             JStr state \<Rightarrow>
               if state \<noteq> ''done'' \<and> state \<noteq> ''failed'' then None
               else (case slot_of state s of
                  None \<Rightarrow> Some s
                | Some prior \<Rightarrow>
                    (case (publication_generation (get ''published_unix'' prior), publication_generation (get ''published_unix'' outcome)) of
                       (_, None) \<Rightarrow> None
                     | (earlier, Some current) \<Rightarrow>
                         if earlier \<noteq> None \<and> current < the earlier then Some s
                         else if earlier = Some current then None
                         else if \<not> verified then None
                         else (case archived_at (get ''superseded_path'' summary) s of
                            None \<Rightarrow> None
                          | Some archived \<Rightarrow>
                              if archive_matches disposition outcome summary prior archived
                              then Some (empty_slot state s) else None)))
           | _ \<Rightarrow> None)
      | _ \<Rightarrow> Some s)"

text \<open>What the dead process may have left: tokens under one host, and its own lease.\<close>

definition drop_own_lease :: "obj option \<Rightarrow> action_files \<Rightarrow> action_files" where
  "drop_own_lease r s =
     (case (r, f_lease s) of
        (Some d, Some l) \<Rightarrow> if py_eq (get ''owner'' l) (get ''claimed_by'' d) then s\<lparr>f_lease := None\<rparr> else s
      | _ \<Rightarrow> s)"

definition holder_agrees :: "obj option \<Rightarrow> string list \<Rightarrow> bool" where
  "holder_agrees r hosts =
     (case (r, hosts) of
        (Some d, h # _) \<Rightarrow> \<not> truthy (get ''claimed_host'' d) \<or> get ''claimed_host'' d = JStr h
      | _ \<Rightarrow> True)"

definition finish_cleanup :: "sweep_reads \<Rightarrow> fault \<Rightarrow> obj option \<Rightarrow> action_files \<Rightarrow> bool \<times> action_files" where
  "finish_cleanup rd flt r s =
     (if f_claimed s \<noteq> None then (True, s)
      else if length (f_hosts s) > 1 \<or> (r = None \<and> f_hosts s \<noteq> []) then (False, s)
      else if \<not> holder_agrees r (f_hosts s) \<or> (r \<noteq> None \<and> \<not> sr_cleanup rd) \<or> fails flt \<noteq> None then (False, s)
      else
        let s1 = (if f_hosts s = [] then s else release_reservation (Some (hd (f_hosts s))) (sr_pins rd) False s) in
        if f_hosts s1 \<noteq> [] \<or> fails_late flt \<noteq> None then (False, s1) else (True, drop_own_lease r s1))"

datatype sweep_pc =
    Survey string
  | Relink string "obj option"
  | Relinked string
  | Cleanup string "obj option" "obj option"
  | History string "obj option" "obj option"
  | Supersede string "obj option"
  | Evidence string
  | Filed string
  | Swept bool

definition surveyed :: "sweep_verdict \<Rightarrow> string \<Rightarrow> sweep_pc" where
  "surveyed v m =
     (case v of Leave \<Rightarrow> Swept False | Put_Back_Claim \<Rightarrow> Relink m None | File_Evidence ending succ \<Rightarrow> Cleanup m ending succ)"

definition persist_supersession :: "obj option \<Rightarrow> obj \<Rightarrow> action_files \<Rightarrow> action_files" where
  "persist_supersession r succ s =
     (case Option.bind r (\<lambda>d. publication_generation (get ''published_unix'' d)) of
        None \<Rightarrow> s
      | Some q \<Rightarrow> if map_of (f_publication_endings s) q = None
          then s\<lparr>f_publication_endings := (q, succ) # f_publication_endings s\<rparr> else s)"

fun sweep_advance ::
  "(obj \<Rightarrow> bool) \<Rightarrow> sweep_reads \<Rightarrow> fault \<Rightarrow> sweep_pc \<Rightarrow> action_files \<Rightarrow> sweep_pc \<times> action_files" where
  "sweep_advance usable rd flt (Survey m) s =
     (if fails flt \<noteq> None then (Swept False, s) else (surveyed (survey usable rd m s) m, s))"
| "sweep_advance usable rd flt (Relink m succ) s =
     (case (fails flt, f_claimed s, map_of (f_marks s) m) of
        (None, None, Some d) \<Rightarrow> (Relinked m, s\<lparr>f_claimed := Some d\<rparr>)
      | _ \<Rightarrow> (Cleanup m None succ, s))"
| "sweep_advance usable rd flt (Relinked m) s = (Swept True, if fails flt = None then drop_mark m s else s)"
| "sweep_advance usable rd flt (Cleanup m ending succ) s =
     (case finish_cleanup rd flt (map_of (f_marks s) m) s of
        (ok, s') \<Rightarrow> (if ok then History m ending succ else Swept False, s'))"
| "sweep_advance usable rd flt (History m ending succ) s =
     (case ending of
        None \<Rightarrow> (Supersede m succ, s)
      | Some outcome \<Rightarrow>
          if fails flt \<noteq> None then (Swept False, s)
          else (case retire_recorded_terminal (sr_verified rd) (sr_disposition rd) outcome s of
             None \<Rightarrow> (Swept False, s)
           | Some s' \<Rightarrow> (Supersede m succ, s')))"
| "sweep_advance usable rd flt (Supersede m succ) s =
     (case succ of
        None \<Rightarrow> (Evidence m, s)
      | Some i \<Rightarrow> if fails flt \<noteq> None then (Swept False, s) else (Evidence m, persist_supersession (map_of (f_marks s) m) i s))"
| "sweep_advance usable rd flt (Evidence m) s =
     (if fails flt \<noteq> None then (Swept False, s)
      else (Filed m, file_superseded ''finish-tombstone''
        (put ''status'' (JStr ''dropped'') (case map_of (f_marks s) m of None \<Rightarrow> [] | Some d \<Rightarrow> d)) s))"
| "sweep_advance usable rd flt (Filed m) s = (Swept True, if fails flt = None then drop_mark m s else s)"
| "sweep_advance usable rd flt (Swept b) s = (Swept b, s)"

end
