(* ===== verification/Lifecycle_Machine.thy ===== *)
theory Lifecycle_Machine
  imports Lifecycle_Sweep
begin

text \<open>
  The files of one key under every interleaving of the processes that conclude, recover, claim and publish
  it: one file-system call at a time, any call failing, any process stopping after any call. The key's
  transition lock is held by every process but a finishing worker, which takes it for its publication
  (\<open>_commit_claim\<close>).
\<close>

section \<open>What must not be lost\<close>

text \<open>The generation \<open>publish\<close> stamped: a finite float.\<close>

definition gen_of :: "obj \<Rightarrow> rat option" where
  "gen_of d = (case get ''published_unix'' d of JFloat (Fin g) \<Rightarrow> Some g | _ \<Rightarrow> None)"

lemma gen_of_iff: "gen_of d = Some g \<longleftrightarrow> get ''published_unix'' d = JFloat (Fin g)"
  by (auto simp: gen_of_def split: json.splits pyfloat.splits)

lemma gen_of_put [simp]: "k \<noteq> ''published_unix'' \<Longrightarrow> gen_of (put k v d) = gen_of d"
  by (simp add: gen_of_def)

lemma gen_of_shape [simp]: "gen_of (shape_as_ready_item now key r) = gen_of r"
  by (simp add: gen_of_def)

lemma gen_of_deferred [simp]: "gen_of (deferred_record now key p) = gen_of (p_record p)"
  by (simp add: deferred_record_def)

lemma same_claim_gen:
  assumes "same_claim d e" "gen_of d = Some g" "gen_of e \<noteq> None"
  shows "gen_of e = Some g"
proof -
  have "py_eq (JFloat (Fin g)) (get ''published_unix'' e)" using assms by (simp add: same_claim_fields gen_of_iff)
  moreover obtain h where "get ''published_unix'' e = JFloat (Fin h)" using assms(3) by (auto simp: gen_of_iff)
  ultimately show ?thesis by (simp add: gen_of_iff py_eq_numeric)
qed

text \<open>
  The generations a row, a claim or a mark still carries, the marks \<open>X\<close> left out, and those that have been
  filed.
\<close>

definition kept :: "string set \<Rightarrow> action_files \<Rightarrow> rat set" where
  "kept X s = {g. \<exists>d. (f_ready s = Some d \<or> f_claimed s = Some d \<or> (\<exists>m. (m, d) \<in> set (f_marks s) \<and> m \<notin> X)) \<and> gen_of d = Some g}"

definition filed :: "action_files \<Rightarrow> rat set" where
  "filed s = {g. \<exists>d. (f_done s = Some d \<or> f_failed s = Some d \<or> d \<in> snd ` set (f_evidence s)) \<and> gen_of d = Some g}"

text \<open>The mark a process is about to remove.\<close>

fun dropping :: "pc \<Rightarrow> string set" where
  "dropping (Put_Back p m) = {m}"
| "dropping (Restored m) = {m}"
| "dropping (Retire p m) = {m}"
| "dropping (Unmark m h) = {m}"
| "dropping _ = {}"

fun sweep_dropping :: "sweep_pc \<Rightarrow> string set" where
  "sweep_dropping (Relinked m) = {m}"
| "sweep_dropping (Filed m) = {m}"
| "sweep_dropping _ = {}"

text \<open>The plan and mark of a process that has judged its claim.\<close>

fun judged :: "pc \<Rightarrow> (plan \<times> string) option" where
  "judged (Identify p m) = Some (p, m)"
| "judged (Unlease p m) = Some (p, m)"
| "judged (Return_Tokens p m) = Some (p, m)"
| "judged (Own p m) = Some (p, m)"
| "judged (Archive_Earlier p m) = Some (p, m)"
| "judged (Publish p m retired) = Some (p, m)"
| "judged (Restore p m) = Some (p, m)"
| "judged (Retire p m) = Some (p, m)"
| "judged _ = None"

fun plan_of :: "pc \<Rightarrow> plan option" where
  "plan_of (Entomb p) = Some p"
| "plan_of (Judge p m) = Some p"
| "plan_of (Link_Back p m) = Some p"
| "plan_of (Put_Back p m) = Some p"
| "plan_of c = map_option fst (judged c)"

text \<open>A plan carries the generation of the claim it judged; a cancellation has its decision on file.\<close>

definition plan_ok :: "rat set \<Rightarrow> plan \<Rightarrow> bool" where
  "plan_ok H p \<longleftrightarrow> gen_of (p_original p) \<noteq> None \<and> gen_of (p_record p) = gen_of (p_original p) \<and>
     (p_transition p = CANCEL \<longrightarrow> the (gen_of (p_original p)) \<in> H)"

definition commit_ok :: "rat set \<Rightarrow> pc \<Rightarrow> action_files \<Rightarrow> bool" where
  "commit_ok H c s \<longleftrightarrow> (\<forall>p. plan_of c = Some p \<longrightarrow> plan_ok H p) \<and>
     (\<forall>p m d. judged c = Some (p, m) \<longrightarrow> (m, d) \<in> set (f_marks s) \<longrightarrow> same_claim d (p_original p))"

lemma keptI:
  "f_ready s = Some d \<Longrightarrow> gen_of d = Some g \<Longrightarrow> g \<in> kept X s"
  "f_claimed s = Some d \<Longrightarrow> gen_of d = Some g \<Longrightarrow> g \<in> kept X s"
  "(m, d) \<in> set (f_marks s) \<Longrightarrow> m \<notin> X \<Longrightarrow> gen_of d = Some g \<Longrightarrow> g \<in> kept X s"
  by (auto simp: kept_def)

lemma kept_same:
  "f_ready s' = f_ready s \<Longrightarrow> f_claimed s' = f_claimed s \<Longrightarrow> f_marks s' = f_marks s \<Longrightarrow> kept X s' = kept X s"
  by (simp add: kept_def)

lemma kept_mono: "X \<subseteq> Y \<Longrightarrow> kept Y s \<subseteq> kept X s"
  by (auto simp: kept_def)

lemma kept_weaken: "g \<in> kept (insert m X) s \<Longrightarrow> g \<in> kept X s"
  by (auto simp: kept_def)

text \<open>A mark may be given up once its generation is found elsewhere.\<close>

lemma kept_insert:
  assumes "g \<in> kept X s" "\<And>d. (m, d) \<in> set (f_marks s) \<Longrightarrow> gen_of d = Some g \<Longrightarrow> g \<in> kept (insert m X) s \<union> F"
  shows "g \<in> kept (insert m X) s \<union> F"
  using assms by (auto simp: kept_def)

lemma kept_drop_mark [simp]: "kept X (drop_mark m s) = kept (insert m X) s"
  by (auto simp: kept_def drop_mark_def)

lemma filed_simps [simp]:
  "filed (drop_mark m s) = filed s"
  "filed (s\<lparr>f_lease := l\<rparr>) = filed s" "filed (s\<lparr>f_ready := r\<rparr>) = filed s" "filed (s\<lparr>f_claimed := r\<rparr>) = filed s"
  "filed (s\<lparr>f_claimed := r, f_marks := ms\<rparr>) = filed s" "filed (release_reservation h k b s) = filed s"
  "filed (s\<lparr>f_publication_endings := es\<rparr>) = filed s"
  by (auto simp: filed_def drop_mark_def release_reservation_def)

lemma kept_simps [simp]:
  "kept X (s\<lparr>f_lease := l\<rparr>) = kept X s" "kept X (release_reservation h k b s) = kept X s"
  "kept X (file_superseded kind r s) = kept X s" "kept X (s\<lparr>f_publication_endings := es\<rparr>) = kept X s"
  "kept X (file_terminal p r s) = kept X s" "kept X (retire_terminal p s) = kept X s"
  by (simp_all add: kept_def release_reservation_def file_superseded_def file_terminal_def retire_terminal_def)

lemma filed_file_superseded: "filed (file_superseded kind r s) = filed s \<union> {g. gen_of r = Some g}"
  by (auto simp: filed_def file_superseded_def)

lemma filed_file_terminal: "gen_of r = Some g \<Longrightarrow> g \<in> filed (file_terminal p r s)"
  by (auto simp: filed_def file_terminal_def)

lemma kept_entomb: "f_claimed s = Some d \<Longrightarrow> name \<notin> X \<Longrightarrow>
  kept X s \<subseteq> kept X (s\<lparr>f_claimed := None, f_marks := (name, d) # f_marks s\<rparr>)"
  by (auto simp: kept_def)

lemma kept_link: "f_claimed s = None \<Longrightarrow> (m, d) \<in> set (f_marks s) \<Longrightarrow> distinct (map fst (f_marks s)) \<Longrightarrow>
  kept X s \<subseteq> kept (insert m X) (s\<lparr>f_claimed := Some d\<rparr>)"
  by (auto simp: kept_def) (metis eq_key_imp_eq_value)

lemma kept_ready: "f_ready s = None \<Longrightarrow> kept X s \<subseteq> kept X (s\<lparr>f_ready := Some r\<rparr>)"
  by (auto simp: kept_def)

lemma requeued_kept:
  assumes "publish_requeued_claim usable kind flt r s = (Inr h, s')" "gen_of r = Some g"
    and stamped: "\<And>d. f_ready s = Some d \<Longrightarrow> gen_of d \<noteq> None"
  shows "g \<in> kept X s' \<union> filed s'" "kept X s \<subseteq> kept X s'" "filed s \<subseteq> filed s'"
proof -
  have dropped: "g \<in> filed s2 \<and> kept X s1 \<subseteq> kept X s2 \<and> filed s1 \<subseteq> filed s2"
    if "drop_requeue kind flt r s1 = (Inr h, s2)" for s1 s2
    using that assms(2) by (auto simp: drop_requeue_def filed_file_superseded split: option.splits)
  have same: "gen_of d = Some g" if "f_ready s = Some d" "successor_generation usable r d = Inr f" "py_eq (JFloat f) (get ''published_unix'' r)" for d f
    using stamped [OF that(1)] that(2,3) assms(2)
    by (auto simp: gen_of_iff successor_generation_def py_eq_numeric float_eq_def split: if_splits sum.splits)
  show "g \<in> kept X s' \<union> filed s'" "kept X s \<subseteq> kept X s'" "filed s \<subseteq> filed s'"
    using assms(1,2) by (auto simp: publish_requeued_claim_def dest!: dropped
        intro: keptI(1) keptI(1) [OF _ same] kept_ready [THEN subsetD] split: option.splits if_splits sum.splits)
qed

lemma requeued_mono:
  assumes "publish_requeued_claim usable kind flt r s = (res, s')"
  shows "kept X s \<subseteq> kept X s'" "filed s \<subseteq> filed s'"
  using assms by (auto simp: publish_requeued_claim_def drop_requeue_def filed_file_superseded
      intro: kept_ready [THEN subsetD] split: option.splits if_splits sum.splits)

lemma publish_kept:
  assumes "publish_destination usable now key flt p m retired s = (c', s')" "plan_ok H p"
    and own: "\<And>d. (m, d) \<in> set (f_marks s) \<Longrightarrow> same_claim d (p_original p)"
    and stamped: "\<And>d. f_ready s = Some d \<Longrightarrow> gen_of d \<noteq> None"
    and g: "g \<in> kept X s \<union> F" "filed s \<subseteq> F"
  shows "g \<in> kept (X \<union> dropping c') s' \<union> filed s' \<union> F"
proof -
  obtain q where q: "gen_of (p_record p) = Some q" "gen_of (p_original p) = Some q" using assms(2) by (auto simp: plan_ok_def)
  have mine: "g = q" if "(m, d) \<in> set (f_marks s)" "gen_of d = Some g" for d
    using same_claim_gen [OF own that(2)] that(1) q by simp
  show ?thesis
  proof (cases "terminal_disposition p")
    case True
    have "gen_of (with_supersedes retired (p_record p)) = Some q" using q by (simp add: with_supersedes_def split: option.split)
    from filed_file_terminal [OF this] have "g \<in> kept (insert m X) s \<union> filed (file_terminal p (with_supersedes retired (p_record p)) s) \<union> F"
      if "g \<in> kept X s" using kept_insert [OF that, of m "filed (file_terminal p (with_supersedes retired (p_record p)) s)"] mine by blast
    with True assms(1) g show ?thesis
      by (auto simp: publish_destination_def publish_failed_def split: option.splits if_splits)
  next
    case False
    obtain res s1 where r: "publish_requeued_claim usable (requeue_kind (p_transition p)) flt (deferred_record now key p) s = (res, s1)"
      by (rule prod.exhaust)
    have dgen: "gen_of (deferred_record now key p) = Some q" using q by simp
    note mono = requeued_mono [OF r]
    have s': "s' = s1" using False assms(1) r by (auto simp: publish_destination_def split: sum.splits)
    show ?thesis
    proof (cases res)
      case (Inl e)
      then have "dropping c' = {}" using False assms(1) r by (auto simp: publish_destination_def publish_failed_def split: if_splits)
      then show ?thesis using g mono(1) [of X] s' by auto
    next
      case (Inr h)
      have "dropping c' = {m}" using False assms(1) r Inr by (auto simp: publish_destination_def)
      moreover have "f_marks s1 = f_marks s"
        using r by (auto simp: publish_requeued_claim_def drop_requeue_def file_superseded_def split: option.splits if_splits sum.splits)
      moreover have "q \<in> kept (insert m X) s1 \<union> filed s1" by (rule requeued_kept(1) [OF r [unfolded Inr] dgen stamped])
      moreover have "g \<in> kept X s1 \<union> F" using g mono(1) [of X] by auto
      ultimately show ?thesis using kept_insert [of g X s1 m "filed s1"] mine s' by auto
    qed
  qed
qed

lemma advance_kept:
  assumes "advance usable me now key name flt c s = (c', s')" "commit_ok H c s" "name \<notin> X" "distinct (map fst (f_marks s))"
    and stamped: "\<And>d. f_ready s = Some d \<Longrightarrow> gen_of d \<noteq> None"
    and g: "g \<in> kept (X \<union> dropping c) s \<union> F" "filed s \<subseteq> F" "H \<subseteq> F"
  shows "g \<in> kept (X \<union> dropping c') s' \<union> filed s' \<union> F"
proof (cases c)
  case (Entomb p)
  then show ?thesis using assms(1,3) g(1) kept_entomb [of s _ name X]
    by (auto simp: entomb_def split: if_splits option.splits)
next
  case (Judge p m)
  then show ?thesis using assms(1) g(1) by (auto simp: judge_def split: if_splits option.splits)
next
  case (Link_Back p m)
  then show ?thesis using assms(1,4) g(1)
    by (auto simp: link_claimed_def dest: kept_link [THEN subsetD] split: option.splits)
next
  case (Restore p m)
  then show ?thesis using assms(1,4) g(1)
    by (auto simp: link_claimed_def dest: kept_link [THEN subsetD] split: option.splits)
next
  case (Return_Tokens p m)
  have "g \<in> F" if "p_transition p = CANCEL" "(m, d) \<in> set (f_marks s)" "gen_of d = Some g" for d
  proof -
    have "same_claim d (p_original p)" "plan_ok H p" using assms(2) Return_Tokens that by (auto simp: commit_ok_def)
    with same_claim_gen [of d "p_original p" g] that g(3) show ?thesis by (auto simp: plan_ok_def)
  qed
  with kept_insert [of g X s m F] Return_Tokens assms(1) g(1) show ?thesis
    by (auto simp: after_tokens_def split: option.splits if_splits)
next
  case (Archive_Earlier p m)
  then show ?thesis using assms(1) g(1)
    by (auto simp: archive_earlier_terminal_def split: if_splits option.splits)
next
  case (Publish p m retired)
  have "publish_destination usable now key flt p m retired s = (c', s')" "plan_ok H p"
    and "\<And>d. (m, d) \<in> set (f_marks s) \<Longrightarrow> same_claim d (p_original p)"
    using assms(1,2) Publish by (auto simp: commit_ok_def)
  then show ?thesis using stamped by (rule publish_kept) (use Publish g(1,2) in auto)
qed (use assms(1) g(1) in \<open>auto intro: kept_weaken split: if_splits option.splits\<close>)

lemma finish_cleanup_files:
  "finish_cleanup rd flt r s = (b, s') \<Longrightarrow> f_ready s' = f_ready s \<and> f_claimed s' = f_claimed s \<and> f_marks s' = f_marks s \<and>
     f_done s' = f_done s \<and> f_failed s' = f_failed s \<and> f_evidence s' = f_evidence s"
  by (auto simp: finish_cleanup_def Let_def drop_own_lease_def release_reservation_def split: if_splits option.splits)

lemma retire_recorded_files:
  "retire_recorded_terminal v q outcome s = Some s' \<Longrightarrow>
     f_ready s' = f_ready s \<and> f_claimed s' = f_claimed s \<and> f_marks s' = f_marks s"
  by (auto simp: retire_recorded_terminal_def empty_slot_def split: json.splits if_splits option.splits prod.splits)

lemma persist_files:
  "f_ready (persist_supersession r i s) = f_ready s" "f_claimed (persist_supersession r i s) = f_claimed s"
  "f_marks (persist_supersession r i s) = f_marks s"
  by (auto simp: persist_supersession_def split: option.splits)

lemma sweep_kept:
  assumes "sweep_advance usable rd flt c s = (c', s')" "distinct (map fst (f_marks s))"
    and g: "g \<in> kept (X \<union> sweep_dropping c) s \<union> F"
  shows "g \<in> kept (X \<union> sweep_dropping c') s' \<union> filed s' \<union> F"
proof (cases c)
  case (Relink m succ)
  then show ?thesis using assms(1,2) g
    by (auto dest: kept_link [THEN subsetD] split: option.splits)
next
  case (Cleanup m ending succ)
  with assms(1) obtain b where "finish_cleanup rd flt (map_of (f_marks s) m) s = (b, s')" "sweep_dropping c' = {}"
    by (auto split: prod.splits if_splits)
  with Cleanup g kept_same [of s' s] finish_cleanup_files show ?thesis by auto
next
  case (History m ending succ)
  then have "f_ready s' = f_ready s \<and> f_claimed s' = f_claimed s \<and> f_marks s' = f_marks s" "sweep_dropping c' = {}"
    using assms(1) by (auto dest!: retire_recorded_files split: option.splits if_splits)
  with History g kept_same [of s' s] show ?thesis by auto
next
  case (Supersede m succ)
  then have "f_ready s' = f_ready s \<and> f_claimed s' = f_claimed s \<and> f_marks s' = f_marks s" "sweep_dropping c' = {}"
    using assms(1) by (auto simp: persist_files split: option.splits if_splits)
  with Supersede g kept_same [of s' s] show ?thesis by auto
next
  case (Evidence m)
  have "g \<in> filed (file_superseded k (put ''status'' v (case map_of (f_marks s) m of None \<Rightarrow> [] | Some d \<Rightarrow> d)) s)"
    if "(m, d) \<in> set (f_marks s)" "gen_of d = Some g" for k v d
    using that assms(2) by (auto simp: filed_file_superseded)
  with kept_insert [of g X s m] Evidence assms(1) g show ?thesis by (auto split: if_splits) blast
qed (use assms(1) g in \<open>auto simp: surveyed_def intro: kept_weaken split: if_splits option.splits sweep_verdict.splits\<close>)

section \<open>What every call keeps\<close>

text \<open>The claim documents: at most one generation of a key is claimed or being concluded at a time.\<close>

definition docs :: "action_files \<Rightarrow> obj set" where
  "docs s = set_option (f_claimed s) \<union> snd ` set (f_marks s)"

definition one_generation :: "action_files \<Rightarrow> bool" where
  "one_generation s \<longleftrightarrow> (\<forall>d \<in> docs s. \<forall>e \<in> docs s. gen_of d = gen_of e)"

definition files_ok :: "action_files \<Rightarrow> bool" where
  "files_ok s \<longleftrightarrow> distinct (map fst (f_marks s)) \<and> (\<forall>d. f_ready s = Some d \<longrightarrow> gen_of d \<noteq> None) \<and> one_generation s"

lemma one_generation_docs: "one_generation s \<Longrightarrow> docs s' \<subseteq> docs s \<Longrightarrow> one_generation s'"
  unfolding one_generation_def by blast

definition mark_names :: "action_files \<Rightarrow> string set" where
  "mark_names s = fst ` set (f_marks s)"

text \<open>
  The contract of a process that works on the files call by call. \<open>U\<close> are the mark names in use, \<open>names\<close> the
  ones the process refers to, \<open>drops\<close> those it is about to remove, and \<open>good H\<close> what it relies on, \<open>H\<close> being
  the generations that have ended.
\<close>

locale custodian =
  fixes call :: "string set \<Rightarrow> 'c \<Rightarrow> action_files \<Rightarrow> 'c \<Rightarrow> action_files \<Rightarrow> bool"
    and names drops :: "'c \<Rightarrow> string set" and good :: "rat set \<Rightarrow> 'c \<Rightarrow> action_files \<Rightarrow> bool"
  assumes call_keeps: "call U c s c' s' \<Longrightarrow> good H c s \<Longrightarrow> files_ok s \<Longrightarrow> X \<subseteq> U \<Longrightarrow> filed s \<subseteq> H \<Longrightarrow>
      g \<in> kept (X \<union> drops c) s \<union> H \<Longrightarrow> g \<in> kept (X \<union> drops c') s' \<union> filed s' \<union> H"
    and call_marks: "call U c s c' s' \<Longrightarrow> (m, d) \<in> set (f_marks s') \<Longrightarrow> (m, d) \<in> set (f_marks s) \<or> m \<notin> U"
    and call_removes: "call U c s c' s' \<Longrightarrow> e \<in> set (f_marks s) \<Longrightarrow> fst e \<notin> drops c \<Longrightarrow> e \<in> set (f_marks s')"
    and call_docs: "call U c s c' s' \<Longrightarrow> docs s' \<subseteq> docs s"
    and call_distinct: "call U c s c' s' \<Longrightarrow> mark_names s \<subseteq> U \<Longrightarrow> distinct (map fst (f_marks s)) \<Longrightarrow> distinct (map fst (f_marks s'))"
    and call_ready: "call U c s c' s' \<Longrightarrow> good H c s \<Longrightarrow> f_ready s' = Some d \<Longrightarrow> f_ready s = Some d \<or> gen_of d \<noteq> None"
    and call_good: "call U c s c' s' \<Longrightarrow> good H c s \<Longrightarrow> mark_names s \<subseteq> U \<Longrightarrow> names c \<subseteq> U \<Longrightarrow> distinct (map fst (f_marks s)) \<Longrightarrow> good H c' s'"
    and call_names: "call U c s c' s' \<Longrightarrow> names c' \<subseteq> names c \<union> (- U)"
    and good_stable: "good H c s \<Longrightarrow> H \<subseteq> H' \<Longrightarrow> (\<And>m d. m \<in> names c \<Longrightarrow> (m, d) \<in> set (f_marks s') \<Longrightarrow> (m, d) \<in> set (f_marks s)) \<Longrightarrow> good H' c s'"
begin

lemma call_files_ok:
  assumes "call U c s c' s'" "good H c s" "mark_names s \<subseteq> U" "files_ok s"
  shows "files_ok s'"
proof -
  have "distinct (map fst (f_marks s'))" using call_distinct [OF assms(1,3)] assms(4) by (simp add: files_ok_def)
  moreover have "gen_of d \<noteq> None" if "f_ready s' = Some d" for d
    using call_ready [OF assms(1,2) that] assms(4) by (auto simp: files_ok_def)
  moreover have "one_generation s'"
    using one_generation_docs [OF _ call_docs [OF assms(1)]] assms(4) by (simp add: files_ok_def)
  ultimately show ?thesis by (simp add: files_ok_def)
qed

end

definition commit_call ::
  "(obj \<Rightarrow> bool) \<Rightarrow> string \<Rightarrow> string set \<Rightarrow> pc \<Rightarrow> action_files \<Rightarrow> pc \<Rightarrow> action_files \<Rightarrow> bool" where
  "commit_call usable key U c s c' s' \<longleftrightarrow>
     (\<exists>me now name flt. name \<notin> U \<and> advance usable me now key name flt c s = (c', s'))"

definition sweep_call ::
  "(obj \<Rightarrow> bool) \<Rightarrow> string set \<Rightarrow> sweep_pc \<Rightarrow> action_files \<Rightarrow> sweep_pc \<Rightarrow> action_files \<Rightarrow> bool" where
  "sweep_call usable U c s c' s' \<longleftrightarrow> (\<exists>rd flt. sweep_advance usable rd flt c s = (c', s'))"

fun pc_names :: "pc \<Rightarrow> string set" where
  "pc_names (Judge p m) = {m}"
| "pc_names (Link_Back p m) = {m}"
| "pc_names c = dropping c \<union> (case judged c of None \<Rightarrow> {} | Some (_, m) \<Rightarrow> {m})"

fun sweep_names :: "sweep_pc \<Rightarrow> string set" where
  "sweep_names (Survey m) = {m}"
| "sweep_names (Relink m succ) = {m}"
| "sweep_names (Cleanup m ending succ) = {m}"
| "sweep_names (History m ending succ) = {m}"
| "sweep_names (Supersede m succ) = {m}"
| "sweep_names (Evidence m) = {m}"
| "sweep_names c = sweep_dropping c"

lemma requeued_files:
  "publish_requeued_claim usable kind flt r s = (res, s') \<Longrightarrow>
     f_claimed s' = f_claimed s \<and> f_marks s' = f_marks s \<and> (f_ready s' = f_ready s \<or> f_ready s = None \<and> f_ready s' = Some r)"
  by (auto simp: publish_requeued_claim_def drop_requeue_def file_superseded_def split: option.splits if_splits sum.splits)

lemma map_of_values: "map_of d k = Some v \<Longrightarrow> v \<in> snd ` set d"
  by (force dest: map_of_SomeD)

text \<open>What a call of a commit does to the claim, the marks and the ready row.\<close>

lemma advance_files:
  assumes "advance usable me now key name flt c s = (c', s')"
  shows "set (f_marks s') \<subseteq> set (f_marks s) \<union> {name} \<times> set_option (f_claimed s)"
    "e \<in> set (f_marks s) \<Longrightarrow> fst e \<notin> dropping c \<Longrightarrow> e \<in> set (f_marks s')"
    "docs s' \<subseteq> docs s"
    "name \<notin> mark_names s \<Longrightarrow> distinct (map fst (f_marks s)) \<Longrightarrow> distinct (map fst (f_marks s'))"
    "f_ready s' = f_ready s \<or> f_ready s = None \<and> (\<exists>p m retired. c = Publish p m retired \<and> f_ready s' = Some (deferred_record now key p))"
    "pc_names c' \<subseteq> pc_names c \<union> {name}"
proof -
  have pub: "f_claimed s' = f_claimed s \<and> f_marks s' = f_marks s \<and>
      (f_ready s' = f_ready s \<or> f_ready s = None \<and> f_ready s' = Some (deferred_record now key p)) \<and> pc_names c' \<subseteq> {m}"
    if "publish_destination usable now key flt p m retired s = (c', s')" for p m retired
    using that by (auto simp: publish_destination_def publish_failed_def file_terminal_def
        dest: requeued_files split: option.splits if_splits sum.splits prod.splits)
  note defs = entomb_def judge_def link_claimed_def after_tokens_def drop_mark_def release_reservation_def retire_terminal_def
    archive_earlier_terminal_def file_superseded_def docs_def mark_names_def
  show "set (f_marks s') \<subseteq> set (f_marks s) \<union> {name} \<times> set_option (f_claimed s)"
    using assms by (cases c) (auto simp: defs dest!: pub split: option.splits if_splits prod.splits)
  show "e \<in> set (f_marks s) \<Longrightarrow> fst e \<notin> dropping c \<Longrightarrow> e \<in> set (f_marks s')"
    using assms by (cases c) (auto simp: defs dest!: pub split: option.splits if_splits prod.splits)
  show "docs s' \<subseteq> docs s"
    using assms by (cases c) (auto simp: defs dest!: pub intro: map_of_values split: option.splits if_splits prod.splits)
  show "name \<notin> mark_names s \<Longrightarrow> distinct (map fst (f_marks s)) \<Longrightarrow> distinct (map fst (f_marks s'))"
    using assms by (cases c) (auto simp: defs distinct_map_filter dest!: pub split: option.splits if_splits prod.splits)
  show "f_ready s' = f_ready s \<or> f_ready s = None \<and> (\<exists>p m retired. c = Publish p m retired \<and> f_ready s' = Some (deferred_record now key p))"
    using assms by (cases c) (auto simp: defs dest!: pub split: option.splits if_splits prod.splits)
  show "pc_names c' \<subseteq> pc_names c \<union> {name}"
    using assms by (cases c) (auto simp: defs dest!: pub split: option.splits if_splits prod.splits)
qed

lemma judged_names: "judged c = Some (p, m) \<Longrightarrow> m \<in> pc_names c"
  by (cases c) auto

lemma advance_plan:
  assumes "advance usable me now key name flt c s = (c', s')"
  shows "plan_of c' = Some p \<Longrightarrow> plan_of c = Some p"
    "judged c' = Some (p, m) \<Longrightarrow> judged c = Some (p, m) \<or>
       c = Judge p m \<and> (\<forall>d. map_of (f_marks s) m = Some d \<longrightarrow> same_claim d (p_original p)) \<and> s' = s"
proof -
  have pub: "plan_of c' = Some p \<Longrightarrow> p = q" "judged c' = Some (p, m) \<Longrightarrow> p = q \<and> m = n"
    if "publish_destination usable now key flt q n retired s = (c', s')" for q n retired
    using that by (auto simp: publish_destination_def publish_failed_def split: option.splits if_splits sum.splits prod.splits)
  note defs = entomb_def judge_def link_claimed_def after_tokens_def
  show "plan_of c' = Some p \<Longrightarrow> plan_of c = Some p"
    using assms by (cases c) (auto simp: defs dest: pub(1) split: option.splits if_splits prod.splits)
  show "judged c' = Some (p, m) \<Longrightarrow> judged c = Some (p, m) \<or>
       c = Judge p m \<and> (\<forall>d. map_of (f_marks s) m = Some d \<longrightarrow> same_claim d (p_original p)) \<and> s' = s"
    using assms by (cases c) (auto simp: defs dest: pub(2) split: option.splits if_splits prod.splits)
qed

lemma advance_good:
  assumes adv: "advance usable me now key name flt c s = (c', s')" and "name \<notin> U" "commit_ok H c s"
    and "mark_names s \<subseteq> U" "pc_names c \<subseteq> U" "distinct (map fst (f_marks s))"
  shows "commit_ok H c' s'"
proof -
  have "same_claim d (p_original p)" if j: "judged c' = Some (p, m)" and d: "(m, d) \<in> set (f_marks s')" for p m d
  proof -
    have "m \<in> U"
      using advance_plan(2) [OF adv j] assms(5) judged_names [of c p m] by auto
    then have old: "(m, d) \<in> set (f_marks s)" using advance_files(1) [OF adv] d assms(2) by auto
    with advance_plan(2) [OF adv j] assms(3,6) show ?thesis by (auto simp: commit_ok_def)
  qed
  then show ?thesis using assms(3) advance_plan(1) [OF adv] by (auto simp: commit_ok_def)
qed

interpretation committing: custodian "commit_call usable key" pc_names dropping commit_ok for usable key
proof
  fix U c s c' s' H X g
  assume c: "commit_call usable key U c s c' s'" "commit_ok H c s" "files_ok s" "X \<subseteq> U" "filed s \<subseteq> H"
    "g \<in> kept (X \<union> dropping c) s \<union> H"
  from c(1) obtain me now name flt where adv: "advance usable me now key name flt c s = (c', s')" and "name \<notin> U"
    by (auto simp: commit_call_def)
  with c(4) have "name \<notin> X" by auto
  with adv c(2) show "g \<in> kept (X \<union> dropping c') s' \<union> filed s' \<union> H"
    by (rule advance_kept) (use c(3,5,6) in \<open>auto simp: files_ok_def\<close>)
next
  fix H H' c and s s' :: action_files
  assume "commit_ok H c s" "H \<subseteq> H'"
    "\<And>m d. m \<in> pc_names c \<Longrightarrow> (m, d) \<in> set (f_marks s') \<Longrightarrow> (m, d) \<in> set (f_marks s)"
  then show "commit_ok H' c s'" using judged_names by (fastforce simp: commit_ok_def plan_ok_def)
next
  fix U c s c' s' H d
  assume "commit_call usable key U c s c' s'" "commit_ok H c s" "f_ready s' = Some d"
  then show "f_ready s = Some d \<or> gen_of d \<noteq> None"
    by (auto simp: commit_call_def commit_ok_def plan_ok_def dest!: advance_files(5))
next
  fix U c s c' s' H
  assume "commit_call usable key U c s c' s'" "commit_ok H c s" "mark_names s \<subseteq> U" "pc_names c \<subseteq> U" "distinct (map fst (f_marks s))"
  then show "commit_ok H c' s'" by (auto simp: commit_call_def intro: advance_good)
qed (auto simp: commit_call_def dest: advance_files)

lemma sweep_files:
  assumes "sweep_advance usable rd flt c s = (c', s')"
  shows "set (f_marks s') \<subseteq> set (f_marks s)"
    "e \<in> set (f_marks s) \<Longrightarrow> fst e \<notin> sweep_dropping c \<Longrightarrow> e \<in> set (f_marks s')"
    "docs s' \<subseteq> docs s"
    "distinct (map fst (f_marks s)) \<Longrightarrow> distinct (map fst (f_marks s'))"
    "f_ready s' = f_ready s"
    "sweep_names c' \<subseteq> sweep_names c"
proof -
  note defs = surveyed_def drop_mark_def file_superseded_def docs_def persist_files
  note dests = finish_cleanup_files retire_recorded_files
  note splits = option.splits if_splits prod.splits sweep_verdict.splits
  show "set (f_marks s') \<subseteq> set (f_marks s)"
    using assms by (cases c) (auto simp: defs dest!: dests split: splits)
  show "e \<in> set (f_marks s) \<Longrightarrow> fst e \<notin> sweep_dropping c \<Longrightarrow> e \<in> set (f_marks s')"
    using assms by (cases c) (auto simp: defs dest!: dests split: splits)
  show "docs s' \<subseteq> docs s"
    using assms by (cases c) (auto simp: defs dest!: dests intro: map_of_values split: splits)
  show "distinct (map fst (f_marks s)) \<Longrightarrow> distinct (map fst (f_marks s'))"
    using assms by (cases c) (auto simp: defs distinct_map_filter dest!: dests split: splits)
  show "f_ready s' = f_ready s"
    using assms by (cases c) (auto simp: defs dest!: dests split: splits)
  show "sweep_names c' \<subseteq> sweep_names c"
    using assms by (cases c) (auto simp: defs split: splits)
qed

interpretation sweeping: custodian "sweep_call usable" sweep_names sweep_dropping "\<lambda>_ _ _. True" for usable
proof
  fix U c s c' s' H X g
  assume c: "sweep_call usable U c s c' s'" "files_ok s" "g \<in> kept (X \<union> sweep_dropping c) s \<union> H"
  from c(1) obtain rd flt where "sweep_advance usable rd flt c s = (c', s')" by (auto simp: sweep_call_def)
  then show "g \<in> kept (X \<union> sweep_dropping c') s' \<union> filed s' \<union> H"
    by (rule sweep_kept) (use c(2,3) in \<open>auto simp: files_ok_def\<close>)
qed (auto simp: sweep_call_def dest: sweep_files)

section \<open>The machine\<close>

datatype process = Committing pc | Sweeping sweep_pc

text \<open>
  \<open>pk_lock\<close> is the holder of the key's transition lock, \<open>pk_newest\<close> the generation published last and
  \<open>pk_concluded\<close> every generation that was ever filed or withdrawn.
\<close>

record pool_key =
  pk_files :: action_files
  pk_procs :: "nat \<Rightarrow> process option"
  pk_lock :: "nat option"
  pk_newest :: "rat option"
  pk_concluded :: "rat set"

fun proc_names :: "process \<Rightarrow> string set" where
  "proc_names (Committing c) = pc_names c"
| "proc_names (Sweeping c) = sweep_names c"

fun proc_drops :: "process \<Rightarrow> string set" where
  "proc_drops (Committing c) = dropping c"
| "proc_drops (Sweeping c) = sweep_dropping c"

fun proc_good :: "rat set \<Rightarrow> process \<Rightarrow> action_files \<Rightarrow> bool" where
  "proc_good H (Committing c) s = commit_ok H c s"
| "proc_good H (Sweeping c) s = True"

fun proc_call :: "(obj \<Rightarrow> bool) \<Rightarrow> string \<Rightarrow> string set \<Rightarrow> process \<Rightarrow> action_files \<Rightarrow> process \<Rightarrow> action_files \<Rightarrow> bool" where
  "proc_call usable key U (Committing c) s (Committing c') s' = commit_call usable key U c s c' s'"
| "proc_call usable key U (Sweeping c) s (Sweeping c') s' = sweep_call usable U c s c' s'"
| "proc_call usable key U _ s _ s' = False"

interpretation processes: custodian "proc_call usable key" proc_names proc_drops proc_good for usable key
proof
  fix U c s c' s' H X g
  show "proc_call usable key U c s c' s' \<Longrightarrow> proc_good H c s \<Longrightarrow> files_ok s \<Longrightarrow> X \<subseteq> U \<Longrightarrow> filed s \<subseteq> H \<Longrightarrow>
      g \<in> kept (X \<union> proc_drops c) s \<union> H \<Longrightarrow> g \<in> kept (X \<union> proc_drops c') s' \<union> filed s' \<union> H"
    using committing.call_keeps sweeping.call_keeps by (cases c; cases c') (simp_all del: Un_iff)
next
  fix U c s c' s' m d
  show "proc_call usable key U c s c' s' \<Longrightarrow> (m, d) \<in> set (f_marks s') \<Longrightarrow> (m, d) \<in> set (f_marks s) \<or> m \<notin> U"
    using committing.call_marks sweeping.call_marks by (cases c; cases c') simp_all
next
  fix U c s c' s' e
  show "proc_call usable key U c s c' s' \<Longrightarrow> e \<in> set (f_marks s) \<Longrightarrow> fst e \<notin> proc_drops c \<Longrightarrow> e \<in> set (f_marks s')"
    using committing.call_removes sweeping.call_removes by (cases c; cases c') simp_all
next
  fix U c s c' s'
  show "proc_call usable key U c s c' s' \<Longrightarrow> docs s' \<subseteq> docs s"
    using committing.call_docs sweeping.call_docs by (cases c; cases c') simp_all
next
  fix U c s c' s'
  show "proc_call usable key U c s c' s' \<Longrightarrow> mark_names s \<subseteq> U \<Longrightarrow> distinct (map fst (f_marks s)) \<Longrightarrow> distinct (map fst (f_marks s'))"
    using committing.call_distinct sweeping.call_distinct by (cases c; cases c') simp_all
next
  fix U c s c' s' H d
  show "proc_call usable key U c s c' s' \<Longrightarrow> proc_good H c s \<Longrightarrow> f_ready s' = Some d \<Longrightarrow> f_ready s = Some d \<or> gen_of d \<noteq> None"
    using committing.call_ready sweeping.call_ready by (cases c; cases c') simp_all
next
  fix U c s c' s' H
  show "proc_call usable key U c s c' s' \<Longrightarrow> proc_good H c s \<Longrightarrow> mark_names s \<subseteq> U \<Longrightarrow> proc_names c \<subseteq> U \<Longrightarrow>
      distinct (map fst (f_marks s)) \<Longrightarrow> proc_good H c' s'"
    using committing.call_good by (cases c; cases c') simp_all
next
  fix U c s c' s'
  show "proc_call usable key U c s c' s' \<Longrightarrow> proc_names c' \<subseteq> proc_names c \<union> (- U)"
    using committing.call_names sweeping.call_names by (cases c; cases c') simp_all
next
  fix H H' c and s s' :: action_files
  show "proc_good H c s \<Longrightarrow> H \<subseteq> H' \<Longrightarrow>
      (\<And>m d. m \<in> proc_names c \<Longrightarrow> (m, d) \<in> set (f_marks s') \<Longrightarrow> (m, d) \<in> set (f_marks s)) \<Longrightarrow> proc_good H' c s'"
    using committing.good_stable by (cases c) simp_all
qed

definition names_in_use :: "pool_key \<Rightarrow> string set" where
  "names_in_use st = mark_names (pk_files st) \<union> (\<Union>c \<in> ran (pk_procs st). proc_names c)"

definition drops_in_use :: "pool_key \<Rightarrow> string set" where
  "drops_in_use st = (\<Union>c \<in> ran (pk_procs st). proc_drops c)"

fun waits_for_lock :: "process \<Rightarrow> bool" where
  "waits_for_lock (Committing (Own p m)) = True"
| "waits_for_lock _ = False"

definition withdraw_ready :: "rat \<Rightarrow> action_files \<Rightarrow> action_files" where
  "withdraw_ready g s =
     (case f_ready s of Some d \<Rightarrow> if gen_of d = Some g then s\<lparr>f_ready := None\<rparr> else s | None \<Rightarrow> s)"

text \<open>
  The steps on a key. \<open>publish_row\<close> writes the ready row whatever is there; \<open>claim_row\<close> is the rename of a claim,
  refused while a claim or a mark is listed; \<open>rewrite_claim\<close> is any rewrite of the claimed record for the
  generation that is claimed, also when its file has just been moved aside; \<open>other_files\<close> are heartbeats,
  reservations and withdrawal markers. A worker's finish starts without the lock and takes it where
  \<open>Own\<close> stands; everything else starts with it. \<open>stop\<close> is a process that returns or dies.
\<close>

inductive key_step :: "(obj \<Rightarrow> bool) \<Rightarrow> string \<Rightarrow> pool_key \<Rightarrow> pool_key \<Rightarrow> bool" for usable key where
  publish_row: "pk_lock st = None \<Longrightarrow> gen_of r = Some g \<Longrightarrow>
    key_step usable key st (st\<lparr>pk_files := (pk_files st)\<lparr>f_ready := Some r\<rparr>, pk_newest := Some g\<rparr>)"
| claim_row: "pk_lock st = None \<Longrightarrow> f_ready (pk_files st) = Some r \<Longrightarrow> f_claimed (pk_files st) = None \<Longrightarrow> f_marks (pk_files st) = [] \<Longrightarrow>
    key_step usable key st (st\<lparr>pk_files := (pk_files st)\<lparr>f_ready := None, f_claimed := Some r\<rparr>\<rparr>)"
| rewrite_claim: "d \<in> docs (pk_files st) \<Longrightarrow> gen_of d' = gen_of d \<Longrightarrow>
    key_step usable key st (st\<lparr>pk_files := (pk_files st)\<lparr>f_claimed := Some d'\<rparr>\<rparr>)"
| other_files: "key_step usable key st
    (st\<lparr>pk_files := (pk_files st)\<lparr>f_lease := l, f_hosts := hs, f_tier := t, f_withdrawn := w\<rparr>\<rparr>)"
| withdraw: "pk_lock st = None \<Longrightarrow>
    key_step usable key st (st\<lparr>pk_files := withdraw_ready g (pk_files st), pk_concluded := insert g (pk_concluded st)\<rparr>)"
| begin_finish: "pk_procs st p = None \<Longrightarrow> p_transition pl = FINISH \<Longrightarrow> plan_ok (pk_concluded st) pl \<Longrightarrow>
    key_step usable key st (st\<lparr>pk_procs := (pk_procs st)(p \<mapsto> Committing (Entomb pl))\<rparr>)"
| begin_locked: "pk_procs st p = None \<Longrightarrow> pk_lock st = None \<Longrightarrow> p_transition pl \<noteq> FINISH \<Longrightarrow> plan_ok (pk_concluded st) pl \<Longrightarrow>
    key_step usable key st (st\<lparr>pk_procs := (pk_procs st)(p \<mapsto> Committing (Entomb pl)), pk_lock := Some p\<rparr>)"
| begin_sweep: "pk_procs st p = None \<Longrightarrow> pk_lock st = None \<Longrightarrow> m \<in> mark_names (pk_files st) \<Longrightarrow>
    key_step usable key st (st\<lparr>pk_procs := (pk_procs st)(p \<mapsto> Sweeping (Survey m)), pk_lock := Some p\<rparr>)"
| take_lock: "pk_procs st p = Some (Committing (Own pl m)) \<Longrightarrow> pk_lock st = None \<Longrightarrow>
    key_step usable key st (st\<lparr>pk_lock := Some p\<rparr>)"
| call: "pk_procs st p = Some c \<Longrightarrow> waits_for_lock c \<longrightarrow> pk_lock st = Some p \<Longrightarrow>
    proc_call usable key (names_in_use st) c (pk_files st) c' s' \<Longrightarrow>
    key_step usable key st (st\<lparr>pk_files := s', pk_procs := (pk_procs st)(p \<mapsto> c'), pk_concluded := pk_concluded st \<union> filed s'\<rparr>)"
| stop: "pk_procs st p = Some c \<Longrightarrow>
    key_step usable key st (st\<lparr>pk_procs := (pk_procs st)(p := None), pk_lock := (if pk_lock st = Some p then None else pk_lock st)\<rparr>)"

definition fresh_key :: pool_key where
  "fresh_key = \<lparr>pk_files = no_files, pk_procs = Map.empty, pk_lock = None, pk_newest = None, pk_concluded = {}\<rparr>"

abbreviation key_run :: "(obj \<Rightarrow> bool) \<Rightarrow> string \<Rightarrow> pool_key \<Rightarrow> bool" where
  "key_run usable key st \<equiv> (key_step usable key)\<^sup>*\<^sup>* fresh_key st"

section \<open>The newest submission is never lost\<close>

definition key_inv :: "pool_key \<Rightarrow> bool" where
  "key_inv st \<longleftrightarrow> files_ok (pk_files st) \<and> filed (pk_files st) \<subseteq> pk_concluded st \<and>
     (\<forall>g. pk_newest st = Some g \<longrightarrow> g \<in> kept (drops_in_use st) (pk_files st) \<union> pk_concluded st) \<and>
     (\<forall>c \<in> ran (pk_procs st). proc_good (pk_concluded st) c (pk_files st))"

lemma drops_names: "proc_drops c \<subseteq> proc_names c"
proof (cases c)
  case (Committing d)
  then show ?thesis by (cases d) auto
next
  case (Sweeping d)
  then show ?thesis by (cases d) auto
qed

lemma ran_remove: "m p = Some c \<Longrightarrow> ran m = insert c (ran (m(p := None)))"
  by (auto simp: ran_def) (metis option.inject)

lemma ran_update: "ran (m(p \<mapsto> c)) = insert c (ran (m(p := None)))"
  by (auto simp: ran_def)

lemma key_inv_call:
  assumes inv: "key_inv st" and p: "pk_procs st p = Some c"
    and call: "proc_call usable key (names_in_use st) c (pk_files st) c' s'"
  shows "key_inv (st\<lparr>pk_files := s', pk_procs := (pk_procs st)(p \<mapsto> c'), pk_concluded := pk_concluded st \<union> filed s'\<rparr>)"
    (is "key_inv ?st")
proof -
  let ?X = "\<Union>q \<in> ran ((pk_procs st)(p := None)). proc_drops q"
  have ran: "ran (pk_procs st) = insert c (ran ((pk_procs st)(p := None)))"
    "ran (pk_procs ?st) = insert c' (ran ((pk_procs st)(p := None)))"
    using p by (simp_all add: ran_remove ran_update)
  have good: "proc_good (pk_concluded st) c (pk_files st)" and ok: "files_ok (pk_files st)"
    and concl: "filed (pk_files st) \<subseteq> pk_concluded st" using inv ran by (auto simp: key_inv_def)
  have U: "mark_names (pk_files st) \<subseteq> names_in_use st" "proc_names c \<subseteq> names_in_use st" "?X \<subseteq> names_in_use st"
    using p drops_names ran(1) by (fastforce simp: names_in_use_def)+
  have "g \<in> kept (drops_in_use ?st) s' \<union> pk_concluded ?st" if "pk_newest st = Some g" for g
  proof -
    have "g \<in> kept (?X \<union> proc_drops c) (pk_files st) \<union> pk_concluded st"
      using inv that ran(1) by (auto simp: key_inv_def drops_in_use_def Un_commute)
    from processes.call_keeps [OF call good ok U(3) concl this] ran(2)
    show ?thesis by (auto simp: drops_in_use_def Un_commute)
  qed
  moreover have "proc_good (pk_concluded ?st) q s'" if "q \<in> ran (pk_procs ?st)" for q
  proof (cases "q = c'")
    case True
    have "proc_good (pk_concluded st) c' s'"
      using processes.call_good [OF call good U(1,2)] ok by (simp add: files_ok_def)
    then show ?thesis unfolding True by (rule processes.good_stable) auto
  next
    case False
    with that ran have q: "q \<in> ran (pk_procs st)" by auto
    with inv have "proc_good (pk_concluded st) q (pk_files st)" by (simp add: key_inv_def)
    then show ?thesis
      by (rule processes.good_stable) (use q processes.call_marks [OF call] in \<open>auto simp: names_in_use_def\<close>)
  qed
  moreover have "files_ok s'" using processes.call_files_ok [OF call good U(1) ok] .
  ultimately show ?thesis by (auto simp: key_inv_def)
qed

text \<open>Steps that move no mark and end no process keep what the processes rely on.\<close>

lemma key_inv_quiet:
  assumes "key_inv st" "files_ok s'" "f_marks s' = f_marks (pk_files st)" "filed s' \<subseteq> H" "pk_concluded st \<subseteq> H"
    and "\<And>g. n = Some g \<Longrightarrow> g \<in> kept (drops_in_use st) s' \<union> H"
  shows "key_inv (st\<lparr>pk_files := s', pk_newest := n, pk_concluded := H\<rparr>)"
proof -
  have "proc_good H c s'" if "c \<in> ran (pk_procs st)" for c
  proof -
    have "proc_good (pk_concluded st) c (pk_files st)" using assms(1) that by (simp add: key_inv_def)
    then show ?thesis by (rule processes.good_stable) (use assms(3,5) in auto)
  qed
  with assms(2,4,6) show ?thesis by (simp add: key_inv_def drops_in_use_def)
qed

lemma key_inv_newest: "key_inv st \<Longrightarrow> pk_newest st = Some g \<Longrightarrow> g \<in> kept (drops_in_use st) (pk_files st) \<union> pk_concluded st"
  by (simp add: key_inv_def)

lemma key_inv_start:
  assumes "key_inv st" "pk_procs st p = None" "proc_drops c = {}" "proc_good (pk_concluded st) c (pk_files st)"
  shows "key_inv (st\<lparr>pk_procs := (pk_procs st)(p \<mapsto> c), pk_lock := l\<rparr>)"
  using assms by (auto simp: key_inv_def drops_in_use_def)

lemma key_inv_lock: "key_inv st \<Longrightarrow> key_inv (st\<lparr>pk_lock := l\<rparr>)"
  by (simp add: key_inv_def drops_in_use_def)

lemma key_inv_stop:
  assumes "key_inv st"
  shows "key_inv (st\<lparr>pk_procs := (pk_procs st)(p := None), pk_lock := l\<rparr>)"
proof -
  have ran: "ran ((pk_procs st)(p := None)) \<subseteq> ran (pk_procs st)" by (auto simp: ran_def split: if_splits)
  then have "drops_in_use (st\<lparr>pk_procs := (pk_procs st)(p := None), pk_lock := l\<rparr>) \<subseteq> drops_in_use st"
    by (auto simp: drops_in_use_def)
  from kept_mono [OF this, THEN subsetD] ran assms show ?thesis by (auto simp: key_inv_def)
qed

lemma key_step_inv:
  assumes "key_step usable key st st'" "key_inv st"
  shows "key_inv st'"
  using assms
proof (cases rule: key_step.cases)
  case (publish_row r g)
  let ?s = "(pk_files st)\<lparr>f_ready := Some r\<rparr>"
  have "key_inv (st\<lparr>pk_files := ?s, pk_newest := Some g, pk_concluded := pk_concluded st\<rparr>)"
    using assms(2) publish_row(3) one_generation_docs [of "pk_files st" ?s]
    by (intro key_inv_quiet) (auto simp: key_inv_def files_ok_def docs_def kept_def)
  with publish_row(1) show ?thesis by simp
next
  case (claim_row r)
  let ?s = "(pk_files st)\<lparr>f_ready := None, f_claimed := Some r\<rparr>"
  have "kept X ?s = kept X (pk_files st)" for X using claim_row by (auto simp: kept_def)
  moreover have "files_ok ?s" using claim_row by (simp add: files_ok_def one_generation_def docs_def)
  moreover have "filed ?s = filed (pk_files st)" by (simp add: filed_def)
  ultimately have "key_inv (st\<lparr>pk_files := ?s, pk_newest := pk_newest st, pk_concluded := pk_concluded st\<rparr>)"
    using assms(2) key_inv_newest [OF assms(2)] by (intro key_inv_quiet) (auto simp: key_inv_def)
  with claim_row(1) show ?thesis by simp
next
  case (rewrite_claim d d')
  let ?s = "(pk_files st)\<lparr>f_claimed := Some d'\<rparr>"
  have ok: "files_ok (pk_files st)" using assms(2) by (simp add: key_inv_def)
  have same: "gen_of e = gen_of d'" if "e \<in> docs (pk_files st)" for e
    using ok rewrite_claim(2,3) that unfolding files_ok_def one_generation_def by metis
  then have "one_generation ?s" unfolding one_generation_def docs_def by auto
  with ok have "files_ok ?s" by (simp add: files_ok_def)
  moreover have "kept X (pk_files st) \<subseteq> kept X ?s" for X using same by (auto simp: kept_def docs_def)
  ultimately have "key_inv (st\<lparr>pk_files := ?s, pk_newest := pk_newest st, pk_concluded := pk_concluded st\<rparr>)"
    using assms(2) key_inv_newest [OF assms(2)] by (intro key_inv_quiet) (auto simp: key_inv_def)
  with rewrite_claim(1) show ?thesis by simp
next
  case (other_files w t hs l)
  let ?s = "(pk_files st)\<lparr>f_lease := l, f_hosts := hs, f_tier := t, f_withdrawn := w\<rparr>"
  have "files_ok ?s = files_ok (pk_files st)" "kept X ?s = kept X (pk_files st)" "filed ?s = filed (pk_files st)" for X
    by (simp_all add: files_ok_def one_generation_def docs_def kept_def filed_def)
  then have "key_inv (st\<lparr>pk_files := ?s, pk_newest := pk_newest st, pk_concluded := pk_concluded st\<rparr>)"
    using assms(2) key_inv_newest [OF assms(2)] by (intro key_inv_quiet) (auto simp: key_inv_def)
  with other_files show ?thesis by simp
next
  case (withdraw g)
  let ?s = "withdraw_ready g (pk_files st)"
  have "files_ok (pk_files st) \<Longrightarrow> files_ok ?s" "f_marks ?s = f_marks (pk_files st)" "filed ?s = filed (pk_files st)"
    by (auto simp: withdraw_ready_def files_ok_def docs_def one_generation_docs split: option.splits)
  moreover have "kept X (pk_files st) \<subseteq> insert g (kept X ?s)" for X
    by (auto simp: withdraw_ready_def kept_def split: option.splits)
  ultimately have "key_inv (st\<lparr>pk_files := ?s, pk_newest := pk_newest st, pk_concluded := insert g (pk_concluded st)\<rparr>)"
    using assms(2) key_inv_newest [OF assms(2)] by (intro key_inv_quiet) (auto simp: key_inv_def)
  with withdraw(1) show ?thesis by simp
next
  case (begin_finish p pl)
  then show ?thesis using assms(2) key_inv_start [of st p "Committing (Entomb pl)" "pk_lock st"] by (simp add: commit_ok_def)
next
  case (begin_locked p pl)
  then show ?thesis using assms(2) key_inv_start [of st p "Committing (Entomb pl)" "Some p"] by (simp add: commit_ok_def)
next
  case (begin_sweep p m)
  then show ?thesis using assms(2) key_inv_start [of st p "Sweeping (Survey m)" "Some p"] by simp
next
  case (take_lock p pl m)
  then show ?thesis using assms(2) key_inv_lock by simp
next
  case (call p c c' s')
  then show ?thesis using assms(2) key_inv_call by simp
next
  case (stop p c)
  then show ?thesis using assms(2) key_inv_stop by simp
qed

lemma key_run_inv: "key_run usable key st \<Longrightarrow> key_inv st"
proof (induction rule: rtranclp_induct)
  case base
  show ?case by (simp add: key_inv_def fresh_key_def no_files_def files_ok_def one_generation_def docs_def filed_def)
next
  case (step st st')
  then show ?case using key_step_inv by blast
qed


section \<open>One conclusion at a time\<close>

fun past_own :: "pc \<Rightarrow> bool" where
  "past_own (Archive_Earlier p m) = True"
| "past_own (Publish p m retired) = True"
| "past_own (Restore p m) = True"
| "past_own (Retire p m) = True"
| "past_own (Restored m) = True"
| "past_own (Unmark m h) = True"
| "past_own _ = False"

fun holds_lock :: "process \<Rightarrow> bool" where
  "holds_lock (Committing c) = (past_own c \<or> (\<exists>p. plan_of c = Some p \<and> p_transition p \<noteq> FINISH))"
| "holds_lock (Sweeping c) = (\<forall>b. c \<noteq> Swept b)"

definition lock_inv :: "pool_key \<Rightarrow> bool" where
  "lock_inv st \<longleftrightarrow>
     (\<forall>p c. pk_procs st p = Some c \<longrightarrow> holds_lock c \<longrightarrow> pk_lock st = Some p) \<and>
     (\<forall>p q c d. pk_procs st p = Some (Committing c) \<longrightarrow> pk_procs st q = Some (Committing d) \<longrightarrow> p \<noteq> q \<longrightarrow>
        pc_names c \<inter> pc_names d = {}) \<and>
     (\<forall>p c pl m. pk_procs st p = Some (Committing c) \<longrightarrow> judged c = Some (pl, m) \<longrightarrow> past_own c \<longrightarrow>
        guarded_publication pl \<longrightarrow> m \<in> mark_names (pk_files st))"

lemma advance_lock:
  assumes "advance usable me now key name flt c s = (c', s')"
  shows "holds_lock (Committing c') \<Longrightarrow> holds_lock (Committing c) \<or> waits_for_lock (Committing c)"
    and "judged c' = Some (pl, m) \<Longrightarrow> past_own c' \<Longrightarrow> guarded_publication pl \<Longrightarrow>
      judged c = Some (pl, m) \<and> dropping c = {} \<and> (past_own c \<or> m \<in> mark_names s)"
proof -
  note defs = entomb_def judge_def link_claimed_def after_tokens_def publish_destination_def publish_failed_def
  show "holds_lock (Committing c') \<Longrightarrow> holds_lock (Committing c) \<or> waits_for_lock (Committing c)"
    using assms by (cases c) (auto simp: defs guarded_publication_def split: option.splits if_splits prod.splits)
  have "map_of (f_marks s) n = Some d \<Longrightarrow> n \<in> mark_names s" for n d by (force simp: mark_names_def dest: map_of_SomeD)
  then show "judged c' = Some (pl, m) \<Longrightarrow> past_own c' \<Longrightarrow> guarded_publication pl \<Longrightarrow>
      judged c = Some (pl, m) \<and> dropping c = {} \<and> (past_own c \<or> m \<in> mark_names s)"
    using assms by (cases c) (auto simp: defs simp del: map_of_eq_Some_iff split: option.splits if_splits sum.splits prod.splits)
qed

lemma sweep_lock: "sweep_advance usable rd flt c s = (c', s') \<Longrightarrow> holds_lock (Sweeping c') \<Longrightarrow> holds_lock (Sweeping c)"
  by (cases c) auto

lemma lock_inv_procs:
  assumes "lock_inv st" "pk_procs st p = Some c" "holds_lock c"
  shows "pk_lock st = Some p"
  using assms unfolding lock_inv_def by blast

lemma drops_hold: "m \<in> proc_drops c \<Longrightarrow> holds_lock c \<or> (\<exists>pl. c = Committing (Put_Back pl m))"
proof (cases c)
  case (Committing d)
  then show "m \<in> proc_drops c \<Longrightarrow> ?thesis" by (cases d) auto
next
  case (Sweeping d)
  then show "m \<in> proc_drops c \<Longrightarrow> ?thesis" by (cases d) auto
qed

lemma lock_inv_call:
  assumes inv: "lock_inv st" and p: "pk_procs st p = Some c" and w: "waits_for_lock c \<longrightarrow> pk_lock st = Some p"
    and call: "proc_call usable key (names_in_use st) c (pk_files st) c' s'"
  shows "lock_inv (st\<lparr>pk_files := s', pk_procs := (pk_procs st)(p \<mapsto> c'), pk_concluded := H\<rparr>)"
proof -
  have names: "proc_names d \<subseteq> names_in_use st" if "pk_procs st q = Some d" for q d
    using that by (auto simp: names_in_use_def intro: ranI)
  have lock: "pk_lock st = Some p" if "holds_lock c'"
  proof -
    have "holds_lock c \<or> waits_for_lock c"
      using call that by (cases c; cases c') (auto simp: commit_call_def sweep_call_def simp del: holds_lock.simps dest: advance_lock(1) sweep_lock)
    then show ?thesis using lock_inv_procs [OF inv p] w by blast
  qed
  have fresh: "pc_names d' \<inter> pc_names e = {}"
    if "c' = Committing d'" "pk_procs st q = Some (Committing e)" "q \<noteq> p" for d' e q
  proof -
    from call that(1) obtain d where d: "c = Committing d" by (cases c) auto
    have "pc_names d' \<subseteq> pc_names d \<union> - names_in_use st" using processes.call_names [OF call] that(1) d by simp
    moreover have "pc_names d \<inter> pc_names e = {}" using inv p d that(2,3) unfolding lock_inv_def by blast
    ultimately show ?thesis using names [OF that(2)] by auto
  qed
  have mark: "m \<in> mark_names s'"
    if q: "((pk_procs st)(p \<mapsto> c')) q = Some (Committing d)" and j: "judged d = Some (pl, m)" "past_own d" "guarded_publication pl" for q d pl m
  proof (cases "q = p")
    case True
    with q have c': "c' = Committing d" by simp
    with call obtain b where b: "c = Committing b" by (cases c) auto
    with call c' obtain me now name flt where "advance usable me now key name flt b (pk_files st) = (d, s')" by (auto simp: commit_call_def)
    from advance_lock(2) [OF this j] have b': "judged b = Some (pl, m)" "dropping b = {}" "past_own b \<or> m \<in> mark_names (pk_files st)" by auto
    then have "m \<in> mark_names (pk_files st)" using inv p b j(3) unfolding lock_inv_def by blast
    then show ?thesis using processes.call_removes [OF call] b b'(2) by (force simp: mark_names_def)
  next
    case False
    with q have q': "pk_procs st q = Some (Committing d)" by simp
    then have m: "m \<in> mark_names (pk_files st)" using inv j unfolding lock_inv_def by blast
    have "m \<notin> proc_drops c"
    proof
      assume "m \<in> proc_drops c"
      then consider "holds_lock c" | pl' where "c = Committing (Put_Back pl' m)" using drops_hold by blast
      then show False
      proof cases
        case 1
        with lock_inv_procs [OF inv p] lock_inv_procs [OF inv q'] j(2) False show ?thesis by simp
      next
        case 2
        have "pc_names (Put_Back pl' m) \<inter> pc_names d = {}" using inv p q' 2 False unfolding lock_inv_def by blast
        with judged_names [OF j(1)] show ?thesis by auto
      qed
    qed
    with m show ?thesis using processes.call_removes [OF call] by (force simp: mark_names_def)
  qed
  show ?thesis unfolding lock_inv_def
  proof (intro conjI allI impI)
    fix q d assume "pk_procs (st\<lparr>pk_files := s', pk_procs := (pk_procs st)(p \<mapsto> c'), pk_concluded := H\<rparr>) q = Some d" "holds_lock d"
    then show "pk_lock (st\<lparr>pk_files := s', pk_procs := (pk_procs st)(p \<mapsto> c'), pk_concluded := H\<rparr>) = Some q"
      using lock lock_inv_procs [OF inv] by (auto split: if_splits)
  next
    fix q r d e
    assume "pk_procs (st\<lparr>pk_files := s', pk_procs := (pk_procs st)(p \<mapsto> c'), pk_concluded := H\<rparr>) q = Some (Committing d)"
      "pk_procs (st\<lparr>pk_files := s', pk_procs := (pk_procs st)(p \<mapsto> c'), pk_concluded := H\<rparr>) r = Some (Committing e)" "q \<noteq> r"
    then show "pc_names d \<inter> pc_names e = {}"
      using fresh [of d r e] fresh [of e q d] inv unfolding lock_inv_def by (auto split: if_splits)
  next
    fix q d pl m
    assume "pk_procs (st\<lparr>pk_files := s', pk_procs := (pk_procs st)(p \<mapsto> c'), pk_concluded := H\<rparr>) q = Some (Committing d)"
      "judged d = Some (pl, m)" "past_own d" "guarded_publication pl"
    then show "m \<in> mark_names (pk_files (st\<lparr>pk_files := s', pk_procs := (pk_procs st)(p \<mapsto> c'), pk_concluded := H\<rparr>))"
      using mark [of q d pl m] by simp
  qed
qed

lemma lock_inv_begin:
  assumes "lock_inv st" "pk_procs st p = None" "pk_lock st = None" "\<forall>d. c = Committing d \<longrightarrow> pc_names d = {} \<and> judged d = None"
  shows "lock_inv (st\<lparr>pk_procs := (pk_procs st)(p \<mapsto> c), pk_lock := Some p\<rparr>)"
  using assms unfolding lock_inv_def by (auto split: if_splits)

lemma key_step_lock:
  assumes "key_step usable key st st'" "lock_inv st"
  shows "lock_inv st'"
  using assms
proof (cases rule: key_step.cases)
  case (withdraw g)
  then show ?thesis using assms(2) by (auto simp: lock_inv_def withdraw_ready_def mark_names_def split: option.splits)
next
  case (begin_finish p pl)
  then show ?thesis using assms(2) by (auto simp: lock_inv_def split: if_splits)
next
  case (begin_locked p pl)
  then show ?thesis using assms(2) lock_inv_begin [of st p "Committing (Entomb pl)"] by simp
next
  case (begin_sweep p m)
  then show ?thesis using assms(2) lock_inv_begin [of st p "Sweeping (Survey m)"] by simp
next
  case (call p c c' s')
  then show ?thesis using assms(2) lock_inv_call by simp
next
  case (stop p c)
  then show ?thesis using assms(2) by (auto simp: lock_inv_def split: if_splits)
qed (auto simp: lock_inv_def mark_names_def)

lemma key_run_lock: "key_run usable key st \<Longrightarrow> lock_inv st"
proof (induction rule: rtranclp_induct)
  case base
  show ?case by (simp add: lock_inv_def fresh_key_def)
next
  case (step st st')
  then show ?case using key_step_lock by blast
qed

text \<open>
  C8: A conclusion is published by the process that owns it. Whenever a finish, or an expiry to a terminal
  state, stands at the publication of its destination, its process holds the key's transition lock, and the
  mark it made of the claim still stands and is the very claim it judged: no recovery took the claim
  away meanwhile.
\<close>

theorem publication_owned:
  assumes "key_run usable key st" "pk_procs st p = Some (Committing (Publish pl m retired))" "guarded_publication pl"
  shows "pk_lock st = Some p \<and> (\<exists>d. (m, d) \<in> set (f_marks (pk_files st)) \<and> same_claim d (p_original pl))"
proof -
  note inv = key_run_lock [OF assms(1)]
  have "m \<in> mark_names (pk_files st)" using inv assms(2,3) unfolding lock_inv_def by force
  then obtain d where "(m, d) \<in> set (f_marks (pk_files st))" by (auto simp: mark_names_def)
  moreover have "commit_ok (pk_concluded st) (Publish pl m retired) (pk_files st)"
    using key_run_inv [OF assms(1)] ranI [of "pk_procs st", OF assms(2)] unfolding key_inv_def by fastforce
  moreover have "pk_lock st = Some p" using lock_inv_procs [OF inv assms(2)] by simp
  ultimately show ?thesis by (auto simp: commit_ok_def)
qed

text \<open>
  At most one generation of a key is claimed or being concluded at a time: under every interleaving the
  claimed record and all finish marks of the key carry the same generation.
\<close>

theorem claims_of_one_generation:
  assumes "key_run usable key st" "d \<in> docs (pk_files st)" "e \<in> docs (pk_files st)"
  shows "gen_of d = gen_of e"
  using key_run_inv [OF assms(1)] assms(2,3) unfolding key_inv_def files_ok_def one_generation_def by blast

section \<open>A run\<close>

text \<open>A worker publishes, claims and finishes a key, and its process dies with the claim moved aside.\<close>

definition life_row :: obj where
  "life_row = [(''published_unix'', JFloat (Fin 7)), (''attempts'', JInt 1)]"

definition life_plan :: plan where
  "life_plan = \<lparr>p_transition = FINISH, p_record = life_row, p_original = life_row, p_holder = Some ''h'',
     p_disposition = ''done'', p_pins = False, p_stopped = False, p_retains = False, p_release_only = False\<rparr>"

definition life_claimed :: pool_key where
  "life_claimed = fresh_key\<lparr>pk_files := no_files\<lparr>f_claimed := Some life_row\<rparr>, pk_newest := Some 7\<rparr>"

definition life_at :: "action_files \<Rightarrow> pc \<Rightarrow> nat option \<Rightarrow> pool_key" where
  "life_at s c lock = life_claimed\<lparr>pk_files := s, pk_procs := [0 \<mapsto> Committing c], pk_lock := lock\<rparr>"

definition life_marked :: action_files where
  "life_marked = no_files\<lparr>f_marks := [(''m'', life_row)]\<rparr>"

lemma life_gen: "gen_of life_row = Some 7" by (simp add: gen_of_def life_row_def get_def dict_get_def)

lemma life_run_claimed: "key_run (\<lambda>_. True) ''k'' life_claimed"
proof -
  let ?s = "fresh_key\<lparr>pk_files := no_files\<lparr>f_ready := Some life_row\<rparr>, pk_newest := Some 7\<rparr>"
  have "key_step (\<lambda>_. True) ''k'' fresh_key ?s"
    using key_step.publish_row [of fresh_key life_row 7 "\<lambda>_. True" "''k''"] life_gen by (simp add: fresh_key_def)
  moreover have "key_step (\<lambda>_. True) ''k'' ?s life_claimed"
    using key_step.claim_row [of ?s life_row "\<lambda>_. True" "''k''"] by (simp add: fresh_key_def no_files_def life_claimed_def)
  ultimately show ?thesis by (meson rtranclp.rtrancl_into_rtrancl rtranclp.rtrancl_refl)
qed

abbreviation life_steps :: "pool_key \<Rightarrow> bool" where
  "life_steps st \<equiv> (key_step (\<lambda>_. True) ''k'')\<^sup>*\<^sup>* life_claimed st"

lemma life_call_step:
  assumes "advance (\<lambda>_. True) ''h'' (JInt 9) ''k'' name Clean c s = (c', s')" "name \<notin> mark_names s \<union> pc_names c"
    and "waits_for_lock (Committing c) \<longrightarrow> lock = Some 0"
  shows "key_step (\<lambda>_. True) ''k'' ((life_at s c lock)\<lparr>pk_concluded := H\<rparr>) ((life_at s' c' lock)\<lparr>pk_concluded := H \<union> filed s'\<rparr>)"
proof -
  let ?st = "(life_at s c lock)\<lparr>pk_concluded := H\<rparr>"
  have "proc_call (\<lambda>_. True) ''k'' (names_in_use ?st) (Committing c) (pk_files ?st) (Committing c') s'"
    using assms(1,2) by (auto simp: commit_call_def names_in_use_def life_at_def)
  from key_step.call [OF _ _ this, of 0] assms(3) show ?thesis
    by (simp add: life_at_def life_claimed_def fresh_key_def)
qed

lemma life_call:
  assumes "life_steps (life_at s c lock)" "advance (\<lambda>_. True) ''h'' (JInt 9) ''k'' name Clean c s = (c', s')"
    and "name \<notin> mark_names s \<union> pc_names c" "filed s' = {}" "waits_for_lock (Committing c) \<longrightarrow> lock = Some 0"
  shows "life_steps (life_at s' c' lock)"
proof -
  have "(life_at x d lock)\<lparr>pk_concluded := {}\<rparr> = life_at x d lock" for x d by (simp add: life_at_def life_claimed_def fresh_key_def)
  then have "key_step (\<lambda>_. True) ''k'' (life_at s c lock) (life_at s' c' lock)"
    using life_call_step [OF assms(2,3,5), of "{}"] assms(4) by simp
  with assms(1) show ?thesis by (rule rtranclp.rtrancl_into_rtrancl)
qed

lemmas life_simps = life_marked_def life_plan_def no_files_def filed_def mark_names_def guarded_publication_def
  terminal_disposition_def legal_destination_def target_of_def after_tokens_def

lemma life_same: "same_claim life_row life_row"
  by (simp add: same_claim_fields life_row_def get_def dict_get_def py_eq_numeric)

lemma life_steps_entomb: "life_steps (life_at (no_files\<lparr>f_claimed := Some life_row\<rparr>) (Entomb life_plan) None)"
proof -
  have "key_step (\<lambda>_. True) ''k'' life_claimed (life_at (no_files\<lparr>f_claimed := Some life_row\<rparr>) (Entomb life_plan) None)"
    using key_step.begin_finish [of life_claimed 0 life_plan "\<lambda>_. True" "''k''"] life_gen
    by (simp add: life_claimed_def life_at_def fresh_key_def life_plan_def plan_ok_def)
  then show ?thesis by blast
qed

lemma life_steps_judge: "life_steps (life_at life_marked (Judge life_plan ''m'') None)"
  by (rule life_call [OF life_steps_entomb, where name = "''m''"]) (simp_all add: life_simps entomb_def)

lemma life_steps_identify: "life_steps (life_at life_marked (Identify life_plan ''m'') None)"
  by (rule life_call [OF life_steps_judge, where name = "''n''"]) (simp_all add: life_simps judge_def life_same)

lemma life_steps_unlease: "life_steps (life_at life_marked (Unlease life_plan ''m'') None)"
  by (rule life_call [OF life_steps_identify, where name = "''n''"]) (simp_all add: life_simps)

lemma life_steps_tokens: "life_steps (life_at life_marked (Return_Tokens life_plan ''m'') None)"
  by (rule life_call [OF life_steps_unlease, where name = "''n''"]) (simp_all add: life_simps)

lemma life_steps_own: "life_steps (life_at life_marked (Own life_plan ''m'') None)"
  by (rule life_call [OF life_steps_tokens, where name = "''n''"]) (simp_all add: life_simps release_reservation_def release_host_def)

lemma life_steps_locked: "life_steps (life_at life_marked (Own life_plan ''m'') (Some 0))"
proof -
  have "key_step (\<lambda>_. True) ''k'' (life_at life_marked (Own life_plan ''m'') None) (life_at life_marked (Own life_plan ''m'') (Some 0))"
    using key_step.take_lock [of "life_at life_marked (Own life_plan ''m'') None" 0 life_plan "''m''" "\<lambda>_. True" "''k''"]
    by (simp add: life_at_def life_claimed_def fresh_key_def)
  with life_steps_own show ?thesis by (rule rtranclp.rtrancl_into_rtrancl)
qed

lemma life_steps_archive: "life_steps (life_at life_marked (Archive_Earlier life_plan ''m'') (Some 0))"
  by (rule life_call [OF life_steps_locked, where name = "''n''"]) (simp_all add: life_simps)

lemma life_steps_publish: "life_steps (life_at life_marked (Publish life_plan ''m'' None) (Some 0))"
  by (rule life_call [OF life_steps_archive, where name = "''n''"])
    (simp_all add: life_simps archive_earlier_terminal_def other_terminal_def)

lemma life_run_publish: "key_run (\<lambda>_. True) ''k'' (life_at life_marked (Publish life_plan ''m'' None) (Some 0))"
  using life_run_claimed life_steps_publish by (rule rtranclp_trans)


theorem publication_owned_witness:
  "pk_lock (life_at life_marked (Publish life_plan ''m'' None) (Some 0)) = Some 0 \<and>
   (\<exists>d. (''m'', d) \<in> set (f_marks life_marked) \<and> same_claim d life_row)"
  using publication_owned [OF life_run_publish, of 0 life_plan "''m''" None]
  by (simp add: life_at_def life_simps)

text \<open>A late heartbeat puts the claimed record back beside the mark.\<close>

definition life_rewritten :: pool_key where
  "life_rewritten = life_at (life_marked\<lparr>f_claimed := Some (put ''heartbeat'' (JInt 9) life_row)\<rparr>) (Publish life_plan ''m'' None) (Some 0)"

lemma life_run_rewritten: "key_run (\<lambda>_. True) ''k'' life_rewritten"
proof -
  let ?st = "life_at life_marked (Publish life_plan ''m'' None) (Some 0)"
  have "key_step (\<lambda>_. True) ''k'' ?st life_rewritten"
    using key_step.rewrite_claim [of life_row ?st "put ''heartbeat'' (JInt 9) life_row" "\<lambda>_. True" "''k''"]
    by (simp add: life_rewritten_def life_at_def life_marked_def docs_def life_claimed_def fresh_key_def)
  with life_run_publish show ?thesis by (rule rtranclp.rtrancl_into_rtrancl)
qed

theorem claims_of_one_generation_witness:
  "put ''heartbeat'' (JInt 9) life_row \<in> docs (pk_files life_rewritten) \<and> life_row \<in> docs (pk_files life_rewritten) \<and>
   gen_of (put ''heartbeat'' (JInt 9) life_row) = gen_of life_row"
  using claims_of_one_generation [OF life_run_rewritten, of "put ''heartbeat'' (JInt 9) life_row" life_row]
  by (simp add: life_rewritten_def life_at_def life_marked_def docs_def del: gen_of_put)

end
