(* ===== verification/Lifecycle_Conclude.thy ===== *)
theory Lifecycle_Conclude
  imports Lifecycle_Machine
begin

text \<open>
  What one conclusion amounts to: a commit without faults files the ending and gives everything back, a commit of
  a claim that is not its own changes nothing that is not its own, and a commit that dies after any call
  is completed or undone by the sweep of its mark.
\<close>

section \<open>A whole commit\<close>

lemma marks_fresh: "m \<notin> mark_names s \<Longrightarrow> filter (\<lambda>(n, _). n \<noteq> m) (f_marks s) = f_marks s"
  by (force simp: mark_names_def intro: filter_True)

lemma commit_claim_calls:
  assumes "f_claimed s = Some d" "legal_destination (p_transition p) (target_of p) = Inr ()" "fails (flt 13) = None"
  shows "commit_claim usable me now key name flt p s =
    run usable me now key name flt (Judge p name) (s\<lparr>f_claimed := None, f_marks := (name, d) # f_marks s\<rparr>)"
  using assms by (simp add: commit_claim_def run_step entomb_def)

definition finish_aside :: "string \<Rightarrow> obj \<Rightarrow> action_files \<Rightarrow> action_files" where
  "finish_aside name d s = s\<lparr>f_claimed := None, f_marks := (name, d) # f_marks s\<rparr>"

definition tokens_returned :: "string \<Rightarrow> string \<Rightarrow> obj \<Rightarrow> plan \<Rightarrow> action_files \<Rightarrow> action_files" where
  "tokens_returned me name d p s =
     release_reservation (release_host me p) (keep_tier p) (p_retains p) ((finish_aside name d s)\<lparr>f_lease := None\<rparr>)"

text \<open>The calls of a guarded conclusion of its own claim, up to the archive of an earlier ending.\<close>

lemma guarded_calls:
  assumes "f_claimed s = Some d" "same_claim d (p_original p)" "guarded_publication p" "terminal_disposition p"
  shows "advance usable me now key name Clean (Entomb p) s = (Judge p name, finish_aside name d s)"
    "advance usable me now key name Clean (Judge p name) (finish_aside name d s) = (Identify p name, finish_aside name d s)"
    "advance usable me now key name Clean (Identify p name) (finish_aside name d s) = (Unlease p name, finish_aside name d s)"
    "advance usable me now key name Clean (Unlease p name) (finish_aside name d s) = (Return_Tokens p name, (finish_aside name d s)\<lparr>f_lease := None\<rparr>)"
    "advance usable me now key name Clean (Return_Tokens p name) ((finish_aside name d s)\<lparr>f_lease := None\<rparr>) = (Own p name, tokens_returned me name d p s)"
    "advance usable me now key name Clean (Own p name) (tokens_returned me name d p s) = (Archive_Earlier p name, tokens_returned me name d p s)"
    "advance usable me now key name Clean (Archive_Earlier p name) (tokens_returned me name d p s) =
       (case archive_earlier_terminal Clean p (tokens_returned me name d p s) of (retired, s') \<Rightarrow> (Publish p name retired, s'))"
proof -
  have disp: "p_disposition p = ''done'' \<or> p_disposition p = ''failed''" using assms(4) by (simp add: terminal_disposition_def)
  have tr: "p_transition p = FINISH \<or> p_transition p = EXPIRE" using assms(3) by (auto simp: guarded_publication_def)
  then have nc: "p_transition p \<noteq> CANCEL" by auto
  have legal: "legal_destination (p_transition p) (target_of p) = Inr ()"
    using tr disp by (auto simp: legal_destination_def target_of_def)
  have marks: "map_of (f_marks (finish_aside name d s)) name = Some d" "map_of (f_marks (tokens_returned me name d p s)) name = Some d"
    by (simp_all add: tokens_returned_def finish_aside_def release_reservation_def)
  show "advance usable me now key name Clean (Entomb p) s = (Judge p name, finish_aside name d s)"
    using legal assms(1) by (simp add: entomb_def finish_aside_def)
  show "advance usable me now key name Clean (Judge p name) (finish_aside name d s) = (Identify p name, finish_aside name d s)"
    using assms(2,3) marks by (simp add: judge_def)
  show "advance usable me now key name Clean (Identify p name) (finish_aside name d s) = (Unlease p name, finish_aside name d s)"
    using marks by simp
  show "advance usable me now key name Clean (Unlease p name) (finish_aside name d s) = (Return_Tokens p name, (finish_aside name d s)\<lparr>f_lease := None\<rparr>)"
    by simp
  show "advance usable me now key name Clean (Return_Tokens p name) ((finish_aside name d s)\<lparr>f_lease := None\<rparr>) = (Own p name, tokens_returned me name d p s)"
    using assms(3) nc by (simp add: after_tokens_def tokens_returned_def)
  show "advance usable me now key name Clean (Own p name) (tokens_returned me name d p s) = (Archive_Earlier p name, tokens_returned me name d p s)"
    using marks by simp
  show "advance usable me now key name Clean (Archive_Earlier p name) (tokens_returned me name d p s) =
       (case archive_earlier_terminal Clean p (tokens_returned me name d p s) of (retired, s') \<Rightarrow> (Publish p name retired, s'))"
    using tr assms(4) by auto
qed

lemma commit_to_publish:
  assumes "f_claimed s = Some d" "same_claim d (p_original p)" "guarded_publication p" "terminal_disposition p"
    and "archive_earlier_terminal Clean p (tokens_returned me name d p s) = (retired, s')"
  shows "commit_claim usable me now key name (\<lambda>_. Clean) p s = run usable me now key name (\<lambda>_. Clean) (Publish p name retired) s'"
  using assms(5) by (simp add: commit_claim_def run_step guarded_calls [OF assms(1-4)] del: advance.simps)

text \<open>
  C10: A finish, or an expiry to a terminal state, that meets no fault and its own claim files the ending and
  leaves nothing behind: the claim, its mark and its lease are gone, the holder's tokens are returned, the
  record stands in the chosen state, and the other state keeps a record only of the same generation; one of an
  earlier generation is archived.
\<close>

theorem commit_claim_files_ending:
  assumes "f_claimed s = Some d" "same_claim d (p_original p)" "guarded_publication p" "terminal_disposition p"
    and "name \<notin> mark_names s"
  shows "\<exists>s' r. commit_claim usable me now key name (\<lambda>_. Clean) p s = (Inr (Some (terminal_home p)), s') \<and>
    f_claimed s' = None \<and> f_lease s' = None \<and> f_marks s' = f_marks s \<and> f_ready s' = f_ready s \<and>
    f_hosts s' = (case release_host me p of None \<Rightarrow> f_hosts s | Some h \<Rightarrow> filter (\<lambda>g. g \<noteq> h) (f_hosts s)) \<and>
    f_tier s' = (f_tier s \<and> (keep_tier p \<or> p_retains p)) \<and>
    slot_of (p_disposition p) s' = Some r \<and> gen_of r = gen_of (p_record p) \<and>
    (case other_terminal (p_disposition p) s of
       None \<Rightarrow> other_terminal (p_disposition p) s' = None \<and> f_evidence s' = f_evidence s
     | Some prior \<Rightarrow>
         if py_eq (get ''published_unix'' prior) (get ''published_unix'' (p_record p))
         then other_terminal (p_disposition p) s' = Some prior \<and> f_evidence s' = f_evidence s
         else other_terminal (p_disposition p) s' = None \<and>
           (\<exists>kind a. f_evidence s' = (kind, a) # f_evidence s \<and> gen_of a = gen_of prior))"
proof -
  let ?s3 = "tokens_returned me name d p s"
  have disp: "p_disposition p = ''done'' \<or> p_disposition p = ''failed''" using assms(4) by (simp add: terminal_disposition_def)
  have s3: "f_claimed ?s3 = None" "f_lease ?s3 = None" "f_marks ?s3 = (name, d) # f_marks s" "f_ready ?s3 = f_ready s"
    "f_hosts ?s3 = (case release_host me p of None \<Rightarrow> f_hosts s | Some h \<Rightarrow> filter (\<lambda>g. g \<noteq> h) (f_hosts s))"
    "f_tier ?s3 = (f_tier s \<and> (keep_tier p \<or> p_retains p))" "f_evidence ?s3 = f_evidence s"
    "f_done ?s3 = f_done s" "f_failed ?s3 = f_failed s"
    by (simp_all add: tokens_returned_def finish_aside_def release_reservation_def split: option.split)
  have other: "other_terminal (p_disposition p) ?s3 = other_terminal (p_disposition p) s" by (simp add: other_terminal_def s3)
  note publish = commit_to_publish [OF assms(1-4), where usable = usable and me = me and now = now and key = key and name = name]
  note marks = marks_fresh [OF assms(5)]
  note files = run_step publish_destination_def with_supersedes_def file_terminal_def drop_mark_def retire_terminal_def slot_of_def
    terminal_home_def other_terminal_def s3 marks assms(4)
  show ?thesis
  proof (cases "\<exists>prior. other_terminal (p_disposition p) s = Some prior \<and> \<not> py_eq (get ''published_unix'' prior) (get ''published_unix'' (p_record p))")
    case True
    then obtain prior where prior: "other_terminal (p_disposition p) s = Some prior"
      "\<not> py_eq (get ''published_unix'' prior) (get ''published_unix'' (p_record p))" by blast
    then obtain kind a summary where arch: "archive_earlier_terminal Clean p ?s3 = (Some summary, file_superseded kind a ?s3)" "gen_of a = gen_of prior"
      by (simp add: archive_earlier_terminal_def other)
    show ?thesis using disp prior arch(2) unfolding publish [OF arch(1)]
      by (elim disjE) (simp_all add: files file_superseded_def)
  next
    case False
    then have "archive_earlier_terminal Clean p ?s3 = (None, ?s3)"
      by (auto simp: archive_earlier_terminal_def other split: option.splits)
    from publish [OF this] show ?thesis using disp False
      by (elim disjE) (auto simp: files split: option.splits)
  qed
qed

text \<open>
  C11: A commit that finds another claim than the one it judged leaves it alone, whatever calls fail: the lease, the
  tokens, the ready row and the terminal records stand as they were, and the claim is back under
  \<open>claimed/\<close> or kept in the mark the sweep recovers.
\<close>

theorem commit_claim_spares_foreign:
  assumes "f_claimed s = Some d" "\<not> same_claim d (p_original p)" "name \<notin> mark_names s"
    and "commit_claim usable me now key name flt p s = (res, s')"
  shows "s' = s \<or> s' = s\<lparr>f_claimed := None, f_marks := (name, d) # f_marks s\<rparr> \<or> s' = s\<lparr>f_marks := (name, d) # f_marks s\<rparr>"
proof (cases "legal_destination (p_transition p) (target_of p) = Inr () \<and> fails (flt 13) = None")
  case False
  then show ?thesis using assms(1,4) by (auto simp: commit_claim_def run_step entomb_def split: if_splits)
next
  case True
  have "s\<lparr>f_claimed := Some d, f_marks := ms\<rparr> = s\<lparr>f_marks := ms\<rparr>" for ms using assms(1) by simp
  moreover have "s\<lparr>f_marks := f_marks s\<rparr> = s" by simp
  ultimately show ?thesis
    using assms commit_claim_calls [OF assms(1), of p flt usable me now key name] True marks_fresh [OF assms(3)]
    by (auto simp: run_step judge_def link_claimed_def drop_mark_def split: option.splits)
qed

section \<open>Recovery\<close>

text \<open>One mark swept to the end by one process, \<open>flt n\<close> being what happens to the call with \<open>n\<close> calls left.\<close>

fun sweep_left :: "sweep_pc \<Rightarrow> nat" where
  "sweep_left (Survey m) = 8"
| "sweep_left (Relink m succ) = 7"
| "sweep_left (Relinked m) = 1"
| "sweep_left (Cleanup m ending succ) = 6"
| "sweep_left (History m ending succ) = 5"
| "sweep_left (Supersede m succ) = 4"
| "sweep_left (Evidence m) = 3"
| "sweep_left (Filed m) = 2"
| "sweep_left (Swept b) = 0"

lemma sweep_nearer: "sweep_left c \<noteq> 0 \<Longrightarrow> sweep_left (fst (sweep_advance usable rd flt c s)) < sweep_left c"
  by (cases c) (auto simp: surveyed_def split: option.splits prod.splits sweep_verdict.splits)

function sweep_run ::
  "(obj \<Rightarrow> bool) \<Rightarrow> sweep_reads \<Rightarrow> (nat \<Rightarrow> fault) \<Rightarrow> sweep_pc \<Rightarrow> action_files \<Rightarrow> bool \<times> action_files" where
  "sweep_run usable rd flt c s =
     (case c of
        Swept b \<Rightarrow> (b, s)
      | _ \<Rightarrow> (case sweep_advance usable rd (flt (sweep_left c)) c s of (c', s') \<Rightarrow> sweep_run usable rd flt c' s'))"
  by pat_completeness auto
termination
proof (relation "measure (\<lambda>(_, _, _, c, _). sweep_left c)", goal_cases)
  case 1
  show ?case by simp
qed (use sweep_nearer in \<open>metis (no_types, lifting) sweep_left.simps fst_conv in_measure case_prod_conv zero_neq_numeral zero_neq_one\<close>)+

declare sweep_run.simps [simp del]

lemma sweep_run_Swept [simp]: "sweep_run usable rd flt (Swept b) s = (b, s)"
  by (simp add: sweep_run.simps)

lemma sweep_run_step:
  "sweep_left c \<noteq> 0 \<Longrightarrow> sweep_run usable rd flt c s =
     (case sweep_advance usable rd (flt (sweep_left c)) c s of (c', s') \<Rightarrow> sweep_run usable rd flt c' s')"
  by (subst sweep_run.simps) (simp split: sweep_pc.split)

definition sweep_mark :: "(obj \<Rightarrow> bool) \<Rightarrow> sweep_reads \<Rightarrow> (nat \<Rightarrow> fault) \<Rightarrow> string \<Rightarrow> action_files \<Rightarrow> bool \<times> action_files" where
  "sweep_mark usable rd flt m s = sweep_run usable rd flt (Survey m) s"

text \<open>A process that dies after \<open>n\<close> calls.\<close>

fun stopped_after ::
  "(obj \<Rightarrow> bool) \<Rightarrow> string \<Rightarrow> json \<Rightarrow> string \<Rightarrow> string \<Rightarrow> nat \<Rightarrow> pc \<Rightarrow> action_files \<Rightarrow> action_files" where
  "stopped_after usable me now key name 0 c s = s"
| "stopped_after usable me now key name (Suc n) c s =
     (case advance usable me now key name Clean c s of (c', s') \<Rightarrow> stopped_after usable me now key name n c' s')"

text \<open>The states a death may leave.\<close>

definition leftovers ::
  "(obj \<Rightarrow> bool) \<Rightarrow> string \<Rightarrow> json \<Rightarrow> string \<Rightarrow> string \<Rightarrow> pc \<Rightarrow> action_files \<Rightarrow> action_files set" where
  "leftovers usable me now key name c s = range (\<lambda>n. stopped_after usable me now key name n c s)"

lemma leftovers_Ended [simp]: "leftovers usable me now key name (Ended r) s = {s}"
proof -
  have "stopped_after usable me now key name n (Ended r) s = s" for n by (induction n) simp_all
  then show ?thesis by (auto simp: leftovers_def)
qed

lemma range_nat: "range f = insert (f 0) (range (\<lambda>n. f (Suc n)))"
proof (intro equalityI subsetI)
  fix x assume "x \<in> range f"
  then obtain n where "x = f n" by blast
  then show "x \<in> insert (f 0) (range (\<lambda>n. f (Suc n)))" by (cases n) auto
qed auto

lemma leftovers_step:
  assumes "advance usable me now key name Clean c s = (c', s')"
  shows "leftovers usable me now key name c s = insert s (leftovers usable me now key name c' s')"
  using assms unfolding leftovers_def by (subst range_nat) simp

lemma leftovers_commit:
  assumes own: "f_claimed s = Some d" "same_claim d (p_original p)" "guarded_publication p" "terminal_disposition p"
    and "other_terminal (p_disposition p) s = None"
  shows "leftovers usable me now key name (Entomb p) s =
    {s, finish_aside name d s, (finish_aside name d s)\<lparr>f_lease := None\<rparr>, tokens_returned me name d p s,
     file_terminal p (p_record p) (tokens_returned me name d p s), drop_mark name (file_terminal p (p_record p) (tokens_returned me name d p s))}"
proof -
  let ?s3 = "tokens_returned me name d p s"
  have "other_terminal (p_disposition p) ?s3 = None"
    using assms(5) by (simp add: other_terminal_def tokens_returned_def finish_aside_def release_reservation_def split: if_splits)
  then have none: "archive_earlier_terminal Clean p ?s3 = (None, ?s3)" by (simp add: archive_earlier_terminal_def)
  have "advance usable me now key name Clean (Publish p name None) ?s3 = (Unmark name (terminal_home p), file_terminal p (p_record p) ?s3)"
    using own(4) by (simp add: publish_destination_def with_supersedes_def)
  moreover have "advance usable me now key name Clean (Unmark name (terminal_home p)) x = (Ended (Inr (Some (terminal_home p))), drop_mark name x)" for x
    by simp
  ultimately show ?thesis using guarded_calls [OF own, of usable me now key name] none
    by (auto simp: leftovers_step simp del: advance.simps)
qed

text \<open>The reads of a sweep that finds nothing else of the generation and can complete the cleanup.\<close>

definition plain_reads :: "sweep_reads \<Rightarrow> bool" where
  "plain_reads rd \<longleftrightarrow> sr_withdrawn rd = Inr False \<and> sr_links rd = Links_Verified \<and> sr_cleanup rd"

definition unended :: "obj \<Rightarrow> action_files \<Rightarrow> bool" where
  "unended d s \<longleftrightarrow> f_ready s = None \<and> terminal_outcome_covers (Some d) s = Inr None \<and>
     publication_ending s (get ''published_unix'' d) = None"

lemma covers_same:
  "f_done s' = f_done s \<Longrightarrow> f_failed s' = f_failed s \<Longrightarrow> terminal_outcome_covers r s' = terminal_outcome_covers r s"
  by (simp add: terminal_outcome_covers_def split: option.split)

lemma sweep_puts_back:
  assumes "plain_reads rd" "unended d s" "f_claimed s = None" "f_marks s = [(m, d)]"
  shows "sweep_mark usable rd (\<lambda>_. Clean) m s = (True, s\<lparr>f_claimed := Some d, f_marks := []\<rparr>)"
proof -
  have "covered_by usable rd (Some d) s = Inr (False, None)"
    using assms by (simp add: covered_by_def plain_reads_def unended_def)
  then have "survey usable rd m s = Put_Back_Claim"
    using assms by (simp add: survey_def plain_reads_def unended_def)
  then show ?thesis using assms(3,4) by (simp add: sweep_mark_def sweep_run_step surveyed_def drop_mark_def)
qed

lemma sweep_completes:
  assumes "plain_reads rd" "f_ready s = None" "f_claimed s = None" "f_marks s = [(m, d)]" "f_hosts s = []" "f_lease s = None"
    and "terminal_outcome_covers (Some d) s = Inr (Some (state, r))" "get ''supersedes_terminal'' r = JNull"
  shows "sweep_mark usable rd (\<lambda>_. Clean) m s =
    (True, s\<lparr>f_evidence := (''finish-tombstone'', put ''status'' (JStr ''dropped'') d) # f_evidence s, f_marks := []\<rparr>)"
proof -
  have "covered_by usable rd (Some d) s = Inr (True, None)"
    using assms(1,2,7) by (simp add: covered_by_def plain_reads_def)
  then have "survey usable rd m s = File_Evidence (Some r) None"
    using assms(2,3,4,7) by (simp add: survey_def ending_of_def)
  moreover have "finish_cleanup rd Clean (Some d) s = (True, s)"
    using assms(1,3,5,6) by (simp add: finish_cleanup_def plain_reads_def holder_agrees_def drop_own_lease_def)
  ultimately show ?thesis using assms(4,8)
    by (simp add: sweep_mark_def sweep_run_step surveyed_def retire_recorded_terminal_def file_superseded_def drop_mark_def)
qed


section \<open>Samples\<close>

definition life_files :: action_files where
  "life_files = no_files\<lparr>f_claimed := Some life_row, f_lease := Some [(''owner'', JStr ''w'')], f_hosts := [''h''],
     f_failed := Some [(''published_unix'', JFloat (Fin 3))]\<rparr>"

definition life_reads :: sweep_reads where
  "life_reads = \<lparr>sr_withdrawn = Inr False, sr_archived = Inr False, sr_links = Links_Verified, sr_cleanup = True,
     sr_pins = False, sr_verified = True, sr_disposition = ''done''\<rparr>"

theorem commit_claim_files_ending_witness:
  "f_failed (snd (commit_claim (\<lambda>_. True) ''h'' (JInt 9) ''k'' ''m'' (\<lambda>_. Clean) life_plan life_files)) = None \<and>
   f_hosts (snd (commit_claim (\<lambda>_. True) ''h'' (JInt 9) ''k'' ''m'' (\<lambda>_. Clean) life_plan life_files)) = []"
  using commit_claim_files_ending [of life_files life_row life_plan "''m''" "\<lambda>_. True" "''h''" "JInt 9" "''k''"] life_same
  by (auto simp: life_files_def life_simps other_terminal_def release_host_def life_row_def get_def dict_get_def py_eq_numeric)

lemma life_files_claim: "f_claimed life_files = Some life_row" "mark_names life_files = {}"
  by (simp_all add: life_files_def mark_names_def no_files_def)

lemma life_foreign: "\<not> same_claim life_row []"
  by (simp add: same_claim_fields life_row_def get_def dict_get_def py_eq_numeric)

theorem commit_claim_spares_foreign_witness:
  "f_lease (snd (commit_claim (\<lambda>_. True) ''h'' (JInt 9) ''k'' ''m'' (\<lambda>_. Clean) (life_plan\<lparr>p_original := []\<rparr>) life_files)) = f_lease life_files \<and>
   f_hosts (snd (commit_claim (\<lambda>_. True) ''h'' (JInt 9) ''k'' ''m'' (\<lambda>_. Clean) (life_plan\<lparr>p_original := []\<rparr>) life_files)) = f_hosts life_files"
proof -
  obtain res s' where c: "commit_claim (\<lambda>_. True) ''h'' (JInt 9) ''k'' ''m'' (\<lambda>_. Clean) (life_plan\<lparr>p_original := []\<rparr>) life_files = (res, s')"
    by (rule prod.exhaust)
  from commit_claim_spares_foreign [OF life_files_claim(1) _ _ c] life_foreign life_files_claim(2) c show ?thesis by auto
qed

lemma life_crashed:
  "f_marks (stopped_after (\<lambda>_. True) ''h'' (JInt 9) ''k'' ''m'' 8 (Entomb life_plan) (life_files\<lparr>f_failed := None\<rparr>)) = [(''m'', life_row)]"
  by code_simp


end
