(* ===== verification/Attempt_Archive.thy ===== *)
theory Attempt_Archive
  imports Lifecycle_Facts
begin

text \<open>
  The immutable attempts of one publication (\<open>archive_attempt\<close>, \<open>attempt_outcomes\<close> and \<open>attempt_ending\<close> of \<open>pool.py\<close>):
  what a conclusion files before the queue record moves, and what every later reader accepts of it.
\<close>

section \<open>The archive of a publication\<close>

text \<open>
  \<open>ad_outcomes\<close> are the numbered outcomes of one action key and generation, \<open>ad_logs\<close> the logs by their path,
  a text standing for its bytes.
\<close>

record attempt_dir =
  ad_outcomes :: "(int, obj) dict"
  ad_logs :: "(string, string) dict"

text \<open>
  What the archive asks of other code: the paths of outcomes and logs below this key and generation, SHA-256,
  the repository tag of a row, the validated scratch evidence of a record added to the details, and the proof
  that an output fence was spent (\<open>_spent_output_retry_stop\<close>).
\<close>

record archive_env =
  ae_path :: "int \<Rightarrow> string"
  ae_log_path :: "int \<Rightarrow> string \<Rightarrow> string \<Rightarrow> string"
  ae_sha :: "string \<Rightarrow> string"
  ae_repository :: "obj \<Rightarrow> string"
  ae_evidence :: "obj \<Rightarrow> obj \<Rightarrow> obj result"
  ae_retry_stop :: "obj \<Rightarrow> obj option"

definition pool_attempt_schema :: string where
  "pool_attempt_schema = ''prismaquant.prismabuild.pool_attempt.v1''"

definition default_max_attempts :: int where
  "default_max_attempts = 3"

section \<open>Reading the history\<close>

definition history_of :: "obj \<Rightarrow> json list result" where
  "history_of r = (case dict_get r ''attempt_history'' (JArr []) of JArr xs \<Rightarrow> Inr xs | _ \<Rightarrow> Inl PoolContractError)"

definition missing_before :: "obj \<Rightarrow> int result" where
  "missing_before r =
     (case dict_get r ''attempt_history_missing_before'' (JInt 0) of
        JInt n \<Rightarrow> if n < 0 then Inl PoolContractError else Inr n
      | _ \<Rightarrow> Inl PoolContractError)"

fun links_ok :: "(int \<Rightarrow> string) \<Rightarrow> int \<Rightarrow> json list \<Rightarrow> bool" where
  "links_ok path n [] = True"
| "links_ok path n (JObj l # ls) = (get ''attempt'' l = JInt n \<and> get ''outcome'' l = JStr (path n) \<and> links_ok path (n + 1) ls)"
| "links_ok path n (_ # ls) = False"

definition attempt_history_links :: "(int \<Rightarrow> string) \<Rightarrow> obj \<Rightarrow> (int \<times> nat) result" where
  "attempt_history_links path r =
     (case (history_of r, missing_before r, get ''attempts'' r) of
        (Inr ls, Inr missing, JInt n) \<Rightarrow>
          if 0 \<le> n \<and> n = missing + int (length ls) \<and> links_ok path (missing + 1) ls
          then Inr (missing, length ls) else Inl PoolContractError
      | _ \<Rightarrow> Inl PoolContractError)"

definition preemption_context :: "obj \<Rightarrow> obj" where
  "preemption_context r =
     map (\<lambda>field. (field, get field r)) [''preempted_by'', ''supersedes_withdrawal'', ''attempt_history_missing_before'']"

text \<open>\<open>_bind_linked_attempt\<close>: what an attempt must restate of the record that links it.\<close>

definition bind_linked_attempt :: "obj \<Rightarrow> obj \<Rightarrow> int \<Rightarrow> bool" where
  "bind_linked_attempt r v n \<longleftrightarrow>
     get ''schema'' v = JStr pool_attempt_schema \<and> py_eq (get ''action_key'' v) (get ''action_key'' r) \<and>
     get ''attempt'' v = JInt n \<and>
     (case (get ''max_attempts'' v, dict_get r ''max_attempts'' (JInt default_max_attempts)) of (JInt i, JInt j) \<Rightarrow> i = j | _ \<Rightarrow> False) \<and>
     py_eq (get ''retry_safe'' v) (get ''retry_safe'' r) \<and> py_eq (get ''retry_scope'' v) (get ''retry_scope'' r) \<and>
     publication_generation (get ''published_unix'' v) \<noteq> None \<and>
     publication_generation (get ''published_unix'' v) = publication_generation (get ''published_unix'' r) \<and>
     (has_key ''served_from'' v \<longrightarrow> get ''served_from'' v \<in> {JStr ''canonical'', JStr ''local''}) \<and>
     (has_key ''preemption_context'' v \<longrightarrow> py_eq (get ''preemption_context'' v) (JObj (preemption_context r)))"

definition read_log :: "archive_env \<Rightarrow> int \<Rightarrow> string \<Rightarrow> obj \<Rightarrow> (string, string) dict \<Rightarrow> string option" where
  "read_log env n stream metadata logs =
     (case (get ''sha256'' metadata, get ''bytes'' metadata) of
        (JStr digest, JInt i) \<Rightarrow>
          if get ''path'' metadata \<noteq> JStr (ae_log_path env n stream digest) then None
          else (case map_of logs (ae_log_path env n stream digest) of
             None \<Rightarrow> None
           | Some bytes \<Rightarrow> if i = int (length bytes) \<and> digest = ae_sha env bytes then Some bytes else None)
      | _ \<Rightarrow> None)"

definition expand_stream :: "archive_env \<Rightarrow> int \<Rightarrow> (string, string) dict \<Rightarrow> obj \<Rightarrow> string \<Rightarrow> obj \<Rightarrow> obj option" where
  "expand_stream env n logs raw stream v =
     (case get stream raw of
        JObj metadata \<Rightarrow> map_option (\<lambda>bytes. put stream (JStr bytes) v) (read_log env n stream metadata logs)
      | _ \<Rightarrow> None)"

definition expand_logs :: "archive_env \<Rightarrow> int \<Rightarrow> (string, string) dict \<Rightarrow> obj \<Rightarrow> obj option" where
  "expand_logs env n logs v =
     (case get ''logs'' v of
        JObj raw \<Rightarrow> Option.bind (expand_stream env n logs raw ''stdout'' v) (expand_stream env n logs raw ''stderr'')
      | _ \<Rightarrow> None)"

definition linked_outcome :: "archive_env \<Rightarrow> obj \<Rightarrow> int \<Rightarrow> attempt_dir \<Rightarrow> obj result" where
  "linked_outcome env r n st =
     (case map_of (ad_outcomes st) n of
        None \<Rightarrow> Inl (OSError ENOENT)
      | Some v \<Rightarrow>
          if \<not> bind_linked_attempt r v n then Inl PoolContractError
          else (case expand_logs env n (ad_logs st) v of None \<Rightarrow> Inl PoolContractError | Some e \<Rightarrow> Inr e))"

fun outcomes_from :: "archive_env \<Rightarrow> obj \<Rightarrow> attempt_dir \<Rightarrow> int \<Rightarrow> nat \<Rightarrow> obj list result" where
  "outcomes_from env r st n 0 = Inr []"
| "outcomes_from env r st n (Suc k) =
     (case linked_outcome env r n st of
        Inl e \<Rightarrow> Inl e
      | Inr v \<Rightarrow> (case outcomes_from env r st (n + 1) k of Inl e \<Rightarrow> Inl e | Inr vs \<Rightarrow> Inr (v # vs)))"

definition attempt_outcomes :: "archive_env \<Rightarrow> obj \<Rightarrow> attempt_dir \<Rightarrow> obj list result" where
  "attempt_outcomes env r st =
     (case attempt_history_links (ae_path env) r of
        Inl e \<Rightarrow> Inl e
      | Inr (missing, k) \<Rightarrow> outcomes_from env r st (missing + 1) k)"

text \<open>\<open>attempt_ending\<close>: an unreadable history is the reader's error, else the last attempt decides.\<close>

definition attempt_ending ::
  "(json \<Rightarrow> string) \<Rightarrow> (json \<Rightarrow> obj \<Rightarrow> bool) \<Rightarrow> archive_env \<Rightarrow> obj \<Rightarrow> attempt_dir \<Rightarrow> attempt_fault + transition" where
  "attempt_ending str_of valid_stop env r st =
     (case attempt_outcomes env r st of Inl e \<Rightarrow> Inl (Escaped e) | Inr vs \<Rightarrow> resolve_attempt str_of valid_stop vs)"

section \<open>Filing an attempt\<close>

definition attempt_link :: "(int \<Rightarrow> string) \<Rightarrow> int \<Rightarrow> json" where
  "attempt_link path n = JObj [(''attempt'', JInt n), (''outcome'', JStr (path n))]"

definition stream_value :: "obj \<Rightarrow> string \<Rightarrow> string result" where
  "stream_value details stream =
     (case get stream details of JNull \<Rightarrow> Inr [] | JStr t \<Rightarrow> Inr t | _ \<Rightarrow> Inl PoolContractError)"

definition log_metadata :: "archive_env \<Rightarrow> int \<Rightarrow> string \<Rightarrow> string \<Rightarrow> json" where
  "log_metadata env n stream bytes =
     JObj [(''path'', JStr (ae_log_path env n stream (ae_sha env bytes))), (''bytes'', JInt (int (length bytes))), (''sha256'', JStr (ae_sha env bytes))]"

text \<open>\<open>str(record.get("action_key") or "")\<close>; a key is text.\<close>

definition key_text :: "obj \<Rightarrow> json" where
  "key_text r = (case get ''action_key'' r of JStr k \<Rightarrow> JStr k | _ \<Rightarrow> JStr [])"

definition attempt_outcome ::
  "archive_env \<Rightarrow> obj \<Rightarrow> int \<Rightarrow> int \<Rightarrow> string \<Rightarrow> string \<Rightarrow> bool \<Rightarrow> obj \<Rightarrow> string \<Rightarrow> string \<Rightarrow> obj option \<Rightarrow> obj" where
  "attempt_outcome env r n max_attempts status disposition worker_reported details out err stop =
     [(''schema'', JStr pool_attempt_schema), (''action_key'', key_text r),
      (''published_unix'', get ''published_unix'' r), (''published_by'', get ''published_by'' r),
      (''tested_repository'', JStr (ae_repository env r)), (''attempt'', JInt n), (''max_attempts'', JInt max_attempts),
      (''retry_safe'', get ''retry_safe'' r), (''status'', JStr status), (''disposition'', JStr disposition),
      (''claimed_by'', get ''claimed_by'' r), (''claimed_unix'', get ''claimed_unix'' r), (''claimed_host'', get ''claimed_host'' r),
      (''served_from'', JStr ''canonical''), (''resident_set'', get ''resident_set'' r),
      (''finished_unix'', get ''finished_unix'' r), (''finished_host'', get ''finished_host'' r),
      (''detail'', JObj details), (''logs'', JObj [(''stdout'', log_metadata env n ''stdout'' out), (''stderr'', log_metadata env n ''stderr'' err)])]
     @ (if get ''retry_scope'' r \<noteq> JNull
        then (''retry_scope'', get ''retry_scope'' r) # (if worker_reported then [(''worker_reported'', JBool True)] else []) else [])
     @ (if has_key ''phases'' r then [(''phases'', get ''phases'' r)] else [])
     @ (case stop of None \<Rightarrow> [] | Some x \<Rightarrow> [(''output_retry_stop'', JObj x)])
     @ (if get ''preempted_by'' r \<noteq> JNull \<and> (case get ''attempt_history_missing_before'' r of JInt i \<Rightarrow> 0 < i | _ \<Rightarrow> False)
        then [(''preemption_context'', JObj (preemption_context r))] else [])"

text \<open>The first writer of a path stays.\<close>

definition file_if_absent :: "'k \<Rightarrow> 'v \<Rightarrow> ('k, 'v) dict \<Rightarrow> ('k, 'v) dict" where
  "file_if_absent k v d = (if map_of d k = None then (k, v) # d else d)"

definition file_attempt ::
  "archive_env \<Rightarrow> obj \<Rightarrow> int \<Rightarrow> int \<Rightarrow> string \<Rightarrow> string \<Rightarrow> bool \<Rightarrow> obj \<Rightarrow> attempt_dir \<Rightarrow> attempt_dir result" where
  "file_attempt env r n max_attempts status disposition worker_reported details st =
     (case (stream_value details ''stdout'', stream_value details ''stderr'') of
        (Inr out, Inr err) \<Rightarrow>
          (let stop = (if succeeded status \<or> status = ''withdrawn'' then None else ae_retry_stop env r);
               final = (if stop = None then disposition else ''failed'');
               rest = drop_key ''stderr'' (drop_key ''stdout'' details);
               outcome = attempt_outcome env r n max_attempts status final worker_reported rest out err stop in
           Inr \<lparr>ad_outcomes = file_if_absent n outcome (ad_outcomes st),
             ad_logs = file_if_absent (ae_log_path env n ''stderr'' (ae_sha env err)) err
               (file_if_absent (ae_log_path env n ''stdout'' (ae_sha env out)) out (ad_logs st))\<rparr>)
      | (Inl e, _) \<Rightarrow> Inl e
      | (_, Inl e) \<Rightarrow> Inl e)"

definition attempt_details :: "archive_env \<Rightarrow> obj \<Rightarrow> obj \<Rightarrow> obj result" where
  "attempt_details env r detail =
     (case ae_evidence env r detail of
        Inl e \<Rightarrow> Inl e
      | Inr d \<Rightarrow> Inr (case get ''local_scratch_io_placement'' r of JObj p \<Rightarrow> put ''local_scratch_io_placement'' (JObj p) d | _ \<Rightarrow> d))"

text \<open>The guards on status, disposition, retry safety and bound.\<close>

definition attempt_bound :: "obj \<Rightarrow> string \<Rightarrow> string \<Rightarrow> int result" where
  "attempt_bound r status disposition =
     (if status = [] \<or> disposition = [] then Inl PoolContractError
      else if (case get ''retry_safe'' r of JNull \<Rightarrow> False | JBool _ \<Rightarrow> False | _ \<Rightarrow> True) then Inl PoolContractError
      else case dict_get r ''max_attempts'' (JInt default_max_attempts) of
        JInt i \<Rightarrow> if i < 1 then Inl PoolContractError else Inr i
      | _ \<Rightarrow> Inl PoolContractError)"

definition archive_new ::
  "archive_env \<Rightarrow> obj \<Rightarrow> int \<Rightarrow> string \<Rightarrow> string \<Rightarrow> obj \<Rightarrow> bool \<Rightarrow> json list \<Rightarrow> attempt_dir \<Rightarrow> json list result \<times> attempt_dir" where
  "archive_new env r n status disposition detail worker_reported history st =
     (case attempt_bound r status disposition of
        Inl e \<Rightarrow> (Inl e, st)
      | Inr max_attempts \<Rightarrow>
     (case attempt_details env r detail of
        Inl e \<Rightarrow> (Inl e, st)
      | Inr details \<Rightarrow>
     (case file_attempt env r n max_attempts status disposition worker_reported details st of
        Inl e \<Rightarrow> (Inl e, st)
      | Inr st' \<Rightarrow>
          (let history' = history @ [attempt_link (ae_path env) n] in
           case attempt_outcomes env (put ''attempt_history'' (JArr history') (put ''attempts'' (JInt n) r)) st' of
             Inl e \<Rightarrow> (Inl e, st')
           | Inr _ \<Rightarrow> (Inr history', st')))))"

definition is_link :: "json \<Rightarrow> bool" where
  "is_link j \<longleftrightarrow> (case j of JObj _ \<Rightarrow> True | _ \<Rightarrow> False)"

definition archive_attempt ::
  "archive_env \<Rightarrow> obj \<Rightarrow> int \<Rightarrow> string \<Rightarrow> string \<Rightarrow> obj \<Rightarrow> bool \<Rightarrow> attempt_dir \<Rightarrow> json list result \<times> attempt_dir" where
  "archive_attempt env r n status disposition detail worker_reported st =
     (if n < 1 then (Inl PoolContractError, st)
      else case (history_of r, missing_before r) of
        (Inr history, Inr missing) \<Rightarrow>
          if \<not> list_all is_link history then (Inl PoolContractError, st)
          else (case (if history = [] then Inr []
                      else attempt_outcomes env (put ''attempts'' (JInt (missing + int (length history))) r) st) of
             Inl e \<Rightarrow> (Inl e, st)
           | Inr _ \<Rightarrow>
               if n < missing + int (length history) + 1
               then (if n - missing - 1 < 0 \<or> \<not> py_eq (history ! nat (n - missing - 1)) (attempt_link (ae_path env) n)
                     then (Inl PoolContractError, st) else (Inr history, st))
               else if n \<noteq> missing + int (length history) + 1 then (Inl PoolContractError, st)
               else archive_new env r n status disposition detail worker_reported history st)
      | _ \<Rightarrow> (Inl PoolContractError, st))"

section \<open>The disposition a conclusion files\<close>

text \<open>\<open>_worker_finish\<close> and \<open>_archive_late_finish\<close>; \<open>limit\<close> is the retry bound.\<close>

definition finish_disposition :: "obj \<Rightarrow> string \<Rightarrow> int \<Rightarrow> int \<Rightarrow> string" where
  "finish_disposition r status attempts limit =
     (if succeeded status then ''done''
      else if attempts \<ge> limit \<or> get ''retry_scope'' r = JStr ''interruption'' then ''failed'' else ''requeued'')"

definition late_disposition :: "string \<Rightarrow> int \<Rightarrow> int \<Rightarrow> string" where
  "late_disposition status attempt limit =
     (if status = ''withdrawn'' then ''withdrawn''
      else if succeeded status then ''done'' else if attempt \<ge> limit then ''failed'' else ''requeued'')"

section \<open>The first writer stays\<close>

lemma file_if_absent_keeps: "map_of d k = Some v \<Longrightarrow> map_of (file_if_absent l w d) k = Some v"
  by (auto simp: file_if_absent_def)

lemma file_if_absent_other: "k \<noteq> l \<Longrightarrow> map_of (file_if_absent l w d) k = map_of d k"
  by (auto simp: file_if_absent_def)

lemma file_attempt_files:
  assumes "file_attempt env r n i status disposition reported details st = Inr st'"
  shows "map_of (ad_outcomes st) m = Some v \<Longrightarrow> map_of (ad_outcomes st') m = Some v"
    "m \<noteq> n \<Longrightarrow> map_of (ad_outcomes st') m = map_of (ad_outcomes st) m"
    "map_of (ad_logs st) path = Some t \<Longrightarrow> map_of (ad_logs st') path = Some t"
  using assms by (auto simp: file_attempt_def Let_def file_if_absent_keeps file_if_absent_other split: sum.splits)

lemma archive_attempt_dir:
  assumes "archive_attempt env r n status disposition detail reported st = (res, st')"
  obtains "st' = st" | i details where "file_attempt env r n i status disposition reported details st = Inr st'"
  using assms by (auto simp: archive_attempt_def archive_new_def Let_def split: sum.splits if_splits)

text \<open>
  C13: An attempt on file is never rewritten. Whatever \<open>archive_attempt\<close> answers, every outcome and every log that
  was filed still reads the same, and no other number than its own gains one: of a finisher and a reaper that
  race on one attempt the first to file it is the one both adopt.
\<close>

theorem archive_attempt_first_writer:
  assumes "archive_attempt env r n status disposition detail reported st = (res, st')"
  shows "(\<forall>m v. map_of (ad_outcomes st) m = Some v \<longrightarrow> map_of (ad_outcomes st') m = Some v) \<and>
    (\<forall>m. m \<noteq> n \<longrightarrow> map_of (ad_outcomes st') m = map_of (ad_outcomes st) m) \<and>
    (\<forall>path t. map_of (ad_logs st) path = Some t \<longrightarrow> map_of (ad_logs st') path = Some t)"
  using assms
proof (rule archive_attempt_dir)
  fix i details
  assume "file_attempt env r n i status disposition reported details st = Inr st'"
  from file_attempt_files [OF this] show ?thesis by blast
qed simp

section \<open>What is filed is adopted\<close>

lemma outcomes_from_last:
  "outcomes_from env r st m (Suc k) = Inr vs \<Longrightarrow> vs \<noteq> [] \<and> linked_outcome env r (m + int k) st = Inr (last vs)"
proof (induction k arbitrary: m vs)
  case 0
  then show ?case by (auto split: sum.splits)
next
  case (Suc k)
  then obtain v ws where "outcomes_from env r st (m + 1) (Suc k) = Inr ws" "vs = v # ws"
    unfolding outcomes_from.simps(2) [of env r st m "Suc k"] by (auto split: sum.splits)
  with Suc.IH [of "m + 1" ws] show ?case by (simp add: add.assoc)
qed

lemma outcomes_from_nth:
  "outcomes_from env r st m k = Inr vs \<Longrightarrow> i < k \<Longrightarrow> \<exists>v. linked_outcome env r (m + int i) st = Inr v"
proof (induction k arbitrary: m vs i)
  case (Suc k)
  then show ?case by (cases i) (force simp: add.assoc split: sum.splits)+
qed simp

lemmas obj_simps = get_append has_key_append get_Cons has_key_Cons get_Nil has_key_Nil

lemma expand_stream_put: "expand_stream env n logs raw stream v = Some e \<Longrightarrow> \<exists>t. e = put stream (JStr t) v"
  by (auto simp: expand_stream_def split: json.splits)

lemma expand_logs_get:
  assumes "expand_logs env n logs v = Some e"
  shows "k \<noteq> ''stdout'' \<Longrightarrow> k \<noteq> ''stderr'' \<Longrightarrow> get k e = get k v"
    "k \<noteq> ''stdout'' \<Longrightarrow> k \<noteq> ''stderr'' \<Longrightarrow> has_key k e = has_key k v"
  using assms by (auto simp: expand_logs_def bind_eq_Some_conv dest!: expand_stream_put split: json.splits)

lemma adopt_accepts:
  assumes "get ''status'' a = JStr status" "status \<noteq> []" "get ''disposition'' a = JStr d" "d \<noteq> []"
    and "get ''attempt'' a = JInt n" "get ''max_attempts'' a = JInt i" "expected_disposition a status n i = d"
    and "has_key ''output_retry_stop'' a \<longrightarrow> \<not> succeeded status \<and> valid_stop (get ''output_retry_stop'' a) a"
    and "get ''detail'' a = JObj details" "finish_time (get ''finished_unix'' a) = None" "get ''finished_host'' a = JStr h" "h \<noteq> []"
  shows "\<exists>tr. adopt_attempt str_of valid_stop a = Inr tr \<and> tr_status tr = status \<and> tr_attempt tr = n \<and> tr_disposition tr = d"
  using assms by (auto simp: adopt_attempt_def nonempty_text_def Let_def)

lemma adopt_filed:
  assumes "expand_logs env n logs (attempt_outcome env r n i status final reported details out err stop) = Some e"
    and "status \<noteq> []" "final = expected_disposition (attempt_outcome env r n i status final reported details out err stop) status n i"
    and "stop \<noteq> None \<longrightarrow> \<not> succeeded status \<and> valid_stop (JObj (the stop)) e"
    and "finish_time (get ''finished_unix'' r) = None" "get ''finished_host'' r = JStr h" "h \<noteq> []"
  shows "\<exists>tr. adopt_attempt str_of valid_stop e = Inr tr \<and> tr_status tr = status \<and> tr_attempt tr = n \<and> tr_disposition tr = final"
proof -
  let ?o = "attempt_outcome env r n i status final reported details out err stop"
  note e = expand_logs_get [OF assms(1)]
  have o: "get ''status'' ?o = JStr status" "get ''disposition'' ?o = JStr final" "get ''attempt'' ?o = JInt n"
    "get ''max_attempts'' ?o = JInt i" "get ''detail'' ?o = JObj details" "get ''finished_unix'' ?o = get ''finished_unix'' r"
    "get ''finished_host'' ?o = get ''finished_host'' r" "has_key ''output_retry_stop'' ?o \<longleftrightarrow> stop \<noteq> None"
    "stop \<noteq> None \<longrightarrow> get ''output_retry_stop'' ?o = JObj (the stop)"
    by (auto simp: attempt_outcome_def obj_simps split: option.splits)
  have exp: "expected_disposition e status n i = expected_disposition ?o status n i"
    by (simp add: expected_disposition_def worker_failure_final_def e)
  have "final \<noteq> []" using assms(3) by (simp add: expected_disposition_def split: if_splits)
  with assms(2,4-7) o exp assms(3) [symmetric] show ?thesis
    by (intro adopt_accepts [where details = details and i = i and h = h]) (simp_all add: e)
qed

lemma expected_rule:
  assumes "has_key ''output_retry_stop'' a \<longleftrightarrow> stop \<noteq> None" "get ''retry_scope'' a = get ''retry_scope'' r"
    and "get ''worker_reported'' a = JBool True \<longleftrightarrow> get ''retry_scope'' r \<noteq> JNull \<and> reported"
    and "stop \<noteq> None \<longrightarrow> \<not> succeeded status \<and> status \<noteq> ''withdrawn''"
    and "reported \<and> status \<noteq> ''withdrawn'' \<and> d = finish_disposition r status n i \<or> \<not> reported \<and> d = late_disposition status n i"
  shows "expected_disposition a status n i = (if stop = None then d else ''failed'')"
proof (cases "stop = None")
  case True
  with assms have "expected_disposition a status n i = d"
    by (elim disjE) (simp_all add: expected_disposition_def worker_failure_final_def finish_disposition_def late_disposition_def)
  with True show ?thesis by simp
next
  case False
  with assms(1,4) show ?thesis by (auto simp: expected_disposition_def)
qed

lemma expected_filed:
  assumes "stop \<noteq> None \<longrightarrow> \<not> succeeded status \<and> status \<noteq> ''withdrawn''"
    and "reported \<and> status \<noteq> ''withdrawn'' \<and> d = finish_disposition r status n i \<or> \<not> reported \<and> d = late_disposition status n i"
  shows "(if stop = None then d else ''failed'') = expected_disposition (attempt_outcome env r n i status final reported details out err stop) status n i"
  by (rule expected_rule [OF _ _ _ assms, symmetric]) (auto simp: attempt_outcome_def obj_simps split: option.splits)

lemma archive_new_Inr:
  assumes "archive_new env r n status d detail reported old st = (Inr history, st')"
  obtains i details vs where "attempt_bound r status d = Inr i" "file_attempt env r n i status d reported details st = Inr st'"
    "attempt_outcomes env (put ''attempt_history'' (JArr history) (put ''attempts'' (JInt n) r)) st' = Inr vs"
    "history = old @ [attempt_link (ae_path env) n]"
proof -
  obtain i where i: "attempt_bound r status d = Inr i" using assms by (cases "attempt_bound r status d") (simp_all add: archive_new_def)
  obtain details where d: "attempt_details env r detail = Inr details"
    using assms i by (cases "attempt_details env r detail") (simp_all add: archive_new_def)
  obtain st1 where f: "file_attempt env r n i status d reported details st = Inr st1"
    using assms i d by (cases "file_attempt env r n i status d reported details st") (simp_all add: archive_new_def)
  let ?h = "old @ [attempt_link (ae_path env) n]"
  obtain vs where vs: "attempt_outcomes env (put ''attempt_history'' (JArr ?h) (put ''attempts'' (JInt n) r)) st1 = Inr vs"
    using assms i d f by (cases "attempt_outcomes env (put ''attempt_history'' (JArr ?h) (put ''attempts'' (JInt n) r)) st1") (simp_all add: archive_new_def)
  have "history = ?h" "st' = st1" using assms i d f vs by (simp_all add: archive_new_def)
  with that i f vs show thesis by blast
qed

lemma archive_attempt_fresh:
  assumes "archive_attempt env r n status d detail reported st = (Inr history, st')" "map_of (ad_outcomes st) n = None"
  obtains old where "archive_new env r n status d detail reported old st = (Inr history, st')"
proof (atomize_elim)
  show "\<exists>old. archive_new env r n status d detail reported old st = (Inr history, st')"
  proof (rule ccontr)
    assume new: "\<nexists>old. archive_new env r n status d detail reported old st = (Inr history, st')"
    with assms(1) obtain old missing vs where h: "history_of r = Inr old" "missing_before r = Inr missing" "old \<noteq> []"
      and vs: "attempt_outcomes env (put ''attempts'' (JInt (missing + int (length old))) r) st = Inr vs"
      and n: "n < missing + int (length old) + 1" "0 \<le> n - missing - 1"
      by (auto simp: archive_attempt_def split: sum.splits if_splits)
    let ?r = "put ''attempts'' (JInt (missing + int (length old))) r"
    have "outcomes_from env ?r st (missing + 1) (length old) = Inr vs"
      using vs h by (auto simp: attempt_outcomes_def attempt_history_links_def history_of_def missing_before_def dict_get_def put_def
          update_conv' split: sum.splits if_splits json.splits option.splits)
    from outcomes_from_nth [OF this, of "nat (n - missing - 1)"] n
    obtain v where "linked_outcome env ?r n st = Inr v" by (auto simp: nat_less_iff)
    with assms(2) show False by (simp add: linked_outcome_def)
  qed
qed

lemma outcomes_filed:
  assumes "attempt_outcomes env r st = Inr vs" "get ''attempts'' r = JInt n" "history_of r = Inr (old @ [l])"
  shows "vs \<noteq> [] \<and> linked_outcome env r n st = Inr (last vs)"
proof -
  from assms obtain missing where m: "n = missing + int (length (old @ [l]))"
    "outcomes_from env r st (missing + 1) (length (old @ [l])) = Inr vs"
    by (auto simp: attempt_outcomes_def attempt_history_links_def split: sum.splits if_splits prod.splits)
  then have "missing + 1 + int (length old) = n" by simp
  with outcomes_from_last [of env r st "missing + 1" "length old" vs] m(2) show ?thesis by (simp del: outcomes_from.simps)
qed

lemma attempt_adopted:
  assumes "archive_attempt env r n status d detail reported st = (Inr history, st')" "map_of (ad_outcomes st) n = None"
    and "dict_get r ''max_attempts'' (JInt default_max_attempts) = JInt limit"
    and "reported \<and> status \<noteq> ''withdrawn'' \<and> d = finish_disposition r status n limit \<or> \<not> reported \<and> d = late_disposition status n limit"
    and "finish_time (get ''finished_unix'' r) = None" "get ''finished_host'' r = JStr h" "h \<noteq> []"
    and "\<And>x a. ae_retry_stop env r = Some x \<Longrightarrow> valid_stop (JObj x) a"
  shows "\<exists>tr. attempt_ending str_of valid_stop env (put ''attempt_history'' (JArr history) (put ''attempts'' (JInt n) r)) st' = Inr tr \<and>
    tr_status tr = status \<and> tr_attempt tr = n \<and>
    tr_disposition tr = (if succeeded status \<or> status = ''withdrawn'' \<or> ae_retry_stop env r = None then d else ''failed'')"
proof -
  let ?r = "put ''attempt_history'' (JArr history) (put ''attempts'' (JInt n) r)"
  let ?stop = "if succeeded status \<or> status = ''withdrawn'' then None else ae_retry_stop env r"
  let ?final = "if ?stop = None then d else ''failed''"
  from assms(1,2) obtain old where new: "archive_new env r n status d detail reported old st = (Inr history, st')"
    by (rule archive_attempt_fresh)
  then obtain i details vs where bound: "attempt_bound r status d = Inr i"
    and filed: "file_attempt env r n i status d reported details st = Inr st'"
    and vs: "attempt_outcomes env ?r st' = Inr vs" and hist: "history = old @ [attempt_link (ae_path env) n]"
    by (rule archive_new_Inr)
  have i: "i = limit" "status \<noteq> []" using bound assms(3) by (auto simp: attempt_bound_def split: if_splits)
  from filed assms(2) obtain out err where
    mine: "map_of (ad_outcomes st') n = Some (attempt_outcome env r n limit status ?final reported (drop_key ''stderr'' (drop_key ''stdout'' details)) out err ?stop)"
    unfolding i(1) by (auto simp: file_attempt_def Let_def file_if_absent_def split: sum.splits)
  have last: "vs \<noteq> []" "linked_outcome env ?r n st' = Inr (last vs)"
    using outcomes_filed [OF vs, of n old "attempt_link (ae_path env) n"] hist by (simp_all add: history_of_def dict_get_put)
  then have e: "expand_logs env n (ad_logs st') (attempt_outcome env r n limit status ?final reported (drop_key ''stderr'' (drop_key ''stdout'' details)) out err ?stop) = Some (last vs)"
    using mine by (auto simp: linked_outcome_def split: if_splits option.splits)
  have stop: "?stop \<noteq> None \<longrightarrow> \<not> succeeded status \<and> status \<noteq> ''withdrawn''" "?stop \<noteq> None \<longrightarrow> valid_stop (JObj (the ?stop)) (last vs)"
    using assms(8) by auto
  have "\<exists>tr. adopt_attempt str_of valid_stop (last vs) = Inr tr \<and> tr_status tr = status \<and> tr_attempt tr = n \<and> tr_disposition tr = ?final"
    using stop assms(4) by (intro adopt_filed [OF e i(2) _ _ assms(5,6,7)] expected_filed) blast+
  then show ?thesis using vs last(1) by (auto simp: attempt_ending_def resolve_attempt_def)
qed


section \<open>Samples\<close>

definition archive_sample_env :: archive_env where
  "archive_sample_env = \<lparr>ae_path = (\<lambda>n. if n = 1 then ''1.json'' else ''2.json''), ae_log_path = (\<lambda>n stream digest. stream @ digest),
     ae_sha = (\<lambda>t. rev t), ae_repository = (\<lambda>_. ''unknown''), ae_evidence = (\<lambda>_ d. Inr d),
     ae_retry_stop = (\<lambda>r. if has_key ''spent'' r then Some [] else None)\<rparr>"

definition archive_sample :: obj where
  "archive_sample = [(''action_key'', JStr ''k''), (''published_unix'', JFloat (Fin 7)), (''attempts'', JInt 1),
     (''finished_unix'', JFloat (Fin 9)), (''finished_host'', JStr ''h''), (''spent'', JBool True)]"

definition archive_sample_result :: "json list result \<times> attempt_dir" where
  "archive_sample_result = archive_attempt archive_sample_env archive_sample 1 ''failed''
     (finish_disposition archive_sample ''failed'' 1 3) [(''stdout'', JStr ''out'')] True \<lparr>ad_outcomes = [], ad_logs = []\<rparr>"

lemma archive_sample_files: "fst archive_sample_result = Inr [attempt_link (\<lambda>_. ''1.json'') 1] \<and> finish_disposition archive_sample ''failed'' 1 3 = ''requeued''"
  by code_simp

theorem archive_attempt_first_writer_witness:
  "map_of (ad_outcomes (snd (archive_attempt archive_sample_env archive_sample 1 ''failed'' ''requeued'' [] True
     \<lparr>ad_outcomes = [(1, archive_sample)], ad_logs = []\<rparr>))) 1 = Some archive_sample"
proof -
  obtain res st' where a: "archive_attempt archive_sample_env archive_sample 1 ''failed'' ''requeued'' [] True
     \<lparr>ad_outcomes = [(1, archive_sample)], ad_logs = []\<rparr> = (res, st')" by (rule prod.exhaust)
  from archive_attempt_first_writer [OF a] a show ?thesis by simp
qed


end
