(* ===== verification/Lifecycle_Finish.thy ===== *)
theory Lifecycle_Finish
  imports Lifecycle_Conclude Attempt_Archive
begin

text \<open>
  The worker's finish (\<open>_worker_finish\<close> of \<open>lifecycle.py\<close>): which of its paths a report takes, the record it files, and
  what the two paths do that write without the key's lock.
\<close>

section \<open>Who holds a claim\<close>

definition recorded_hosts :: "obj \<Rightarrow> string list" where
  "recorded_hosts r =
     concat (map (\<lambda>field. case get field r of JStr v \<Rightarrow> if v = [] then [] else [v] | _ \<Rightarrow> []) [''claimed_host'', ''host''])"

text \<open>\<open>intent\<close> is the claimant's marker, the last resort.\<close>

definition resolve_claim_holder :: "string option \<Rightarrow> obj \<Rightarrow> string list \<Rightarrow> string option result" where
  "resolve_claim_holder intent r hosts =
     (case hosts of
        [h] \<Rightarrow> if list_all (\<lambda>v. v = h) (recorded_hosts r) then Inr (Some h) else Inl AmbiguousClaimHolder
      | _ # _ \<Rightarrow> Inl AmbiguousClaimHolder
      | [] \<Rightarrow> (case recorded_hosts r of v # _ \<Rightarrow> Inr (Some v) | [] \<Rightarrow> Inr intent))"

section \<open>The answers a finish relies on\<close>

text \<open>
  The clock and this host, the saved late finish, container cleanup (whether it completed, its evidence and the fields
  it adds to the record), the cleanup obligation, what a resource failure adds to the detail, whether a
  withdrawal covers the claim, the prewarm receipt, whether a pin or an output intent keeps the tier tokens,
  whether every terminal record could be read, and Python's \<open>int()\<close> of a text and \<open>str()\<close>.
\<close>

record finish_reads =
  fr_now :: json
  fr_host :: string
  fr_intent :: "string option"
  fr_late :: "obj option"
  fr_complete :: bool
  fr_cleanup :: obj
  fr_annotations :: obj
  fr_obligation :: json
  fr_failure :: "obj option"
  fr_withdrawn :: "bool result"
  fr_prewarm :: "json option"
  fr_pins :: bool
  fr_retains :: bool
  fr_readable :: bool
  fr_repository :: string
  fr_int :: "string \<Rightarrow> int option"
  fr_str :: "json \<Rightarrow> string"
  fr_valid_stop :: "json \<Rightarrow> obj \<Rightarrow> bool"

fun py_int :: "(string \<Rightarrow> int option) \<Rightarrow> json \<Rightarrow> int result" where
  "py_int txt (JBool b) = Inr (if b then 1 else 0)"
| "py_int txt (JInt n) = Inr n"
| "py_int txt (JFloat (Fin q)) = Inr (if 0 \<le> q then \<lfloor>q\<rfloor> else \<lceil>q\<rceil>)"
| "py_int txt (JFloat NaN) = Inl ValueError"
| "py_int txt (JFloat _) = Inl OverflowError"
| "py_int txt (JStr s) = (case txt s of None \<Rightarrow> Inl ValueError | Some n \<Rightarrow> Inr n)"
| "py_int txt _ = Inl TypeError"

text \<open>\<open>d.update(e)\<close>.\<close>

definition update_obj :: "obj \<Rightarrow> obj \<Rightarrow> obj" where
  "update_obj e d = fold (\<lambda>(k, v). put k v) e d"

section \<open>An unproven cleanup keeps the claim\<close>

definition note_cleanup_attempt :: "finish_reads \<Rightarrow> obj \<Rightarrow> obj \<Rightarrow> obj result" where
  "note_cleanup_attempt rd prior pending =
     (let owed = (case (get ''resource_scope_intent'' pending, get ''resource_scope'' pending) of
            (JObj _, JNull) \<Rightarrow> if has_key ''cleanup_obligation'' pending then pending else put ''cleanup_obligation'' (fr_obligation rd) pending
          | _ \<Rightarrow> pending);
          tried = put ''container_cleanup_attempts''
            (JInt (case get ''container_cleanup_attempts'' prior of JInt n \<Rightarrow> n + 1 | _ \<Rightarrow> 1)) owed;
          since = (if is_number (get ''container_cleanup_first_failed_unix'' prior)
            then map_sum id JFloat (py_float (get ''container_cleanup_first_failed_unix'' prior)) else Inr (fr_now rd)) in
      case since of
        Inl e \<Rightarrow> Inl e
      | Inr t \<Rightarrow> Inr (put ''container_cleanup_checked_unix'' (fr_now rd) (put ''container_cleanup_pending'' (JObj (fr_cleanup rd))
          (put ''container_cleanup_first_failed_unix'' t tried))))"

definition pending_finish :: "finish_reads \<Rightarrow> string \<Rightarrow> string \<Rightarrow> obj \<Rightarrow> obj \<Rightarrow> obj result" where
  "pending_finish rd key status detail effective =
     map_sum id (put ''finish_pending'' (JObj [(''status'', JStr status), (''detail'', JObj detail)]))
       (note_cleanup_attempt rd effective (put ''action_key'' (JStr key) effective))"

section \<open>The record a finish files\<close>

definition pool_outcome_schema :: string where
  "pool_outcome_schema = ''prismaquant.prismabuild.pool_outcome.v1''"

definition finished_detail :: "finish_reads \<Rightarrow> obj \<Rightarrow> obj \<Rightarrow> obj" where
  "finished_detail rd r detail =
     (let placed = (case get ''local_scratch_io_placement'' r of
          JObj p \<Rightarrow> put ''local_scratch_io_placement'' (JObj p) detail | _ \<Rightarrow> detail) in
      case (get ''prewarm'' r, fr_prewarm rd) of
        (JObj _, Some w) \<Rightarrow> if has_key ''prewarm'' placed then placed else put ''prewarm'' w placed
      | _ \<Rightarrow> placed)"

definition finished_record :: "finish_reads \<Rightarrow> string \<Rightarrow> obj \<Rightarrow> int \<Rightarrow> obj \<Rightarrow> obj" where
  "finished_record rd status detail prior_attempts r =
     (let r1 = drop_key ''container_cleanup_pending'' (drop_key ''finish_pending'' r);
          r2 = (if prior_attempts \<noteq> 0 \<and> \<not> has_key ''attempt_history'' r1 \<and> \<not> has_key ''attempt_history_missing_before'' r1
            then put ''attempt_history_missing_before'' (JInt prior_attempts) r1 else r1) in
      put ''detail'' (JObj detail) (put ''finished_host'' (JStr (fr_host rd)) (put ''finished_unix'' (fr_now rd)
        (put ''attempts'' (JInt (prior_attempts + 1)) (put ''status'' (JStr status) (put ''schema'' (JStr pool_outcome_schema) r2))))))"

definition adopt_ending :: "transition \<Rightarrow> obj \<Rightarrow> obj" where
  "adopt_ending tr r =
     put ''detail'' (JObj (tr_detail tr)) (put ''finished_host'' (JStr (tr_finished_host tr))
       (put ''finished_unix'' (tr_finished_unix tr) (put ''status'' (JStr (tr_status tr)) r)))"

definition fault_error :: "attempt_fault \<Rightarrow> error" where
  "fault_error f = (case f of Escaped e \<Rightarrow> e | _ \<Rightarrow> PoolContractError)"

definition finish_plan :: "finish_reads \<Rightarrow> string \<Rightarrow> obj \<Rightarrow> string option \<Rightarrow> obj \<Rightarrow> transition \<Rightarrow> plan" where
  "finish_plan rd key original holder r tr =
     \<lparr>p_transition = FINISH,
      p_record = (if tr_disposition tr = ''done'' \<or> tr_disposition tr = ''failed'' then adopt_ending tr r
        else shape_as_ready_item (fr_now rd) key (adopt_ending tr r)),
      p_original = original, p_holder = holder, p_disposition = tr_disposition tr, p_pins = fr_pins rd,
      p_stopped = tr_output_retry_stopped tr, p_retains = fr_retains rd, p_release_only = False\<rparr>"

text \<open>Archive the attempt, adopt what the archive answers, and decide the next home.\<close>

definition conclude_claim ::
  "finish_reads \<Rightarrow> archive_env \<Rightarrow> string \<Rightarrow> string \<Rightarrow> obj \<Rightarrow> obj \<Rightarrow> string option \<Rightarrow> obj \<Rightarrow> attempt_dir
   \<Rightarrow> plan result \<times> attempt_dir" where
  "conclude_claim rd env key status detail original holder r st =
     (case (py_int (fr_int rd) (dict_get r ''attempts'' (JInt 0)),
            py_int (fr_int rd) (dict_get r ''max_attempts'' (JInt default_max_attempts))) of
        (Inr prior_attempts, Inr limit) \<Rightarrow>
          (let filed_detail = finished_detail rd r detail;
               r1 = finished_record rd status filed_detail prior_attempts r in
           case archive_attempt env r1 (prior_attempts + 1) status (finish_disposition r1 status (prior_attempts + 1) limit) filed_detail True st of
             (Inl e, st') \<Rightarrow> (Inl e, st')
           | (Inr history, st') \<Rightarrow>
               (let r2 = put ''attempt_history'' (JArr history) r1 in
                case attempt_ending (fr_str rd) (fr_valid_stop rd) env r2 st' of
                  Inl f \<Rightarrow> (Inl (fault_error f), st')
                | Inr tr \<Rightarrow> (Inr (finish_plan rd key original holder r2 tr), st')))
      | (Inl e, _) \<Rightarrow> (Inl e, st)
      | (_, Inl e) \<Rightarrow> (Inl e, st))"

section \<open>The paths of a finish\<close>

text \<open>
  \<open>Late_Finish\<close> carries the record that lives on, \<open>Keep_Pending\<close> the claim judged and the record to write over it,
  \<open>Lost_Claim\<close> the holder, the snapshot and the report.
\<close>

datatype finish_step =
    Late_Finish obj
  | Retry_Late obj
  | Keep_Pending obj obj
  | Complete_Cancellation "obj option" "string option"
  | Lost_Claim "string option" obj string obj
  | Commit_Finish plan

definition scoped :: "obj \<Rightarrow> bool" where
  "scoped r \<longleftrightarrow> get ''resource_scope'' r \<noteq> JNull \<or> get ''resource_scope_intent'' r \<noteq> JNull"

definition set_holder :: "string option \<Rightarrow> obj \<Rightarrow> obj" where
  "set_holder holder r = (case holder of None \<Rightarrow> r | Some h \<Rightarrow> put ''claimed_host'' (JStr h) r)"

definition reported_status :: "finish_reads \<Rightarrow> string \<Rightarrow> string" where
  "reported_status rd status = (if fr_failure rd = None then status else ''failed'')"

definition reported_detail :: "finish_reads \<Rightarrow> obj \<Rightarrow> obj" where
  "reported_detail rd detail = (case fr_failure rd of None \<Rightarrow> detail | Some f \<Rightarrow> update_obj f detail)"

text \<open>From the cleanup on: the claim or the snapshot with its holder, annotated by the cleanup.\<close>

definition after_cleanup ::
  "finish_reads \<Rightarrow> archive_env \<Rightarrow> string \<Rightarrow> string \<Rightarrow> obj \<Rightarrow> obj option \<Rightarrow> string option \<Rightarrow> obj \<Rightarrow> attempt_dir
   \<Rightarrow> finish_step result \<times> attempt_dir" where
  "after_cleanup rd env key status detail claim holder effective st =
     (if \<not> fr_complete rd then (map_sum id (Keep_Pending effective) (pending_finish rd key status detail effective), st)
      else case fr_withdrawn rd of
        Inl e \<Rightarrow> (Inl e, st)
      | Inr True \<Rightarrow> (Inr (Complete_Cancellation claim holder), st)
      | Inr False \<Rightarrow>
          (case claim of
             None \<Rightarrow> (Inr (Lost_Claim holder effective (reported_status rd status) (reported_detail rd detail)), st)
           | Some original \<Rightarrow>
               (case conclude_claim rd env key (reported_status rd status) (reported_detail rd detail) original holder effective st of
                  (Inl e, st') \<Rightarrow> (Inl e, st')
                | (Inr p, st') \<Rightarrow> (Inr (Commit_Finish p), st'))))"

definition worker_finish ::
  "finish_reads \<Rightarrow> archive_env \<Rightarrow> string \<Rightarrow> string \<Rightarrow> obj \<Rightarrow> obj option \<Rightarrow> action_files \<Rightarrow> attempt_dir
   \<Rightarrow> finish_step result \<times> attempt_dir" where
  "worker_finish rd env key status detail snapshot s st =
     (let claim = f_claimed s;
          relation = relation_to (Observed (case claim of None \<Rightarrow> Absent | Some r \<Rightarrow> Present r)) snapshot;
          effective = (case claim of Some r \<Rightarrow> r | None \<Rightarrow> (case snapshot of Some r \<Rightarrow> r | None \<Rightarrow> [])) in
      if relation = Claim_Absent \<and> snapshot \<noteq> None \<and> f_ready s \<noteq> None then (Inr (Late_Finish (the (f_ready s))), st)
      else if relation = Claim_Different then (Inr (Late_Finish (the claim)), st)
      else if claim = None \<and> snapshot \<noteq> None \<and> scoped (the snapshot) \<and> fr_late rd \<noteq> None
        then (Inr (Retry_Late (the (fr_late rd))), st)
      else case (case claim of None \<Rightarrow> Inr () | Some r \<Rightarrow> check_lease_identity r (f_lease s)) of
        Inl e \<Rightarrow> (Inl e, st)
      | Inr _ \<Rightarrow>
          (case resolve_claim_holder (fr_intent rd) effective (f_hosts s) of
             Inl e \<Rightarrow> (Inl e, st)
           | Inr holder \<Rightarrow>
               after_cleanup rd env key status detail claim holder
                 (update_obj (fr_annotations rd) (set_holder holder effective)) st))"

text \<open>The claim is gone: give back what it held and report the ending there is, or file one.\<close>

definition lost_fields :: "string list" where
  "lost_fields = [''published_unix'', ''published_by'', ''claimed_by'', ''claimed_unix'', ''claimed_host'', ''max_attempts'',
     ''retry_safe'', ''retry_scope'']"

definition lost_record :: "finish_reads \<Rightarrow> string \<Rightarrow> string \<Rightarrow> obj \<Rightarrow> obj \<Rightarrow> obj" where
  "lost_record rd key status detail snapshot =
     put ''tested_repository'' (JStr (fr_repository rd))
       (update_obj (concat (map (\<lambda>field. if has_key field snapshot then [(field, get field snapshot)] else []) lost_fields))
         [(''schema'', JStr pool_outcome_schema), (''action_key'', JStr key),
          (''status'', JStr (if succeeded status then status else ''finish_lost_race'')),
          (''finished_unix'', fr_now rd), (''finished_host'', JStr (fr_host rd)),
          (''detail'', JObj [(''worker_detail'', JObj detail)])])"

definition state_home :: "string \<Rightarrow> home" where
  "state_home state = (if state = ''done'' then Done_Record else Failed_Record)"

definition finish_lost ::
  "finish_reads \<Rightarrow> string \<Rightarrow> string \<Rightarrow> obj \<Rightarrow> string option \<Rightarrow> obj \<Rightarrow> action_files \<Rightarrow> home result \<times> action_files" where
  "finish_lost rd key status detail holder snapshot s =
     (let s1 = (release_reservation holder False (fr_retains rd) s)\<lparr>f_lease := None\<rparr>;
          state = (if succeeded status then ''done'' else ''failed'') in
      if \<not> fr_readable rd
      then (if f_done s1 \<noteq> None then Inr Done_Record else if f_failed s1 \<noteq> None then Inr Failed_Record else Inl PoolContractError, s1)
      else case terminal_outcome_covers (Some snapshot) s1 of
        Inl e \<Rightarrow> (Inl e, s1)
      | Inr (Some (covered, _)) \<Rightarrow> (Inr (state_home covered), s1)
      | Inr None \<Rightarrow>
          if slot_of state s1 \<noteq> None then (Inr (state_home state), s1)
          else (Inr (state_home state),
            if state = ''done'' then s1\<lparr>f_done := Some (lost_record rd key status detail snapshot)\<rparr>
            else s1\<lparr>f_failed := Some (lost_record rd key status detail snapshot)\<rparr>))"

section \<open>A worker concludes only its own claim\<close>

lemma gen_of_drop_key [simp]: "k \<noteq> ''published_unix'' \<Longrightarrow> gen_of (drop_key k d) = gen_of d"
  by (simp add: gen_of_def)

lemma gen_of_set_holder [simp]: "gen_of (set_holder h r) = gen_of r"
  by (simp add: set_holder_def split: option.split)

lemma gen_of_update_obj: "''published_unix'' \<notin> fst ` set e \<Longrightarrow> gen_of (update_obj e d) = gen_of d"
  unfolding update_obj_def by (induction e arbitrary: d) auto

lemma gen_of_finished [simp]: "gen_of (finished_record rd status detail n r) = gen_of r"
  by (simp add: finished_record_def Let_def)

lemma finish_plan_ok:
  "gen_of r = gen_of original \<Longrightarrow> gen_of original \<noteq> None \<Longrightarrow> plan_ok H (finish_plan rd key original holder r tr)"
  by (simp add: plan_ok_def finish_plan_def adopt_ending_def)

lemma conclude_claim_plan:
  assumes "conclude_claim rd env key status detail original holder r st = (Inr p, st')"
  obtains r' tr where "p = finish_plan rd key original holder r' tr" "gen_of r' = gen_of r"
proof -
  let ?n = "py_int (fr_int rd) (dict_get r ''attempts'' (JInt 0))"
  obtain n where n: "?n = Inr n" using assms by (cases ?n) (simp_all add: conclude_claim_def)
  let ?l = "py_int (fr_int rd) (dict_get r ''max_attempts'' (JInt default_max_attempts))"
  obtain l where l: "?l = Inr l" using assms n by (cases ?l) (simp_all add: conclude_claim_def)
  let ?r1 = "finished_record rd status (finished_detail rd r detail) n r"
  obtain res st1 where a: "archive_attempt env ?r1 (n + 1) status (finish_disposition ?r1 status (n + 1) l) (finished_detail rd r detail) True st = (res, st1)"
    by (rule prod.exhaust)
  obtain h where h: "res = Inr h" using assms n l a by (cases res) (simp_all add: conclude_claim_def Let_def)
  let ?r2 = "put ''attempt_history'' (JArr h) ?r1"
  obtain tr where "attempt_ending (fr_str rd) (fr_valid_stop rd) env ?r2 st1 = Inr tr"
    using assms n l a h by (cases "attempt_ending (fr_str rd) (fr_valid_stop rd) env ?r2 st1") (simp_all add: conclude_claim_def Let_def)
  then have "p = finish_plan rd key original holder ?r2 tr" using assms n l a h by (simp add: conclude_claim_def Let_def)
  then show thesis by (rule that) simp
qed

lemma after_cleanup_conclude:
  assumes "after_cleanup rd env key status detail (Some original) holder effective st = (Inr (Commit_Finish p), st')"
  shows "conclude_claim rd env key (reported_status rd status) (reported_detail rd detail) original holder effective st = (Inr p, st')"
proof -
  have c: "fr_complete rd" using assms by (auto simp: after_cleanup_def map_sum_def split: sum.splits if_splits)
  have w: "fr_withdrawn rd = Inr False" using assms c by (auto simp: after_cleanup_def split: sum.splits bool.splits)
  obtain res st1 where "conclude_claim rd env key (reported_status rd status) (reported_detail rd detail) original holder effective st = (res, st1)"
    by (rule prod.exhaust)
  with assms c w show ?thesis by (cases res) (simp_all add: after_cleanup_def)
qed

lemma no_claim_no_commit: "after_cleanup rd env key status detail None holder effective st \<noteq> (Inr (Commit_Finish p), st')"
  by (auto simp: after_cleanup_def map_sum_def split: sum.splits bool.splits)

lemma no_claim_no_finish:
  assumes "f_claimed s = None"
  shows "worker_finish rd env key status detail snapshot s st \<noteq> (Inr (Commit_Finish p), st')"
proof (cases snapshot)
  case None
  then show ?thesis using assms no_claim_no_commit
    by (cases "resolve_claim_holder (fr_intent rd) [] (f_hosts s)") (simp_all add: worker_finish_def)
next
  case (Some sn)
  then show ?thesis using assms no_claim_no_commit
    by (cases "resolve_claim_holder (fr_intent rd) sn (f_hosts s)") (simp_all add: worker_finish_def Let_def)
qed

lemma worker_finish_cleanup:
  assumes "worker_finish rd env key status detail snapshot s st = (Inr (Commit_Finish p), st')" "f_claimed s = Some r"
  shows "\<exists>holder. (\<forall>sn. snapshot = Some sn \<longrightarrow> same_claim r sn) \<and> check_lease_identity r (f_lease s) = Inr () \<and>
    after_cleanup rd env key status detail (Some r) holder (update_obj (fr_annotations rd) (set_holder holder r)) st = (Inr (Commit_Finish p), st')"
proof -
  have rel: "relation_to (Observed (Present r)) snapshot \<noteq> Claim_Different"
    using assms by (auto simp: worker_finish_def Let_def split: if_splits)
  then have same: "\<forall>sn. snapshot = Some sn \<longrightarrow> same_claim r sn" by (auto simp: relation_to_def split: if_splits)
  have absent: "relation_to (Observed (Present r)) snapshot \<noteq> Claim_Absent" by (simp add: relation_to_def split: option.split)
  have lease: "check_lease_identity r (f_lease s) = Inr ()"
    using assms rel absent by (cases "check_lease_identity r (f_lease s)") (simp_all add: worker_finish_def Let_def)
  with assms rel absent same show ?thesis
    by (cases "resolve_claim_holder (fr_intent rd) r (f_hosts s)") (auto simp: worker_finish_def Let_def)
qed

text \<open>
  C14: A worker concludes only the claim it ran. When a finish goes on to commit, the claimed record it read is the
  claim of its snapshot, the lease names no other claim, and the plan it commits is a finish of that very
  record with the record's generation: the plan every conclusion of the key's machine starts from.
\<close>

theorem worker_finish_own_claim:
  assumes "worker_finish rd env key status detail snapshot s st = (Inr (Commit_Finish p), st')"
    and "''published_unix'' \<notin> fst ` set (fr_annotations rd)" "\<And>r. f_claimed s = Some r \<Longrightarrow> gen_of r \<noteq> None"
  shows "\<exists>r. f_claimed s = Some r \<and> p_original p = r \<and> (\<forall>sn. snapshot = Some sn \<longrightarrow> same_claim r sn) \<and>
    check_lease_identity r (f_lease s) = Inr () \<and> p_transition p = FINISH \<and> plan_ok H p"
proof -
  have "f_claimed s \<noteq> None" using no_claim_no_finish assms(1) by blast
  then obtain r where r: "f_claimed s = Some r" by blast
  from worker_finish_cleanup [OF assms(1) r] obtain holder where
    own: "\<forall>sn. snapshot = Some sn \<longrightarrow> same_claim r sn" "check_lease_identity r (f_lease s) = Inr ()" and
    c: "after_cleanup rd env key status detail (Some r) holder (update_obj (fr_annotations rd) (set_holder holder r)) st = (Inr (Commit_Finish p), st')"
    by blast
  from after_cleanup_conclude [OF c] obtain q tr where p: "p = finish_plan rd key r holder q tr"
    and q: "gen_of q = gen_of (update_obj (fr_annotations rd) (set_holder holder r))"
    by (rule conclude_claim_plan)
  have gen: "gen_of q = gen_of r" using q gen_of_update_obj [OF assms(2)] by simp
  then have "plan_ok H p" using finish_plan_ok [OF gen assms(3) [OF r]] p by simp
  with r own p show ?thesis by (simp add: finish_plan_def)
qed

section \<open>Where a finish sends its action\<close>

lemma put_same: "map_of d k = Some v \<Longrightarrow> put k v d = d"
  by (simp add: put_def update_triv)

lemma map_of_put [simp]: "map_of (put l v d) k = (if k = l then Some v else map_of d k)"
  by (simp add: put_def update_conv')

lemma map_of_drop_key [simp]: "map_of (drop_key l d) k = (if k = l then None else map_of d k)"
  by (induction d) (auto simp: drop_key_def)

lemma dict_get_cong: "map_of d k = map_of e k \<Longrightarrow> dict_get d k v = dict_get e k v"
  by (simp add: dict_get_def)

lemma finished_record_map:
  "k \<notin> {''finish_pending'', ''container_cleanup_pending'', ''attempt_history_missing_before'', ''detail'', ''finished_host'',
      ''finished_unix'', ''attempts'', ''status'', ''schema''} \<Longrightarrow> map_of (finished_record rd status detail n r) k = map_of r k"
  by (simp add: finished_record_def Let_def)

lemma finished_record_own:
  "map_of (finished_record rd status detail n r) ''attempts'' = Some (JInt (n + 1))"
  "get ''finished_unix'' (finished_record rd status detail n r) = fr_now rd"
  "get ''finished_host'' (finished_record rd status detail n r) = JStr (fr_host rd)"
  by (simp_all add: finished_record_def Let_def)

lemma conclude_claim_returns:
  fixes rd :: finish_reads and status :: string and detail r :: obj and n :: int
  defines "r1 \<equiv> finished_record rd status (finished_detail rd r detail) n r"
  assumes a: "archive_attempt env r1 (n + 1) status (finish_disposition r1 status (n + 1) limit) (finished_detail rd r detail) True st = (Inr h, st1)"
    and r: "dict_get r ''attempts'' (JInt 0) = JInt n" "dict_get r ''max_attempts'' (JInt default_max_attempts) = JInt limit"
    and free: "map_of (ad_outcomes st) (n + 1) = None" "status \<noteq> ''withdrawn''" "ae_retry_stop env = (\<lambda>_. None)"
    and now: "finish_time (fr_now rd) = None" "fr_host rd \<noteq> []"
  shows "\<exists>p. conclude_claim rd env key status detail original holder r st = (Inr p, st1) \<and>
    p_disposition p = finish_disposition r status (n + 1) limit"
proof -
  have bound: "dict_get r1 ''max_attempts'' (JInt default_max_attempts) = JInt limit"
    using r(2) dict_get_cong [OF finished_record_map] unfolding r1_def by simp
  have same: "put ''attempts'' (JInt (n + 1)) r1 = r1" unfolding r1_def by (rule put_same) (rule finished_record_own)
  from attempt_adopted [OF a free(1) bound, of "fr_host rd" "fr_valid_stop rd" "fr_str rd"] free(2,3) now
  obtain tr where tr: "attempt_ending (fr_str rd) (fr_valid_stop rd) env (put ''attempt_history'' (JArr h) r1) st1 = Inr tr"
    "tr_disposition tr = finish_disposition r1 status (n + 1) limit"
    unfolding same using finished_record_own [of rd status "finished_detail rd r detail" n r] unfolding r1_def by auto
  have "get ''retry_scope'' r1 = get ''retry_scope'' r" unfolding get_def r1_def by (rule dict_get_cong [OF finished_record_map]) simp
  then have "tr_disposition tr = finish_disposition r status (n + 1) limit" using tr(2) by (simp add: finish_disposition_def)
  moreover have "conclude_claim rd env key status detail original holder r st = (Inr (finish_plan rd key original holder (put ''attempt_history'' (JArr h) r1) tr), st1)"
    using a r tr(1) unfolding r1_def by (simp add: conclude_claim_def Let_def)
  ultimately show ?thesis by (simp add: finish_plan_def)
qed

lemma conclude_claim_disposition:
  assumes "conclude_claim rd env key status detail original holder r st = (Inr p, st')"
    and r: "dict_get r ''attempts'' (JInt 0) = JInt n" "dict_get r ''max_attempts'' (JInt default_max_attempts) = JInt limit"
    and "map_of (ad_outcomes st) (n + 1) = None" "status \<noteq> ''withdrawn''" "ae_retry_stop env = (\<lambda>_. None)"
    and "finish_time (fr_now rd) = None" "fr_host rd \<noteq> []"
  shows "p_disposition p = finish_disposition r status (n + 1) limit"
proof -
  let ?r1 = "finished_record rd status (finished_detail rd r detail) n r"
  obtain res st1 where a: "archive_attempt env ?r1 (n + 1) status (finish_disposition ?r1 status (n + 1) limit) (finished_detail rd r detail) True st = (res, st1)"
    by (rule prod.exhaust)
  obtain h where "res = Inr h" using assms(1) r a by (cases res) (simp_all add: conclude_claim_def Let_def)
  from conclude_claim_returns [OF a [unfolded this] r assms(4-8), of key original holder] assms(1) show ?thesis by auto
qed

lemma map_of_update_obj: "k \<notin> fst ` set e \<Longrightarrow> map_of (update_obj e d) k = map_of d k"
  unfolding update_obj_def by (induction e arbitrary: d) auto

lemma map_of_set_holder: "k \<noteq> ''claimed_host'' \<Longrightarrow> map_of (set_holder h r) k = map_of r k"
  by (simp add: set_holder_def split: option.split)

text \<open>The fields a cleanup may add: its own evidence, nothing a conclusion reads.\<close>

definition cleanup_fields :: "obj \<Rightarrow> bool" where
  "cleanup_fields e \<longleftrightarrow> fst ` set e \<inter> {''published_unix'', ''attempts'', ''max_attempts'', ''retry_scope''} = {}"

text \<open>
  C15: Where a finish sends its action. When the attempt's slot is free, no output fence was spent and the finish goes
  on to commit, a success ends as \<open>done\<close>; a failure ends as \<open>failed\<close> when the attempt was the last one its
  bound allows or retries are only for interruptions, and goes back to the queue otherwise. A resource failure seen
  by the cleanup counts as a failure whatever the worker reported.
\<close>

theorem worker_finish_disposition:
  assumes "worker_finish rd env key status detail snapshot s st = (Inr (Commit_Finish p), st')" "f_claimed s = Some r"
    and "dict_get r ''attempts'' (JInt 0) = JInt n" "dict_get r ''max_attempts'' (JInt default_max_attempts) = JInt limit"
    and "map_of (ad_outcomes st) (n + 1) = None" "status \<noteq> ''withdrawn''" "ae_retry_stop env = (\<lambda>_. None)"
    and "finish_time (fr_now rd) = None" "fr_host rd \<noteq> []" "cleanup_fields (fr_annotations rd)"
  shows "p_disposition p =
    (if succeeded status \<and> fr_failure rd = None then ''done''
     else if n + 1 \<ge> limit \<or> get ''retry_scope'' r = JStr ''interruption'' then ''failed'' else ''requeued'')"
proof -
  from worker_finish_cleanup [OF assms(1,2)] obtain holder where
    c: "after_cleanup rd env key status detail (Some r) holder (update_obj (fr_annotations rd) (set_holder holder r)) st = (Inr (Commit_Finish p), st')"
    by blast
  let ?r = "update_obj (fr_annotations rd) (set_holder holder r)"
  have map: "map_of ?r k = map_of r k" if "k \<in> {''attempts'', ''max_attempts'', ''retry_scope''}" for k
    using that assms(10) by (auto simp: cleanup_fields_def map_of_update_obj map_of_set_holder)
  from after_cleanup_conclude [OF c]
  have "conclude_claim rd env key (reported_status rd status) (reported_detail rd detail) r holder ?r st = (Inr p, st')" .
  from conclude_claim_disposition [OF this _ _ assms(5) _ assms(7-9), of limit] assms(3,4,6)
    dict_get_cong [OF map, of "''attempts''"] dict_get_cong [OF map, of "''max_attempts''"]
  have "p_disposition p = finish_disposition ?r (reported_status rd status) (n + 1) limit"
    by (auto simp: reported_status_def)
  moreover have "get ''retry_scope'' ?r = get ''retry_scope'' r" unfolding get_def by (rule dict_get_cong [OF map]) simp
  ultimately show ?thesis by (auto simp: finish_disposition_def reported_status_def succeeded_def)
qed

section \<open>What a finish puts back in the queue\<close>

lemma advance_ready:
  assumes "advance usable me now key name flt c s = (c', s')" "f_ready s' \<noteq> f_ready s"
  obtains p m retired where "c = Publish p m retired" "\<not> terminal_disposition p" "f_ready s' = Some (deferred_record now key p)"
proof -
  from advance_files(5) [OF assms(1)] assms(2) obtain p m retired where
    c: "c = Publish p m retired" "f_ready s' = Some (deferred_record now key p)" by blast
  then have "\<not> terminal_disposition p"
    using assms by (auto simp: publish_destination_def file_terminal_def split: option.splits if_splits)
  with that c show thesis by blast
qed

lemma run_ready:
  "run usable me now key name flt c s = (res, s') \<Longrightarrow> f_ready s' \<noteq> f_ready s \<Longrightarrow>
   \<exists>p. plan_of c = Some p \<and> \<not> terminal_disposition p \<and> f_ready s' = Some (deferred_record now key p)"
proof (induction "calls_left c" arbitrary: c s rule: less_induct)
  case less
  show ?case
  proof (cases "calls_left c = 0")
    case True
    then obtain r where "c = Ended r" by (cases c) auto
    then show ?thesis using less.prems by simp
  next
    case False
    obtain c1 s1 where adv: "advance usable me now key name (flt (calls_left c)) c s = (c1, s1)" by (rule prod.exhaust)
    then have run: "run usable me now key name flt c1 s1 = (res, s')" using less.prems(1) run_step [OF False] by simp
    have near: "calls_left c1 < calls_left c"
      using advance_nearer [OF False, of usable me now key name "flt (calls_left c)" s] adv by simp
    show ?thesis
    proof (cases "f_ready s' = f_ready s1")
      case True
      with less.prems(2) have "f_ready s1 \<noteq> f_ready s" by simp
      with adv True show ?thesis by (auto elim: advance_ready)
    next
      case False
      from less.hyps [OF near run False] show ?thesis using advance_plan(1) [OF adv] by blast
    qed
  qed
qed

lemma has_key_fold_drop: "has_key k (fold drop_key ks d) \<longleftrightarrow> k \<notin> set ks \<and> has_key k d"
  by (induction ks arbitrary: d) auto

text \<open>
  C16: What a finish puts back in the queue is an item. When a worker's finish is committed, whatever calls fail and
  whatever else is on file, a ready row that it changed is the claim's own generation in the shape
  \<open>publish\<close> writes: the item schema, its key, and none of the fields that describe the claim that ended.
\<close>

theorem requeued_row_is_item:
  assumes "worker_finish rd env key status detail snapshot s st = (Inr (Commit_Finish p), st')"
    and "''published_unix'' \<notin> fst ` set (fr_annotations rd)"
    and "commit_claim usable me now key name flt p t = (res, t')" "f_ready t' \<noteq> f_ready t"
  shows "\<exists>row r. f_ready t' = Some row \<and> f_claimed s = Some r \<and> get ''schema'' row = JStr pool_item_schema \<and>
    get ''action_key'' row = JStr key \<and> (\<forall>k \<in> set claim_scoped_fields. \<not> has_key k row) \<and> gen_of row = gen_of r"
proof -
  obtain r where r: "f_claimed s = Some r" using no_claim_no_finish assms(1) by blast
  from worker_finish_cleanup [OF assms(1) r] obtain holder where
    "after_cleanup rd env key status detail (Some r) holder (update_obj (fr_annotations rd) (set_holder holder r)) st = (Inr (Commit_Finish p), st')"
    by blast
  from after_cleanup_conclude [OF this] obtain q tr where p: "p = finish_plan rd key r holder q tr"
    and q: "gen_of q = gen_of (update_obj (fr_annotations rd) (set_holder holder r))" by (rule conclude_claim_plan)
  have row: "\<not> terminal_disposition p" "f_ready t' = Some (deferred_record now key p)"
    using run_ready assms(3,4) unfolding commit_claim_def by fastforce+
  then have "deferred_record now key p = shape_as_ready_item (fr_now rd) key (adopt_ending tr q)"
    by (simp add: p finish_plan_def deferred_record_def terminal_disposition_def)
  moreover have "gen_of q = gen_of r" using q gen_of_update_obj [OF assms(2)] by simp
  moreover have "''schema'' \<notin> set claim_scoped_fields" "''action_key'' \<notin> set claim_scoped_fields"
    by (simp_all add: claim_scoped_fields_def)
  ultimately show ?thesis using r row(2)
    by (simp add: shape_as_ready_item_def get_fold_drop has_key_fold_drop gen_of_def adopt_ending_def claim_scoped_fields_def)
qed

section \<open>A lost claim gets no second ending\<close>


text \<open>
  The lost-claim path gives up the lease and the holder's tokens of the key whoever has them when it gets
  there. Between the read that found no claim and this point the container cleanup runs without the key's
  lock; a successor claimed on the same host in that window stays claimed, with its lease removed and its
  tokens returned.
\<close>

theorem finish_lost_strips_successor:
  assumes "f_claimed s = Some succ" "f_lease s = Some l" "h \<in> set (f_hosts s)"
    and "finish_lost rd key status detail (Some h) snapshot s = (res, s')"
  shows "f_claimed s' = Some succ \<and> f_lease s' = None \<and> h \<notin> set (f_hosts s')"
  using assms(1,4) by (auto simp: finish_lost_def Let_def release_reservation_def split: if_splits sum.splits option.splits)

section \<open>The pending record is written after the check\<close>

text \<open>
  \<open>Keep_Pending\<close> reads the claimed record again, compares it and replaces it, in three calls without the lock. The
  second component is the record a worker has checked and not yet written.
\<close>

inductive pending_step ::
  "(obj \<Rightarrow> bool) \<Rightarrow> string \<Rightarrow> pool_key \<times> obj option \<Rightarrow> pool_key \<times> obj option \<Rightarrow> bool" for usable key where
  other: "key_step usable key st st' \<Longrightarrow> pending_step usable key (st, w) (st', w)"
| checked: "f_claimed (pk_files st) = Some live \<Longrightarrow> same_claim live r \<Longrightarrow> pending_step usable key (st, None) (st, Some r)"
| written: "pending_step usable key (st, Some r) (st\<lparr>pk_files := (pk_files st)\<lparr>f_claimed := Some r\<rparr>\<rparr>, None)"

lemma pending_others: "(key_step usable key)\<^sup>*\<^sup>* st st' \<Longrightarrow> (pending_step usable key)\<^sup>*\<^sup>* (st, w) (st', w)"
proof (induction rule: rtranclp_induct)
  case (step b c)
  from step.IH pending_step.other [OF step.hyps(2)] show ?case by (rule rtranclp.rtrancl_into_rtrancl)
qed simp

definition life_done :: action_files where
  "life_done = no_files\<lparr>f_done := Some life_row\<rparr>"

definition life_next :: obj where
  "life_next = [(''published_unix'', JFloat (Fin 11)), (''attempts'', JInt 0)]"

definition life_after :: "action_files \<Rightarrow> pool_key" where
  "life_after s = fresh_key\<lparr>pk_files := s, pk_newest := Some 7, pk_concluded := {7}\<rparr>"

lemma life_steps_after: "life_steps (life_after life_done)"
proof -
  let ?s = "life_marked\<lparr>f_done := Some life_row\<rparr>"
  have filed: "filed ?s = {7}" "filed life_done = {7}"
    using life_gen by (auto simp: filed_def life_marked_def life_done_def no_files_def)
  have start: "(life_at life_marked (Publish life_plan ''m'' None) (Some 0))\<lparr>pk_concluded := {}\<rparr> = life_at life_marked (Publish life_plan ''m'' None) (Some 0)"
    by (simp add: life_at_def life_claimed_def fresh_key_def)
  have "key_step (\<lambda>_. True) ''k'' (life_at life_marked (Publish life_plan ''m'' None) (Some 0))
      ((life_at ?s (Unmark ''m'' Done_Record) (Some 0))\<lparr>pk_concluded := {7}\<rparr>)"
    using life_call_step [of "''n''" "Publish life_plan ''m'' None" life_marked "Unmark ''m'' Done_Record" ?s "Some 0" "{}"] filed start
    by (simp add: life_simps publish_destination_def file_terminal_def with_supersedes_def terminal_home_def)
  moreover have "key_step (\<lambda>_. True) ''k'' ((life_at ?s (Unmark ''m'' Done_Record) (Some 0))\<lparr>pk_concluded := {7}\<rparr>)
      ((life_at life_done (Ended (Inr (Some Done_Record))) (Some 0))\<lparr>pk_concluded := {7}\<rparr>)"
    using life_call_step [of "''n''" "Unmark ''m'' Done_Record" ?s "Ended (Inr (Some Done_Record))" life_done "Some 0" "{7}"] filed
    by (simp add: life_simps drop_mark_def life_done_def)
  moreover have "key_step (\<lambda>_. True) ''k'' ((life_at life_done (Ended (Inr (Some Done_Record))) (Some 0))\<lparr>pk_concluded := {7}\<rparr>) (life_after life_done)"
    using key_step.stop [of "(life_at life_done (Ended (Inr (Some Done_Record))) (Some 0))\<lparr>pk_concluded := {7}\<rparr>" 0 "Committing (Ended (Inr (Some Done_Record)))" "\<lambda>_. True" "''k''"]
    by (simp add: life_at_def life_after_def life_claimed_def fresh_key_def)
  ultimately show ?thesis using life_steps_publish by (meson rtranclp.rtrancl_into_rtrancl)
qed

definition life_successor :: pool_key where
  "life_successor = (life_after (life_done\<lparr>f_claimed := Some life_next\<rparr>))\<lparr>pk_newest := Some 11\<rparr>"

lemma life_steps_successor: "life_steps life_successor"
proof -
  let ?st = "(life_after (life_done\<lparr>f_ready := Some life_next\<rparr>))\<lparr>pk_newest := Some 11\<rparr>"
  have "gen_of life_next = Some 11" by (simp add: gen_of_def life_next_def get_def dict_get_def)
  then have "key_step (\<lambda>_. True) ''k'' (life_after life_done) ?st"
    using key_step.publish_row [of "life_after life_done" life_next 11 "\<lambda>_. True" "''k''"] by (simp add: life_after_def fresh_key_def)
  moreover have "key_step (\<lambda>_. True) ''k'' ?st life_successor"
    using key_step.claim_row [of ?st life_next "\<lambda>_. True" "''k''"]
    by (simp add: life_successor_def life_after_def life_done_def fresh_key_def no_files_def)
  ultimately show ?thesis using life_steps_after by (meson rtranclp.rtrancl_into_rtrancl)
qed


section \<open>Samples\<close>

definition finish_sample_reads :: finish_reads where
  "finish_sample_reads = \<lparr>fr_now = JFloat (Fin 9), fr_host = ''h'', fr_intent = None, fr_late = None, fr_complete = True, fr_cleanup = [],
     fr_annotations = [], fr_obligation = JNull, fr_failure = None, fr_withdrawn = Inr False, fr_prewarm = None, fr_pins = False,
     fr_retains = False, fr_readable = True, fr_repository = ''unknown'', fr_int = (\<lambda>_. None), fr_str = (\<lambda>_. []),
     fr_valid_stop = (\<lambda>_ _. True)\<rparr>"

definition finish_sample_env :: archive_env where
  "finish_sample_env = archive_sample_env\<lparr>ae_retry_stop := (\<lambda>_. None)\<rparr>"

definition finish_sample_row :: obj where
  "finish_sample_row = [(''action_key'', JStr ''k''), (''published_unix'', JFloat (Fin 7)), (''attempts'', JInt 0), (''claimed_by'', JStr ''w'')]"

definition finish_sample_files :: action_files where
  "finish_sample_files = no_files\<lparr>f_claimed := Some finish_sample_row, f_lease := Some [(''owner'', JStr ''w'')], f_hosts := [''h'']\<rparr>"

definition finish_sample :: "string \<Rightarrow> finish_step result \<times> attempt_dir" where
  "finish_sample status = worker_finish finish_sample_reads finish_sample_env ''k'' status [] (Some finish_sample_row) finish_sample_files
     \<lparr>ad_outcomes = [], ad_logs = []\<rparr>"

definition committed :: "finish_step result \<times> attempt_dir \<Rightarrow> plan option" where
  "committed x = (case fst x of Inr (Commit_Finish p) \<Rightarrow> Some p | _ \<Rightarrow> None)"

lemma committed_Some: "committed x = Some p \<Longrightarrow> x = (Inr (Commit_Finish p), snd x)"
  by (cases x) (auto simp: committed_def split: sum.splits finish_step.splits)

lemma finish_sample_claimed: "f_claimed finish_sample_files = Some finish_sample_row"
  by (simp add: finish_sample_files_def)

lemma finish_sample_gen: "gen_of finish_sample_row = Some 7"
  by (simp add: finish_sample_row_def gen_of_def get_def dict_get_def)

lemma finish_sample_archives:
  "status \<in> {''executed'', ''failed''} \<Longrightarrow>
   fst (archive_attempt finish_sample_env (finished_record finish_sample_reads status [] 0 (put ''claimed_host'' (JStr ''h'') finish_sample_row)) 1 status
     (if status = ''executed'' then ''done'' else ''requeued'') [] True \<lparr>ad_outcomes = [], ad_logs = []\<rparr>)
   = Inr [attempt_link (\<lambda>_. ''1.json'') 1]"
  by (elim insertE emptyE; hypsubst) code_simp+

lemma finish_sample_commits:
  assumes "status \<in> {''executed'', ''failed''}"
  shows "committed (finish_sample status) \<noteq> None"
proof -
  let ?r = "put ''claimed_host'' (JStr ''h'') finish_sample_row"
  let ?r1 = "finished_record finish_sample_reads status [] 0 ?r"
  have row: "map_of ?r ''attempts'' = Some (JInt 0)" "map_of ?r ''max_attempts'' = None" "get ''prewarm'' ?r = JNull"
    "get ''local_scratch_io_placement'' ?r = JNull" "get ''retry_scope'' ?r = JNull"
    by (simp_all add: finish_sample_row_def get_def dict_get_def)
  have det: "finished_detail finish_sample_reads ?r [] = []" by (simp add: finished_detail_def finish_sample_row_def get_def dict_get_def)
  have scope: "get ''retry_scope'' ?r1 = JNull"
    using dict_get_cong [OF finished_record_map [of "''retry_scope''" finish_sample_reads status "[]" 0 ?r]] row(5) by (simp add: get_def)
  have "finish_disposition ?r1 status 1 3 = (if status = ''executed'' then ''done'' else ''requeued'')"
    using assms by (auto simp: finish_disposition_def succeeded_def scope)
  with finish_sample_archives [OF assms] obtain st1 where
    a: "archive_attempt finish_sample_env (finished_record finish_sample_reads status (finished_detail finish_sample_reads ?r []) 0 ?r) (0 + 1) status
      (finish_disposition (finished_record finish_sample_reads status (finished_detail finish_sample_reads ?r []) 0 ?r) status (0 + 1) 3)
      (finished_detail finish_sample_reads ?r []) True \<lparr>ad_outcomes = [], ad_logs = []\<rparr> = (Inr [attempt_link (\<lambda>_. ''1.json'') 1], st1)"
    unfolding det by (auto simp: prod_eq_iff)
  have "\<exists>p. conclude_claim finish_sample_reads finish_sample_env ''k'' status [] finish_sample_row (Some ''h'') ?r \<lparr>ad_outcomes = [], ad_logs = []\<rparr> = (Inr p, st1)"
    using conclude_claim_returns [OF a, of "''k''" finish_sample_row "Some ''h''"] assms row
    by (auto simp: dict_get_def default_max_attempts_def finish_sample_env_def finish_sample_reads_def finish_time_def)
  then obtain p where p: "conclude_claim finish_sample_reads finish_sample_env ''k'' status [] finish_sample_row (Some ''h'') ?r \<lparr>ad_outcomes = [], ad_logs = []\<rparr> = (Inr p, st1)" ..
  have "same_claim finish_sample_row finish_sample_row"
    by (simp add: same_claim_fields finish_sample_row_def get_def dict_get_def py_eq_numeric)
  moreover have "check_lease_identity finish_sample_row (Some [(''owner'', JStr ''w'')]) = Inr ()"
    by code_simp
  moreover have "recorded_hosts finish_sample_row = []" by (simp add: recorded_hosts_def finish_sample_row_def get_def dict_get_def)
  ultimately have "finish_sample status = (Inr (Commit_Finish p), st1)"
    using p by (simp add: finish_sample_def worker_finish_def after_cleanup_def relation_to_def finish_sample_files_def resolve_claim_holder_def
        set_holder_def update_obj_def reported_status_def reported_detail_def finish_sample_reads_def)
  then show ?thesis by (simp add: committed_def)
qed

theorem worker_finish_own_claim_witness:
  "\<exists>p. committed (finish_sample ''executed'') = Some p \<and> p_original p = finish_sample_row \<and> plan_ok {} p"
proof -
  from finish_sample_commits [of "''executed''"] obtain p where p: "committed (finish_sample ''executed'') = Some p" by auto
  from committed_Some [OF p] have "worker_finish finish_sample_reads finish_sample_env ''k'' ''executed'' [] (Some finish_sample_row) finish_sample_files
     \<lparr>ad_outcomes = [], ad_logs = []\<rparr> = (Inr (Commit_Finish p), snd (finish_sample ''executed''))" by (simp add: finish_sample_def)
  from worker_finish_own_claim [OF this, of "{}"] p finish_sample_claimed finish_sample_gen show ?thesis
    by (auto simp: finish_sample_reads_def)
qed

theorem worker_finish_disposition_witness:
  "\<exists>p. committed (finish_sample ''failed'') = Some p \<and> p_disposition p = ''requeued''"
proof -
  from finish_sample_commits [of "''failed''"] obtain p where p: "committed (finish_sample ''failed'') = Some p" by auto
  from committed_Some [OF p] have "worker_finish finish_sample_reads finish_sample_env ''k'' ''failed'' [] (Some finish_sample_row) finish_sample_files
     \<lparr>ad_outcomes = [], ad_logs = []\<rparr> = (Inr (Commit_Finish p), snd (finish_sample ''failed''))" by (simp add: finish_sample_def)
  from worker_finish_disposition [OF this finish_sample_claimed, of 0 3] p show ?thesis
    by (auto simp: finish_sample_reads_def finish_sample_env_def finish_sample_row_def dict_get_def get_def default_max_attempts_def
        finish_time_def cleanup_fields_def succeeded_def)
qed

definition lost_sample :: "home result \<times> action_files" where
  "lost_sample = finish_lost finish_sample_reads ''k'' ''executed'' [] (Some ''h'') finish_sample_row
     (finish_sample_files\<lparr>f_failed := Some finish_sample_row\<rparr>)"


theorem finish_lost_strips_successor_witness:
  "f_claimed (snd lost_sample) = Some finish_sample_row \<and> f_lease (snd lost_sample) = None \<and> ''h'' \<notin> set (f_hosts (snd lost_sample))"
  by (rule finish_lost_strips_successor [of "finish_sample_files\<lparr>f_failed := Some finish_sample_row\<rparr>" finish_sample_row "[(''owner'', JStr ''w'')]"
        "''h''" finish_sample_reads "''k''" "''executed''" "[]" finish_sample_row "fst lost_sample" "snd lost_sample"])
    (simp_all add: finish_sample_files_def no_files_def lost_sample_def)

lemma requeue_sample:
  assumes "worker_finish finish_sample_reads finish_sample_env ''k'' ''failed'' [] (Some finish_sample_row) finish_sample_files
     \<lparr>ad_outcomes = [], ad_logs = []\<rparr> = (Inr (Commit_Finish p), st')"
    and "commit_claim (\<lambda>_. True) ''h'' (JInt 9) ''k'' ''m'' (\<lambda>_. Clean) p finish_sample_files = (res, t')"
  shows "f_ready t' \<noteq> None"
proof -
  from worker_finish_cleanup [OF assms(1) finish_sample_claimed] obtain holder where
    "after_cleanup finish_sample_reads finish_sample_env ''k'' ''failed'' [] (Some finish_sample_row) holder
      (update_obj (fr_annotations finish_sample_reads) (set_holder holder finish_sample_row)) \<lparr>ad_outcomes = [], ad_logs = []\<rparr> = (Inr (Commit_Finish p), st')" by blast
  note conc = after_cleanup_conclude [OF this]
  from conc obtain q tr where p: "p = finish_plan finish_sample_reads ''k'' finish_sample_row holder q tr" by (rule conclude_claim_plan)
  have map: "map_of (update_obj (fr_annotations finish_sample_reads) (set_holder holder finish_sample_row)) k = map_of finish_sample_row k"
    if "k \<noteq> ''claimed_host''" for k using that by (simp add: finish_sample_reads_def update_obj_def map_of_set_holder)
  have "p_disposition p = ''requeued''"
    using conclude_claim_disposition [OF conc, of 0 3] map
    by (auto simp: finish_sample_reads_def finish_sample_env_def finish_sample_row_def dict_get_def get_def default_max_attempts_def
        finish_time_def reported_status_def finish_disposition_def succeeded_def update_obj_def set_holder_def split: option.splits)
  then have plan: "p_transition p = FINISH" "p_original p = finish_sample_row" "\<not> terminal_disposition p" "guarded_publication p" "target_of p = ''ready''"
    by (simp_all add: p finish_plan_def terminal_disposition_def guarded_publication_def target_of_def)
  have same: "same_claim finish_sample_row finish_sample_row"
    by (simp add: same_claim_fields finish_sample_row_def get_def dict_get_def py_eq_numeric)
  show ?thesis using assms(2) plan same
    by (auto simp: commit_claim_def run_step entomb_def judge_def after_tokens_def publish_destination_def publish_requeued_claim_def
        publication_ending_def release_reservation_def drop_mark_def finish_sample_files_def no_files_def legal_destination_def bind_eq_Some_conv)
qed

theorem requeued_row_is_item_witness:
  "\<exists>p row. committed (finish_sample ''failed'') = Some p \<and>
     f_ready (snd (commit_claim (\<lambda>_. True) ''h'' (JInt 9) ''k'' ''m'' (\<lambda>_. Clean) p finish_sample_files)) = Some row \<and> \<not> has_key ''claimed_by'' row"
proof -
  from finish_sample_commits [of "''failed''"] obtain p where p: "committed (finish_sample ''failed'') = Some p" by auto
  from committed_Some [OF p] have w: "worker_finish finish_sample_reads finish_sample_env ''k'' ''failed'' [] (Some finish_sample_row) finish_sample_files
     \<lparr>ad_outcomes = [], ad_logs = []\<rparr> = (Inr (Commit_Finish p), snd (finish_sample ''failed''))" by (simp add: finish_sample_def)
  obtain res t' where c: "commit_claim (\<lambda>_. True) ''h'' (JInt 9) ''k'' ''m'' (\<lambda>_. Clean) p finish_sample_files = (res, t')" by (rule prod.exhaust)
  from requeue_sample [OF w c] have "f_ready t' \<noteq> f_ready finish_sample_files" by (simp add: finish_sample_files_def no_files_def)
  from requeued_row_is_item [OF w _ c this] p c show ?thesis by (auto simp: finish_sample_reads_def claim_scoped_fields_def)
qed

end
