(* ===== verification/Progress_Policy.thy ===== *)
theory Progress_Policy
  imports Json
begin

text \<open>
  The limits a launched action runs under: \<open>ExecutionBudget\<close> and \<open>DefaultStall\<close> (\<open>pool.py\<close>), the
  sealed no-progress policy as \<open>core.validate_progress_policy\<close> reads it, and the \<open>ProgressPolicy\<close> the
  watch enforces, with the worker's ceiling on every phase. Times are exact rationals; a total that
  binary64 rounds to an infinity is refused as the code refuses it. Characters are code points below
  256, which is what \<open>py_space\<close> tells apart.
\<close>

section \<open>The requested deadline and the default stall allowance\<close>

record budget =
  eb_effective :: "rat option"
  eb_requested :: "rat option"
  eb_ceiling :: "rat option"

definition opt_min :: "rat \<Rightarrow> rat option \<Rightarrow> rat" where
  "opt_min r cap = (case cap of None \<Rightarrow> r | Some c \<Rightarrow> min r c)"

definition execution_budget :: "rat option \<Rightarrow> rat option \<Rightarrow> budget" where
  "execution_budget requested cap =
     (case requested of
        None \<Rightarrow> \<lparr>eb_effective = None, eb_requested = None, eb_ceiling = cap\<rparr>
      | Some r \<Rightarrow>
          \<lparr>eb_effective = Some (opt_min r cap), eb_requested = Some r, eb_ceiling = cap\<rparr>)"

definition budget_clamped :: "budget \<Rightarrow> bool" where
  "budget_clamped b \<longleftrightarrow>
     (case (eb_requested b, eb_ceiling b) of (Some r, Some c) \<Rightarrow> c < r | _ \<Rightarrow> False)"

definition opt_num :: "rat option \<Rightarrow> json" where
  "opt_num v = (case v of None \<Rightarrow> JNull | Some r \<Rightarrow> JFloat (Fin r))"

definition budget_record :: "budget \<Rightarrow> obj" where
  "budget_record b =
     [(''execution_timeout_s'', opt_num (eb_effective b)),
      (''execution_timeout_requested_s'', opt_num (eb_requested b)),
      (''execution_timeout_ceiling_s'', opt_num (eb_ceiling b)),
      (''execution_timeout_clamped'', JBool (budget_clamped b))]"

definition default_stall_allowance_s :: rat where "default_stall_allowance_s = 7200"

record stall_allowance =
  ds_requested :: "rat option"
  ds_ceiling :: "rat option"
  ds_effective :: rat

definition default_stall :: "rat option \<Rightarrow> rat option \<Rightarrow> stall_allowance" where
  "default_stall requested cap =
     (let basis = (case requested of None \<Rightarrow> default_stall_allowance_s | Some r \<Rightarrow> r) in
      \<lparr>ds_requested = requested, ds_ceiling = cap, ds_effective = opt_min basis cap\<rparr>)"

definition stall_clamped :: "stall_allowance \<Rightarrow> bool" where
  "stall_clamped d =
     (let basis = (case ds_requested d of None \<Rightarrow> default_stall_allowance_s | Some r \<Rightarrow> r) in
      case ds_ceiling d of None \<Rightarrow> False | Some c \<Rightarrow> c < basis)"

definition stall_allowance_record :: "stall_allowance \<Rightarrow> obj" where
  "stall_allowance_record d =
     [(''stall_allowance_s'', JFloat (Fin (ds_effective d))),
      (''stall_allowance_requested_s'', opt_num (ds_requested d)),
      (''stall_allowance_ceiling_s'', opt_num (ds_ceiling d)),
      (''stall_allowance_clamped'', JBool (stall_clamped d))]"

section \<open>Phases\<close>

record progress_phase =
  ph_name :: string
  ph_requested_grace_s :: rat
  ph_ceiling_s :: "rat option"

definition effective_grace_s :: "progress_phase \<Rightarrow> rat" where
  "effective_grace_s p =
     (case ph_ceiling_s p of
        None \<Rightarrow> ph_requested_grace_s p
      | Some c \<Rightarrow> min (ph_requested_grace_s p) c)"

definition phase_clamped :: "progress_phase \<Rightarrow> bool" where
  "phase_clamped p \<longleftrightarrow> (case ph_ceiling_s p of None \<Rightarrow> False | Some c \<Rightarrow> c < ph_requested_grace_s p)"

definition phase_record :: "progress_phase \<Rightarrow> obj" where
  "phase_record p =
     [(''name'', JStr (ph_name p)),
      (''grace_requested_s'', JFloat (Fin (ph_requested_grace_s p))),
      (''grace_ceiling_s'', opt_num (ph_ceiling_s p)),
      (''grace_s'', JFloat (Fin (effective_grace_s p))),
      (''grace_clamped'', JBool (phase_clamped p))]"

record policy =
  pp_phases :: "progress_phase list"
  pp_ceiling_s :: "rat option"
  pp_cycle :: bool
  pp_pool_contention :: "obj option"
  pp_awaited_batch :: "obj option"

definition no_progress_bound_s :: "policy \<Rightarrow> rat" where
  "no_progress_bound_s pol = sum_list (map effective_grace_s (pp_phases pol))"

definition policy_clamped :: "policy \<Rightarrow> bool" where
  "policy_clamped pol \<longleftrightarrow> list_ex phase_clamped (pp_phases pol)"

fun index_from :: "nat \<Rightarrow> string \<Rightarrow> progress_phase list \<Rightarrow> nat option" where
  "index_from i name [] = None"
| "index_from i name (p # ps) = (if ph_name p = name then Some i else index_from (Suc i) name ps)"

definition index_of :: "policy \<Rightarrow> string \<Rightarrow> nat option" where
  "index_of pol name = index_from 0 name (pp_phases pol)"

definition progress_record_schema_v1 :: string where
  "progress_record_schema_v1 = ''prismabuild.action_progress.v1''"

definition policy_record :: "policy \<Rightarrow> obj" where
  "policy_record pol =
     [(''progress_contract'', JStr progress_record_schema_v1),
      (''progress_phases'', JArr (map (JObj \<circ> phase_record) (pp_phases pol))),
      (''progress_stall_ceiling_s'', opt_num (pp_ceiling_s pol)),
      (''progress_stall_clamped'', JBool (policy_clamped pol)),
      (''progress_no_progress_bound_s'', JFloat (Fin (no_progress_bound_s pol))),
      (''progress_cycle'', JBool (pp_cycle pol))] @
     (case pp_pool_contention pol of None \<Rightarrow> [] | Some d \<Rightarrow> [(''progress_pool_contention'', JObj d)]) @
     (case pp_awaited_batch pol of None \<Rightarrow> [] | Some d \<Rightarrow> [(''progress_awaited_batch'', JObj d)])"

section \<open>The sealed policy\<close>

text \<open>The characters \<open>str.strip\<close> removes.\<close>

definition py_space :: "char \<Rightarrow> bool" where
  "py_space c \<longleftrightarrow>
     (of_char c :: nat) \<in> {9, 10, 11, 12, 13, 28, 29, 30, 31, 32, 133, 160}"

definition py_strip :: "string \<Rightarrow> string" where
  "py_strip s = rev (dropWhile py_space (rev (dropWhile py_space s)))"

definition progress_policy_schema_v1 :: string where
  "progress_policy_schema_v1 = ''prismabuild.action_progress_policy.v1''"

text \<open>\<open>type(v) in (int, float) and math.isfinite(v) and v > 0\<close>, as the float it converts to.\<close>

definition grace_value :: "json \<Rightarrow> rat option" where
  "grace_value v =
     (if is_number v then
        (case py_float v of Inr (Fin q) \<Rightarrow> if 0 < q then Some q else None | _ \<Rightarrow> None)
      else None)"

text \<open>One declared phase; \<open>None\<close> is \<open>ActionContractError\<close>.\<close>

definition declared_phase :: "string set \<Rightarrow> json \<Rightarrow> (string \<times> json) option" where
  "declared_phase seen v =
     (case v of
        JObj d \<Rightarrow>
          if fst ` set d = {''name'', ''grace_s''} then
            (case get ''name'' d of
               JStr name \<Rightarrow>
                 if name = [] \<or> py_strip name \<noteq> name \<or> CHR 0x00 \<in> set name \<or> name \<in> seen \<or>
                    grace_value (get ''grace_s'' d) = None
                 then None else Some (name, get ''grace_s'' d)
             | _ \<Rightarrow> None)
          else None
      | _ \<Rightarrow> None)"

fun declared_phases :: "string set \<Rightarrow> json list \<Rightarrow> (string \<times> json) list option" where
  "declared_phases seen [] = Some []"
| "declared_phases seen (v # vs) =
     (case declared_phase seen v of
        None \<Rightarrow> None
      | Some (name, grace) \<Rightarrow>
          map_option (Cons (name, grace)) (declared_phases (insert name seen) vs))"

definition total_grace :: "(string \<times> json) list \<Rightarrow> rat" where
  "total_grace ps = sum_list (map (\<lambda>p. case grace_value (snd p) of None \<Rightarrow> 0 | Some q \<Rightarrow> q) ps)"

definition phase_json :: "string \<times> json \<Rightarrow> json" where
  "phase_json p = JObj [(''name'', JStr (fst p)), (''grace_s'', snd p)]"

definition validate_progress_policy :: "json \<Rightarrow> obj option" where
  "validate_progress_policy v =
     (case v of
        JObj d \<Rightarrow>
          if fst ` set d \<noteq> {''schema'', ''phases''} \<and> fst ` set d \<noteq> {''schema'', ''phases'', ''cycle''}
          then None
          else if get ''schema'' d \<noteq> JStr progress_policy_schema_v1 then None
          else if has_key ''cycle'' d \<and> (case get ''cycle'' d of JBool _ \<Rightarrow> False | _ \<Rightarrow> True) then None
          else (case get ''phases'' d of
             JArr (p # ps) \<Rightarrow>
               (case declared_phases {} (p # ps) of
                  None \<Rightarrow> None
                | Some normalized \<Rightarrow>
                    if float_max \<le> total_grace normalized then None
                    else Some
                      ([(''schema'', JStr progress_policy_schema_v1),
                        (''phases'', JArr (map phase_json normalized))] @
                       (if get ''cycle'' d = JBool True then [(''cycle'', JBool True)] else [])))
           | _ \<Rightarrow> None)
      | _ \<Rightarrow> None)"

text \<open>
  \<open>progress_policy\<close>: the sealed policy, as validated, under the worker's ceiling. The sealed pool
  contention spec and awaited batch are carried along.
\<close>

definition phase_of :: "rat option \<Rightarrow> json \<Rightarrow> progress_phase" where
  "phase_of cap v =
     (case v of
        JObj d \<Rightarrow>
          \<lparr>ph_name = (case get ''name'' d of JStr s \<Rightarrow> s | _ \<Rightarrow> []),
           ph_requested_grace_s = (case grace_value (get ''grace_s'' d) of None \<Rightarrow> 0 | Some q \<Rightarrow> q),
           ph_ceiling_s = cap\<rparr>
      | _ \<Rightarrow> \<lparr>ph_name = [], ph_requested_grace_s = 0, ph_ceiling_s = cap\<rparr>)"

definition progress_policy ::
    "json option \<Rightarrow> obj option \<Rightarrow> obj option \<Rightarrow> rat option \<Rightarrow> policy option option" where
  "progress_policy sealed contention awaited cap =
     (case sealed of
        None \<Rightarrow> Some None
      | Some v \<Rightarrow>
          (case validate_progress_policy v of
             None \<Rightarrow> None
           | Some declared \<Rightarrow>
               (case get ''phases'' declared of
                  JArr ps \<Rightarrow>
                    Some (Some
                      \<lparr>pp_phases = map (phase_of cap) ps, pp_ceiling_s = cap,
                       pp_cycle = truthy (get ''cycle'' declared),
                       pp_pool_contention = contention, pp_awaited_batch = awaited\<rparr>)
                | _ \<Rightarrow> None)))"

section \<open>Laws\<close>

lemma index_from_Some:
  "index_from i name ps = Some j \<Longrightarrow> i \<le> j \<and> j < i + length ps \<and> ph_name (ps ! (j - i)) = name"
proof (induction i name ps rule: index_from.induct)
  case (2 i name p ps)
  then show ?case by (cases "j = i") (auto simp: nth_Cons' split: if_splits)
qed simp

lemma index_from_None: "index_from i name ps = None \<longleftrightarrow> name \<notin> ph_name ` set ps"
  by (induction i name ps rule: index_from.induct) auto

lemma index_of_Some:
  "index_of pol name = Some j \<Longrightarrow> j < length (pp_phases pol) \<and> ph_name (pp_phases pol ! j) = name"
  using index_from_Some [of 0 name "pp_phases pol" j] by (simp add: index_of_def)

lemma index_of_None: "index_of pol name = None \<longleftrightarrow> name \<notin> ph_name ` set (pp_phases pol)"
  by (simp add: index_of_def index_from_None)

lemma effective_grace_le: "effective_grace_s p \<le> ph_requested_grace_s p"
  by (simp add: effective_grace_s_def split: option.splits)

lemma effective_grace_pos:
  "0 < ph_requested_grace_s p \<Longrightarrow> (case ph_ceiling_s p of None \<Rightarrow> True | Some c \<Rightarrow> 0 < c) \<Longrightarrow>
   0 < effective_grace_s p"
  by (simp add: effective_grace_s_def split: option.splits)

lemma phase_clamped_iff: "phase_clamped p \<longleftrightarrow> effective_grace_s p \<noteq> ph_requested_grace_s p"
  by (auto simp: phase_clamped_def effective_grace_s_def split: option.splits)

lemma budget_clamped_iff:
  "budget_clamped (execution_budget requested cap) \<longleftrightarrow>
   eb_effective (execution_budget requested cap) \<noteq> requested"
  by (auto simp: budget_clamped_def execution_budget_def opt_min_def split: option.splits)

lemma stall_clamped_iff:
  "stall_clamped (default_stall requested cap) \<longleftrightarrow>
   ds_effective (default_stall requested cap) \<noteq>
     (case requested of None \<Rightarrow> default_stall_allowance_s | Some r \<Rightarrow> r)"
  by (auto simp: stall_clamped_def default_stall_def opt_min_def Let_def split: option.splits)

text \<open>What a validated phase list is.\<close>

definition usable_phases :: "(string \<times> json) list \<Rightarrow> bool" where
  "usable_phases ps \<longleftrightarrow>
     distinct (map fst ps) \<and>
     (\<forall>(n, g) \<in> set ps. n \<noteq> [] \<and> py_strip n = n \<and> CHR 0x00 \<notin> set n \<and> grace_value g \<noteq> None)"

lemma declared_phase_Some:
  "declared_phase seen v = Some (n, g) \<Longrightarrow>
   n \<notin> seen \<and> n \<noteq> [] \<and> py_strip n = n \<and> CHR 0x00 \<notin> set n \<and> grace_value g \<noteq> None"
  by (auto simp: declared_phase_def split: json.splits if_splits)

lemma declared_phases_usable:
  "declared_phases seen vs = Some ps \<Longrightarrow>
   usable_phases ps \<and> fst ` set ps \<inter> seen = {} \<and> length ps = length vs"
proof (induction seen vs arbitrary: ps rule: declared_phases.induct)
  case (1 seen)
  then show ?case by (auto simp: usable_phases_def)
next
  case (2 seen v vs)
  then obtain n g qs where "declared_phase seen v = Some (n, g)"
    and qs: "declared_phases (insert n seen) vs = Some qs" and ps: "ps = (n, g) # qs"
    by (auto split: option.splits)
  moreover have "usable_phases qs \<and> fst ` set qs \<inter> insert n seen = {} \<and> length qs = length vs"
    using "2.IH" [OF calculation(1) refl qs] .
  ultimately show ?case
    using declared_phase_Some [of seen v n g] by (auto simp: usable_phases_def)
qed

lemma declared_phases_again:
  "usable_phases ps \<Longrightarrow> fst ` set ps \<inter> seen = {} \<Longrightarrow>
   declared_phases seen (map phase_json ps) = Some ps"
proof (induction ps arbitrary: seen)
  case (Cons p ps)
  obtain n g where p: "p = (n, g)" by (cases p)
  have "declared_phase seen (phase_json p) = Some p"
    using Cons.prems by (auto simp: p declared_phase_def phase_json_def usable_phases_def get_Cons)
  moreover have "declared_phases (insert n seen) (map phase_json ps) = Some ps"
    using Cons.prems by (intro Cons.IH) (auto simp: p usable_phases_def)
  ultimately show ?case by (simp add: p)
qed simp

lemma validate_progress_policyE:
  assumes "validate_progress_policy v = Some r"
  obtains ps c where "usable_phases ps" "ps \<noteq> []" "total_grace ps < float_max"
    "r = [(''schema'', JStr progress_policy_schema_v1), (''phases'', JArr (map phase_json ps))] @
         (if c then [(''cycle'', JBool True)] else [])"
proof -
  obtain d where v: "v = JObj d" using assms by (cases v) (simp_all add: validate_progress_policy_def)
  have "\<exists>q qs. get ''phases'' d = JArr (q # qs)"
    using assms by (simp add: validate_progress_policy_def v split: if_splits json.splits list.splits)
  then obtain q qs where q: "get ''phases'' d = JArr (q # qs)" by blast
  obtain ps where ps: "declared_phases {} (q # qs) = Some ps"
    using assms by (cases "declared_phases {} (q # qs)")
      (simp_all add: validate_progress_policy_def v q split: if_splits del: declared_phases.simps)
  have "total_grace ps < float_max" and
    r: "r = [(''schema'', JStr progress_policy_schema_v1), (''phases'', JArr (map phase_json ps))] @
         (if get ''cycle'' d = JBool True then [(''cycle'', JBool True)] else [])"
    using assms by (simp_all add: validate_progress_policy_def v q ps split: if_splits del: declared_phases.simps)
  moreover have "usable_phases ps" "ps \<noteq> []" using declared_phases_usable [OF ps] by auto
  ultimately show thesis using that by blast
qed

lemma validate_progress_policy_normal:
  assumes "validate_progress_policy v = Some r"
  shows "validate_progress_policy (JObj r) = Some r"
proof (rule validate_progress_policyE [OF assms])
  fix ps c
  assume ps: "usable_phases ps" "ps \<noteq> []" "total_grace ps < float_max"
    and r: "r = [(''schema'', JStr progress_policy_schema_v1), (''phases'', JArr (map phase_json ps))] @
         (if c then [(''cycle'', JBool True)] else [])"
  obtain q qs where q: "map phase_json ps = q # qs" using ps(2) by (cases ps) auto
  have again: "declared_phases {} (q # qs) = Some ps"
    using declared_phases_again [OF ps(1), of "{}"] by (simp add: q)
  show ?thesis
    using again ps(3) q
    by (cases c) (auto simp: validate_progress_policy_def r get_Cons has_key_Cons has_key_Nil get_Nil)
qed

text \<open>The policy the watch relies on: a phase to start in, distinct names, positive allowances.\<close>

definition policy_ok :: "policy \<Rightarrow> bool" where
  "policy_ok pol \<longleftrightarrow>
     pp_phases pol \<noteq> [] \<and> distinct (map ph_name (pp_phases pol)) \<and>
     (\<forall>p \<in> set (pp_phases pol). 0 < effective_grace_s p)"

lemma phase_of_json:
  assumes "grace_value g \<noteq> None"
  shows "ph_name (phase_of cap (phase_json (n, g))) = n"
    "0 < ph_requested_grace_s (phase_of cap (phase_json (n, g)))"
    "ph_ceiling_s (phase_of cap (phase_json (n, g))) = cap"
  using assms
  by (auto simp: phase_of_def phase_json_def get_Cons grace_value_def split: option.splits if_splits sum.splits pyfloat.splits)

lemma progress_policy_ok:
  assumes pol: "progress_policy sealed contention awaited cap = Some (Some pol)"
    and pos: "case cap of None \<Rightarrow> True | Some c \<Rightarrow> 0 < c"
  shows "policy_ok pol"
proof -
  obtain v r where v: "sealed = Some v" and r: "validate_progress_policy v = Some r"
    using pol by (auto simp: progress_policy_def split: option.splits json.splits)
  show ?thesis
  proof (rule validate_progress_policyE [OF r])
    fix ps c
    assume ps: "usable_phases ps" "ps \<noteq> []"
      and req: "r = [(''schema'', JStr progress_policy_schema_v1), (''phases'', JArr (map phase_json ps))] @
         (if c then [(''cycle'', JBool True)] else [])"
    have phases: "pp_phases pol = map (phase_of cap \<circ> phase_json) ps"
      using pol by (auto simp: progress_policy_def v r req get_Cons)
    have grace: "grace_value g \<noteq> None" if "(n, g) \<in> set ps" for n g
      using ps(1) that by (auto simp: usable_phases_def)
    have names: "map ph_name (pp_phases pol) = map fst ps"
      unfolding phases using phase_of_json(1) [OF grace] by (auto simp del: phase_of_json)
    have "0 < effective_grace_s p" if in_pol: "p \<in> set (pp_phases pol)" for p
    proof -
      obtain n g where p: "p = phase_of cap (phase_json (n, g))" "(n, g) \<in> set ps"
        using in_pol unfolding phases by auto
      show ?thesis
        using phase_of_json(2,3) [OF grace [OF p(2)], of cap n] pos
        by (intro effective_grace_pos) (simp_all only: p(1))
    qed
    moreover have "distinct (map ph_name (pp_phases pol))" "pp_phases pol \<noteq> []"
      using ps by (simp_all only: names usable_phases_def) (simp add: phases)
    ultimately show ?thesis by (simp add: policy_ok_def)
  qed
qed

end
