(* ===== verification/Progress_Watch.thy ===== *)
theory Progress_Watch
  imports Progress_Policy
begin

text \<open>
  \<open>ProgressWatch\<close> (\<open>pool.py\<close>): what counts as advancement of a launched action, which quiet is credited
  to it, and when its silence ends it. A read of the reporter's file is a \<open>progress_read\<close>; the stable
  reader and the strict JSON decoder that produce it are not modelled. Clock readings are arguments, one
  per place the code reads a clock. Times are exact rationals. \<open>str\<close> is Python's \<open>str\<close> on floats, lists and
  dictionaries, which the code applies to a report's \<open>phase\<close>. The verdicts of the four wait sources are
  dictionaries the queue's own readers build, so text where a stamp belongs counts as unreadable.
\<close>

section \<open>State\<close>

record watch =
  w_token :: string
  w_policy :: policy
  w_units :: json
  w_phase_index :: nat
  w_granted :: "nat set"
  w_entered :: nat
  w_last_advance :: rat
  w_last_advance_unix :: "rat option"
  w_last_accepted :: "obj option"
  w_accepted :: nat
  w_rejected :: nat
  w_last_rejection :: "string option"
  w_sampled_unix :: "rat option"
  w_last_real :: rat
  w_through :: rat
  w_staged_s :: rat
  w_staged :: "obj option"
  w_contention_s :: rat
  w_gate_s :: rat
  w_reader_s :: rat
  w_reader :: "obj option"
  w_export_s :: rat
  w_export :: "obj option"
  w_queued_s :: rat
  w_queued :: "obj option"
  w_first_advance :: "rat option"

definition launch_watch :: "string \<Rightarrow> policy \<Rightarrow> rat \<Rightarrow> watch" where
  "launch_watch token pol started =
     \<lparr>w_token = token, w_policy = pol, w_units = JInt 0, w_phase_index = 0, w_granted = {0},
      w_entered = 1, w_last_advance = started, w_last_advance_unix = None, w_last_accepted = None,
      w_accepted = 0, w_rejected = 0, w_last_rejection = None, w_sampled_unix = None,
      w_last_real = started, w_through = started, w_staged_s = 0, w_staged = None,
      w_contention_s = 0, w_gate_s = 0, w_reader_s = 0, w_reader = None, w_export_s = 0,
      w_export = None, w_queued_s = 0, w_queued = None, w_first_advance = None\<rparr>"

definition grace_s :: "watch \<Rightarrow> rat" where
  "grace_s w = effective_grace_s (pp_phases (w_policy w) ! w_phase_index w)"

definition stall_deadline :: "watch \<Rightarrow> rat" where
  "stall_deadline w = w_last_advance w + grace_s w"

section \<open>Reports\<close>

text \<open>
  One read of the report: \<open>FileNotFoundError\<close>, \<open>ReplacedRecordError\<close>, any other refusal by the name of
  its type, bytes the strict decoder refuses, or the decoded value.
\<close>

datatype progress_read =
    Read_Absent
  | Read_Churn
  | Read_Unreadable string
  | Read_Unparsable
  | Read_Value json

definition reject :: "string \<Rightarrow> watch \<Rightarrow> watch" where
  "reject reason w = w\<lparr>w_rejected := w_rejected w + 1, w_last_rejection := Some reason\<rparr>"

definition show_int :: "int \<Rightarrow> string" where
  "show_int n = (if n < 0 then CHR ''-'' # show_nat (nat (- n)) else show_nat (nat n))"

definition py_str :: "(json \<Rightarrow> string) \<Rightarrow> json \<Rightarrow> string" where
  "py_str str v =
     (case v of
        JNull \<Rightarrow> ''None''
      | JBool b \<Rightarrow> (if b then ''True'' else ''False'')
      | JInt n \<Rightarrow> show_int n
      | JStr s \<Rightarrow> s
      | _ \<Rightarrow> str v)"

text \<open>The exact value of a finite number; Python compares \<open>int\<close> and \<open>float\<close> exactly.\<close>

definition count_value :: "json \<Rightarrow> rat option" where
  "count_value v =
     (case v of
        JInt n \<Rightarrow> Some (of_int n)
      | JFloat (Fin q) \<Rightarrow> Some q
      | _ \<Rightarrow> None)"

definition units_of :: "watch \<Rightarrow> rat" where
  "units_of w = (case count_value (w_units w) of None \<Rightarrow> 0 | Some q \<Rightarrow> q)"

text \<open>
  The checks of \<open>sample\<close> on a decoded report: the reason it is refused, or the phase it names, the
  count, and whether that count and that phase advance.
\<close>

definition judge_report ::
    "(json \<Rightarrow> string) \<Rightarrow> watch \<Rightarrow> json \<Rightarrow> string + (obj \<times> nat \<times> bool \<times> bool)" where
  "judge_report str w v =
     (case v of
        JObj d \<Rightarrow>
          if get ''schema'' d \<noteq> JStr progress_record_schema_v1 then Inl ''wrong schema''
          else if get ''token'' d \<noteq> JStr (w_token w) then Inl ''foreign token''
          else (case index_of (w_policy w) (py_str str (get ''phase'' d)) of
             None \<Rightarrow> Inl ''undeclared phase''
           | Some index \<Rightarrow>
               (case count_value (get ''units_completed'' d) of
                  None \<Rightarrow> Inl ''units_completed is not a finite count''
                | Some units \<Rightarrow>
                    if units < 0 then Inl ''units_completed is not a finite count''
                    else
                      (let advanced_units = units_of w < units;
                           advanced_phase =
                             (if pp_cycle (w_policy w) then index \<notin> w_granted w
                              else w_phase_index w < index) in
                       if pp_cycle (w_policy w) \<and> units < units_of w then Inl ''regressing''
                       else if \<not> advanced_units \<and> \<not> advanced_phase then Inl ''replayed''
                       else Inr (d, index, advanced_units, advanced_phase))))
      | _ \<Rightarrow> Inl ''not an object'')"

text \<open>\<open>reported_unix\<close>, when it is a number \<open>float\<close> takes and finite.\<close>

definition reported_stamp :: "json \<Rightarrow> rat option" where
  "reported_stamp v =
     (if is_number v then (case py_float v of Inr (Fin q) \<Rightarrow> Some q | _ \<Rightarrow> None) else None)"

definition enter_phase :: "nat \<Rightarrow> bool \<Rightarrow> bool \<Rightarrow> watch \<Rightarrow> watch" where
  "enter_phase index advanced_units advanced_phase w =
     (if pp_cycle (w_policy w) then
        w\<lparr>w_granted := insert index (if advanced_units then {} else w_granted w),
          w_entered := (if index \<noteq> w_phase_index w then w_entered w + 1 else w_entered w),
          w_phase_index := index\<rparr>
      else if advanced_phase then
        w\<lparr>w_entered := w_entered w + (index - w_phase_index w), w_phase_index := index\<rparr>
      else w)"

definition accept_report ::
    "rat \<Rightarrow> rat \<Rightarrow> obj \<Rightarrow> nat \<Rightarrow> bool \<Rightarrow> bool \<Rightarrow> watch \<Rightarrow> watch" where
  "accept_report now unix d index advanced_units advanced_phase w =
     (let w1 = (if advanced_units then w\<lparr>w_units := get ''units_completed'' d\<rparr> else w);
          w2 = enter_phase index advanced_units advanced_phase w1;
          stamp = (case reported_stamp (get ''reported_unix'' d) of None \<Rightarrow> unix | Some q \<Rightarrow> q) in
      w2\<lparr>w_accepted := w_accepted w2 + 1, w_last_advance := now, w_last_real := now,
        w_first_advance := (case w_first_advance w2 of None \<Rightarrow> Some now | Some t \<Rightarrow> Some t),
        w_last_advance_unix := Some stamp,
        w_last_accepted := Some
          [(''phase'', JStr (ph_name (pp_phases (w_policy w2) ! w_phase_index w2))),
           (''units_completed'', w_units w2),
           (''unit'', case get ''unit'' d of JStr s \<Rightarrow> JStr s | _ \<Rightarrow> JNull),
           (''reported_unix'', JFloat (Fin stamp))]\<rparr>)"

text \<open>\<open>sample\<close>: \<open>sampled\<close> is the wall clock at its start, \<open>unix\<close> the one it falls back on.\<close>

definition sample ::
    "(json \<Rightarrow> string) \<Rightarrow> rat \<Rightarrow> rat \<Rightarrow> rat \<Rightarrow> progress_read \<Rightarrow> watch \<Rightarrow> bool \<times> watch" where
  "sample str now sampled unix read w0 =
     (let w = w0\<lparr>w_sampled_unix := Some sampled\<rparr> in
      case read of
        Read_Absent \<Rightarrow> (False, w)
      | Read_Churn \<Rightarrow> (False, w)
      | Read_Unreadable kind \<Rightarrow> (False, reject (''unreadable: '' @ kind) w)
      | Read_Unparsable \<Rightarrow> (False, reject ''unparsable'' w)
      | Read_Value v \<Rightarrow>
          (case judge_report str w v of
             Inl reason \<Rightarrow> (False, reject reason w)
           | Inr (d, index, advanced_units, advanced_phase) \<Rightarrow>
               (True, accept_report now unix d index advanced_units advanced_phase w)))"

section \<open>Credits\<close>

definition shift :: "rat \<Rightarrow> watch \<Rightarrow> watch" where
  "shift seconds w = w\<lparr>w_last_advance := w_last_advance w + seconds\<rparr>"

text \<open>Python's \<open>max\<close> keeps its first argument unless the next one is greater.\<close>

definition py_max :: "pyfloat \<Rightarrow> pyfloat \<Rightarrow> pyfloat" where
  "py_max a b = (if float_less a b then b else a)"

definition credit_start :: "pyfloat \<Rightarrow> watch \<Rightarrow> pyfloat" where
  "credit_start since w = py_max (py_max since (Fin (w_through w))) (Fin (w_last_real w))"

definition credit_of :: "rat \<Rightarrow> pyfloat \<Rightarrow> watch \<Rightarrow> rat" where
  "credit_of now since w = (case credit_start since w of Fin s \<Rightarrow> max 0 (now - s) | _ \<Rightarrow> 0)"

definition credit :: "rat \<Rightarrow> pyfloat \<Rightarrow> watch \<Rightarrow> rat \<times> watch" where
  "credit now since w =
     (let c = credit_of now since w in
      (c, w\<lparr>w_last_advance := w_last_advance w + c, w_through := max (w_through w) now\<rparr>))"

definition exempt_staged_wait :: "obj \<Rightarrow> rat \<Rightarrow> pyfloat \<Rightarrow> watch \<Rightarrow> watch" where
  "exempt_staged_wait verdict now since w0 =
     (let w = w0\<lparr>w_staged := Some verdict\<rparr> in
      if truthy (get ''exempt'' verdict) then
        (let (c, w') = credit now since w in w'\<lparr>w_staged_s := w_staged_s w' + c\<rparr>)
      else w)"

definition exempt_pool_contention :: "obj \<Rightarrow> rat \<Rightarrow> pyfloat \<Rightarrow> watch \<Rightarrow> watch" where
  "exempt_pool_contention verdict now since w =
     (if get ''verdict'' verdict \<in> {JStr ''over'', JStr ''blind''} then
        (let (c, w') = credit now since w in w'\<lparr>w_contention_s := w_contention_s w' + c\<rparr>)
      else w)"

definition exempt_reader_plan :: "obj \<Rightarrow> rat \<Rightarrow> pyfloat \<Rightarrow> watch \<Rightarrow> watch" where
  "exempt_reader_plan verdict now since w0 =
     (let w = w0\<lparr>w_reader := Some verdict\<rparr> in
      if truthy (get ''exempt'' verdict) then
        (let (c, w') = credit now since w in w'\<lparr>w_reader_s := w_reader_s w' + c\<rparr>)
      else w)"

definition exempt_export_wait :: "obj \<Rightarrow> rat \<Rightarrow> pyfloat \<Rightarrow> watch \<Rightarrow> watch" where
  "exempt_export_wait verdict now since w0 =
     (let w = w0\<lparr>w_export := Some verdict\<rparr> in
      if truthy (get ''exempt'' verdict) then
        (let (c, w') = credit now since w in w'\<lparr>w_export_s := w_export_s w' + c\<rparr>)
      else w)"

definition exempt_queued_child_wait :: "obj \<Rightarrow> rat \<Rightarrow> pyfloat \<Rightarrow> watch \<Rightarrow> watch" where
  "exempt_queued_child_wait verdict now since w0 =
     (let w = w0\<lparr>w_queued := Some verdict\<rparr> in
      if truthy (get ''exempt'' verdict) then
        (let (c, w') = credit now since w in w'\<lparr>w_queued_s := w_queued_s w' + c\<rparr>)
      else w)"

definition exempt_start_gate :: "rat \<Rightarrow> pyfloat \<Rightarrow> watch \<Rightarrow> watch" where
  "exempt_start_gate now since w =
     (let (c, w') = credit now since w in w'\<lparr>w_gate_s := w_gate_s w' + c\<rparr>)"

definition grant_start_gate_edge :: "rat \<Rightarrow> watch \<Rightarrow> watch" where
  "grant_start_gate_edge seconds w =
     w\<lparr>w_last_advance := w_last_advance w + seconds, w_gate_s := w_gate_s w + seconds\<rparr>"

text \<open>
  \<open>sample_queued_child_wait\<close>, given what the source answered. The source fills
  \<open>since_monotonic\<close> with the start of the interval; a number \<open>float\<close> does not take leaves the verdict
  recorded and credits nothing.
\<close>

definition sample_queued_child_wait :: "obj option \<Rightarrow> rat \<Rightarrow> watch \<Rightarrow> watch" where
  "sample_queued_child_wait answer now w =
     (case answer of
        None \<Rightarrow> w
      | Some v \<Rightarrow>
          (let verdict = put ''sample_monotonic'' (JFloat (Fin now)) v;
               since = get ''since_monotonic'' verdict in
           if truthy (get ''exempt'' verdict) \<and> numeric since \<noteq> None then
             (case py_float since of
                Inl _ \<Rightarrow> w\<lparr>w_queued := Some verdict\<rparr>
              | Inr f \<Rightarrow> exempt_queued_child_wait verdict now f w)
           else w\<lparr>w_queued := Some verdict\<rparr>))"

section \<open>The stall check\<close>

text \<open>What a wait source gives: its answer, or an exception with its \<open>repr\<close>.\<close>

datatype wait_answer = Answer "obj option" | Raised error string

text \<open>\<open>except (OSError, ValueError, PoolContractError)\<close>, subclasses included.\<close>

fun wait_caught :: "error \<Rightarrow> bool" where
  "wait_caught (OSError _) = True"
| "wait_caught e = (e \<in> {ValueError, PoolContractError, GangContractError, AmbiguousClaimHolder})"

definition wait_verdict :: "string option \<Rightarrow> wait_answer \<Rightarrow> obj option result" where
  "wait_verdict error_key answer =
     (case answer of
        Answer v \<Rightarrow> Inr v
      | Raised e text \<Rightarrow>
          if wait_caught e then
            Inr (Some ([(''exempt'', JBool False)] @
              (case error_key of None \<Rightarrow> [] | Some k \<Rightarrow> [(k, JArr [])]) @
              [(''reason'', JStr (''unreadable: '' @ text))]))
          else Inl e)"

text \<open>
  \<open>since_monotonic\<close> of a checkpoint: \<open>started - max(0.0, now_unix - since)\<close>, where \<open>since\<close> may be any
  float.
\<close>

definition since_monotonic :: "rat \<Rightarrow> rat \<Rightarrow> pyfloat \<Rightarrow> pyfloat" where
  "since_monotonic started now_unix since =
     (case since of
        Fin s \<Rightarrow> Fin (started - max 0 (now_unix - s))
      | NegInf \<Rightarrow> NegInf
      | _ \<Rightarrow> Fin started)"

text \<open>
  \<open>_wait_checkpoint\<close>: \<open>started\<close> and \<open>finished\<close> are its monotonic readings, \<open>now_unix\<close> its wall reading.
\<close>

definition wait_checkpoint ::
    "(obj \<Rightarrow> rat \<Rightarrow> pyfloat \<Rightarrow> watch \<Rightarrow> watch) \<Rightarrow> string option \<Rightarrow> rat \<Rightarrow> rat \<Rightarrow> rat \<Rightarrow> wait_answer \<Rightarrow>
     watch \<Rightarrow> (rat \<times> watch) result" where
  "wait_checkpoint exempt error_key started finished now_unix answer w =
     (case wait_verdict error_key answer of
        Inl e \<Rightarrow> Inl e
      | Inr None \<Rightarrow> Inr (finished - started, shift (finished - started) w)
      | Inr (Some verdict) \<Rightarrow>
          (case py_float (if truthy (get ''since_unix'' verdict) then get ''since_unix'' verdict
                          else JFloat (Fin now_unix)) of
             Inl e \<Rightarrow> Inl e
           | Inr since \<Rightarrow>
               Inr (finished - started, shift (finished - started)
                 (exempt verdict started (since_monotonic started now_unix since) w))))"

record wait_sources =
  src_staged :: "obj option \<Rightarrow> rat \<Rightarrow> wait_answer"
  src_export :: "obj option \<Rightarrow> rat \<Rightarrow> wait_answer"
  src_reader :: wait_answer
  src_queued :: "obj option \<Rightarrow> obj option result"

record stall_check =
  sc_expired :: bool
  sc_checkpoint_s :: rat
  sc_checked :: rat

text \<open>
  \<open>check_stall\<close>: \<open>tick i\<close> is the monotonic clock at its \<open>i\<close>-th reading, in the order of the code, and
  \<open>unix i\<close> the wall clock at the sample, its fallback and the three checkpoints. An exception leaves the
  watch to nobody: the launch unwinds.
\<close>

definition queued_checkpoint ::
    "(nat \<Rightarrow> rat) \<Rightarrow> wait_sources \<Rightarrow> rat \<Rightarrow> rat \<Rightarrow> watch \<Rightarrow> (stall_check \<times> watch) result" where
  "queued_checkpoint tick sources checked spent w =
     (case src_queued sources (w_queued w) of
        Inl e \<Rightarrow> Inl e
      | Inr answer \<Rightarrow>
          (let queued_spent = tick 14 - tick 13;
               w' = shift queued_spent (sample_queued_child_wait answer (tick 13) w) in
           Inr (\<lparr>sc_expired = (stall_deadline w' \<le> tick 15), sc_checkpoint_s = spent + queued_spent,
                 sc_checked = checked\<rparr>, w')))"

definition within_deadline :: "rat \<Rightarrow> watch \<Rightarrow> bool" where
  "within_deadline now w \<longleftrightarrow> now < stall_deadline w"

definition check_stall ::
    "(json \<Rightarrow> string) \<Rightarrow> (nat \<Rightarrow> rat) \<Rightarrow> (nat \<Rightarrow> rat) \<Rightarrow> progress_read \<Rightarrow> wait_sources \<Rightarrow> watch \<Rightarrow>
     (stall_check option \<times> watch) result" where
  "check_stall str tick unix read sources w =
     (if within_deadline (tick 0) w then Inr (None, w)
      else
        (let (advanced, w0) = sample str (tick 1) (unix 0) (unix 1) read w;
             spent0 = tick 2 - tick 1;
             w1 = shift spent0 w0;
             checked = tick 3;
             spared = (\<lambda>spent w. Inr (Some \<lparr>sc_expired = False, sc_checkpoint_s = spent,
                                            sc_checked = checked\<rparr>, w)) in
         if advanced then spared spent0 w1
         else
           case wait_checkpoint exempt_staged_wait (Some ''movers'') (tick 4) (tick 5) (unix 2)
                  (src_staged sources (w_staged w1) (grace_s w1)) w1 of
             Inl e \<Rightarrow> Inl e
           | Inr (spent1, w2) \<Rightarrow>
               if within_deadline (tick 6) w2 then spared (spent0 + spent1) w2
               else
                 (case wait_checkpoint exempt_export_wait (Some ''exports'') (tick 7) (tick 8) (unix 3)
                         (src_export sources (w_export w2) (grace_s w2)) w2 of
                    Inl e \<Rightarrow> Inl e
                  | Inr (spent2, w3) \<Rightarrow>
                      if within_deadline (tick 9) w3 then spared (spent0 + spent1 + spent2) w3
                      else
                        (case wait_checkpoint exempt_reader_plan None (tick 10) (tick 11) (unix 4)
                                (src_reader sources) w3 of
                           Inl e \<Rightarrow> Inl e
                         | Inr (spent3, w4) \<Rightarrow>
                             if within_deadline (tick 12) w4
                             then spared (spent0 + spent1 + spent2 + spent3) w4
                             else
                               (case queued_checkpoint tick sources checked
                                       (spent0 + spent1 + spent2 + spent3) w4 of
                                  Inl e \<Rightarrow> Inl e
                                | Inr (c, w5) \<Rightarrow> Inr (Some c, w5))))))"

section \<open>Records\<close>

text \<open>\<open>delivered_units_per_s\<close>: \<open>float()\<close> of a count beyond binary64 raises.\<close>

definition delivered_units_per_s :: "rat \<Rightarrow> watch \<Rightarrow> rat option result" where
  "delivered_units_per_s now w =
     (case w_first_advance w of
        None \<Rightarrow> Inr None
      | Some first \<Rightarrow>
          (let elapsed = now - first in
           if elapsed \<le> 0 then Inr None
           else (case py_float (w_units w) of
                   Inl e \<Rightarrow> Inl e
                 | Inr (Fin q) \<Rightarrow> Inr (Some (q / elapsed))
                 | Inr _ \<Rightarrow> Inr None)))"

definition opt_obj :: "obj option \<Rightarrow> json" where
  "opt_obj d = (case d of None \<Rightarrow> JNull | Some d \<Rightarrow> JObj d)"

definition num :: "rat \<Rightarrow> json" where
  "num q = JFloat (Fin q)"

definition phase_name :: "watch \<Rightarrow> json" where
  "phase_name w = JStr (ph_name (pp_phases (w_policy w) ! w_phase_index w))"

definition watch_record :: "rat \<Rightarrow> watch \<Rightarrow> obj result" where
  "watch_record now w =
     map_sum id (\<lambda>delivered.
       [(''source'', JStr ''action-progress''),
        (''sampled_unix'', opt_num (w_sampled_unix w)),
        (''accepted_count'', JInt (int (w_accepted w))),
        (''rejected_count'', JInt (int (w_rejected w))),
        (''last_rejection'', case w_last_rejection w of None \<Rightarrow> JNull | Some s \<Rightarrow> JStr s),
        (''last_accepted'', opt_obj (w_last_accepted w)),
        (''quiet_s'', num (max 0 (now - w_last_advance w))),
        (''grace_s'', num (grace_s w)),
        (''phase'', phase_name w),
        (''phases_entered'', JInt (int (w_entered w))),
        (''staged_wait_exempt_s'', num (w_staged_s w)),
        (''staged_wait'', opt_obj (w_staged w)),
        (''pool_contention_exempt_s'', num (w_contention_s w)),
        (''start_gate_exempt_s'', num (w_gate_s w)),
        (''reader_plan_exempt_s'', num (w_reader_s w)),
        (''reader_plan'', opt_obj (w_reader w)),
        (''export_wait_exempt_s'', num (w_export_s w)),
        (''export_wait'', opt_obj (w_export w)),
        (''queued_child_wait_exempt_s'', num (w_queued_s w)),
        (''queued_child_wait'', opt_obj (w_queued w)),
        (''delivered_units_per_s'', opt_num delivered)])
     (delivered_units_per_s now w)"

text \<open>
  \<open>stall_record\<close>: \<open>contention\<close> is what the action's probe holds, when it has one: its priced rate, its
  last verdict and the last holder of the start gate.
\<close>

definition stall_record :: "rat \<Rightarrow> (rat \<times> obj option \<times> obj option) option \<Rightarrow> watch \<Rightarrow> obj result" where
  "stall_record now contention w =
     map_sum id (\<lambda>delivered.
       [(''allowance_s'', num (grace_s w)),
        (''phase'', phase_name w),
        (''last_landing'', opt_obj (w_last_accepted w)),
        (''quiet_s'', num (max 0 (now - w_last_advance w))),
        (''credited_s'', JObj
           [(''staged_wait'', num (w_staged_s w)),
            (''pool_contention'', num (w_contention_s w)),
            (''start_gate'', num (w_gate_s w)),
            (''reader_plan'', num (w_reader_s w)),
            (''export_wait'', num (w_export_s w)),
            (''queued_child_wait'', num (w_queued_s w))]),
        (''delivered_units_per_s'', opt_num delivered),
        (''delivered_bytes_per_s'', if contention = None then JNull else opt_num delivered),
        (''priced_bytes_per_s'', case contention of None \<Rightarrow> JNull | Some (priced, _, _) \<Rightarrow> num priced),
        (''pool'', case contention of None \<Rightarrow> JNull | Some (_, pool, _) \<Rightarrow> opt_obj pool),
        (''start_gate_holder'', case contention of None \<Rightarrow> JNull | Some (_, _, holder) \<Rightarrow> opt_obj holder)])
     (delivered_units_per_s now w)"

section \<open>Laws of a sample\<close>

text \<open>What a report buys when it is not accepted: a counter and a reason.\<close>

lemma sample_rejected:
  assumes "sample str now sampled unix read w = (False, w')"
  shows "\<exists>n m. w' = w\<lparr>w_sampled_unix := Some sampled, w_rejected := n, w_last_rejection := m\<rparr>"
proof -
  have same: "\<exists>n m. v = v\<lparr>w_rejected := n, w_last_rejection := m\<rparr>" for v :: watch
    by (intro exI [of _ "w_rejected v"] exI [of _ "w_last_rejection v"]) simp
  show ?thesis
    using assms same [of "w\<lparr>w_sampled_unix := Some sampled\<rparr>"]
    by (auto simp: sample_def Let_def reject_def split: progress_read.splits sum.splits prod.splits)
qed

lemma sample_acceptedE:
  assumes "sample str now sampled unix read w = (True, w')"
  obtains d index au ap where "read = Read_Value (JObj d)"
    "judge_report str w (JObj d) = Inr (d, index, au, ap)"
    "w' = accept_report now unix d index au ap (w\<lparr>w_sampled_unix := Some sampled\<rparr>)"
proof -
  obtain v where read: "read = Read_Value v" using assms
    by (cases read) (simp_all add: sample_def Let_def)
  have judge: "judge_report str (w\<lparr>w_sampled_unix := Some sampled\<rparr>) v = judge_report str w v"
    by (simp add: judge_report_def units_of_def cong: json.case_cong option.case_cong if_cong)
  obtain d index au ap where inr: "judge_report str w v = Inr (d, index, au, ap)"
    using assms by (auto simp: sample_def Let_def read judge split: sum.splits)
  then have "v = JObj d"
    by (auto simp: judge_report_def Let_def split: json.splits if_splits option.splits)
  with assms inr judge show thesis using that by (auto simp: sample_def Let_def read)
qed

lemma judge_report_Inr:
  assumes "judge_report str w (JObj d) = Inr (d', index, au, ap)"
  shows "d' = d"
    "get ''schema'' d = JStr progress_record_schema_v1" "get ''token'' d = JStr (w_token w)"
    "index_of (w_policy w) (py_str str (get ''phase'' d)) = Some index"
    "\<exists>units. count_value (get ''units_completed'' d) = Some units \<and> 0 \<le> units \<and>
       au = (units_of w < units) \<and> (pp_cycle (w_policy w) \<longrightarrow> units_of w \<le> units)"
    "ap = (if pp_cycle (w_policy w) then index \<notin> w_granted w else w_phase_index w < index)"
    "au \<or> ap"
  using assms by (auto simp: judge_report_def Let_def split: if_splits option.splits)

lemma enter_phase_keeps [simp]:
  "w_policy (enter_phase i au ap w) = w_policy w" "w_units (enter_phase i au ap w) = w_units w"
  "w_token (enter_phase i au ap w) = w_token w" "w_through (enter_phase i au ap w) = w_through w"
  "w_staged_s (enter_phase i au ap w) = w_staged_s w" "w_contention_s (enter_phase i au ap w) = w_contention_s w"
  "w_gate_s (enter_phase i au ap w) = w_gate_s w" "w_reader_s (enter_phase i au ap w) = w_reader_s w"
  "w_export_s (enter_phase i au ap w) = w_export_s w" "w_queued_s (enter_phase i au ap w) = w_queued_s w"
  by (simp_all add: enter_phase_def)

lemma accept_report_keeps [simp]:
  "w_policy (accept_report now u d i au ap w) = w_policy w"
  "w_token (accept_report now u d i au ap w) = w_token w"
  "w_through (accept_report now u d i au ap w) = w_through w"
  "w_staged_s (accept_report now u d i au ap w) = w_staged_s w"
  "w_contention_s (accept_report now u d i au ap w) = w_contention_s w"
  "w_gate_s (accept_report now u d i au ap w) = w_gate_s w"
  "w_reader_s (accept_report now u d i au ap w) = w_reader_s w"
  "w_export_s (accept_report now u d i au ap w) = w_export_s w"
  "w_queued_s (accept_report now u d i au ap w) = w_queued_s w"
  by (simp_all add: accept_report_def Let_def)

lemma accept_report_sets:
  "w_units (accept_report now u d i au ap w) = (if au then get ''units_completed'' d else w_units w)"
  "w_last_advance (accept_report now u d i au ap w) = now"
  "w_last_real (accept_report now u d i au ap w) = now"
  "w_phase_index (accept_report now u d i au ap w) =
     (if pp_cycle (w_policy w) \<or> ap then i else w_phase_index w)"
  "w_granted (accept_report now u d i au ap w) =
     (if pp_cycle (w_policy w) then insert i (if au then {} else w_granted w) else w_granted w)"
  by (auto simp: accept_report_def enter_phase_def Let_def)

text \<open>
  The phases whose allowance the action has had at the present count: every one up to the phase
  reached, or in cyclic mode the granted ones.
\<close>

definition granted_now :: "watch \<Rightarrow> nat set" where
  "granted_now w = (if pp_cycle (w_policy w) then w_granted w else {..w_phase_index w})"

definition watch_ok :: "watch \<Rightarrow> bool" where
  "watch_ok w \<longleftrightarrow>
     policy_ok (w_policy w) \<and> w_phase_index w < length (pp_phases (w_policy w)) \<and>
     w_phase_index w \<in> granted_now w \<and> granted_now w \<subseteq> {..<length (pp_phases (w_policy w))} \<and>
     (\<exists>q. count_value (w_units w) = Some q \<and> 0 \<le> q)"

lemma launch_watch_ok: "policy_ok pol \<Longrightarrow> watch_ok (launch_watch token pol started)"
  by (auto simp: watch_ok_def launch_watch_def granted_now_def policy_ok_def count_value_def)

lemma units_of_launch [simp]: "units_of (launch_watch token pol started) = 0"
  by (simp add: units_of_def launch_watch_def count_value_def)

lemma sample_ok:
  assumes "watch_ok w" "sample str now sampled unix read w = (b, w')"
  shows "watch_ok w'"
proof (cases b)
  case False
  then show ?thesis
    using assms sample_rejected [of str now sampled unix read w w']
    by (auto simp: watch_ok_def granted_now_def)
next
  case True
  then have "sample str now sampled unix read w = (True, w')" using assms by simp
  then show ?thesis
  proof (rule sample_acceptedE)
    fix d index au ap
    assume judge: "judge_report str w (JObj d) = Inr (d, index, au, ap)"
      and w': "w' = accept_report now unix d index au ap (w\<lparr>w_sampled_unix := Some sampled\<rparr>)"
    have "index < length (pp_phases (w_policy w))"
      using index_of_Some [OF judge_report_Inr(4) [OF judge]] by simp
    then show ?thesis
      using assms(1) judge_report_Inr(5,6) [OF judge]
      by (auto simp: watch_ok_def w' granted_now_def accept_report_sets)
  qed
qed

text \<open>An accepted report never lowers the count, and raises it or takes a phase not granted yet.\<close>

lemma sample_accepted_grant:
  assumes "watch_ok w" "sample str now sampled unix read w = (True, w')"
  shows "w_last_advance w' = now" "w_last_real w' = now" "units_of w \<le> units_of w'"
    "units_of w = units_of w' \<Longrightarrow>
       w_units w' = w_units w \<and> granted_now w \<subset> granted_now w' \<and>
       w_phase_index w' \<in> granted_now w' - granted_now w"
proof -
  obtain d index au ap where judge: "judge_report str w (JObj d) = Inr (d, index, au, ap)"
    and w': "w' = accept_report now unix d index au ap (w\<lparr>w_sampled_unix := Some sampled\<rparr>)"
    using assms(2) by (rule sample_acceptedE)
  show "w_last_advance w' = now" "w_last_real w' = now" by (simp_all add: w' accept_report_sets)
  obtain units where units: "count_value (get ''units_completed'' d) = Some units" "au = (units_of w < units)"
    using judge_report_Inr(5) [OF judge] by auto
  have "units_of w' = (if au then units else units_of w)"
    by (simp add: units_of_def w' accept_report_sets units(1))
  then show "units_of w \<le> units_of w'" using units(2) by simp
  assume "units_of w = units_of w'"
  then have "\<not> au" using units(2) \<open>units_of w' = _\<close> by auto
  with judge_report_Inr(6,7) [OF judge]
  show "w_units w' = w_units w \<and> granted_now w \<subset> granted_now w' \<and>
     w_phase_index w' \<in> granted_now w' - granted_now w"
    by (auto simp: w' accept_report_sets granted_now_def split: if_splits)
qed

section \<open>Laws of a credit\<close>

lemma py_max_Fin [simp]: "py_max (Fin a) (Fin b) = Fin (max a b)"
  by (simp add: py_max_def max_def)

lemma credit_start_cases:
  "credit_start since w \<in> {PosInf, NaN} \<or>
   (\<exists>s. credit_start since w = Fin s \<and> w_through w \<le> s \<and> w_last_real w \<le> s)"
  by (cases since) (auto simp: credit_start_def py_max_def)

lemma credit_of_nonneg [simp]: "0 \<le> credit_of now since w"
  by (simp add: credit_of_def split: pyfloat.splits)

lemma credit_of_le: "credit_of now since w \<le> max 0 (now - max (w_through w) (w_last_real w))"
  using credit_start_cases [of since w]
  by (auto simp: credit_of_def split: pyfloat.splits)

text \<open>A credit is paid for by the mark: it never exceeds the distance the mark moves.\<close>

lemma credit_of_through: "credit_of now since w \<le> max (w_through w) now - w_through w"
  using credit_of_le [of now since w] by (auto simp: max_def split: if_splits)

text \<open>No two credits of the same interval: the second look at it finds the mark past its end.\<close>

lemma credit_again: "now' \<le> now \<Longrightarrow> credit_of now' since' (snd (credit now since w)) = 0"
  using credit_of_le [of now' since' "snd (credit now since w)"]
  by (intro order.antisym) (simp_all add: credit_def Let_def)

end
