(* ===== verification/Progress_Bound.thy ===== *)
theory Progress_Bound
  imports Progress_Watch
begin

text \<open>
  Every way a launch touches its \<open>ProgressWatch\<close>, as operations on its state, and what any sequence of
  them can grant. \<open>metered\<close> is the accounting argument: a level no operation raises by more than its
  charge. It is used twice, for the stall deadline less what the declared phases allow, and for the
  seconds credited less the distance the credit mark moved. The last part shows that one
  \<open>check_stall\<close> is such a sequence, and what it decides.
\<close>

section \<open>Operations in sequence\<close>

datatype watch_op =
    Sample rat rat rat progress_read
  | Staged obj rat pyfloat
  | Contention obj rat pyfloat
  | Reader obj rat pyfloat
  | Export obj rat pyfloat
  | Gate rat pyfloat
  | Edge rat
  | Queued "obj option" rat
  | Shift rat

fun watch_exec :: "(json \<Rightarrow> string) \<Rightarrow> watch_op \<Rightarrow> watch \<Rightarrow> watch" where
  "watch_exec str (Sample now sampled unix read) w = snd (sample str now sampled unix read w)"
| "watch_exec str (Staged verdict now since) w = exempt_staged_wait verdict now since w"
| "watch_exec str (Contention verdict now since) w = exempt_pool_contention verdict now since w"
| "watch_exec str (Reader verdict now since) w = exempt_reader_plan verdict now since w"
| "watch_exec str (Export verdict now since) w = exempt_export_wait verdict now since w"
| "watch_exec str (Gate now since) w = exempt_start_gate now since w"
| "watch_exec str (Edge seconds) w = grant_start_gate_edge seconds w"
| "watch_exec str (Queued answer now) w = sample_queued_child_wait answer now w"
| "watch_exec str (Shift seconds) w = shift seconds w"

text \<open>A guard that holds at every operation of a sequence, and the charges along it.\<close>

fun all_along :: "('op \<Rightarrow> 's \<Rightarrow> 's) \<Rightarrow> ('op \<Rightarrow> 's \<Rightarrow> bool) \<Rightarrow> 'op list \<Rightarrow> 's \<Rightarrow> bool" where
  "all_along exec ok [] s = True"
| "all_along exec ok (a # as) s = (ok a s \<and> all_along exec ok as (exec a s))"

locale metered =
  fixes exec :: "'op \<Rightarrow> 's \<Rightarrow> 's"
    and ok :: "'op \<Rightarrow> 's \<Rightarrow> bool"
    and inv :: "'s \<Rightarrow> bool"
    and level :: "'s \<Rightarrow> rat"
    and charge :: "'op \<Rightarrow> rat"
  assumes keep: "inv s \<Longrightarrow> ok a s \<Longrightarrow> inv (exec a s)"
    and pay: "inv s \<Longrightarrow> ok a s \<Longrightarrow> level (exec a s) \<le> level s + charge a"
begin

lemma run_keeps: "inv s \<Longrightarrow> all_along exec ok as s \<Longrightarrow> inv (fold exec as s)"
  by (induction as arbitrary: s) (auto intro: keep)

lemma run_pays:
  "inv s \<Longrightarrow> all_along exec ok as s \<Longrightarrow> level (fold exec as s) \<le> level s + sum_list (map charge as)"
proof (induction as arbitrary: s)
  case (Cons a as)
  then show ?case using Cons.IH [of "exec a s"] keep [of s a] pay [of s a] by fastforce
qed simp

end

section \<open>What an operation does\<close>

definition credited :: "watch \<Rightarrow> rat" where
  "credited w = w_staged_s w + w_contention_s w + w_gate_s w + w_reader_s w + w_export_s w + w_queued_s w"

text \<open>A step that credits \<open>c\<close> seconds, and nothing else that a deadline depends on.\<close>

definition credits :: "rat \<Rightarrow> rat \<Rightarrow> watch \<Rightarrow> watch \<Rightarrow> bool" where
  "credits now c w w' \<longleftrightarrow>
     0 \<le> c \<and> c \<le> w_through w' - w_through w \<and> w_through w' \<le> max (w_through w) now \<and>
     w_last_advance w' = w_last_advance w + c \<and> credited w' = credited w + c \<and>
     w_policy w' = w_policy w \<and> w_units w' = w_units w \<and> w_phase_index w' = w_phase_index w \<and>
     w_granted w' = w_granted w \<and> w_last_real w' = w_last_real w"

lemma credits_0: "credits now 0 w w"
  by (simp add: credits_def)

lemmas exempt_defs =
  exempt_staged_wait_def exempt_pool_contention_def exempt_reader_plan_def exempt_export_wait_def
  exempt_queued_child_wait_def exempt_start_gate_def

lemma credit_of_verdict [simp]:
  "credit_of now since (w\<lparr>w_staged := v\<rparr>) = credit_of now since w"
  "credit_of now since (w\<lparr>w_reader := v\<rparr>) = credit_of now since w"
  "credit_of now since (w\<lparr>w_export := v\<rparr>) = credit_of now since w"
  "credit_of now since (w\<lparr>w_queued := v\<rparr>) = credit_of now since w"
  by (simp_all add: credit_of_def credit_start_def)

lemma exempts_credit:
  "\<exists>c. credits now c w (exempt_staged_wait verdict now since w)"
  "\<exists>c. credits now c w (exempt_pool_contention verdict now since w)"
  "\<exists>c. credits now c w (exempt_reader_plan verdict now since w)"
  "\<exists>c. credits now c w (exempt_export_wait verdict now since w)"
  "\<exists>c. credits now c w (exempt_queued_child_wait verdict now since w)"
  "\<exists>c. credits now c w (exempt_start_gate now since w)"
  using credit_of_through [of now since w]
  by (auto simp: exempt_defs credits_def credit_def credited_def Let_def
      intro: exI [of _ "credit_of now since w"] exI [of _ 0])

lemma queued_credit: "\<exists>c. credits now c w (sample_queued_child_wait answer now w)"
proof -
  have "credits now 0 w (w\<lparr>w_queued := v\<rparr>)" for v by (simp add: credits_def credited_def)
  then show ?thesis
    using exempts_credit(5) credits_0 [of now w]
    by (auto simp: sample_queued_child_wait_def Let_def split: option.splits sum.splits)
qed

text \<open>The operations that credit, with the moment they credit up to.\<close>

fun credit_moment :: "watch_op \<Rightarrow> rat option" where
  "credit_moment (Staged _ now _) = Some now"
| "credit_moment (Contention _ now _) = Some now"
| "credit_moment (Reader _ now _) = Some now"
| "credit_moment (Export _ now _) = Some now"
| "credit_moment (Gate now _) = Some now"
| "credit_moment (Queued _ now) = Some now"
| "credit_moment _ = None"

lemma exec_credits: "credit_moment a = Some now \<Longrightarrow> \<exists>c. credits now c w (watch_exec str a w)"
  by (cases a) (auto simp: exempts_credit queued_credit)

lemma credits_ok: "credits now c w w' \<Longrightarrow> watch_ok w \<Longrightarrow> watch_ok w'"
  by (auto simp: credits_def watch_ok_def granted_now_def)

lemma sample_keeps:
  assumes "sample str now sampled unix read w = (b, w')"
  shows "w_policy w' = w_policy w" "w_through w' = w_through w" "credited w' = credited w"
    "w_token w' = w_token w"
proof -
  have "w_policy w' = w_policy w \<and> w_through w' = w_through w \<and> credited w' = credited w \<and> w_token w' = w_token w"
  proof (cases b)
    case True
    then have "sample str now sampled unix read w = (True, w')" using assms by simp
    then show ?thesis by (rule sample_acceptedE) (simp add: credited_def)
  next
    case False
    then show ?thesis using assms sample_rejected [of str now sampled unix read w w']
      by (auto simp: credited_def)
  qed
  then show "w_policy w' = w_policy w" "w_through w' = w_through w" "credited w' = credited w"
    "w_token w' = w_token w" by simp_all
qed

lemmas snd_sample_keeps [simp] = sample_keeps [OF prod.collapse [symmetric]]

lemma watch_exec_ok: "watch_ok w \<Longrightarrow> watch_ok (watch_exec str a w)"
proof (cases "credit_moment a")
  case (Some now)
  assume "watch_ok w"
  moreover obtain c where "credits now c w (watch_exec str a w)" using exec_credits [OF Some] by blast
  ultimately show ?thesis by (rule credits_ok [rotated])
next
  case None
  assume ok: "watch_ok w"
  show ?thesis
  proof (cases a)
    case (Sample now sampled unix read)
    then show ?thesis using sample_ok [OF ok prod.collapse [symmetric]] by simp
  qed (use None ok in \<open>auto simp: watch_ok_def granted_now_def shift_def grant_start_gate_edge_def\<close>)
qed

section \<open>Each interval is credited once\<close>

fun edge_s :: "watch_op \<Rightarrow> rat" where
  "edge_s (Edge seconds) = seconds"
| "edge_s _ = 0"

definition mark_level :: "watch \<Rightarrow> rat" where
  "mark_level w = credited w - w_through w"

interpretation mark: metered "watch_exec str" "\<lambda>_ _. True" "\<lambda>_. True" mark_level edge_s
proof
  fix a w
  show "mark_level (watch_exec str a w) \<le> mark_level w + edge_s a"
  proof (cases "credit_moment a")
    case (Some now)
    then have "edge_s a = 0" by (cases a) simp_all
    with exec_credits [OF Some, of w str] show ?thesis by (auto simp: mark_level_def credits_def)
  next
    case None
    show ?thesis
    proof (cases a)
      case (Sample now sampled unix read)
      then show ?thesis by (simp add: mark_level_def)
    qed (use None in \<open>auto simp: mark_level_def credited_def shift_def grant_start_gate_edge_def\<close>)
  qed
qed simp

lemma through_bounded:
  assumes "\<And>a now. a \<in> set as \<Longrightarrow> credit_moment a = Some now \<Longrightarrow> now \<le> latest" "w_through w \<le> latest"
  shows "w_through (fold (watch_exec str) as w) \<le> latest"
  using assms
proof (induction as arbitrary: w)
  case (Cons a as)
  have "w_through (watch_exec str a w) \<le> latest"
  proof (cases "credit_moment a")
    case (Some now)
    then have "now \<le> latest" using Cons.prems(1) [of a now] by simp
    with exec_credits [OF Some, of w str] Cons.prems(2) show ?thesis by (auto simp: credits_def)
  next
    case None
    show ?thesis
    proof (cases a)
      case (Sample now sampled unix read)
      then show ?thesis using Cons.prems(2) by simp
    qed (use None Cons.prems(2) in \<open>auto simp: shift_def grant_start_gate_edge_def\<close>)
  qed
  with Cons.prems(1) show ?case by (auto intro!: Cons.IH)
qed simp

text \<open>
  C23: Whatever a launch's exemptions overlap on, the seconds they credit together never exceed the time
  between the launch and the last moment credited, start-gate edges apart.
\<close>

theorem credited_once:
  assumes "\<And>a now. a \<in> set as \<Longrightarrow> credit_moment a = Some now \<Longrightarrow> now \<le> latest" "started \<le> latest"
  shows "credited (fold (watch_exec str) as (launch_watch token pol started)) \<le>
         latest - started + sum_list (map edge_s as)"
proof -
  let ?w = "fold (watch_exec str) as (launch_watch token pol started)"
  have "all_along exec (\<lambda>_ _. True) ops s" for exec :: "watch_op \<Rightarrow> watch \<Rightarrow> watch" and ops s
    by (induction ops arbitrary: s) simp_all
  then have "mark_level ?w \<le> mark_level (launch_watch token pol started) + sum_list (map edge_s as)"
    by (intro mark.run_pays) simp_all
  moreover have "w_through ?w \<le> latest"
    using assms by (intro through_bounded) (auto simp: launch_watch_def)
  ultimately show ?thesis by (simp add: mark_level_def launch_watch_def credited_def)
qed

section \<open>The no-progress bound\<close>

definition phase_grace :: "policy \<Rightarrow> nat \<Rightarrow> rat" where
  "phase_grace pol i = effective_grace_s (pp_phases pol ! i)"

text \<open>
  The stall deadline less the credits and, for every phase whose allowance the action has had at this
  count, that allowance and the lateness of the look that granted it.
\<close>

definition grant_level :: "rat \<Rightarrow> watch \<Rightarrow> rat" where
  "grant_level late w =
     stall_deadline w - credited w - (\<Sum>i\<in>granted_now w. phase_grace (w_policy w) i + late)"

text \<open>No look comes later than \<open>late\<close> after the deadline, and none finds a higher count.\<close>

fun uncommitted :: "(json \<Rightarrow> string) \<Rightarrow> rat \<Rightarrow> watch_op \<Rightarrow> watch \<Rightarrow> bool" where
  "uncommitted str late (Sample now sampled unix read) w =
     (now \<le> stall_deadline w + late \<and> units_of (snd (sample str now sampled unix read w)) = units_of w)"
| "uncommitted str late _ w = True"

fun shift_s :: "watch_op \<Rightarrow> rat" where
  "shift_s (Shift seconds) = seconds"
| "shift_s _ = 0"

lemma phase_grace_pos:
  "policy_ok pol \<Longrightarrow> i < length (pp_phases pol) \<Longrightarrow> 0 < phase_grace pol i"
  by (simp add: policy_ok_def phase_grace_def)

lemma granted_finite: "watch_ok w \<Longrightarrow> finite (granted_now w)"
  by (auto simp: watch_ok_def intro: finite_subset)

lemma grant_level_credit: "credits now c w w' \<Longrightarrow> grant_level late w' = grant_level late w"
  by (simp add: credits_def grant_level_def stall_deadline_def grace_s_def granted_now_def)

lemma grant_level_sample:
  assumes ok: "watch_ok w" "0 \<le> late" and guard: "uncommitted str late (Sample now sampled unix read) w"
  shows "grant_level late (snd (sample str now sampled unix read w)) \<le> grant_level late w"
proof -
  obtain b w' where s: "sample str now sampled unix read w = (b, w')" by fastforce
  show ?thesis
  proof (cases b)
    case False
    then show ?thesis using s sample_rejected [of str now sampled unix read w w']
      by (auto simp: grant_level_def stall_deadline_def grace_s_def granted_now_def credited_def)
  next
    case True
    then have s': "sample str now sampled unix read w = (True, w')" using s by simp
    have ok': "watch_ok w'" using sample_ok [OF ok(1) s'] .
    have grant: "granted_now w \<subset> granted_now w'" "w_phase_index w' \<in> granted_now w' - granted_now w"
      using sample_accepted_grant(4) [OF ok(1) s'] guard s' by auto
    let ?f = "\<lambda>i. phase_grace (w_policy w) i + late"
    have pos: "0 \<le> ?f i" if "i \<in> granted_now w'" for i
      using phase_grace_pos [of "w_policy w" i] that ok' ok(2) sample_keeps(1) [OF s']
      by (auto simp: watch_ok_def intro!: add_nonneg_nonneg less_imp_le)
    have "(\<Sum>i\<in>granted_now w. ?f i) + ?f (w_phase_index w') = (\<Sum>i\<in>insert (w_phase_index w') (granted_now w). ?f i)"
      using grant(2) granted_finite [OF ok(1)] by (simp add: add.commute)
    also have "\<dots> \<le> (\<Sum>i\<in>granted_now w'. ?f i)"
      using grant pos granted_finite [OF ok'] by (intro sum_mono2) auto
    finally have sums: "(\<Sum>i\<in>granted_now w. ?f i) + ?f (w_phase_index w') \<le> (\<Sum>i\<in>granted_now w'. ?f i)" .
    have "stall_deadline w' = now + phase_grace (w_policy w) (w_phase_index w')"
      using sample_accepted_grant(1) [OF ok(1) s'] sample_keeps(1) [OF s']
      by (simp add: stall_deadline_def grace_s_def phase_grace_def)
    then show ?thesis
      using sums guard sample_keeps [OF s'] s' by (simp add: grant_level_def)
  qed
qed

lemma grant_metered:
  assumes "0 \<le> late"
  shows "metered (watch_exec str) (uncommitted str late) watch_ok (grant_level late) shift_s"
proof
  show "watch_ok w \<Longrightarrow> watch_ok (watch_exec str a w)" for a w by (rule watch_exec_ok)
  fix a w
  assume ok: "watch_ok w" and guard: "uncommitted str late a w"
  show "grant_level late (watch_exec str a w) \<le> grant_level late w + shift_s a"
  proof (cases "credit_moment a")
    case (Some now)
    then have "shift_s a = 0" by (cases a) simp_all
    with exec_credits [OF Some, of w str] show ?thesis by (auto simp: grant_level_credit)
  next
    case None
    show ?thesis
    proof (cases a)
      case (Sample now sampled unix read)
      then show ?thesis using grant_level_sample [OF ok assms] guard by simp
    qed (use None in \<open>auto simp: grant_level_def stall_deadline_def grace_s_def granted_now_def
        credited_def shift_def grant_start_gate_edge_def\<close>)
  qed
qed

lemma granted_sum_le:
  assumes "watch_ok w" "0 \<le> late"
  shows "(\<Sum>i\<in>granted_now w. phase_grace (w_policy w) i + late) \<le>
         no_progress_bound_s (w_policy w) + of_nat (length (pp_phases (w_policy w))) * late"
proof -
  let ?n = "length (pp_phases (w_policy w))"
  have "(\<Sum>i\<in>granted_now w. phase_grace (w_policy w) i + late) \<le> (\<Sum>i<?n. phase_grace (w_policy w) i + late)"
  proof (rule sum_mono2)
    fix i assume "i \<in> {..<?n} - granted_now w"
    then show "0 \<le> phase_grace (w_policy w) i + late"
      using phase_grace_pos [of "w_policy w" i] assms by (simp add: watch_ok_def)
  qed (use assms in \<open>auto simp: watch_ok_def\<close>)
  also have "\<dots> = no_progress_bound_s (w_policy w) + of_nat ?n * late"
    by (simp add: sum.distrib no_progress_bound_s_def phase_grace_def sum_list_sum_nth atLeast0LessThan)
  finally show ?thesis .
qed

text \<open>After an advance at \<open>t0\<close>, for as long as the count does not rise.\<close>

lemma quiet_bound:
  assumes ok: "watch_ok w" and late: "0 \<le> late"
    and run: "all_along (watch_exec str) (uncommitted str late) as w" and w': "w' = fold (watch_exec str) as w"
  shows "stall_deadline w' \<le>
    w_last_advance w + no_progress_bound_s (w_policy w') + of_nat (length (pp_phases (w_policy w')) - 1) * late +
    (credited w' - credited w) + sum_list (map shift_s as)"
proof -
  let ?f = "\<lambda>w i. phase_grace (w_policy w) i + late"
  have ok': "watch_ok w'" unfolding w' by (rule metered.run_keeps [OF grant_metered [OF late] ok run])
  have level: "grant_level late w' \<le> grant_level late w + sum_list (map shift_s as)"
    unfolding w' by (rule metered.run_pays [OF grant_metered [OF late] ok run])
  have "?f w (w_phase_index w) = sum (?f w) {w_phase_index w}" by simp
  also have "\<dots> \<le> sum (?f w) (granted_now w)"
    using ok late granted_finite [OF ok] phase_grace_pos [of "w_policy w"]
    by (intro sum_mono2) (auto simp: watch_ok_def subset_iff intro!: less_imp_le [OF add_pos_nonneg])
  finally have "grant_level late w \<le> w_last_advance w - credited w - late"
    by (simp add: grant_level_def stall_deadline_def grace_s_def phase_grace_def)
  moreover have "0 < length (pp_phases (w_policy w'))" using ok' by (auto simp: watch_ok_def)
  then have "of_nat (length (pp_phases (w_policy w'))) * late =
      of_nat (length (pp_phases (w_policy w')) - 1) * late + late"
    by (cases "length (pp_phases (w_policy w'))") (simp_all add: algebra_simps)
  ultimately show ?thesis
    using level granted_sum_le [OF ok' late] by (simp add: grant_level_def)
qed

lemma fold_policy: "w_policy (fold (watch_exec str) as w) = w_policy w"
proof (induction as arbitrary: w)
  case (Cons a as)
  have "w_policy (watch_exec str a w) = w_policy w"
  proof (cases "credit_moment a")
    case (Some now)
    then show ?thesis using exec_credits [OF Some, of w str] by (auto simp: credits_def)
  next
    case None
    then show ?thesis by (cases a) (simp_all add: shift_def grant_start_gate_edge_def)
  qed
  with Cons show ?case by simp
qed simp

text \<open>
  C19: An action that never commits a unit is given no more than the sum of its phases' allowances, whatever
  it reports: its stall deadline stays within that sum of the launch, plus what the worker credited and
  refunded it and, per phase entered, the lateness of the look that granted it.
\<close>

theorem no_progress_bound:
  assumes "policy_ok pol" "0 \<le> late"
    and "all_along (watch_exec str) (uncommitted str late) as (launch_watch token pol started)"
  shows "stall_deadline (fold (watch_exec str) as (launch_watch token pol started)) \<le>
    started + no_progress_bound_s pol + of_nat (length (pp_phases pol) - 1) * late +
    credited (fold (watch_exec str) as (launch_watch token pol started)) + sum_list (map shift_s as)"
  using quiet_bound [OF launch_watch_ok [OF assms(1)] assms(2,3) refl]
  by (simp add: fold_policy) (simp add: launch_watch_def credited_def)

section \<open>One stall check\<close>

text \<open>A step that credits and refunds, and moves the deadline by exactly that.\<close>

definition refunds :: "rat \<Rightarrow> watch \<Rightarrow> watch \<Rightarrow> bool" where
  "refunds r w w' \<longleftrightarrow> stall_deadline w' = stall_deadline w + (credited w' - credited w) + r"

lemma refunds_trans: "refunds r w w1 \<Longrightarrow> refunds q w1 w2 \<Longrightarrow> refunds (r + q) w w2"
  by (simp add: refunds_def)

lemma credits_refunds: "credits now c w w' \<Longrightarrow> refunds 0 w w'"
  by (simp add: refunds_def credits_def stall_deadline_def grace_s_def)

lemma shift_refunds: "refunds r w (shift r w)"
  by (simp add: refunds_def shift_def stall_deadline_def grace_s_def credited_def)

lemma stall_deadline_shift [simp]: "stall_deadline (shift r w) = stall_deadline w + r"
  by (simp add: shift_def stall_deadline_def grace_s_def)

lemma sample_refunds: "sample str now sampled unix read w = (False, w') \<Longrightarrow> refunds 0 w w'"
  by (auto dest!: sample_rejected simp: refunds_def stall_deadline_def grace_s_def credited_def)

lemma checkpoint_refunds:
  assumes "wait_checkpoint exempt key started finished now_unix answer w = Inr (spent, w')"
    and "\<And>verdict since w. \<exists>c. credits started c w (exempt verdict started since w)"
  shows "refunds spent w w'"
proof -
  consider "w' = shift spent w" | v since where "w' = shift spent (exempt v started since w)"
    using assms(1) by (auto simp: wait_checkpoint_def split: sum.splits option.splits)
  then show ?thesis
  proof cases
    case 1
    then show ?thesis by (simp add: shift_refunds)
  next
    case 2
    then show ?thesis
      using assms(2) [of w v since] refunds_trans [OF credits_refunds shift_refunds] by auto
  qed
qed

lemma queued_refunds:
  "queued_checkpoint tick sources checked spent w = Inr (c, w') \<Longrightarrow>
   refunds (sc_checkpoint_s c - spent) w w' \<and> sc_expired c = (stall_deadline w' \<le> tick 15)"
proof -
  assume q: "queued_checkpoint tick sources checked spent w = Inr (c, w')"
  then obtain answer where
    c: "c = \<lparr>sc_expired = (stall_deadline w' \<le> tick 15), sc_checkpoint_s = spent + (tick 14 - tick 13),
           sc_checked = checked\<rparr>" and
    w': "w' = shift (tick 14 - tick 13) (sample_queued_child_wait answer (tick 13) w)"
    by (auto simp: queued_checkpoint_def Let_def split: sum.splits)
  obtain x where "credits (tick 13) x w (sample_queued_child_wait answer (tick 13) w)"
    using queued_credit by blast
  from refunds_trans [OF credits_refunds [OF this] shift_refunds] show ?thesis
    by (simp add: c w')
qed


text \<open>
  A source with nothing to credit: no verdict, one that is not exempt and whose start reads as a number,
  or a refusal the check catches.
\<close>

definition silent_verdict :: "obj option \<Rightarrow> bool" where
  "silent_verdict v \<longleftrightarrow>
     (case v of
        None \<Rightarrow> True
      | Some d \<Rightarrow> \<not> truthy (get ''exempt'' d) \<and>
          (truthy (get ''since_unix'' d) \<longrightarrow> (case py_float (get ''since_unix'' d) of Inl _ \<Rightarrow> False | Inr _ \<Rightarrow> True)))"

fun silent :: "wait_answer \<Rightarrow> bool" where
  "silent (Answer v) = silent_verdict v"
| "silent (Raised e _) = wait_caught e"

definition silent_sources :: "wait_sources \<Rightarrow> bool" where
  "silent_sources s \<longleftrightarrow>
     (\<forall>prior window. silent (src_staged s prior window) \<and> silent (src_export s prior window)) \<and>
     silent (src_reader s) \<and>
     (\<forall>prior. case src_queued s prior of Inl _ \<Rightarrow> False | Inr v \<Rightarrow> silent_verdict v)"

lemma silent_wait_verdict:
  "silent answer \<Longrightarrow> \<exists>v. wait_verdict key answer = Inr v \<and> silent_verdict v"
  by (cases answer) (auto simp: wait_verdict_def silent_verdict_def get_Cons get_Nil split: option.splits)

lemma silent_checkpoint:
  assumes "silent answer"
    and "\<And>v now since. \<not> truthy (get ''exempt'' v) \<Longrightarrow> stall_deadline (exempt v now since w) = stall_deadline w"
  shows "\<exists>w'. wait_checkpoint exempt key started finished u answer w = Inr (finished - started, w') \<and>
      stall_deadline w' = stall_deadline w + (finished - started)"
proof -
  obtain v where v: "wait_verdict key answer = Inr v" "silent_verdict v"
    using silent_wait_verdict [OF assms(1)] by blast
  show ?thesis
  proof (cases v)
    case None
    with v show ?thesis by (simp add: wait_checkpoint_def)
  next
    case (Some d)
    then have "\<exists>f. py_float (if truthy (get ''since_unix'' d) then get ''since_unix'' d else JFloat (Fin u)) = Inr f"
      using v(2) by (auto simp: silent_verdict_def split: sum.splits)
    with v Some assms(2) [of d] show ?thesis
      by (auto simp: wait_checkpoint_def silent_verdict_def)
  qed
qed

lemma not_exempt [simp]:
  assumes "\<not> truthy (get ''exempt'' v)"
  shows "stall_deadline (exempt_staged_wait v now since w) = stall_deadline w"
    "stall_deadline (exempt_export_wait v now since w) = stall_deadline w"
    "stall_deadline (exempt_reader_plan v now since w) = stall_deadline w"
  using assms by (simp_all add: exempt_defs Let_def stall_deadline_def grace_s_def)

lemma silent_queued:
  "silent_verdict v \<Longrightarrow> stall_deadline (sample_queued_child_wait v now w) = stall_deadline w"
  by (auto simp: sample_queued_child_wait_def silent_verdict_def Let_def stall_deadline_def grace_s_def
      split: option.splits)

lemma silent_queued_checkpoint:
  assumes "silent_sources sources"
  shows "\<exists>c w'. queued_checkpoint tick sources checked spent w = Inr (c, w') \<and>
      sc_expired c = (stall_deadline w + (tick 14 - tick 13) \<le> tick 15)"
proof -
  obtain v where "src_queued sources (w_queued w) = Inr v" "silent_verdict v"
    using assms by (cases "src_queued sources (w_queued w)")
      (auto simp: silent_sources_def dest: spec [of _ "w_queued w"])
  then show ?thesis
    using silent_queued [of v "tick 13" w] by (simp add: queued_checkpoint_def Let_def)
qed

text \<open>
  C20: Past its deadline, an action whose report is no advancement and whose waits no source vouches for is
  ended by this very check, however long the reads of the check take.
\<close>

theorem stalled_action_ends:
  assumes clock: "\<And>i j. i \<le> j \<Longrightarrow> tick i \<le> tick j"
    and past: "stall_deadline w \<le> tick 0"
    and quiet: "\<not> fst (sample str (tick 1) (unix 0) (unix 1) read w)"
    and silent: "silent_sources sources"
  shows "\<exists>c w'. check_stall str tick unix read sources w = Inr (Some c, w') \<and> sc_expired c"
proof -
  obtain w0 where s: "sample str (tick 1) (unix 0) (unix 1) read w = (False, w0)"
    using quiet by (cases "sample str (tick 1) (unix 0) (unix 1) read w") auto
  let ?w1 = "shift (tick 2 - tick 1) w0"
  have d1: "stall_deadline ?w1 = stall_deadline w + (tick 2 - tick 1)"
    using sample_rejected [OF s] by (auto simp: shift_def stall_deadline_def grace_s_def)
  note answers = silent [unfolded silent_sources_def]
  obtain w2 where w2: "wait_checkpoint exempt_staged_wait (Some ''movers'') (tick 4) (tick 5) (unix 2)
      (src_staged sources (w_staged ?w1) (grace_s ?w1)) ?w1 = Inr (tick 5 - tick 4, w2)"
    and d2: "stall_deadline w2 = stall_deadline ?w1 + (tick 5 - tick 4)"
    using silent_checkpoint [of "src_staged sources (w_staged ?w1) (grace_s ?w1)" exempt_staged_wait ?w1
      "Some ''movers''" "tick 4" "tick 5" "unix 2"] answers
    by auto
  obtain w3 where w3: "wait_checkpoint exempt_export_wait (Some ''exports'') (tick 7) (tick 8) (unix 3)
      (src_export sources (w_export w2) (grace_s w2)) w2 = Inr (tick 8 - tick 7, w3)"
    and d3: "stall_deadline w3 = stall_deadline w2 + (tick 8 - tick 7)"
    using silent_checkpoint [of "src_export sources (w_export w2) (grace_s w2)" exempt_export_wait w2
      "Some ''exports''" "tick 7" "tick 8" "unix 3"] answers
    by auto
  obtain w4 where w4: "wait_checkpoint exempt_reader_plan None (tick 10) (tick 11) (unix 4)
      (src_reader sources) w3 = Inr (tick 11 - tick 10, w4)"
    and d4: "stall_deadline w4 = stall_deadline w3 + (tick 11 - tick 10)"
    using silent_checkpoint [of "src_reader sources" exempt_reader_plan w3 None "tick 10" "tick 11" "unix 4"] answers by auto
  have order: "tick i \<le> tick (Suc i)" for i using clock by simp
  have ticks: "tick 0 \<le> tick 1" "tick 2 \<le> tick 4" "tick 5 \<le> tick 6" "tick 5 \<le> tick 7" "tick 8 \<le> tick 9"
    "tick 8 \<le> tick 10" "tick 11 \<le> tick 12" "tick 11 \<le> tick 13" "tick 14 \<le> tick 15"
    using clock by simp_all
  have "\<not> within_deadline (tick 0) w" "\<not> within_deadline (tick 6) w2" "\<not> within_deadline (tick 9) w3"
    "\<not> within_deadline (tick 12) w4" "stall_deadline w4 + (tick 14 - tick 13) \<le> tick 15"
    using past ticks d1 d2 d3 d4 by (simp_all add: within_deadline_def)
  moreover obtain c w5 where "queued_checkpoint tick sources (tick 3)
      (tick 2 - tick 1 + (tick 5 - tick 4) + (tick 8 - tick 7) + (tick 11 - tick 10)) w4 = Inr (c, w5)"
    "sc_expired c = (stall_deadline w4 + (tick 14 - tick 13) \<le> tick 15)"
    using silent_queued_checkpoint [OF silent] by blast
  ultimately show ?thesis
    by (simp add: check_stall_def s w2 w3 w4 Let_def flip: One_nat_def)
qed

section \<open>Advancement\<close>

text \<open>
  C22: Only this launch's reports of work buy time: an accepted one has the schema, carries the launch's token,
  names a declared phase and raises the count or takes a phase not granted at this count; the count never
  falls. Any other read leaves the deadline, the count and the phases granted as they were.
\<close>

theorem accepted_is_advancement:
  assumes ok: "watch_ok w"
  shows "case sample str now sampled unix read w of
      (True, w') \<Rightarrow>
        (\<exists>d. read = Read_Value (JObj d) \<and> get ''schema'' d = JStr progress_record_schema_v1 \<and>
           get ''token'' d = JStr (w_token w) \<and>
           py_str str (get ''phase'' d) \<in> ph_name ` set (pp_phases (w_policy w))) \<and>
        w_last_advance w' = now \<and>
        (units_of w < units_of w' \<or> units_of w = units_of w' \<and> granted_now w \<subset> granted_now w')
    | (False, w') \<Rightarrow>
        stall_deadline w' = stall_deadline w \<and> units_of w' = units_of w \<and> granted_now w' = granted_now w"
proof (cases "sample str now sampled unix read w")
  case (Pair b w')
  show ?thesis
  proof (cases b)
    case False
    then show ?thesis
      using Pair sample_rejected [of str now sampled unix read w w']
      by (auto simp: stall_deadline_def grace_s_def units_of_def granted_now_def)
  next
    case True
    then have s: "sample str now sampled unix read w = (True, w')" using Pair by simp
    then show ?thesis
    proof (rule sample_acceptedE)
      fix d index au ap
      assume d: "read = Read_Value (JObj d)" "judge_report str w (JObj d) = Inr (d, index, au, ap)"
      have "index_of (w_policy w) (py_str str (get ''phase'' d)) \<noteq> None"
        using judge_report_Inr(4) [OF d(2)] by simp
      then have "py_str str (get ''phase'' d) \<in> ph_name ` set (pp_phases (w_policy w))"
        by (simp add: index_of_None)
      moreover have "units_of w < units_of w' \<or> units_of w = units_of w' \<and> granted_now w \<subset> granted_now w'"
        using sample_accepted_grant(3,4) [OF ok s] by fastforce
      ultimately show ?thesis
        unfolding s using d judge_report_Inr(2,3) [OF d(2)] sample_accepted_grant(1) [OF ok s] by simp
    qed
  qed
qed

section \<open>Samples\<close>

definition sample_policy :: "bool \<Rightarrow> policy" where
  "sample_policy cycle =
     \<lparr>pp_phases = [\<lparr>ph_name = ''setup'', ph_requested_grace_s = 10, ph_ceiling_s = None\<rparr>,
                   \<lparr>ph_name = ''run'', ph_requested_grace_s = 30, ph_ceiling_s = Some 20\<rparr>],
      pp_ceiling_s = None, pp_cycle = cycle, pp_pool_contention = None, pp_awaited_batch = None\<rparr>"

definition sample_report :: "string \<Rightarrow> json \<Rightarrow> progress_read" where
  "sample_report phase units = Read_Value (JObj
     [(''schema'', JStr progress_record_schema_v1), (''token'', JStr ''t''), (''phase'', JStr phase),
      (''units_completed'', units)])"

abbreviation sample_launch :: "bool \<Rightarrow> watch" where
  "sample_launch cycle \<equiv> launch_watch ''t'' (sample_policy cycle) 0"

abbreviation sample_wait :: obj where
  "sample_wait \<equiv> [(''exempt'', JBool True), (''since_unix'', JInt 3)]"

definition sample_sources :: "wait_answer \<Rightarrow> wait_sources" where
  "sample_sources answer =
     \<lparr>src_staged = \<lambda>_ _. answer, src_export = \<lambda>_ _. Answer None,
      src_reader = Raised (OSError EIO) ''EIO'', src_queued = \<lambda>_. Inr None\<rparr>"

lemmas sample_simps =
  sample_policy_def sample_report_def launch_watch_def sample_def judge_report_def accept_report_def
  enter_phase_def reject_def index_of_def py_str_def count_value_def units_of_def get_Cons get_Nil
  stall_deadline_def grace_s_def effective_grace_s_def reported_stamp_def progress_record_schema_v1_def
  granted_now_def

lemma sample_policy_ok: "policy_ok (sample_policy cycle)"
  by (auto simp: policy_ok_def sample_policy_def effective_grace_s_def)

text \<open>A launch that enters its second phase, repeats itself, and is credited one wait twice.\<close>

definition sample_ops :: "watch_op list" where
  "sample_ops =
     [Sample 9 0 0 (sample_report ''run'' (JInt 0)), Sample 12 0 0 (sample_report ''run'' (JInt 0)),
      Staged sample_wait 20 (Fin 15), Reader [(''exempt'', JBool True)] 22 (Fin 5), Shift 1,
      Sample 23 0 0 (sample_report ''setup'' (JInt 0))]"

theorem credited_once_witness:
  "credited (fold (watch_exec (\<lambda>_. [])) sample_ops (sample_launch False)) \<le> 22 - 0 + sum_list (map edge_s sample_ops)"
  by (rule credited_once) (auto simp: sample_ops_def)

theorem no_progress_bound_witness:
  "stall_deadline (fold (watch_exec (\<lambda>_. [])) sample_ops (sample_launch False)) \<le>
   0 + no_progress_bound_s (sample_policy False) + of_nat (length (pp_phases (sample_policy False)) - 1) * 2 +
   credited (fold (watch_exec (\<lambda>_. [])) sample_ops (sample_launch False)) + sum_list (map shift_s sample_ops)"
proof (rule no_progress_bound)
  show "all_along (watch_exec (\<lambda>_. [])) (uncommitted (\<lambda>_. []) 2) sample_ops (sample_launch False)"
    by (simp add: sample_ops_def sample_simps exempt_defs credit_def credit_of_def credit_start_def shift_def Let_def)
qed (simp_all add: sample_policy_ok)

theorem accepted_is_advancement_witness:
  "case sample (\<lambda>_. []) 9 0 0 (sample_report ''run'' (JInt 0)) (sample_launch True) of
      (True, w') \<Rightarrow>
        (\<exists>d. sample_report ''run'' (JInt 0) = Read_Value (JObj d) \<and>
           get ''schema'' d = JStr progress_record_schema_v1 \<and>
           get ''token'' d = JStr (w_token (sample_launch True)) \<and>
           py_str (\<lambda>_. []) (get ''phase'' d) \<in> ph_name ` set (pp_phases (w_policy (sample_launch True)))) \<and>
        w_last_advance w' = 9 \<and>
        (units_of (sample_launch True) < units_of w' \<or>
         units_of (sample_launch True) = units_of w' \<and> granted_now (sample_launch True) \<subset> granted_now w')
    | (False, w') \<Rightarrow>
        stall_deadline w' = stall_deadline (sample_launch True) \<and> units_of w' = units_of (sample_launch True) \<and>
        granted_now w' = granted_now (sample_launch True)"
  by (rule accepted_is_advancement [OF launch_watch_ok [OF sample_policy_ok]])

theorem stalled_action_ends_witness:
  "\<exists>c w'. check_stall (\<lambda>_. []) (\<lambda>i. 10 + of_nat i) (\<lambda>_. 0) (sample_report ''setup'' (JInt 0))
     (sample_sources (Answer None)) (sample_launch False) = Inr (Some c, w') \<and> sc_expired c"
  by (rule stalled_action_ends)
    (simp_all add: sample_simps sample_sources_def silent_sources_def silent_verdict_def Let_def)

text \<open>
  A launch at 0 whose check at 10 spends five seconds reading the report, and then hears that the action has
  been in a verified wait ever since the launch.
\<close>

definition sample_tick :: "nat \<Rightarrow> rat" where
  "sample_tick i = (if i \<le> 1 then 10 else 15)"

definition sample_check :: "(stall_check option \<times> watch) result" where
  "sample_check =
     check_stall (\<lambda>_. []) sample_tick (\<lambda>_. 115) Read_Absent
       (sample_sources (Answer (Some [(''exempt'', JBool True), (''since_unix'', JInt 100)])))
       (sample_launch False)"

lemma float_of_100: "float_of_int 100 = Some (Fin 100)"
  using float_of_int_small [of 100] by simp

lemma sample_check_value:
  "\<exists>c w'. sample_check = Inr (Some c, w') \<and> \<not> sc_expired c \<and> w_last_advance w' = 20"
  by (simp add: sample_check_def check_stall_def sample_simps sample_tick_def sample_sources_def Let_def
      wait_checkpoint_def wait_verdict_def since_monotonic_def exempt_staged_wait_def credit_def
      credit_of_def credit_start_def shift_def within_deadline_def float_of_100)

text \<open>
  The five seconds were refunded as the check's own I/O and credited again as part of the wait: the action's
  last advance lies in the future of the clock, beyond every reading of it.
\<close>

lemma refund_credited_again:
  "\<exists>c w'. sample_check = Inr (Some c, w') \<and> (\<forall>i. sample_tick i < w_last_advance w')"
proof -
  obtain c w' where "sample_check = Inr (Some c, w')" "w_last_advance w' = 20" using sample_check_value by blast
  then show ?thesis by (intro exI [of _ c] exI [of _ w']) (simp add: sample_tick_def)
qed


text \<open>
  An integer count beyond binary64 is accepted, and from then on no record of the watch can be written: the
  rate it carries is \<open>float(units_high_water)\<close>, which raises \<open>OverflowError\<close>.
\<close>

definition huge_count :: int where
  "huge_count = 2 ^ 1100"

lemma float_of_huge: "float_of_int huge_count = None"
proof -
  have "nat \<bar>huge_count\<bar> = 2 ^ 1100" by (simp add: huge_count_def nat_power_eq)
  moreover have "round53 (2 ^ 1100) = 2 ^ 1100"
  proof -
    have "(2::nat) ^ 1100 div 2 ^ 1048 = 2 ^ 52" "(2::nat) ^ 1100 mod 2 ^ 1048 = 0"
      by (simp_all flip: power_diff add: power_diff le_imp_power_dvd)
    then show ?thesis
      by (simp only: round53_def bit_length_power Let_def) (simp flip: power_add)
  qed
  moreover have "\<not> (2::nat) ^ 1100 < 2 ^ 1024" by simp
  ultimately show ?thesis by (simp only: float_of_int_def Let_def if_False)
qed

lemma unreadable_count:
  assumes "w_units w = JInt n" "float_of_int n = None" "w_first_advance w = Some t" "t < now"
  shows "watch_record now w = Inl OverflowError" "stall_record now contention w = Inl OverflowError"
  using assms by (simp_all add: watch_record_def stall_record_def delivered_units_per_s_def Let_def)

lemma huge_count_unrecorded:
  "\<exists>w'. sample (\<lambda>_. []) 5 0 0 (sample_report ''run'' (JInt huge_count)) (sample_launch False) = (True, w') \<and>
     watch_record 6 w' = Inl OverflowError \<and> stall_record 6 None w' = Inl OverflowError"
proof -
  have "0 < huge_count" by (simp add: huge_count_def)
  then have "\<exists>w'. sample (\<lambda>_. []) 5 0 0 (sample_report ''run'' (JInt huge_count)) (sample_launch False) = (True, w') \<and>
     w_units w' = JInt huge_count \<and> w_first_advance w' = Some 5"
    by (simp add: sample_simps Let_def)
  then obtain w' where "sample (\<lambda>_. []) 5 0 0 (sample_report ''run'' (JInt huge_count)) (sample_launch False) = (True, w')"
    "w_units w' = JInt huge_count" "w_first_advance w' = Some 5" by blast
  with unreadable_count [OF _ float_of_huge, of w' 5 6] show ?thesis by (intro exI [of _ w']) simp
qed

end
