(* ===== verification/Contention_Probe.thy ===== *)
theory Contention_Probe
  imports Progress_Bound
begin

text \<open>
  The evidence a worker reads for itself while an action runs: \<open>PoolContentionProbe\<close> and the block-device
  arithmetic it shares with the disk pacer (\<open>storage_tiers.py\<close>), the credit it leads to on every heartbeat
  (\<open>credit_contention\<close> in \<open>PoolQueue._execute_in_checkout\<close>), and \<open>ActivityWatch\<close>, the fallback for an action without a
  progress policy. The \<open>stat\<close> rows, the try of the stage's ownership lock and the holder's record are what
  the kernel and the queue answered, and are arguments. Rates and times are exact rationals.
\<close>

section \<open>The pool's members\<close>

definition stat_reads_completed :: nat where "stat_reads_completed = 0"
definition stat_read_sectors :: nat where "stat_read_sectors = 2"
definition stat_read_ms :: nat where "stat_read_ms = 3"
definition stat_in_flight :: nat where "stat_in_flight = 8"
definition stat_io_ticks :: nat where "stat_io_ticks = 9"
definition stat_weighted_io_ms :: nat where "stat_weighted_io_ms = 10"

definition hold_release_fraction :: rat where "hold_release_fraction = 1 / 2"

lemmas stat_defs =
  stat_reads_completed_def stat_read_sectors_def stat_read_ms_def stat_in_flight_def
  stat_io_ticks_def stat_weighted_io_ms_def

record member_worst =
  mw_util_pct :: rat
  mw_read_await_ms :: rat
  mw_backlog_ms :: rat
  mw_in_flight :: rat

definition pool_is_hurting :: "member_worst \<Rightarrow> rat \<Rightarrow> rat \<Rightarrow> bool \<Rightarrow> bool" where
  "pool_is_hurting measured max_read_await_ms max_backlog_ms over =
     (let scale = (if over then hold_release_fraction else 1) in
      (0 < max_read_await_ms \<and> max_read_await_ms * scale < mw_read_await_ms measured) \<or>
      (0 < max_backlog_ms \<and> max_backlog_ms * scale < mw_backlog_ms measured))"

type_synonym stat_rows = "(string, int list) dict"

text \<open>One member both rows have, folded into the worst so far and the sectors read.\<close>

definition fold_member ::
    "rat \<Rightarrow> int list \<Rightarrow> int list \<Rightarrow> member_worst \<times> int \<Rightarrow> member_worst \<times> int" where
  "fold_member elapsed before row acc =
     (let worst = fst acc;
          delta = (\<lambda>k. row ! k - before ! k);
          reads = delta stat_reads_completed in
      (\<lparr>mw_util_pct =
          max (mw_util_pct worst) (min 100 (100 * of_int (delta stat_io_ticks) / (elapsed * 1000))),
        mw_read_await_ms =
          max (mw_read_await_ms worst)
            (if 0 < reads then of_int (delta stat_read_ms) / of_int reads else 0),
        mw_backlog_ms = max (mw_backlog_ms worst) (of_int (delta stat_weighted_io_ms) / elapsed),
        mw_in_flight = max (mw_in_flight worst) (of_int (row ! stat_in_flight))\<rparr>,
       snd acc + max 0 (delta stat_read_sectors)))"

fun fold_members ::
    "rat \<Rightarrow> stat_rows \<Rightarrow> stat_rows \<Rightarrow> bool \<times> member_worst \<times> int \<Rightarrow> bool \<times> member_worst \<times> int" where
  "fold_members elapsed previous [] acc = acc"
| "fold_members elapsed previous ((device, row) # current) acc =
     fold_members elapsed previous current
       (case map_of previous device of
          None \<Rightarrow> acc
        | Some before \<Rightarrow>
            if length row \<le> stat_weighted_io_ms \<or> length before \<le> stat_weighted_io_ms then acc
            else (True, fold_member elapsed before row (snd acc)))"

definition worst_member_interval ::
    "stat_rows \<Rightarrow> stat_rows \<Rightarrow> rat \<Rightarrow> (member_worst \<times> int) option" where
  "worst_member_interval previous current elapsed =
     (if elapsed \<le> 0 then None
      else (case fold_members elapsed previous current
                   (False, \<lparr>mw_util_pct = 0, mw_read_await_ms = 0, mw_backlog_ms = 0, mw_in_flight = 0\<rparr>, 0) of
              (seen, worst, sectors) \<Rightarrow> if seen then Some (worst, sectors) else None))"

section \<open>The probe\<close>

record probe =
  pr_members :: "string list"
  pr_max_read_await_ms :: rat
  pr_max_backlog_ms :: rat
  pr_priced_bytes_per_s :: rat
  pr_stage_root :: string
  pr_counts :: "(string, nat) dict"
  pr_seconds :: "(string, rat) dict"
  pr_blind_starts :: nat
  pr_blind :: bool
  pr_over :: bool
  pr_over_starts :: nat
  pr_missing :: "string list"
  pr_last :: "obj option"
  pr_peak :: "rat option"
  pr_gate_held_s :: rat
  pr_gate_probes :: nat
  pr_gate_edges :: nat
  pr_gate_holder :: "obj option"
  pr_gate_holders :: "(string, obj) dict"
  pr_gate_holders_dropped :: nat
  pr_gate_self_probes :: nat
  pr_previous :: "stat_rows option"
  pr_previous_at :: rat

text \<open>\<open>_read\<close>: \<open>stat\<close> is what each member's row read as; a short or missing row is missing.\<close>

fun read_members ::
    "(string \<Rightarrow> int list option) \<Rightarrow> string list \<Rightarrow> stat_rows \<times> string list \<Rightarrow> stat_rows \<times> string list" where
  "read_members stat [] acc = acc"
| "read_members stat (device # ds) (rows, missing) =
     read_members stat ds
       (case stat device of
          None \<Rightarrow> (rows, missing @ [device])
        | Some row \<Rightarrow>
            if length row \<le> stat_weighted_io_ms then (rows, missing @ [device])
            else (AList.update device row rows, missing))"

definition probe_read ::
    "(string \<Rightarrow> int list option) \<Rightarrow> rat \<Rightarrow> probe \<Rightarrow> stat_rows option \<times> probe" where
  "probe_read stat now p =
     (case read_members stat (pr_members p) ([], []) of
        (rows, missing) \<Rightarrow>
          (pr_previous p,
           p\<lparr>pr_missing := missing, pr_previous := (if missing = [] then Some rows else None),
             pr_previous_at := now\<rparr>))"

definition launch_probe ::
    "string list \<Rightarrow> rat \<Rightarrow> rat \<Rightarrow> rat \<Rightarrow> string \<Rightarrow> (string \<Rightarrow> int list option) \<Rightarrow> rat \<Rightarrow> probe" where
  "launch_probe members await backlog priced stage_root stat now =
     snd (probe_read stat now
       \<lparr>pr_members = members, pr_max_read_await_ms = await, pr_max_backlog_ms = backlog,
        pr_priced_bytes_per_s = priced, pr_stage_root = stage_root,
        pr_counts = [(''over'', 0), (''under'', 0), (''blind'', 0)],
        pr_seconds = [(''over'', 0), (''under'', 0), (''blind'', 0)],
        pr_blind_starts = 0, pr_blind = False, pr_over = False, pr_over_starts = 0, pr_missing = [],
        pr_last = None, pr_peak = None, pr_gate_held_s = 0, pr_gate_probes = 0, pr_gate_edges = 0,
        pr_gate_holder = None, pr_gate_holders = [], pr_gate_holders_dropped = 0,
        pr_gate_self_probes = 0, pr_previous = None, pr_previous_at = now\<rparr>)"

text \<open>\<open>round(x, n)\<close>: to the nearest multiple of \<open>10 ^ -n\<close>, ties to even.\<close>

definition py_round :: "nat \<Rightarrow> rat \<Rightarrow> rat" where
  "py_round n x =
     (let y = x * 10 ^ n; k = \<lfloor>y\<rfloor>; r = y - of_int k in
      of_int (if r < 1 / 2 \<or> (r = 1 / 2 \<and> even k) then k else k + 1) / 10 ^ n)"

definition measured_keys :: "member_worst \<Rightarrow> obj" where
  "measured_keys worst =
     [(''util_pct'', num (py_round 3 (mw_util_pct worst))),
      (''read_await_ms'', num (py_round 3 (mw_read_await_ms worst))),
      (''backlog_ms'', num (py_round 3 (mw_backlog_ms worst))),
      (''in_flight'', num (py_round 3 (mw_in_flight worst)))]"

definition judge_state ::
    "probe \<Rightarrow> stat_rows option \<Rightarrow> rat \<Rightarrow> string \<times> obj \<times> rat option" where
  "judge_state p previous elapsed =
     (case (previous, pr_previous p) of
        (Some before, Some rows) \<Rightarrow>
          (case worst_member_interval before rows elapsed of
             None \<Rightarrow> (''under'', [], pr_peak p)
           | Some (worst, sectors) \<Rightarrow>
               (let rate = of_int (sectors * 512) / elapsed;
                    over = pool_is_hurting worst (pr_max_read_await_ms p) (pr_max_backlog_ms p) (pr_over p) in
                (if over then ''over'' else ''under'',
                 [(''release_band'', JBool (over \<and> pr_over p \<and>
                     \<not> (pr_max_read_await_ms p < mw_read_await_ms worst \<or>
                        pr_max_backlog_ms p < mw_backlog_ms worst)))] @
                 measured_keys worst @ [(''pool_bytes_per_s'', num (py_round 1 rate))],
                 Some (max (case pr_peak p of None \<Rightarrow> 0 | Some q \<Rightarrow> q) rate))))
      | _ \<Rightarrow> (''blind'', [], pr_peak p))"

definition probe_judge :: "(string \<Rightarrow> int list option) \<Rightarrow> rat \<Rightarrow> probe \<Rightarrow> obj \<times> probe" where
  "probe_judge stat now p0 =
     (let since = pr_previous_at p0;
          (previous, p) = probe_read stat now p0;
          elapsed = max 0 (now - since);
          (state, numbers, peak) = judge_state p previous elapsed;
          blind_start = (state = ''blind'' \<and> \<not> pr_blind p);
          over_start = (state = ''over'' \<and> \<not> pr_over p);
          verdict =
            [(''verdict'', JStr state), (''since_monotonic'', num since), (''interval_s'', num elapsed),
             (''missing'', JArr (map JStr (pr_missing p)))] @ numbers @
            [(''blind_start'', JBool blind_start), (''over_start'', JBool over_start)] in
      (verdict,
       p\<lparr>pr_peak := peak,
         pr_counts := AList.update state (dict_get (pr_counts p) state 0 + 1) (pr_counts p),
         pr_seconds := AList.update state (dict_get (pr_seconds p) state 0 + elapsed) (pr_seconds p),
         pr_blind_starts := (if blind_start then pr_blind_starts p + 1 else pr_blind_starts p),
         pr_over_starts := (if over_start then pr_over_starts p + 1 else pr_over_starts p),
         pr_blind := (state = ''blind''), pr_over := (state = ''over'' \<or> state = ''blind''),
         pr_last := Some (filter (\<lambda>kv. fst kv \<noteq> ''since_monotonic'') verdict)\<rparr>))"

definition max_blind_events :: nat where "max_blind_events = 64"

definition holder_name :: "(json \<Rightarrow> string) \<Rightarrow> obj \<Rightarrow> string" where
  "holder_name str holder =
     (if truthy (get ''action_key'' holder) then py_str str (get ''action_key'' holder)
      else if truthy (get ''recorded'' holder) then
        py_str str (get ''role'' holder) @ ''@'' @ py_str str (get ''host'' holder) @ '':'' @
        py_str str (get ''pid'' holder)
      else ''unrecorded'')"

definition note_entry :: "obj \<Rightarrow> rat \<Rightarrow> obj \<Rightarrow> obj" where
  "note_entry holder held_s entry =
     (let looks = (case get ''looks'' entry of JInt n \<Rightarrow> n | _ \<Rightarrow> 0);
          held = (case get ''held_s'' entry of JFloat (Fin q) \<Rightarrow> q | _ \<Rightarrow> 0);
          e1 = put ''looks'' (JInt (looks + 1)) entry;
          e2 = put ''held_s'' (num (py_round 3 (held + max 0 held_s))) e1;
          e3 = put ''live'' (get ''live'' holder) e2 in
      if truthy (get ''why'' holder) then put ''why'' (get ''why'' holder) e3 else e3)"

definition note_gate_holder :: "(json \<Rightarrow> string) \<Rightarrow> obj \<Rightarrow> rat \<Rightarrow> probe \<Rightarrow> bool \<times> probe" where
  "note_gate_holder str holder held_s p0 =
     (let name = holder_name str holder; p = p0\<lparr>pr_gate_holder := Some holder\<rparr> in
      case map_of (pr_gate_holders p) name of
        Some entry \<Rightarrow>
          (False, p\<lparr>pr_gate_holders := AList.update name (note_entry holder held_s entry) (pr_gate_holders p)\<rparr>)
      | None \<Rightarrow>
          if max_blind_events \<le> length (pr_gate_holders p)
          then (False, p\<lparr>pr_gate_holders_dropped := pr_gate_holders_dropped p + 1\<rparr>)
          else
            (let entry =
               [(''action_key'', if truthy (get ''action_key'' holder) then get ''action_key'' holder else JNull),
                (''role'', get ''role'' holder), (''host'', get ''host'' holder), (''pid'', get ''pid'' holder),
                (''recorded'', JBool (truthy (get ''recorded'' holder))), (''held_s'', num 0), (''looks'', JInt 0)] in
             (True, p\<lparr>pr_gate_holders :=
                AList.update name (note_entry holder held_s entry) (pr_gate_holders p)\<rparr>)))"

section \<open>The credit on a heartbeat\<close>

text \<open>
  What \<open>credit_contention\<close> keeps: the watch, the probe, when the gate was last seen held, and the events it
  filed, newest last.
\<close>

record gate_state =
  gs_watch :: watch
  gs_probe :: probe
  gs_held_since :: "rat option"
  gs_events :: "obj list"

definition file_event :: "bool \<Rightarrow> obj \<Rightarrow> gate_state \<Rightarrow> gate_state" where
  "file_event b event g = (if b then g\<lparr>gs_events := gs_events g @ [event]\<rparr> else g)"

definition judge_pool ::
    "(string \<Rightarrow> int list option) \<Rightarrow> string \<Rightarrow> rat \<Rightarrow> rat \<Rightarrow> gate_state \<Rightarrow> gate_state" where
  "judge_pool stat key now unix g =
     (let (verdict, p) = probe_judge stat now (gs_probe g);
          since = (case get ''since_monotonic'' verdict of JFloat f \<Rightarrow> f | _ \<Rightarrow> Fin now);
          g1 = g\<lparr>gs_probe := p, gs_watch := exempt_pool_contention verdict now since (gs_watch g)\<rparr>;
          g2 = file_event (truthy (get ''blind_start'' verdict) \<and> pr_blind_starts p \<le> max_blind_events)
                 [(''unix'', num unix), (''event'', JStr ''mover-pool-blind''), (''action_key'', JStr key),
                  (''missing'', get ''missing'' verdict), (''members'', JArr (map JStr (pr_members p))),
                  (''blind_starts'', JInt (int (pr_blind_starts p)))] g1 in
      file_event (truthy (get ''over_start'' verdict) \<and> pr_over_starts p \<le> max_blind_events)
        ([(''unix'', num unix), (''event'', JStr ''mover-pool-over''), (''action_key'', JStr key)] @
         map (\<lambda>f. (f, get f verdict)) [''read_await_ms'', ''backlog_ms'', ''util_pct'', ''pool_bytes_per_s''] @
         [(''max_read_await_ms'', num (pr_max_read_await_ms p)),
          (''max_backlog_ms'', num (pr_max_backlog_ms p)),
          (''over_starts'', JInt (int (pr_over_starts p)))]) g2)"

text \<open>
  The look at the start gate: whether the ownership lock was found held, who its record names, this
  action's key and this host. A live hold by this action itself is not a wait.
\<close>

definition own_hold :: "string \<Rightarrow> string \<Rightarrow> obj \<Rightarrow> bool" where
  "own_hold key host holder \<longleftrightarrow>
     get ''live'' holder = JBool True \<and> get ''action_key'' holder = JStr key \<and> get ''host'' holder = JStr host"

definition look_at_gate ::
    "(json \<Rightarrow> string) \<Rightarrow> string \<Rightarrow> string \<Rightarrow> rat \<Rightarrow> rat \<Rightarrow> rat \<Rightarrow> obj option \<Rightarrow> gate_state \<Rightarrow> gate_state" where
  "look_at_gate str key host heartbeat_s now unix lock g0 =
     (let probe = (\<lambda>f g. g\<lparr>gs_probe := f (gs_probe g)\<rparr>);
          edge = (\<lambda>g. g\<lparr>gs_watch := grant_start_gate_edge heartbeat_s (gs_watch g),
                        gs_probe := (gs_probe g)\<lparr>pr_gate_edges := pr_gate_edges (gs_probe g) + 1\<rparr>\<rparr>);
          g = probe (\<lambda>p. p\<lparr>pr_gate_probes := pr_gate_probes p + 1\<rparr>) g0;
          released = (\<lambda>g. (if gs_held_since g \<noteq> None then edge g else g)\<lparr>gs_held_since := None\<rparr>) in
      case lock of
        None \<Rightarrow> released g
      | Some holder \<Rightarrow>
          if own_hold key host holder then
            released (probe (\<lambda>p. p\<lparr>pr_gate_self_probes := pr_gate_self_probes p + 1\<rparr>) g)
          else
            (let (held_s, g1) =
                   (case gs_held_since g of
                      Some since \<Rightarrow>
                        (max 0 (now - since),
                         (probe (\<lambda>p. p\<lparr>pr_gate_held_s := pr_gate_held_s p + max 0 (now - since)\<rparr>) g)
                           \<lparr>gs_watch := exempt_start_gate now (Fin since) (gs_watch g)\<rparr>)
                    | None \<Rightarrow> (0, edge g));
                 (new, p) = note_gate_holder str holder held_s (gs_probe g1) in
             (file_event new
                [(''unix'', num unix), (''event'', JStr ''start-gate-held''), (''action_key'', JStr key),
                 (''stage_root'', JStr (pr_stage_root p)), (''holder'', JObj holder)]
                (g1\<lparr>gs_probe := p\<rparr>))\<lparr>gs_held_since := Some now\<rparr>))"

text \<open>
  \<open>credit_contention\<close>: \<open>lock\<close> is the holder's record when the lock was found held by somebody, \<open>None\<close> when
  it was free or could not be tried.
\<close>

definition credit_contention ::
    "(json \<Rightarrow> string) \<Rightarrow> (string \<Rightarrow> int list option) \<Rightarrow> string \<Rightarrow> string \<Rightarrow> rat \<Rightarrow> rat \<Rightarrow> rat \<Rightarrow> obj option \<Rightarrow>
     gate_state \<Rightarrow> gate_state" where
  "credit_contention str stat key host heartbeat_s now unix lock g0 =
     (let g = judge_pool stat key now unix g0 in
      if w_accepted (gs_watch g) \<noteq> 0 \<or> w_phase_index (gs_watch g) \<noteq> 0
      then g\<lparr>gs_held_since := None\<rparr>
      else look_at_gate str key host heartbeat_s now unix lock g)"

section \<open>Activity of an action without a policy\<close>

record activity =
  ac_allowance_s :: rat
  ac_last_activity :: rat
  ac_last_advance :: rat
  ac_last_advance_unix :: "rat option"
  ac_stdout_bytes :: int
  ac_stderr_bytes :: int
  ac_cpu_seconds :: "rat option"
  ac_observations :: nat
  ac_advances :: nat
  ac_sampled_unix :: "rat option"

definition launch_activity :: "rat \<Rightarrow> rat \<Rightarrow> activity" where
  "launch_activity allowance started =
     \<lparr>ac_allowance_s = allowance, ac_last_activity = started, ac_last_advance = started,
      ac_last_advance_unix = None, ac_stdout_bytes = 0, ac_stderr_bytes = 0, ac_cpu_seconds = None,
      ac_observations = 0, ac_advances = 0, ac_sampled_unix = None\<rparr>"

definition activity_deadline :: "activity \<Rightarrow> rat" where
  "activity_deadline a = ac_last_activity a + ac_allowance_s a"

definition activity_shift :: "rat \<Rightarrow> activity \<Rightarrow> activity" where
  "activity_shift seconds a =
     a\<lparr>ac_last_activity := ac_last_activity a + seconds, ac_last_advance := ac_last_advance a + seconds\<rparr>"

definition shows_activity :: "int \<Rightarrow> int \<Rightarrow> rat option \<Rightarrow> activity \<Rightarrow> bool" where
  "shows_activity stdout stderr cpu a \<longleftrightarrow>
     ac_stdout_bytes a < stdout \<or> ac_stderr_bytes a < stderr \<or>
     (case (cpu, ac_cpu_seconds a) of (Some c, Some d) \<Rightarrow> d < c | _ \<Rightarrow> False)"

definition observe ::
    "rat \<Rightarrow> rat \<Rightarrow> int \<Rightarrow> int \<Rightarrow> rat option \<Rightarrow> activity \<Rightarrow> bool \<times> activity" where
  "observe now unix stdout stderr cpu a =
     (let advanced = shows_activity stdout stderr cpu a;
          b = a\<lparr>ac_sampled_unix := Some unix, ac_observations := ac_observations a + 1,
                ac_cpu_seconds :=
                  (case cpu of
                     None \<Rightarrow> ac_cpu_seconds a
                   | Some c \<Rightarrow> (case ac_cpu_seconds a of None \<Rightarrow> Some c | Some d \<Rightarrow> Some (max d c))),
                ac_stdout_bytes := max (ac_stdout_bytes a) stdout,
                ac_stderr_bytes := max (ac_stderr_bytes a) stderr\<rparr> in
      (advanced,
       if advanced then
         b\<lparr>ac_advances := ac_advances b + 1, ac_last_activity := now, ac_last_advance := now,
           ac_last_advance_unix := Some unix\<rparr>
       else b))"

definition activity_record :: "rat \<Rightarrow> activity \<Rightarrow> obj" where
  "activity_record now a =
     [(''source'', JStr ''activity''),
      (''sampled_unix'', opt_num (ac_sampled_unix a)),
      (''accepted_count'', JInt (int (ac_advances a))),
      (''rejected_count'', JInt 0),
      (''last_rejection'', JNull),
      (''last_accepted'',
         if ac_advances a = 0 then JNull
         else JObj [(''phase'', JStr ''activity''), (''units_completed'', JInt (int (ac_advances a))),
                    (''unit'', JNull), (''reported_unix'', opt_num (ac_last_advance_unix a))]),
      (''quiet_s'', num (max 0 (now - ac_last_activity a))),
      (''grace_s'', num (ac_allowance_s a)),
      (''phase'', JStr ''activity''),
      (''phases_entered'', JInt 1),
      (''stdout_bytes'', JInt (ac_stdout_bytes a)),
      (''stderr_bytes'', JInt (ac_stderr_bytes a)),
      (''cpu_seconds'', opt_num (ac_cpu_seconds a)),
      (''observations'', JInt (int (ac_observations a)))]"

section \<open>Laws of the probe\<close>

lemma probe_read_keeps [simp]:
  "pr_blind_starts (snd (probe_read stat now p)) = pr_blind_starts p"
  "pr_over_starts (snd (probe_read stat now p)) = pr_over_starts p"
  "pr_gate_holders (snd (probe_read stat now p)) = pr_gate_holders p"
  "pr_over (snd (probe_read stat now p)) = pr_over p" "pr_blind (snd (probe_read stat now p)) = pr_blind p"
  "pr_gate_held_s (snd (probe_read stat now p)) = pr_gate_held_s p"
  "pr_gate_edges (snd (probe_read stat now p)) = pr_gate_edges p"
  "pr_max_read_await_ms (snd (probe_read stat now p)) = pr_max_read_await_ms p"
  "pr_max_backlog_ms (snd (probe_read stat now p)) = pr_max_backlog_ms p"
  by (simp_all add: probe_read_def split: prod.splits)

lemma probe_judge_keeps [simp]:
  "pr_gate_holders (snd (probe_judge stat now p)) = pr_gate_holders p"
  "pr_gate_held_s (snd (probe_judge stat now p)) = pr_gate_held_s p"
  "pr_gate_edges (snd (probe_judge stat now p)) = pr_gate_edges p"
  using probe_read_keeps [of stat now p]
  by (simp_all add: probe_judge_def Let_def case_prod_unfold del: probe_read_keeps)

lemma judge_state_keys:
  "judge_state p previous elapsed = (state, numbers, peak) \<Longrightarrow>
   state \<in> {''over'', ''under'', ''blind''} \<and>
   \<not> has_key ''blind_start'' numbers \<and> \<not> has_key ''over_start'' numbers"
  by (auto simp: judge_state_def measured_keys_def has_key_Cons has_key_Nil Let_def
      split: option.splits prod.splits if_splits)

text \<open>A start is announced exactly when its counter moves.\<close>

lemma judge_starts:
  assumes "probe_judge stat now p = (verdict, p')"
  shows "pr_blind_starts p' = pr_blind_starts p + (if truthy (get ''blind_start'' verdict) then 1 else 0)"
    "pr_over_starts p' = pr_over_starts p + (if truthy (get ''over_start'' verdict) then 1 else 0)"
proof -
  obtain previous q where q: "probe_read stat now p = (previous, q)" by fastforce
  obtain state numbers peak where
    st: "judge_state q previous (max 0 (now - pr_previous_at p)) = (state, numbers, peak)" by (metis prod_cases3)
  have keeps: "pr_blind_starts q = pr_blind_starts p" "pr_over_starts q = pr_over_starts p"
    using probe_read_keeps(1,2) [of stat now p] by (simp_all add: q)
  show "pr_blind_starts p' = pr_blind_starts p + (if truthy (get ''blind_start'' verdict) then 1 else 0)"
    "pr_over_starts p' = pr_over_starts p + (if truthy (get ''over_start'' verdict) then 1 else 0)"
    using assms judge_state_keys [OF st] keeps
    by (auto simp: probe_judge_def q st Let_def get_Cons get_append)
qed

text \<open>
  Once over or blind, the pool is judged under again only when every number with a cap has fallen to the
  release fraction of it.
\<close>

lemma judge_released:
  assumes "judge_state p (Some before) elapsed = (''under'', numbers, peak)" "pr_over p"
    and "pr_previous p = Some rows" "worst_member_interval before rows elapsed = Some (worst, sectors)"
  shows "(0 < pr_max_read_await_ms p \<longrightarrow> mw_read_await_ms worst \<le> pr_max_read_await_ms p / 2) \<and>
    (0 < pr_max_backlog_ms p \<longrightarrow> mw_backlog_ms worst \<le> pr_max_backlog_ms p / 2)"
  using assms
  by (auto simp: judge_state_def pool_is_hurting_def hold_release_fraction_def Let_def split: if_splits)

lemma note_gate_holder_holders:
  assumes "note_gate_holder str holder held_s p = (new, p')"
  shows "length (pr_gate_holders p') = length (pr_gate_holders p) + (if new then 1 else 0)"
    "length (pr_gate_holders p) \<le> max_blind_events \<Longrightarrow> length (pr_gate_holders p') \<le> max_blind_events"
    "pr_blind_starts p' = pr_blind_starts p" "pr_over_starts p' = pr_over_starts p"
    "pr_gate_held_s p' = pr_gate_held_s p" "pr_gate_edges p' = pr_gate_edges p"
proof -
  have upd: "length (AList.update k v d) = (if map_of d k = None then length d + 1 else length d)"
    for k :: string and v :: obj and d
    by (induction d) auto
  show "length (pr_gate_holders p') = length (pr_gate_holders p) + (if new then 1 else 0)"
    "length (pr_gate_holders p) \<le> max_blind_events \<Longrightarrow> length (pr_gate_holders p') \<le> max_blind_events"
    "pr_blind_starts p' = pr_blind_starts p" "pr_over_starts p' = pr_over_starts p"
    "pr_gate_held_s p' = pr_gate_held_s p" "pr_gate_edges p' = pr_gate_edges p"
    using assms by (auto simp: note_gate_holder_def Let_def upd split: option.splits if_splits)
qed

section \<open>The events one launch files\<close>

definition filed_ok :: "gate_state \<Rightarrow> bool" where
  "filed_ok g \<longleftrightarrow>
     length (gs_events g) \<le>
       min (pr_blind_starts (gs_probe g)) max_blind_events + min (pr_over_starts (gs_probe g)) max_blind_events +
       length (pr_gate_holders (gs_probe g)) \<and>
     length (pr_gate_holders (gs_probe g)) \<le> max_blind_events"

lemma filed_judge_pool: "filed_ok g \<Longrightarrow> filed_ok (judge_pool stat key now unix g)"
proof -
  assume ok: "filed_ok g"
  obtain verdict p where j: "probe_judge stat now (gs_probe g) = (verdict, p)" by fastforce
  have "pr_gate_holders p = pr_gate_holders (gs_probe g)" using probe_judge_keeps(1) [of stat now "gs_probe g"] j by simp
  with ok judge_starts [OF j] show ?thesis
    by (auto simp: filed_ok_def judge_pool_def j file_event_def Let_def)
qed

lemma filed_look_at_gate: "filed_ok g \<Longrightarrow> filed_ok (look_at_gate str key host beat now unix lock g)"
proof -
  assume ok: "filed_ok g"
  note holders = note_gate_holder_holders [OF prod.collapse [symmetric]]
  have room: "length (pr_gate_holders q) < max_blind_events" if "fst (note_gate_holder str holder held_s q)"
    for holder held_s q
    using that by (auto simp: note_gate_holder_def Let_def split: option.splits if_splits)
  show ?thesis
    using ok
    by (auto simp: filed_ok_def look_at_gate_def file_event_def Let_def case_prod_unfold holders(1,3,4) Suc_le_eq
        split: option.splits dest: room)
qed

text \<open>The looks of one launch, each with what it read.\<close>

record gate_look =
  gl_stat :: "string \<Rightarrow> int list option"
  gl_now :: rat
  gl_unix :: rat
  gl_lock :: "obj option"

definition take_look :: "(json \<Rightarrow> string) \<Rightarrow> string \<Rightarrow> string \<Rightarrow> rat \<Rightarrow> gate_look \<Rightarrow> gate_state \<Rightarrow> gate_state" where
  "take_look str key host beat l =
     credit_contention str (gl_stat l) key host beat (gl_now l) (gl_unix l) (gl_lock l)"

lemma filed_take_look: "filed_ok g \<Longrightarrow> filed_ok (take_look str key host beat l g)"
  using filed_judge_pool [of g "gl_stat l" key "gl_now l" "gl_unix l"]
    filed_look_at_gate [of "judge_pool (gl_stat l) key (gl_now l) (gl_unix l) g"]
  by (auto simp: take_look_def credit_contention_def Let_def filed_ok_def)

definition launch_gate :: "watch \<Rightarrow> probe \<Rightarrow> gate_state" where
  "launch_gate w p = \<lparr>gs_watch = w, gs_probe = p, gs_held_since = None, gs_events = []\<rparr>"

theorem events_bounded:
  "length (gs_events (fold (take_look str key host beat) looks
     (launch_gate w (launch_probe members await backlog priced stage stat started)))) \<le> 3 * max_blind_events"
proof -
  have "filed_ok (launch_gate w (launch_probe members await backlog priced stage stat started))"
    by (simp add: filed_ok_def launch_gate_def launch_probe_def)
  then have "filed_ok (fold (take_look str key host beat) looks
      (launch_gate w (launch_probe members await backlog priced stage stat started)))"
    by (induction looks arbitrary: w rule: rev_induct) (simp_all add: filed_take_look)
  then show ?thesis by (simp add: filed_ok_def) linarith
qed

section \<open>What a look credits\<close>

text \<open>
  A look at the pool and the gate is a short sequence of the watch's own operations, all up to its moment,
  with at most one start-gate edge, so the bounds of \<open>Progress_Bound\<close> hold for it.
\<close>

definition look_ops :: "rat \<Rightarrow> rat \<Rightarrow> watch_op list \<Rightarrow> bool" where
  "look_ops beat now as \<longleftrightarrow>
     (\<forall>a \<in> set as. credit_moment a = Some now \<or> a = Edge beat) \<and>
     sum_list (map edge_s as) \<in> {0, beat} \<and> sum_list (map shift_s as) = 0"

lemma judge_pool_ops:
  "\<exists>v since. gs_watch (judge_pool stat key now unix g) = watch_exec str (Contention v now since) (gs_watch g)"
  by (auto simp: judge_pool_def file_event_def Let_def case_prod_unfold)

lemma look_at_gate_ops:
  "\<exists>as. gs_watch (look_at_gate str key host beat now unix lock g) = fold (watch_exec str) as (gs_watch g) \<and>
     as \<in> {[], [Edge beat]} \<union> range (\<lambda>since. [Gate now since])"
proof -
  consider "gs_watch (look_at_gate str key host beat now unix lock g) = gs_watch g"
    | "gs_watch (look_at_gate str key host beat now unix lock g) = grant_start_gate_edge beat (gs_watch g)"
    | since where "gs_watch (look_at_gate str key host beat now unix lock g) =
        exempt_start_gate now (Fin since) (gs_watch g)"
    by (fastforce simp: look_at_gate_def file_event_def Let_def case_prod_unfold split: option.splits if_splits)
  then show ?thesis
  proof cases
    case 1
    then show ?thesis by (intro exI [of _ "[]"]) simp
  next
    case 2
    then show ?thesis by (intro exI [of _ "[Edge beat]"]) simp
  next
    case (3 since)
    then show ?thesis by (intro exI [of _ "[Gate now (Fin since)]"]) simp
  qed
qed

lemma take_look_ops:
  "\<exists>as. gs_watch (take_look str key host beat l g) = fold (watch_exec str) as (gs_watch g) \<and>
     look_ops beat (gl_now l) as"
proof -
  let ?g = "judge_pool (gl_stat l) key (gl_now l) (gl_unix l) g"
  obtain v since where c: "gs_watch ?g = watch_exec str (Contention v (gl_now l) since) (gs_watch g)"
    using judge_pool_ops by blast
  obtain as where as: "gs_watch (look_at_gate str key host beat (gl_now l) (gl_unix l) (gl_lock l) ?g) =
      fold (watch_exec str) as (gs_watch ?g)"
    "as \<in> {[], [Edge beat]} \<union> range (\<lambda>since. [Gate (gl_now l) since])" using look_at_gate_ops by blast
  have "gs_watch (take_look str key host beat l g) = fold (watch_exec str) [Contention v (gl_now l) since] (gs_watch g) \<or>
      gs_watch (take_look str key host beat l g) =
        fold (watch_exec str) (Contention v (gl_now l) since # as) (gs_watch g)"
    using c as by (auto simp: take_look_def credit_contention_def Let_def)
  moreover have "look_ops beat (gl_now l) [Contention v (gl_now l) since]"
    "look_ops beat (gl_now l) (Contention v (gl_now l) since # as)"
    using as(2) by (auto simp: look_ops_def)
  ultimately show ?thesis by blast
qed

text \<open>A live hold by the action itself is never credited: only the edge of a wait that ended with it is.\<close>

lemma own_hold_uncredited:
  assumes "own_hold key host holder" "gs_held_since g = None"
  shows "gs_watch (look_at_gate str key host beat now unix (Some holder) g) = gs_watch g"
  using assms by (simp add: look_at_gate_def Let_def)

text \<open>The gate's credit is never more than the seconds it was seen held, and one heartbeat an edge.\<close>

definition gate_paid :: "rat \<Rightarrow> gate_state \<Rightarrow> bool" where
  "gate_paid beat g \<longleftrightarrow>
     w_gate_s (gs_watch g) \<le>
       pr_gate_held_s (gs_probe g) + of_nat (pr_gate_edges (gs_probe g)) * beat"

lemma credit_of_since: "credit_of now (Fin since) w \<le> max 0 (now - since)"
  by (auto simp: credit_of_def credit_start_def split: pyfloat.splits)

lemma gate_paid_look:
  assumes "gate_paid beat g"
  shows "gate_paid beat (look_at_gate str key host beat now unix lock g)"
proof -
  note holders = note_gate_holder_holders(5,6) [OF prod.collapse [symmetric]]
  show ?thesis
  proof (cases "gs_held_since g")
    case None
    with assms show ?thesis
      by (auto simp: gate_paid_def look_at_gate_def file_event_def Let_def case_prod_unfold holders
          grant_start_gate_edge_def algebra_simps split: option.splits)
  next
    case (Some since)
    with assms credit_of_since [of now since "gs_watch g"] show ?thesis
      by (auto simp: gate_paid_def look_at_gate_def file_event_def Let_def case_prod_unfold holders
          exempt_start_gate_def credit_def grant_start_gate_edge_def algebra_simps split: option.splits)
  qed
qed

lemma gate_paid_take_look: "gate_paid beat g \<Longrightarrow> gate_paid beat (take_look str key host beat l g)"
proof -
  assume paid: "gate_paid beat g"
  have "gate_paid beat (judge_pool (gl_stat l) key (gl_now l) (gl_unix l) g)"
    using paid by (auto simp: gate_paid_def judge_pool_def file_event_def Let_def case_prod_unfold
        exempt_pool_contention_def credit_def)
  then show ?thesis
    using gate_paid_look by (auto simp: take_look_def credit_contention_def Let_def gate_paid_def)
qed

theorem gate_credit_accounted:
  assumes "w_gate_s w = 0"
  shows "gate_paid beat (fold (take_look str key host beat) looks
    (launch_gate w (launch_probe members await backlog priced stage stat started)))"
proof -
  have "gate_paid beat (launch_gate w (launch_probe members await backlog priced stage stat started))"
    using assms by (simp add: gate_paid_def launch_gate_def launch_probe_def)
  then show ?thesis
    by (induction looks rule: rev_induct) (simp_all add: gate_paid_take_look)
qed

section \<open>Activity\<close>

datatype activity_op =
    Observe rat rat int int "rat option"
  | Pause rat

fun activity_exec :: "activity_op \<Rightarrow> activity \<Rightarrow> activity" where
  "activity_exec (Observe now unix stdout stderr cpu) a = snd (observe now unix stdout stderr cpu a)"
| "activity_exec (Pause seconds) a = activity_shift seconds a"

text \<open>Nothing in a sequence happens before \<open>t\<close>, and no pause is negative.\<close>

fun not_before :: "rat \<Rightarrow> activity_op \<Rightarrow> bool" where
  "not_before t (Observe now _ _ _ _) = (t \<le> now)"
| "not_before t (Pause seconds) = (0 \<le> seconds)"

fun silent_op :: "activity_op \<Rightarrow> activity \<Rightarrow> bool" where
  "silent_op (Observe now unix stdout stderr cpu) a = (\<not> shows_activity stdout stderr cpu a)"
| "silent_op (Pause _) a = True"

fun pause_s :: "activity_op \<Rightarrow> rat" where
  "pause_s (Pause seconds) = seconds"
| "pause_s _ = 0"

lemma activity_exec_deadline:
  "activity_deadline (activity_exec (Observe now unix stdout stderr cpu) a) =
     (if shows_activity stdout stderr cpu a then now + ac_allowance_s a else activity_deadline a)"
  "activity_deadline (activity_exec (Pause seconds) a) = activity_deadline a + seconds"
  by (auto simp: observe_def activity_deadline_def activity_shift_def Let_def)

lemma activity_exec_allowance [simp]: "ac_allowance_s (activity_exec x a) = ac_allowance_s a"
  by (cases x) (auto simp: observe_def activity_shift_def Let_def)

lemma activity_deadline_grows:
  "\<forall>x \<in> set xs. not_before t x \<Longrightarrow> t + ac_allowance_s a \<le> activity_deadline a \<Longrightarrow>
   t + ac_allowance_s a \<le> activity_deadline (fold activity_exec xs a)"
proof (induction xs arbitrary: a)
  case (Cons x xs)
  have "t + ac_allowance_s a \<le> activity_deadline (activity_exec x a)"
    using Cons.prems by (cases x) (auto simp: activity_exec_deadline simp del: activity_exec.simps)
  then show ?case using Cons.IH [of "activity_exec x a"] Cons.prems(1) by simp
qed simp

lemma activity_deadline_silent:
  "all_along activity_exec silent_op xs a \<Longrightarrow>
   activity_deadline (fold activity_exec xs a) = activity_deadline a + sum_list (map pause_s xs)"
proof (induction xs arbitrary: a)
  case (Cons x xs)
  have "activity_deadline (activity_exec x a) = activity_deadline a + pause_s x"
    using Cons.prems by (cases x) (auto simp: activity_exec_deadline simp del: activity_exec.simps)
  with Cons show ?case by simp
qed simp

text \<open>
  An action without a policy is not ended within its allowance of any activity observed, and with none it is
  due exactly one allowance after the launch, the pauses of the worker's own I/O apart.
\<close>

theorem activity_ends_on_silence:
  assumes "shows_activity stdout stderr cpu (fold activity_exec xs (launch_activity allowance started))"
    and "\<forall>y \<in> set ys. not_before now y"
  shows "now + allowance \<le> activity_deadline
     (fold activity_exec (xs @ Observe now unix stdout stderr cpu # ys) (launch_activity allowance started))"
proof -
  have keep: "ac_allowance_s (fold activity_exec zs a) = ac_allowance_s a" for zs a
    by (induction zs arbitrary: a) simp_all
  have "ac_allowance_s (launch_activity allowance started) = allowance" by (simp add: launch_activity_def)
  then show ?thesis
    using activity_deadline_grows [OF assms(2), of "activity_exec (Observe now unix stdout stderr cpu)
        (fold activity_exec xs (launch_activity allowance started))"] assms(1)
    by (simp add: activity_exec_deadline keep del: activity_exec.simps)
qed

theorem activity_due_when_silent:
  assumes "all_along activity_exec silent_op xs (launch_activity allowance started)"
  shows "activity_deadline (fold activity_exec xs (launch_activity allowance started)) =
    started + allowance + sum_list (map pause_s xs)"
  using activity_deadline_silent [OF assms] by (simp add: activity_deadline_def launch_activity_def)

end
