(* ===== verification/Canonical_Json.thy ===== *)
theory Canonical_Json
  imports Progress_Watch
begin

text \<open>
  The bytes an identity is taken of (\<open>digest_primitives.py\<close>): \<open>_canonical_bytes\<close>, the JSON text with sorted
  keys, no blanks and no escapes beyond those JSON requires, in UTF-8, and \<open>canonical_sha256\<close> of it.
  Characters are code points below 256. SHA-256 and Python's \<open>repr\<close> of a finite float are parameters, \<open>sha\<close> and
  \<open>rep\<close>; a float is the number it stands for, so a negative zero is not told apart from zero.
\<close>

section \<open>Encoding\<close>

definition hex_digit :: "nat \<Rightarrow> char" where
  "hex_digit d = ''0123456789abcdef'' ! d"

text \<open>The escapes of \<open>json.dumps(..., ensure_ascii=False)\<close>.\<close>

definition json_escape :: "char \<Rightarrow> string" where
  "json_escape c =
     (let n = of_char c :: nat in
      if n = 34 then [CHR 0x5C, CHR 0x22]
      else if n = 92 then [CHR 0x5C, CHR 0x5C]
      else if n = 8 then [CHR 0x5C, CHR ''b'']
      else if n = 12 then [CHR 0x5C, CHR ''f'']
      else if n = 10 then [CHR 0x5C, CHR ''n'']
      else if n = 13 then [CHR 0x5C, CHR ''r'']
      else if n = 9 then [CHR 0x5C, CHR ''t'']
      else if n < 32 then CHR 0x5C # ''u00'' @ [hex_digit (n div 16), hex_digit (n mod 16)]
      else [c])"

definition json_string :: "string \<Rightarrow> string" where
  "json_string s = CHR 0x22 # concat (map json_escape s) @ [CHR 0x22]"

function json_text :: "(rat \<Rightarrow> string) \<Rightarrow> json \<Rightarrow> string" where
  "json_text rep JNull = ''null''"
| "json_text rep (JBool b) = (if b then ''true'' else ''false'')"
| "json_text rep (JInt n) = show_int n"
| "json_text rep (JFloat f) = (case f of Fin q \<Rightarrow> rep q | _ \<Rightarrow> [])"
| "json_text rep (JStr s) = json_string s"
| "json_text rep (JArr xs) = ''['' @ join (CHR '','') (map (json_text rep) xs) @ '']''"
| "json_text rep (JObj d) =
     ''{'' @ join (CHR '','') (map (\<lambda>kv. json_string (fst kv) @ '':'' @ json_text rep (snd kv)) d) @ ''}''"
  by pat_completeness auto
termination
  by (relation "measure (size \<circ> snd)")
    (auto simp del: json.size intro: size_elem_arr size_elem_obj)

text \<open>\<open>sort_keys=True\<close>, at every level.\<close>

function sorted_keys :: "json \<Rightarrow> json" where
  "sorted_keys JNull = JNull"
| "sorted_keys (JBool b) = JBool b"
| "sorted_keys (JInt n) = JInt n"
| "sorted_keys (JFloat f) = JFloat f"
| "sorted_keys (JStr s) = JStr s"
| "sorted_keys (JArr xs) = JArr (map sorted_keys xs)"
| "sorted_keys (JObj d) = JObj (sorted_items (map (\<lambda>kv. (fst kv, sorted_keys (snd kv))) d))"
  by pat_completeness auto
termination
  by (relation "measure size")
    (auto simp del: json.size intro: size_elem_arr size_elem_obj)

text \<open>\<open>allow_nan=False\<close> refuses any other float.\<close>

function finite_json :: "json \<Rightarrow> bool" where
  "finite_json (JFloat f) = finite_float f"
| "finite_json (JArr xs) = (\<forall>x \<in> set xs. finite_json x)"
| "finite_json (JObj d) = (\<forall>kv \<in> set d. finite_json (snd kv))"
| "finite_json JNull = True"
| "finite_json (JBool b) = True"
| "finite_json (JInt n) = True"
| "finite_json (JStr s) = True"
  by pat_completeness auto
termination
  by (relation "measure size")
    (auto simp del: json.size intro: size_elem_arr size_elem_obj)

definition utf8_char :: "char \<Rightarrow> string" where
  "utf8_char c =
     (let n = of_char c :: nat in
      if n < 128 then [c] else [char_of (192 + n div 64), char_of (128 + n mod 64)])"

definition utf8 :: "string \<Rightarrow> string" where
  "utf8 s = concat (map utf8_char s)"

text \<open>\<open>None\<close> is \<open>ActionContractError\<close>.\<close>

definition canonical_bytes :: "(rat \<Rightarrow> string) \<Rightarrow> json \<Rightarrow> string option" where
  "canonical_bytes rep v = (if finite_json v then Some (utf8 (json_text rep (sorted_keys v))) else None)"

definition canonical_sha256 :: "(string \<Rightarrow> string) \<Rightarrow> (rat \<Rightarrow> string) \<Rightarrow> json \<Rightarrow> string option" where
  "canonical_sha256 sha rep v = map_option sha (canonical_bytes rep v)"

text \<open>\<open>unique_json_object\<close>, the pairs hook of the strict decoder: the first repeated key is refused.\<close>

fun unique_from :: "obj \<Rightarrow> (string \<times> json) list \<Rightarrow> string + obj" where
  "unique_from result [] = Inr result"
| "unique_from result ((key, value) # pairs) =
     (if has_key key result then Inl key else unique_from (put key value result) pairs)"

definition unique_json_object :: "(string \<times> json) list \<Rightarrow> string + obj" where
  "unique_json_object pairs = unique_from [] pairs"

section \<open>Codes that need no separator\<close>

definition self_delimiting :: "('a \<Rightarrow> 'b list) \<Rightarrow> bool" where
  "self_delimiting f \<longleftrightarrow> (\<forall>a b r s. f a @ r = f b @ s \<longrightarrow> a = b \<and> r = s) \<and> (\<forall>a. f a \<noteq> [])"

lemma self_delimitingD: "self_delimiting f \<Longrightarrow> f a @ r = f b @ s \<Longrightarrow> a = b \<and> r = s"
  unfolding self_delimiting_def by blast

lemma self_delimiting_concat:
  assumes "self_delimiting f"
  shows "concat (map f xs) = concat (map f ys) \<Longrightarrow> xs = ys"
proof (induction xs arbitrary: ys)
  case Nil
  then show ?case using assms by (cases ys) (auto simp: self_delimiting_def)
next
  case (Cons x xs)
  then show ?case
    using assms self_delimitingD [OF assms] by (cases ys) (auto simp: self_delimiting_def)
qed

lemma self_delimiting_inverse:
  assumes "\<And>a r. dec (f a @ r) = Some (a, r)" "dec [] = None"
  shows "self_delimiting f"
proof -
  have "a = b \<and> r = s" if "f a @ r = f b @ s" for a b r s
  proof -
    have "Some (a, r) = dec (f a @ r)" by (rule assms(1) [symmetric])
    also have "\<dots> = dec (f b @ s)" using that by (rule arg_cong)
    also have "\<dots> = Some (b, s)" by (rule assms(1))
    finally show ?thesis by simp
  qed
  moreover have "f a \<noteq> []" for a using assms(1) [of a "[]"] assms(2) by auto
  ultimately show ?thesis by (simp add: self_delimiting_def)
qed

lemma of_char_byte: "(of_char c :: nat) < 256"
  by (metis of_char_mod_256 mod_less_divisor zero_less_numeral)

fun utf8_next :: "string \<Rightarrow> (char \<times> string) option" where
  "utf8_next [] = None"
| "utf8_next (a # r) =
     (if (of_char a :: nat) < 128 then Some (a, r)
      else (case r of [] \<Rightarrow> None
            | b # s \<Rightarrow> Some (char_of (64 * (of_char a - 192) + (of_char b - 128 :: nat)), s)))"

lemma utf8_char_delimiting: "self_delimiting utf8_char"
proof (rule self_delimiting_inverse)
  fix c r
  have "of_char c div 64 < (4::nat)" using of_char_byte [of c] less_mult_imp_div_less [of "of_char c" 4 64] by simp
  then show "utf8_next (utf8_char c @ r) = Some (c, r)"
    by (simp add: utf8_char_def Let_def)
qed simp

lemma utf8_inj: "utf8 s = utf8 t \<Longrightarrow> s = t"
  unfolding utf8_def by (rule self_delimiting_concat [OF utf8_char_delimiting])

section \<open>Strings\<close>

definition hex_val :: "char \<Rightarrow> nat" where
  "hex_val c = (case map_of (zip ''0123456789abcdef'' [0, 1, 2, 3, 4, 5, 6, 7, 8, 9, 10, 11, 12, 13, 14, 15]) c of
     None \<Rightarrow> 0 | Some d \<Rightarrow> d)"

lemma hex_val_digit: "d < 16 \<Longrightarrow> hex_val (hex_digit d) = d"
proof -
  assume "d < 16"
  then have "d = 0 \<or> d = 1 \<or> d = 2 \<or> d = 3 \<or> d = 4 \<or> d = 5 \<or> d = 6 \<or> d = 7 \<or> d = 8 \<or> d = 9 \<or> d = 10 \<or>
      d = 11 \<or> d = 12 \<or> d = 13 \<or> d = 14 \<or> d = 15" by arith
  then show ?thesis by (elim disjE) (simp_all add: hex_val_def hex_digit_def)
qed

definition simple_escape :: "char \<Rightarrow> nat option" where
  "simple_escape c = map_of
     [(CHR 0x22, 34), (CHR 0x5C, 92), (CHR ''b'', 8), (CHR ''f'', 12), (CHR ''n'', 10), (CHR ''r'', 13), (CHR ''t'', 9)] c"

fun escape_next :: "string \<Rightarrow> (char \<times> string) option" where
  "escape_next [] = None"
| "escape_next (a # r) =
     (if a \<noteq> CHR 0x5C then Some (a, r)
      else (case r of
          e # s \<Rightarrow>
            (case simple_escape e of
               Some n \<Rightarrow> Some (char_of n, s)
             | None \<Rightarrow>
                 (case s of
                    _ # _ # h # l # t \<Rightarrow> Some (char_of (16 * hex_val h + hex_val l), t)
                  | _ \<Rightarrow> None))
        | [] \<Rightarrow> None))"

lemma char_of_code: "(of_char c :: nat) = n \<Longrightarrow> char_of n = c"
  by (metis char_of_char)

lemma json_escape_delimiting: "self_delimiting json_escape"
proof (rule self_delimiting_inverse)
  fix c r
  have hex: "16 * hex_val (hex_digit (n div 16)) + hex_val (hex_digit (n mod 16)) = n" if "n < 32" for n
    using that by (simp add: hex_val_digit)
  show "escape_next (json_escape c @ r) = Some (c, r)"
    using hex [of "of_char c"]
    by (auto simp: json_escape_def simple_escape_def Let_def char_of_code)
qed simp

lemma json_escape_head: "json_escape c @ r \<noteq> CHR 0x22 # s"
  by (auto simp: json_escape_def Let_def)

lemma json_string_body:
  "concat (map json_escape s) @ CHR 0x22 # r = concat (map json_escape t) @ CHR 0x22 # r' \<Longrightarrow> s = t \<and> r = r'"
proof (induction s arbitrary: t)
  case Nil
  then show ?case using json_escape_head by (cases t) (auto dest: sym)
next
  case (Cons c s)
  then obtain d u where t: "t = d # u"
    using json_escape_head by (cases t) auto
  with Cons.prems have "c = d \<and>
      concat (map json_escape s) @ CHR 0x22 # r = concat (map json_escape u) @ CHR 0x22 # r'"
    using self_delimitingD [OF json_escape_delimiting, of c _ d] by simp
  with Cons.IH t show ?case by blast
qed

lemma json_string_unique: "json_string s @ r = json_string t @ r' \<Longrightarrow> s = t \<and> r = r'"
  by (rule json_string_body) (simp add: json_string_def)

section \<open>Values\<close>

text \<open>
  What Python documents of \<open>repr\<close> of a finite float: it reads back as that float, it is a decimal numeral that
  starts with a digit or a minus sign, and it has a point or an exponent.
\<close>

definition number_chars :: "char set" where
  "number_chars = set ''0123456789-+.e''"

definition repr_ok :: "(rat \<Rightarrow> string) \<Rightarrow> bool" where
  "repr_ok rep \<longleftrightarrow> inj rep \<and>
     (\<forall>q. rep q \<noteq> [] \<and> hd (rep q) \<in> set ''-0123456789'' \<and> set (rep q) \<subseteq> number_chars \<and>
          \<not> set (rep q) \<subseteq> set ''-0123456789'')"

text \<open>Where a value's text may stop: at the end, or before a comma or a closing bracket.\<close>

fun stops :: "string \<Rightarrow> bool" where
  "stops [] = True"
| "stops (c # r) = (c \<in> set '',]}'')"

lemma show_int_chars: "set (show_int n) \<subseteq> set ''-0123456789''"
proof -
  have "set (show_nat k) \<subseteq> set ''-0123456789''" for k
    using show_nat_digits by (rule order_trans) auto
  then show ?thesis by (simp add: show_int_def)
qed

lemma show_int_nonempty [simp]: "show_int n \<noteq> []"
  by (simp add: show_int_def)

lemma show_nat_inj: "show_nat m = show_nat n \<Longrightarrow> m = n"
  by (metis option.inject py_nat_show_nat)

lemma show_int_inj: "show_int m = show_int n \<Longrightarrow> m = n"
proof -
  assume eq: "show_int m = show_int n"
  have minus: "CHR ''-'' \<notin> set (show_nat k)" for k using show_nat_digits [of k] by auto
  have head: "show_nat k \<noteq> CHR ''-'' # u" for k u using minus [of k] by auto
  consider "m < 0" "n < 0" | "0 \<le> m" "0 \<le> n" | "m < 0" "0 \<le> n" | "0 \<le> m" "n < 0" by linarith
  then show ?thesis
  proof cases
    case 1
    then show ?thesis using eq show_nat_inj [of "nat (- m)" "nat (- n)"] by (simp add: show_int_def)
  next
    case 2
    then show ?thesis using eq show_nat_inj [of "nat m" "nat n"] by (simp add: show_int_def)
  next
    case 3
    then show ?thesis using eq head [of "nat n" "show_nat (nat (- m))"] by (simp add: show_int_def)
  next
    case 4
    then show ?thesis using eq head [of "nat m" "show_nat (nat (- n))"] by (simp add: show_int_def)
  qed
qed

text \<open>A maximal run of number characters is read off unambiguously.\<close>

lemma number_prefix:
  assumes "a @ r = b @ s" "set a \<subseteq> number_chars" "set b \<subseteq> number_chars" "stops r" "stops s"
  shows "a = b \<and> r = s"
proof -
  have run: "takeWhile (\<lambda>c. c \<in> number_chars) (x @ t) = x" if "set x \<subseteq> number_chars" "stops t" for x t
    using that by (cases t) (auto simp: takeWhile_append2 subset_iff takeWhile_eq_all_conv number_chars_def)
  have "a = b" using run [OF assms(2,4)] run [OF assms(3,5)] assms(1) by metis
  then show ?thesis using assms(1) by simp
qed

definition starts :: "json \<Rightarrow> char set" where
  "starts v =
     (case v of
        JNull \<Rightarrow> {CHR ''n''} | JBool b \<Rightarrow> {if b then CHR ''t'' else CHR ''f''}
      | JInt _ \<Rightarrow> set ''-0123456789'' | JFloat _ \<Rightarrow> set ''-0123456789''
      | JStr _ \<Rightarrow> {CHR 0x22} | JArr _ \<Rightarrow> {CHR ''[''} | JObj _ \<Rightarrow> {CHR ''{''})"

lemma json_text_starts:
  assumes "repr_ok rep" "finite_json v"
  shows "json_text rep v \<noteq> [] \<and> hd (json_text rep v) \<in> starts v"
proof (cases v)
  case (JInt n)
  have "hd (show_int n) \<in> set ''-0123456789''"
    using show_int_chars [of n] by (rule subsetD) simp
  then show ?thesis by (simp add: JInt starts_def)
next
  case (JFloat f)
  then show ?thesis using assms by (cases f) (auto simp: repr_ok_def starts_def)
qed (simp_all add: starts_def json_string_def)

text \<open>Lists in brackets, for any elements that are themselves unambiguous.\<close>

lemma join_unique:
  assumes "\<And>x y r s. x \<in> set xs \<Longrightarrow> y \<in> set ys \<Longrightarrow> f x @ r = f y @ s \<Longrightarrow> stops r \<Longrightarrow> stops s \<Longrightarrow> x = y \<and> r = s"
    and "\<And>x r. x \<in> set xs \<union> set ys \<Longrightarrow> f x \<noteq> [] \<and> hd (f x) \<notin> set '',]}''"
    and "c \<in> set '']}''" "join (CHR '','') (map f xs) @ c # r = join (CHR '','') (map f ys) @ c # s"
  shows "xs = ys \<and> r = s"
  using assms
proof (induction xs arbitrary: ys)
  case Nil
  have "ys = []"
  proof (rule ccontr)
    assume "ys \<noteq> []"
    then obtain y zs where y: "ys = y # zs" by (cases ys) auto
    then have "hd (f y) = c" using Nil.prems(2) [of y] Nil.prems(4)
      by (cases zs; cases "f y") auto
    then show False using Nil.prems(2) [of y] Nil.prems(3) y by auto
  qed
  with Nil.prems show ?case by simp
next
  case (Cons x xs)
  obtain y zs where y: "ys = y # zs"
  proof (cases ys)
    case Nil
    then have "hd (f x) = c" using Cons.prems(2) [of x] Cons.prems(4) by (cases xs; cases "f x") auto
    then show ?thesis using Cons.prems(2) [of x] Cons.prems(3) by auto
  qed auto
  define tail where "tail = (\<lambda>us t. (if us = [] then [] else CHR '','' # join (CHR '','') (map f us)) @ c # t)"
  have unjoin: "join (CHR '','') (map f (u # us)) @ c # t = f u @ tail us t" for u us t
    by (cases us) (simp_all add: tail_def)
  have stop: "stops (tail us t)" for us t using Cons.prems(3) by (auto simp: tail_def)
  have "x = y \<and> tail xs r = tail zs s"
    using Cons.prems(1) [of x y "tail xs r" "tail zs s"] Cons.prems(4) stop by (simp add: y unjoin del: list.map)
  moreover have "xs = zs \<and> r = s" if t: "tail xs r = tail zs s"
  proof (cases "xs = [] \<or> zs = []")
    case True
    with t Cons.prems(3) show ?thesis by (auto simp: tail_def split: if_splits)
  next
    case False
    with t have "join (CHR '','') (map f xs) @ c # r = join (CHR '','') (map f zs) @ c # s"
      by (simp add: tail_def)
    with Cons.prems(1-3) show ?thesis by (intro Cons.IH) (auto simp: y)
  qed
  ultimately show ?case by (simp add: y)
qed

lemma finite_number:
  assumes "is_number v" "finite_json v"
  obtains n where "v = JInt n" | q where "v = JFloat (Fin q)"
proof (cases v)
  case (JFloat f)
  with assms that show ?thesis by (cases f) auto
qed (use assms that in auto)

lemma number_text:
  assumes "repr_ok rep" "finite_json v" "is_number v"
  shows "set (json_text rep v) \<subseteq> number_chars"
proof -
  have "set (show_int n) \<subseteq> number_chars" for n
    using show_int_chars by (rule order_trans) (auto simp: number_chars_def)
  then show ?thesis
    using assms(1) by (cases rule: finite_number [OF assms(3,2)]) (simp_all add: repr_ok_def)
qed

lemma number_unique:
  assumes rep: "repr_ok rep" and fin: "finite_json v" "finite_json w" and num: "is_number v" "is_number w"
    and eq: "json_text rep v = json_text rep w"
  shows "v = w"
proof -
  have point: "rep q \<noteq> show_int n" for q n
    using rep show_int_chars [of n] unfolding repr_ok_def by metis
  have inj: "rep p = rep q \<longleftrightarrow> p = q" for p q
    using rep by (auto simp: repr_ok_def dest: injD)
  show ?thesis
    using eq point
    by (cases rule: finite_number [OF num(1) fin(1)]; cases rule: finite_number [OF num(2) fin(2)])
      (simp_all add: inj show_int_inj, metis)
qed

lemma starts_disjoint:
  "c \<in> starts v \<Longrightarrow> c \<in> starts w \<Longrightarrow>
   is_number v \<and> is_number w \<or> v = w \<or> (\<exists>s t. v = JStr s \<and> w = JStr t) \<or>
   (\<exists>xs ys. v = JArr xs \<and> w = JArr ys) \<or> (\<exists>d e. v = JObj d \<and> w = JObj e)"
  by (cases v; cases w) (auto simp: starts_def split: if_splits)

lemma same_start:
  assumes "repr_ok rep" "finite_json v" "finite_json w" "json_text rep v @ r = json_text rep w @ s"
  shows "\<exists>c. c \<in> starts v \<and> c \<in> starts w"
proof -
  have "hd (json_text rep v) = hd (json_text rep w)"
    using assms(4) json_text_starts [OF assms(1,2)] json_text_starts [OF assms(1,3)]
    by (metis hd_append2)
  then show ?thesis using json_text_starts [OF assms(1,2)] json_text_starts [OF assms(1,3)] by metis
qed

lemma scalar_unique:
  assumes rep: "repr_ok rep" and fin: "finite_json v" "finite_json w"
    and eq: "json_text rep v @ r = json_text rep w @ s" and stop: "stops r" "stops s"
    and scalar: "\<And>xs. v \<noteq> JArr xs" "\<And>d. v \<noteq> JObj d"
  shows "v = w \<and> r = s"
proof -
  obtain c where "c \<in> starts v" "c \<in> starts w" using same_start [OF rep fin eq] by blast
  then consider "is_number v" "is_number w" | "v = w" | a b where "v = JStr a" "w = JStr b"
    using starts_disjoint scalar by metis
  then show ?thesis
  proof cases
    case 1
    have "json_text rep v = json_text rep w \<and> r = s"
      using number_prefix [OF eq number_text [OF rep fin(1) 1(1)] number_text [OF rep fin(2) 1(2)] stop] .
    with number_unique [OF rep fin 1] show ?thesis by blast
  next
    case 2
    with eq show ?thesis by simp
  next
    case 3
    with eq json_string_unique [of a r b s] show ?thesis by simp
  qed
qed

lemma starts_open: "c \<in> starts v \<Longrightarrow> c \<notin> set '',]}''"
  by (cases v) (auto simp: starts_def)

text \<open>The text of a value, up to where it may stop, is the text of no other.\<close>

lemma json_text_unique:
  assumes rep: "repr_ok rep"
  shows "finite_json v \<Longrightarrow> finite_json w \<Longrightarrow> json_text rep v @ r = json_text rep w @ s \<Longrightarrow> stops r \<Longrightarrow> stops s \<Longrightarrow>
    v = w \<and> r = s"
proof (induction v arbitrary: w r s rule: sorted_keys.induct)
  case (6 xs)
  note fin = "6.prems"(1,2)
  obtain ys where w: "w = JArr ys"
    using same_start [OF rep fin "6.prems"(3)] by (cases w) (auto simp: starts_def split: if_splits)
  have "xs = ys \<and> r = s"
  proof (rule join_unique [where f = "json_text rep" and c = "CHR '']''"])
    show "x = y \<and> r' = s'" if "x \<in> set xs" "y \<in> set ys" "json_text rep x @ r' = json_text rep y @ s'" "stops r'" "stops s'"
      for x y r' s' using that "6.IH" fin w by auto
    show "json_text rep x \<noteq> [] \<and> hd (json_text rep x) \<notin> set '',]}''" if "x \<in> set xs \<union> set ys" for x
      using json_text_starts [OF rep, of x] starts_open that fin w by auto
  qed (use "6.prems"(3) w in auto)
  then show ?case by (simp add: w)
next
  case (7 d)
  note fin = "7.prems"(1,2)
  let ?f = "\<lambda>kv. json_string (fst kv) @ '':'' @ json_text rep (snd kv)"
  obtain e where w: "w = JObj e"
    using same_start [OF rep fin "7.prems"(3)] by (cases w) (auto simp: starts_def split: if_splits)
  have "d = e \<and> r = s"
  proof (rule join_unique [where f = ?f and c = "CHR ''}''"])
    fix x y r' s'
    assume in_d: "x \<in> set d" "y \<in> set e" and eq: "?f x @ r' = ?f y @ s'" and stop: "stops r'" "stops s'"
    have "fst x = fst y \<and> json_text rep (snd x) @ r' = json_text rep (snd y) @ s'"
      using json_string_unique [of "fst x" "'':'' @ json_text rep (snd x) @ r'" "fst y"] eq by auto
    moreover have "finite_json (snd x)" "finite_json (snd y)" using in_d fin w by auto
    ultimately show "x = y \<and> r' = s'" using "7.IH" [OF in_d(1)] stop by (metis prod_eqI)
  qed (use "7.prems"(3) w in \<open>auto simp: json_string_def\<close>)
  then show ?case by (simp add: w)
qed (rule scalar_unique [OF rep]; simp)+

section \<open>What the bytes identify\<close>

text \<open>
  Sameness of values as JSON sees it: types told apart (an integer is not a float, a boolean is not an
  integer), the order of an object's keys immaterial. \<open>json_ok\<close> is what every Python dictionary and every
  strictly decoded document satisfies: no key twice.
\<close>

function same_json :: "json \<Rightarrow> json \<Rightarrow> bool" where
  "same_json v w =
     (case (v, w) of
        (JArr xs, JArr ys) \<Rightarrow> length xs = length ys \<and> (\<forall>(x, y) \<in> set (zip xs ys). same_json x y)
      | (JObj d, JObj e) \<Rightarrow>
          length d = length e \<and>
          (\<forall>kv \<in> set d. \<exists>lw \<in> set e. fst kv = fst lw \<and> same_json (snd kv) (snd lw))
      | _ \<Rightarrow> v = w)"
  by pat_completeness auto
termination
  by (relation "measure (size \<circ> fst)")
    (auto simp del: json.size intro: size_elem_arr [OF set_zip_leftD] size_elem_obj)

declare same_json.simps [simp del]

function json_ok :: "json \<Rightarrow> bool" where
  "json_ok v =
     (case v of
        JArr xs \<Rightarrow> (\<forall>x \<in> set xs. json_ok x)
      | JObj d \<Rightarrow> distinct (map fst d) \<and> (\<forall>kv \<in> set d. json_ok (snd kv))
      | _ \<Rightarrow> True)"
  by pat_completeness auto
termination
  by (relation "measure size") (auto simp del: json.size intro: size_elem_arr size_elem_obj)

declare json_ok.simps [simp del]

lemma json_ok_simps [simp]:
  "json_ok (JArr xs) \<longleftrightarrow> (\<forall>x \<in> set xs. json_ok x)"
  "json_ok (JObj d) \<longleftrightarrow> distinct (map fst d) \<and> (\<forall>kv \<in> set d. json_ok (snd kv))"
  by (subst json_ok.simps, simp)+

lemma sorted_items_eq_iff:
  fixes d e :: "(string, json) dict"
  assumes "distinct (map fst d)" "distinct (map fst e)"
  shows "sorted_items d = sorted_items e \<longleftrightarrow> set d = set e"
proof
  assume "sorted_items d = sorted_items e"
  then show "set d = set e" by (metis set_sorted_items)
next
  assume eq: "set d = set e"
  have "distinct d" "distinct e" using assms by (simp_all add: distinct_map)
  then have "mset d = mset (sorted_items e)"
    using eq by (simp add: set_eq_iff_mset_eq_distinct)
  moreover have "inj_on fst (set d)" using assms(1) by (simp add: distinct_map)
  ultimately show "sorted_items d = sorted_items e"
    unfolding sorted_items_def by (intro sort_key_inj_key_eq) simp_all
qed

lemma finite_sorted_keys [simp]: "finite_json (sorted_keys v) = finite_json v"
  by (induction v rule: sorted_keys.induct) auto

abbreviation sort_values :: "obj \<Rightarrow> obj" where
  "sort_values d \<equiv> map (\<lambda>kv. (fst kv, sorted_keys (snd kv))) d"

lemma sort_values_keys: "map fst (sort_values d) = map fst d"
  by (simp add: comp_def)

lemma same_pairs:
  assumes ok: "distinct (map fst d)" "distinct (map fst e)"
    and elem: "\<And>kv lw. kv \<in> set d \<Longrightarrow> lw \<in> set e \<Longrightarrow>
      sorted_keys (snd kv) = sorted_keys (snd lw) \<longleftrightarrow> same_json (snd kv) (snd lw)"
  shows "set (sort_values d) = set (sort_values e) \<longleftrightarrow> same_json (JObj d) (JObj e)"
proof -
  let ?g = "\<lambda>kv. (fst kv, sorted_keys (snd kv))"
  have "distinct (map fst (sort_values d))" "distinct (map fst (sort_values e))"
    using ok by (simp_all only: sort_values_keys)
  then have "distinct (sort_values d)" "distinct (sort_values e)"
    by (simp_all only: distinct_map [of fst])
  then have card: "card (set (sort_values d)) = length d" "card (set (sort_values e)) = length e"
    by (simp_all only: distinct_card length_map)
  have "set (sort_values d) \<subseteq> set (sort_values e) \<longleftrightarrow>
      (\<forall>kv \<in> set d. \<exists>lw \<in> set e. fst kv = fst lw \<and> same_json (snd kv) (snd lw))"
  proof -
    have "(fst kv, sorted_keys (snd kv)) \<in> set (sort_values e) \<longleftrightarrow>
        (\<exists>lw \<in> set e. fst kv = fst lw \<and> same_json (snd kv) (snd lw))" if "kv \<in> set d" for kv
      using elem [OF that] by (auto simp: image_iff)
    then show ?thesis by (simp add: image_subset_iff)
  qed
  moreover have "set (sort_values d) = set (sort_values e) \<longleftrightarrow>
      set (sort_values d) \<subseteq> set (sort_values e) \<and> length d = length e"
  proof -
    have "A = B \<longleftrightarrow> A \<subseteq> B \<and> card A = card B" if "finite B" for A B :: "(string \<times> json) set"
      using that card_subset_eq by blast
    from this [of "set (sort_values e)" "set (sort_values d)"] show ?thesis
      by (simp only: List.finite_set card simp_thms)
  qed
  moreover have "same_json (JObj d) (JObj e) \<longleftrightarrow>
      length d = length e \<and> (\<forall>kv \<in> set d. \<exists>lw \<in> set e. fst kv = fst lw \<and> same_json (snd kv) (snd lw))"
    by (subst same_json.simps) simp
  ultimately show ?thesis by blast
qed

lemma sorted_keys_same:
  "json_ok v \<Longrightarrow> json_ok w \<Longrightarrow> sorted_keys v = sorted_keys w \<longleftrightarrow> same_json v w"
proof (induction v arbitrary: w rule: sorted_keys.induct)
  case (6 xs)
  show ?case
  proof (cases w)
    case (JArr ys)
    have "map sorted_keys xs = map sorted_keys ys \<longleftrightarrow>
        length xs = length ys \<and> (\<forall>(x, y) \<in> set (zip xs ys). sorted_keys x = sorted_keys y)"
      by (auto simp: list_eq_iff_nth_eq set_zip) blast
    also have "\<dots> \<longleftrightarrow> length xs = length ys \<and> (\<forall>(x, y) \<in> set (zip xs ys). same_json x y)"
    proof -
      have "sorted_keys x = sorted_keys y \<longleftrightarrow> same_json x y" if "(x, y) \<in> set (zip xs ys)" for x y
      proof -
        have "x \<in> set xs" "y \<in> set ys" using that by (auto dest: set_zip_leftD set_zip_rightD)
        then show ?thesis using "6.IH" [of x y] "6.prems" JArr by simp
      qed
      then show ?thesis by blast
    qed
    finally show ?thesis by (subst same_json.simps) (simp add: JArr)
  qed (subst same_json.simps, simp)+
next
  case (7 d)
  show ?case
  proof (cases w)
    case (JObj e)
    have "sorted_items (sort_values d) = sorted_items (sort_values e) \<longleftrightarrow> set (sort_values d) = set (sort_values e)"
      using "7.prems" by (intro sorted_items_eq_iff) (simp_all only: sort_values_keys JObj json_ok_simps)
    also have "\<dots> \<longleftrightarrow> same_json (JObj d) (JObj e)"
      using "7.IH" "7.prems" by (intro same_pairs) (simp_all add: JObj)
    finally show ?thesis by (simp add: JObj)
  qed (subst same_json.simps, simp)+
qed (subst same_json.simps, case_tac w, simp_all)+

text \<open>
  C18: The bytes an identity is the hash of are the same exactly for the same value: key order never
  matters, and no difference in type, nesting, text or number is lost.
\<close>

theorem canonical_bytes_identify:
  assumes "repr_ok rep" "json_ok v" "json_ok w" "finite_json v" "finite_json w"
  shows "canonical_bytes rep v = canonical_bytes rep w \<longleftrightarrow> same_json v w"
proof -
  have "canonical_bytes rep v = canonical_bytes rep w \<longleftrightarrow>
      json_text rep (sorted_keys v) = json_text rep (sorted_keys w)"
    using assms(4,5) by (auto simp: canonical_bytes_def dest: utf8_inj)
  also have "\<dots> \<longleftrightarrow> sorted_keys v = sorted_keys w"
    using json_text_unique [OF assms(1), of "sorted_keys v" "sorted_keys w" "[]" "[]"] assms(4,5) by auto
  also have "\<dots> \<longleftrightarrow> same_json v w" using assms(2,3) by (rule sorted_keys_same)
  finally show ?thesis .
qed

text \<open>A spelling of floats as two numerals around a point, and two spellings of one action body.\<close>

definition sample_repr :: "rat \<Rightarrow> string" where
  "sample_repr q = show_int (fst (quotient_of q)) @ ''.'' @ show_int (snd (quotient_of q))"

lemma sample_repr_ok: "repr_ok sample_repr"
proof -
  have plain: "CHR ''.'' \<notin> set (show_int n)" for n using show_int_chars [of n] by auto
  have "inj sample_repr"
  proof (rule injI)
    fix p q assume "sample_repr p = sample_repr q"
    then have "split_on (CHR ''.'') (sample_repr p) = split_on (CHR ''.'') (sample_repr q)" by simp
    then have "quotient_of p = quotient_of q"
      using plain by (auto simp: sample_repr_def split_simps dest!: show_int_inj intro: prod_eqI)
    then show "p = q" by (metis quotient_of_inject_eq)
  qed
  moreover have "hd (show_int n) \<in> set ''-0123456789''" for n
    using show_int_chars [of n] by (rule subsetD) simp
  moreover have "set (show_int n) \<subseteq> number_chars" for n
    using show_int_chars [of n] by (rule order_trans) (auto simp: number_chars_def)
  ultimately show ?thesis
    by (auto simp: repr_ok_def sample_repr_def number_chars_def subset_iff)
qed

abbreviation sample_body :: "json list \<Rightarrow> json" where
  "sample_body inputs \<equiv> JObj [(''params'', JObj [(''n'', JInt 1), (''f'', JFloat (Fin 1))]), (''inputs'', JArr inputs)]"

theorem canonical_bytes_identify_witness:
  "canonical_bytes sample_repr (sample_body [JStr ''a'']) =
   canonical_bytes sample_repr (JObj [(''inputs'', JArr [JStr ''a'']),
     (''params'', JObj [(''f'', JFloat (Fin 1)), (''n'', JInt 1)])]) \<and>
   canonical_bytes sample_repr (sample_body [JInt 1]) \<noteq> canonical_bytes sample_repr (sample_body [JFloat (Fin 1)])"
  by (simp add: canonical_bytes_identify [OF sample_repr_ok] same_json.simps json_ok.simps)

section \<open>Strict objects\<close>

text \<open>The pairs hook answers with the pairs themselves, in their order, exactly when no key repeats.\<close>

lemma unique_from_Inr:
  "unique_from result pairs = Inr d \<Longrightarrow>
   d = result @ pairs \<and> distinct (map fst pairs) \<and> fst ` set result \<inter> fst ` set pairs = {}"
proof (induction result pairs rule: unique_from.induct)
  case (2 result key v pairs)
  have absent: "key \<notin> fst ` set result"
    using "2.prems" by (auto simp: has_key_def map_of_eq_None_iff split: if_splits)
  then have "put key v result = result @ [(key, v)]"
    unfolding put_def by (induction result) auto
  with "2.IH" "2.prems" absent show ?case by (auto split: if_splits)
qed simp

lemma unique_from_repeats:
  "unique_from result pairs = Inl k \<Longrightarrow> k \<in> fst ` set pairs"
  by (induction result pairs rule: unique_from.induct) (auto split: if_splits)

lemma unique_json_object_exact:
  "unique_json_object pairs = Inr d \<longleftrightarrow> d = pairs \<and> distinct (map fst pairs)"
proof -
  have "unique_from result pairs = Inr (result @ pairs)"
    if "distinct (map fst pairs)" "fst ` set result \<inter> fst ` set pairs = {}" for result
    using that
  proof (induction pairs arbitrary: result)
    case (Cons p pairs)
    obtain key v where p: "p = (key, v)" by (cases p)
    have "key \<notin> fst ` set result" using Cons.prems p by auto
    moreover from this have "put key v result = result @ [(key, v)]"
      unfolding put_def by (induction result) auto
    ultimately show ?case
      using Cons p by (auto simp: has_key_def map_of_eq_None_iff image_iff)
  qed simp
  from this [of "[]"] show ?thesis using unique_from_Inr [of "[]" pairs d] by (auto simp: unique_json_object_def)
qed

end
