(* ===== verification/Spec2Isabelle.thy ===== *)
theory Spec2Isabelle
  imports Ledger_Machine Ledger_Transfer Ledger_Census Window_Credit Endings Gpu_Facts
    Drain_Policy Drain_Observe Candidate_Policy Gang_Records Gang Gang_Life Gang_Claim Joint_Need Lifecycle_Finish
    Contention_Probe Canonical_Json
begin

text \<open>
  PrismaBuild runs build and test actions on a small fleet of boxes. A pool is a directory tree on a
  shared file system: submitters publish queue items, workers on each box claim them, run them and
  file one terminal record, and waiters poll for that record. No server orders these processes; what
  keeps them apart is the resource ledger of each box and tier, the records they leave and the policies
  every worker applies to the same records. This development models the parts of
  \<open>src/src/prismabuild/\<close> that decide: who gets capacity, who is held back and for how long, and how an
  action ended.

  \<^bold>\<open>The parts and how they meet.\<close> A worker scans the published rows. For each row the candidate policy
  (\<open>candidate_policy.py\<close>) decides whether it may be tried at all, given the rooms kept for earlier rows
  and the GPU sample; the row is then admitted by the ledger (\<open>ResourceLedger\<close> of \<open>pool.py\<close>), which
  moves one file per token. A refusal is classified by the drain policy (\<open>drain_policy.py\<close>), which reads
  the ledger's holders and says whether the rows behind must wait; the clocks it writes are read by the
  next pass. The tier ledgers behind staged inputs are funded by the window credit rules
  (\<open>window_credit.py\<close>). A worker that has run its action archives the attempt and concludes the claim
  (\<open>lifecycle.py\<close>): the claim is moved aside, its lease and tokens are given up, and its next home is
  published; a sweep recovers what a dead process left. While the action runs, its worker decides from the
  action's reports, and from evidence it reads itself, whether the action still advances (\<open>ProgressWatch\<close>). The ended action's record is resolved against its siblings
  (\<open>endings.py\<close>), and a waiter is answered from that (\<open>action_wait.py\<close>). Rows that declare a gang
  (\<open>_gang.py\<close>) are admitted together or not at all: their claims pass through the gang's records first.

  \<^bold>\<open>Theories and sources.\<close>
  \<^item> \<open>Prelude\<close>: results that may raise, Python's string and dictionary operations, shared list and
    multiset lemmas. \<open>Json\<close>: JSON values, binary64 numbers, \<open>dict.get\<close>, \<open>==\<close> and \<open>float()\<close>.
  \<^item> \<open>Token_Names\<close>: token names and acquisition handles (\<open>pool.py\<close>, \<open>holder_census.py\<close>), with the
    round trip of a handle.
  \<^item> \<open>Ledger_State\<close>: the directories of one ledger as a record, the rename, unlink and listing
    primitives with their faults, and the custody invariant. \<open>Ledger_Moves\<close>, \<open>Ledger_Acquire\<close>,
    \<open>Ledger_Mint\<close>: every mutator of \<open>ResourceLedger\<close>. The locales \<open>conserving\<close> and \<open>held_only\<close> state
    what the movers share and are interpreted on each of them.
  \<^item> \<open>Ledger_Machine\<close>: the mutators as an inductive step relation; reachable states never hold more
    tokens of a kind than was ever declared, and a destroyed token never returns.
    \<open>Ledger_Transfer\<close>: the three transfers. \<open>Ledger_Census\<close>: the readers.
  \<^item> \<open>Window_Credit\<close>: the newcomer gate, the claim order, the relief clock and the victim of a stuck
    order. \<open>Max_Flow\<close>: the augmenting-path loop of \<open>joint_need_gib\<close> over its residual dictionaries, which
    ends with a flow and a cut of the same value (locale \<open>network\<close>). \<open>Joint_Need\<close>: the merged reader groups and
    the network the code builds from them (locale \<open>two_layer\<close>, interpreted on it), and that the answer is the
    largest total the windows can hold of the ranges they share.
  \<^item> \<open>Endings\<close>: capture and resolution of terminal records, the preemption successor, the exact-run
    resolution as a request loop, the waiter poll and the transition an attempt log permits.
  \<^item> \<open>Gpu_Facts\<close>: the readers of a published GPU sample (\<open>gpu_sample_facts.py\<close>) and the idle power-cap
    exception (\<open>adaptive_gpu.py\<close>).
  \<^item> \<open>Drain_Policy\<close>, \<open>Drain_Observe\<close>: the staged drain assessment, the observation of the ledger that
    feeds it (\<open>_observe_drain\<close>, \<open>_holder_bound\<close>) and the clocks it files (\<open>_record_pass\<close>).
  \<^item> \<open>Candidate_Policy\<close>: denials, the scan order, kept rooms, counted refusals, unified memory.
  \<^item> \<open>Gang_Records\<close>: declarations, the files under \<open>gangs/\<close> and the immutable group record.
    \<open>Gang\<close>: elections and their rank, ready marks and sibling readiness, teardown, terminal marks, backfill,
    the start barrier of \<open>PoolQueue\<close> and the queue-wait deadline of \<open>gang_wait.py\<close>. \<open>Gang_Life\<close>: what
    every operation leaves standing (the locale \<open>keeps_gang\<close>, interpreted on each of them) and the gang as
    a step relation; that members commit together, that two gangs do not hold each other up, that a
    terminal reading must stand, and when barrier and deadline end a gang. \<open>Gang_Claim\<close>: the gang checks
    of one claim and the errors that leave them.
  \<^item> \<open>Lifecycle_Facts\<close>: claim identity (\<open>claim_identity.py\<close>), the classification of a capture and the legal
    destinations of \<open>lifecycle.py\<close>, the shape of a requeued item. \<open>Lifecycle_Commit\<close>: the files of one action key
    and the commit of a conclusion (\<open>_commit_claim\<close>, \<open>_publish_claim_destination\<close>, \<open>_entomb_claim\<close>,
    \<open>_publish_requeued_claim\<close>) as a machine that makes one file-system call per step. \<open>Lifecycle_Sweep\<close>: the
    recovery of a finish mark (\<open>_sweep_finish_tombstones\<close>, \<open>_retire_recorded_terminal\<close>) in the same form.
    \<open>Lifecycle_Machine\<close>: any number of such processes on one key, interleaved call by call with publication,
    claim and withdrawal; the locale \<open>custodian\<close> states what a call keeps and is interpreted on the commit, on
    the sweep and on their union. The newest submission is never lost, one generation is claimed at a time, and a
    conclusion is published by its owner. \<open>Lifecycle_Conclude\<close>: what one commit amounts to, and that a
    commit that dies after any call is undone or completed by the sweep.
  \<^item> \<open>Attempt_Archive\<close>: the immutable attempts of a publication (\<open>archive_attempt\<close>, \<open>attempt_outcomes\<close>,
    \<open>attempt_ending\<close> of \<open>pool.py\<close>); the writers' rule for a disposition is the readers'.
    \<open>Lifecycle_Finish\<close>: the worker's finish (\<open>_worker_finish\<close>), from the claim it reads to the plan it commits, and
    the two paths that write without the key's lock.
  \<^item> \<open>Progress_Policy\<close>: the limits a launch runs under (\<open>ExecutionBudget\<close>, \<open>DefaultStall\<close>, \<open>ProgressPolicy\<close> of
    \<open>pool.py\<close>) and the sealed policy \<open>core.validate_progress_policy\<close> admits, which is its own normal form.
    \<open>Progress_Watch\<close>: \<open>ProgressWatch\<close>, every operation with \<open>check_stall\<close> and the records it leaves.
    \<open>Progress_Bound\<close>: any sequence of those operations; the locale \<open>metered\<close> is the accounting argument, used
    for the seconds credited and for the stall deadline. Overlapping exemptions are credited once, an action that
    commits nothing is bounded by its phases' allowances, and a stall check ends exactly the stalled.
    \<open>Contention_Probe\<close>: \<open>PoolContentionProbe\<close> with the block-device arithmetic of \<open>storage_tiers.py\<close>, the credit
    taken on a heartbeat (\<open>credit_contention\<close>), which is a sequence of those operations, and \<open>ActivityWatch\<close>.
  \<^item> \<open>Canonical_Json\<close>: the bytes an identity is the hash of (\<open>digest_primitives.py\<close>). The text of a value can be
    read in one way only, so equal bytes mean the same value, whatever the order of the keys.
  \<^item> This theory: the candidate policy's kept rooms against the ledger's tokens.

  \<^bold>\<open>State and errors.\<close> A directory is a list of names whose order means nothing; a ledger call is one
  step, since every mutator runs under the ledger's mutation exclusion. What the file system does is an
  argument (\<open>io\<close>: which rename, unlink, read, create or write fails and how), and a theorem without a
  premise on it holds for every fault. A raise is a value of \<open>error\<close>. Records are JSON values as read, so
  malformed records are inputs like any other. A conclusion is not one step: \<open>advance\<close> makes its next call, so
  other processes act between any two, and a call fails or a process stops wherever the machine says so. The
  key's transition lock is part of that state. \<open>rewrite_claim\<close> of the machine rewrites the claimed record of the
  generation that is claimed; the one rewrite of the code that may come later than that, the pending record of a
  finish, is a step of its own in \<open>Lifecycle_Finish\<close> (\<open>pending_step\<close>), where it loses a submission.

  \<^bold>\<open>Termination.\<close> No fuel is used. The loops over directory listings recurse on the list. The search of
  \<open>Max_Flow\<close> is total by the number of unseen nodes and the length of the frontier; the loops that follow
  parent links and augment are \<open>partial_function (option)\<close>, and \<open>max_flow_ends\<close> shows that they return. The
  other loop that is not structural is the waiter's (\<open>fulfil\<close> of \<open>Endings\<close>, the
  \<open>while\<close> loop of \<open>outcome_poll\<close>): each round supplies one read that was still missing, and the measure is the
  number of missing reads. A commit and a sweep end because every call lowers the number of calls left
  (\<open>run\<close>, \<open>sweep_run\<close>). The start barrier, which waits for other processes, is a function of the list
  of its looks; the theorem bounds how many of them can be after its deadline.

  \<^bold>\<open>Numbers.\<close> Token counts and byte counts are integers. Wall-clock stamps the code only compares, adds
  and subtracts are exact rationals: the rounding of a binary64 sum is not modelled, its overflow is.
  \<open>float()\<close> on an integer rounds to 53 bits and overflows as CPython's does. \<open>float()\<close> and \<open>str()\<close> on
  other values are arguments (\<open>txt\<close>, \<open>str_of\<close>, \<open>str\<close>). Clock readings are arguments, one per place the code reads one.

  \<^bold>\<open>Not modelled.\<close> The lock file protocol below \<open>_guarded_mutation\<close> and the floor gate's own readings
  (\<open>filesystem_floor.py\<close>): their answers are arguments. The worker process, signals and child control, the loop around the watches of a
  launch and the evidence behind their wait verdicts. The
  queue scan of \<open>PoolQueue\<close>: publication, claim and withdrawal are single steps on the files of a key. Of
  conclusions: the expiry policy, the late finish of a scoped claim, deferral, quarantine, the recovery of ready
  captures and widowed leases; the notes a cancellation leaves for a gang; container cleanup, pins and the
  census of output intents, whose answers are arguments; tier tokens of a key are present or not. Of gangs: the
  resident-copy preference,
  the loan observer, the sweeps and the withdrawal of single members; the sibling states printed into a
  teardown's reason. Submission, the normal form of action bodies, the
  content store, residency plans, staging and produced outputs and the adaptive controllers: their
  verdicts enter as values where a modelled policy reads them. The command line tools only print.
\<close>

section \<open>A kept room stays in the ledger\<close>

lemma as_ints_get: "dict_get (as_ints d) k 0 = int (dict_get d k 0)"
  by (induction d) (auto simp: as_ints_def dict_get_def)

definition plain_names :: "name list \<Rightarrow> bool" where
  "plain_names ns \<longleftrightarrow> (\<forall>n \<in> set ns. CHR ''-'' \<notin> set (kind_of n))"

lemma available_free_of:
  assumes "\<not> free_err io" "plain_names (free l)" "CHR ''-'' \<notin> set k"
  shows "dict_get (as_ints (available io l)) k 0 = free_of k l"
proof -
  have "filter (matches_kind k) (free l) = filter (\<lambda>n. is_token n \<and> kind_of n = k) (free l)"
    using assms(2,3) by (intro filter_cong) (auto simp: plain_names_def matches_kind_iff)
  moreover have "length (filter (\<lambda>n. kind_of n = k) (free_tokens io l)) = count_kind k (free l)"
    using assms(1) by (simp add: free_tokens_def filter_sort count_kind_def conj_commute)
  ultimately show ?thesis
    by (simp add: as_ints_get available_def dict_get_tally free_of_def count_kind_def)
qed

lemma held_of_kind:
  assumes "plain_demand demand" "CHR ''-'' \<notin> set k"
    and exact: "\<forall>(k, v) \<in> set demand. 0 < v \<longrightarrow> int (length (filter (matches_kind k) ms)) = v"
    and all: "int (length ms) = sum_list (map snd (wanted_of demand))"
  shows "int (length (filter (matches_kind k) ms)) = max 0 (dict_get demand k 0)"
proof (cases "\<exists>v. (k, v) \<in> set demand \<and> 0 < v")
  case True
  then obtain v where v: "(k, v) \<in> set demand" "0 < v" by blast
  have "dict_get demand k 0 = v"
    using assms(1) v by (simp add: dict_get_def plain_demand_def)
  with v exact show ?thesis by auto
next
  case False
  let ?w = "wanted_of demand"
  have fresh: "k \<notin> fst ` set ?w" using False by (auto simp: wanted_of_def)
  have "sum_list (map (\<lambda>(k, v). length (filter (matches_kind k) ms)) ((k, 0) # ?w)) \<le> length ms"
    using plain_demand_wanted [OF assms(1)] fresh assms(2)
    by (intro sum_matching_le) auto
  moreover have "int (sum_list (map (\<lambda>(k, v). length (filter (matches_kind k) ms)) ws))
      = sum_list (map snd ws)"
    if "set ws \<subseteq> set ?w" for ws
    using that exact by (induction ws) (auto simp: wanted_of_def)
  then have "int (sum_list (map (\<lambda>(k, v). length (filter (matches_kind k) ms)) ?w)) = int (length ms)"
    unfolding all by simp
  ultimately have "length (filter (matches_kind k) ms) = 0" by simp
  moreover have "dict_get demand k 0 \<le> 0"
    using False by (auto simp: dict_get_def not_less split: option.splits dest!: map_of_SomeD)
  ultimately show ?thesis by simp
qed

text \<open>
  C33: What the scan keeps, the ledger keeps. When \<open>room_taken\<close> passes a demand against the
  rooms kept for earlier rows and the tokens are there, \<open>acquire\<close> succeeds, and every kept room that
  fitted the free tokens before still fits the free tokens afterwards: admitting a row behind a refused
  GPU row never takes the room that row is waiting for.
\<close>

theorem kept_room_survives_acquire:
  assumes "custody l" "plain_demand demand" "faultless io" "\<not> free_err io" "plain_names (free l)"
    and "holder_of (acquisition_handle c key) l = None" "holder_of key l = None"
      "acquisition_handle c key \<noteq> key" "\<forall>(k, v) \<in> set demand. 0 \<le> v \<and> v \<le> free_of k l"
    and "room_taken (as_ints (available io l)) rooms demand = None"
    and "\<forall>kept \<in> set rooms. \<forall>(k, v) \<in> set (kr_room kept). CHR ''-'' \<notin> set k"
  shows "\<exists>l'. acquire Gate_None True io c key demand l = (Inr True, l') \<and>
    (\<forall>kept \<in> set rooms. room_fits (as_ints (available io l)) (kr_room kept) \<longrightarrow>
       room_fits (as_ints (available io l')) (kr_room kept))"
proof -
  have fits: "\<forall>(k, v) \<in> set demand. v \<le> free_of k l" using assms(9) by auto
  from assms(1-3,6-8) fits obtain l' where acq: "acquire Gate_None True io c key demand l = (Inr True, l')"
    and exact: "\<forall>(k, v) \<in> set demand. 0 < v \<longrightarrow> int (length (filter (matches_kind k) (held_by key l'))) = v"
    and moved: "mset (free l') + mset (held_by key l') = mset (free l)"
    and "\<forall>k. k \<noteq> key \<longrightarrow> held_by k l' = held_by k l"
    and all: "int (length (held_by key l')) = sum_list (map snd (wanted_of demand))"
    by (rule acquire_admitted_total)
  have sub: "set (free l') \<subseteq> set (free l)"
    using moved by (metis mset_subset_eq_add_left set_mset_mono set_mset_mset)
  then have plain: "plain_names (free l')" using assms(5) by (auto simp: plain_names_def)
  have nonneg: "0 \<le> dict_get demand k 0" for k
    using assms(9) by (auto simp: dict_get_def split: option.splits dest!: map_of_SomeD)
  have left: "free_of k l' = free_of k l - dict_get demand k 0" if "CHR ''-'' \<notin> set k" for k
  proof -
    have "mset (filter (matches_kind k) (free l')) + mset (filter (matches_kind k) (held_by key l'))
        = mset (filter (matches_kind k) (free l))"
      using moved by (simp flip: filter_union_mset)
    then have "length (filter (matches_kind k) (free l')) + length (filter (matches_kind k) (held_by key l'))
        = length (filter (matches_kind k) (free l))"
      by (metis size_mset size_union)
    then show ?thesis
      using held_of_kind [OF assms(2) that exact all] nonneg [of k] by (simp add: free_of_def)
  qed
  have "room_fits (as_ints (available io l')) (kr_room kept)"
    if "kept \<in> set rooms" "room_fits (as_ints (available io l)) (kr_room kept)" for kept
  proof -
    have "need \<le> dict_get (as_ints (available io l')) kind 0" if "(kind, need) \<in> set (kr_room kept)" for kind need
    proof -
      have k: "CHR ''-'' \<notin> set kind" using assms(11) \<open>kept \<in> set rooms\<close> that by auto
      have "need \<le> dict_get (as_ints (available io l)) kind 0 - dict_get demand kind 0"
        using assms(10) \<open>kept \<in> set rooms\<close> \<open>room_fits _ _\<close> that unfolding room_taken_none by auto
      then show ?thesis
        using available_free_of [OF assms(4,5) k] available_free_of [OF assms(4) plain k] left [OF k] by simp
    qed
    then show ?thesis by (auto simp: room_fits_def list_all_iff)
  qed
  with acq show ?thesis by blast
qed

theorem kept_room_survives_acquire_witness:
  "\<exists>l'. acquire Gate_None True no_fault
      \<lparr>cl_usec = 1, cl_host = ''h'', cl_pid = 2, cl_nonce = ''00000000''\<rparr> ''k'' [(''cpu'', 1)]
      ((fresh_ledger False)\<lparr>free := [''cpu-0001'', ''cpu-0000'', ''gpu-0000'']\<rparr>) = (Inr True, l') \<and>
    room_fits (as_ints (available no_fault l')) [(''gpu'', 1), (''cpu'', 1)]"
proof -
  let ?l = "(fresh_ledger False)\<lparr>free := [''cpu-0001'', ''cpu-0000'', ''gpu-0000'']\<rparr>"
  let ?room = "\<lparr>kr_action_key = ''g'', kr_room = [(''gpu'', 1), (''cpu'', 1)], kr_reason = None, kr_binds_all = True\<rparr>"
  let ?c = "\<lparr>cl_usec = 1, cl_host = ''h'', cl_pid = 2, cl_nonce = ''00000000''\<rparr>"
  have plain: "plain_names (free ?l)" by (simp add: plain_names_def kind_of_def rsplit_head_def)
  have free: "free_of ''cpu'' ?l = 2" "free_of ''gpu'' ?l = 1" by (simp_all add: free_of_def matches_kind_def)
  have avail: "dict_get (as_ints (available no_fault ?l)) ''cpu'' 0 = 2"
    "dict_get (as_ints (available no_fault ?l)) ''gpu'' 0 = 1"
    using available_free_of [OF _ plain] free by (simp_all add: no_fault_def)
  have fits: "room_fits (as_ints (available no_fault ?l)) (kr_room ?room)"
    by (simp add: room_fits_def avail)
  have demand: "dict_get [(''cpu'', 1 :: int)] ''cpu'' 0 = 1" "dict_get [(''cpu'', 1 :: int)] ''gpu'' 0 = 0"
    by (simp_all add: dict_get_def)
  have passes: "room_taken (as_ints (available no_fault ?l)) [?room] [(''cpu'', 1)] = None"
    by (simp add: room_taken_none avail demand)
  have "custody ?l"
    by (auto simp: custody_def live_tokens_def held_names_def fresh_ledger_def)
  moreover have "plain_demand [(''cpu'', 1)]" by (simp add: plain_demand_def)
  moreover have "faultless no_fault" "\<not> free_err no_fault" by (simp_all add: no_fault_def faultless_def)
  moreover note plain
  moreover have "holder_of (acquisition_handle ?c ''k'') ?l = None" "holder_of ''k'' ?l = None"
    by (simp_all add: holder_of_def fresh_ledger_def)
  moreover have "acquisition_handle ?c ''k'' \<noteq> ''k''"
    by (simp add: acquisition_handle_def acquiring_prefix_def)
  moreover have "\<forall>(k, v) \<in> set [(''cpu'', 1)]. 0 \<le> v \<and> v \<le> free_of k ?l" using free by simp
  moreover note passes
  moreover have "\<forall>kept \<in> set [?room]. \<forall>(k, v) \<in> set (kr_room kept). CHR ''-'' \<notin> set k" by simp
  ultimately have "\<exists>l'. acquire Gate_None True no_fault ?c ''k'' [(''cpu'', 1)] ?l = (Inr True, l') \<and>
      (\<forall>kept \<in> set [?room]. room_fits (as_ints (available no_fault ?l)) (kr_room kept) \<longrightarrow>
         room_fits (as_ints (available no_fault l')) (kr_room kept))"
    by (rule kept_room_survives_acquire)
  with fits show ?thesis by auto
qed

end
